(* ===== verification/Kernel_Prelude.thy ===== *)
theory Kernel_Prelude
  imports Main "HOL-Library.Word" "HOL-Library.Monad_Syntax"
begin

text \<open>
  Shared vocabulary of the development: the machine integers of the i386 port of Pintos, the
  ASSERT macro, the rounding macros of \<^verbatim>\<open>lib/round.h\<close>, and the generic list and word lemmas the
  components share.

  A kernel routine that can stop the machine returns an option: \<^term>\<open>None\<close> is the kernel panic that
  a failed ASSERT or PANIC ends in (or an access the C standard leaves undefined, where the
  component says so), \<^term>\<open>Some x\<close> is a normal return. Routines are composed with the do-notation of
  the option monad.
\<close>

type_synonym u8 = "8 word"
type_synonym u16 = "16 word"
type_synonym u32 = "32 word"
type_synonym u64 = "64 word"

named_theorems kernel_simps \<open>unfolding rules for small kernel helpers\<close>
named_theorems bounds \<open>numeric bounds of model values\<close>

section \<open>Panics\<close>

definition ASSERT :: "bool \<Rightarrow> unit option" where
  "ASSERT c = (if c then Some () else None)"

lemma ASSERT_bind [simp]:
  "Option.bind (ASSERT c) f = (if c then f () else None)"
  by (simp add: ASSERT_def)

lemma ASSERT_simps [simp]:
  "ASSERT True = Some ()" "ASSERT False = None" "ASSERT c = None \<longleftrightarrow> \<not> c"
  by (simp_all add: ASSERT_def)

lemmas bind_Some_iff = Option.bind_eq_Some_conv

section \<open>Unsigned 32-bit quantities\<close>

text \<open>
  \<^verbatim>\<open>size_t\<close>, \<^verbatim>\<open>unsigned\<close> and pointers are 32 bits wide. Where a quantity stays below \<open>2 ^ 32\<close> it is
  kept as a natural number, and every sum that could exceed that is written with \<open>wrap32\<close>.
\<close>

definition wrap32 :: "nat \<Rightarrow> nat" where
  "wrap32 n = n mod 2 ^ 32"

lemma wrap32_id [simp]: "n < 4294967296 \<Longrightarrow> wrap32 n = n"
  by (simp add: wrap32_def)

lemma wrap32_bound [bounds, simp]: "wrap32 n < 4294967296"
  by (simp add: wrap32_def)

text \<open>The rounding macros, as they compute on unsigned 32-bit operands.\<close>

definition ROUND_UP :: "nat \<Rightarrow> nat \<Rightarrow> nat" where
  "ROUND_UP x step = wrap32 (x + step - 1) div step * step"

definition DIV_ROUND_UP :: "nat \<Rightarrow> nat \<Rightarrow> nat" where
  "DIV_ROUND_UP x step = wrap32 (x + step - 1) div step"

definition ROUND_DOWN :: "nat \<Rightarrow> nat \<Rightarrow> nat" where
  "ROUND_DOWN x step = x div step * step"

lemma DIV_ROUND_UP_ge:
  assumes "0 < step" and "x + step \<le> 4294967296"
  shows "x \<le> DIV_ROUND_UP x step * step"
proof -
  have "x + step - 1 < step * (1 + (x + step - 1) div step)"
    using assms by (simp add: dividend_less_times_div)
  then have "x \<le> (x + step - 1) div step * step"
    using assms by (simp add: algebra_simps)
  with assms show ?thesis by (simp add: DIV_ROUND_UP_def)
qed

lemma DIV_ROUND_UP_less:
  assumes "0 < step" and "0 < x" and "x + step \<le> 4294967296"
  shows "(DIV_ROUND_UP x step - 1) * step < x"
proof -
  have "(x + step - 1) div step * step \<le> x + step - 1"
    by (rule div_times_less_eq_dividend)
  then have "(x + step - 1) div step * step - step < x"
    using assms by linarith
  then show ?thesis
    using assms by (simp add: DIV_ROUND_UP_def diff_mult_distrib)
qed

section \<open>Byte strings\<close>

text \<open>Reading \<open>n\<close> bytes at an offset, and writing bytes over those at an offset.\<close>

definition file_bytes :: "u8 list \<Rightarrow> nat \<Rightarrow> nat \<Rightarrow> u8 list" where
  "file_bytes d n ofs = take n (drop ofs d)"

definition overlay :: "u8 list \<Rightarrow> nat \<Rightarrow> u8 list \<Rightarrow> u8 list" where
  "overlay d ofs b = take ofs d @ b @ drop (ofs + length b) d"

lemma length_overlay [simp]: "ofs + length b \<le> length d \<Longrightarrow> length (overlay d ofs b) = length d"
  by (simp add: overlay_def)

lemma nth_overlay:
  "ofs + length b \<le> length d \<Longrightarrow> i < length d \<Longrightarrow>
    overlay d ofs b ! i = (if ofs \<le> i \<and> i < ofs + length b then b ! (i - ofs) else d ! i)"
  by (simp add: overlay_def nth_append min_def) linarith

lemma file_bytes_overlay:
  "ofs + length b \<le> length d \<Longrightarrow> file_bytes (overlay d ofs b) (length b) ofs = b"
  by (simp add: file_bytes_def overlay_def)

text \<open>The bytes of a 32-bit word in memory order, and the word they stand for.\<close>

definition le32 :: "u32 \<Rightarrow> u8 list" where
  "le32 w = map (\<lambda>k. ucast (drop_bit (8 * k) w)) [0..<4]"

definition of_le32 :: "u8 list \<Rightarrow> u32" where
  "of_le32 b = horner_sum ucast 256 (take 4 b)"

section \<open>Word lemmas\<close>

lemma length_le32 [simp]: "length (le32 w) = 4"
  by (simp add: le32_def)

lemma four_digits:
  fixes n :: nat
  assumes "n < 4294967296"
  shows "n mod 256 + 256 * (n div 256 mod 256 + 256 * (n div 65536 mod 256 + 256 * (n div 16777216 mod 256))) = n"
proof -
  have "n div 65536 = n div 256 div 256" "n div 16777216 = n div 256 div 256 div 256"
    by (simp_all add: div_mult2_eq [symmetric])
  moreover have "n div 256 div 256 div 256 < 256" using assms by (simp add: div_mult2_eq [symmetric] less_mult_imp_div_less)
  ultimately show ?thesis using mult_div_mod_eq [of 256] by (metis add.commute mod_less)
qed

lemma of_le32_le32 [simp]: "of_le32 (le32 w @ b) = w"
proof -
  have "of_le32 (le32 w @ b) = ucast (ucast w :: u8) + 256 * (ucast (ucast (drop_bit 8 w) :: u8) +
      256 * (ucast (ucast (drop_bit 16 w) :: u8) + 256 * ucast (ucast (drop_bit 24 w) :: u8)))"
    by (simp add: of_le32_def le32_def upt_rec)
  also have "unat \<dots> = unat w"
  proof -
    have l: "unat w < 4294967296" using unsigned_less [where 'b = 32 and 'a = nat, of w] by simp
    then have "unat w div k < 4294967296" for k using div_le_dividend [of "unat w" k] by linarith
    with four_digits [OF l] l show ?thesis
      by (simp add: unat_word_ariths unsigned_ucast_eq unat_drop_bit_eq take_bit_eq_mod drop_bit_eq_div)
  qed
  finally show ?thesis by (simp add: word_unat_eq_iff)
qed

lemma unat_less_2p32 [bounds]: "unat (w :: u32) < 4294967296"
  using unsigned_less [of w] by simp

lemma nth_list_update_if:
  "i < length xs \<Longrightarrow> (xs[j := v]) ! i = (if i = j then v else xs ! i)"
  by (simp add: nth_list_update)

end
