(* ===== verification/Bitmap.thy ===== *)
theory Bitmap
  imports Kernel_Prelude
begin

text \<open>
  Bit maps, \<^verbatim>\<open>lib/kernel/bitmap.c\<close>: an array of 32-bit elements that simulates an array of bits.
  The page allocator, the swap table and the free-sector map are all built on it.
\<close>

unbundle bit_operations_syntax

section \<open>Data and operations\<close>

definition ELEM_BITS :: nat where
  "ELEM_BITS = 32"

definition BITMAP_ERROR :: nat where
  "BITMAP_ERROR = 4294967295"

record bitmap =
  bit_cnt :: nat
  bits :: "u32 list"

definition elem_idx :: "nat \<Rightarrow> nat" where
  "elem_idx bit_idx = bit_idx div ELEM_BITS"

definition bit_mask :: "nat \<Rightarrow> u32" where
  "bit_mask bit_idx = push_bit (bit_idx mod ELEM_BITS) 1"

definition elem_cnt :: "nat \<Rightarrow> nat" where
  "elem_cnt n = DIV_ROUND_UP n ELEM_BITS"

definition byte_cnt :: "nat \<Rightarrow> nat" where
  "byte_cnt n = wrap32 (4 * elem_cnt n)"

definition last_mask :: "bitmap \<Rightarrow> u32" where
  "last_mask b = (let last_bits = bit_cnt b mod ELEM_BITS
     in if last_bits \<noteq> 0 then push_bit last_bits 1 - 1 else - 1)"

definition bitmap_size :: "bitmap \<Rightarrow> nat" where
  "bitmap_size b = bit_cnt b"

text \<open>
  An access outside the array is undefined behaviour in C; it is \<^term>\<open>None\<close> here.
\<close>

definition bitmap_mark :: "bitmap \<Rightarrow> nat \<Rightarrow> bitmap option" where
  "bitmap_mark b bit_idx = (let idx = elem_idx bit_idx; mask = bit_mask bit_idx
     in if idx < length (bits b)
        then Some (b\<lparr>bits := (bits b)[idx := bits b ! idx OR mask]\<rparr>) else None)"

definition bitmap_reset :: "bitmap \<Rightarrow> nat \<Rightarrow> bitmap option" where
  "bitmap_reset b bit_idx = (let idx = elem_idx bit_idx; mask = bit_mask bit_idx
     in if idx < length (bits b)
        then Some (b\<lparr>bits := (bits b)[idx := bits b ! idx AND NOT mask]\<rparr>) else None)"

definition bitmap_flip :: "bitmap \<Rightarrow> nat \<Rightarrow> bitmap option" where
  "bitmap_flip b bit_idx = (let idx = elem_idx bit_idx; mask = bit_mask bit_idx
     in if idx < length (bits b)
        then Some (b\<lparr>bits := (bits b)[idx := bits b ! idx XOR mask]\<rparr>) else None)"

definition bitmap_set :: "bitmap \<Rightarrow> nat \<Rightarrow> bool \<Rightarrow> bitmap option" where
  "bitmap_set b idx v = do {
     ASSERT (idx < bit_cnt b);
     if v then bitmap_mark b idx else bitmap_reset b idx }"

definition bitmap_test :: "bitmap \<Rightarrow> nat \<Rightarrow> bool option" where
  "bitmap_test b idx = do {
     ASSERT (idx < bit_cnt b);
     if elem_idx idx < length (bits b)
     then Some (bits b ! elem_idx idx AND bit_mask idx \<noteq> 0) else None }"

function set_multiple_loop :: "bitmap \<Rightarrow> nat \<Rightarrow> nat \<Rightarrow> bool \<Rightarrow> nat \<Rightarrow> bitmap option" where
  "set_multiple_loop b start cnt v i =
     (if i < cnt
      then do { b' \<leftarrow> bitmap_set b (wrap32 (start + i)) v;
                set_multiple_loop b' start cnt v (Suc i) }
      else Some b)"
  by pat_completeness auto
termination
  by (relation "measure (\<lambda>(b, start, cnt, v, i). cnt - i)") auto

definition bitmap_set_multiple :: "bitmap \<Rightarrow> nat \<Rightarrow> nat \<Rightarrow> bool \<Rightarrow> bitmap option" where
  "bitmap_set_multiple b start cnt v = do {
     ASSERT (start \<le> bit_cnt b);
     ASSERT (wrap32 (start + cnt) \<le> bit_cnt b);
     set_multiple_loop b start cnt v 0 }"

definition bitmap_set_all :: "bitmap \<Rightarrow> bool \<Rightarrow> bitmap option" where
  "bitmap_set_all b v = bitmap_set_multiple b 0 (bitmap_size b) v"

text \<open>
  \<open>bitmap_create ok mem n\<close>: \<open>ok\<close> is whether the descriptor could be allocated, \<open>mem\<close> the block
  malloc returned for the bits with the contents it happens to have, \<^term>\<open>None\<close> for a null pointer.
  The result's outer option is the panic, the inner one the null pointer.
\<close>

definition bitmap_create :: "bool \<Rightarrow> u32 list option \<Rightarrow> nat \<Rightarrow> bitmap option option" where
  "bitmap_create ok mem n =
     (if \<not> ok then Some None
      else if mem \<noteq> None \<or> n = 0
      then do { b \<leftarrow> bitmap_set_all
                  \<lparr>bit_cnt = n, bits = (case mem of None \<Rightarrow> [] | Some ws \<Rightarrow> ws)\<rparr> False;
                Some (Some b) }
      else Some None)"

definition bitmap_buf_size :: "nat \<Rightarrow> nat" where
  "bitmap_buf_size n = wrap32 (8 + byte_cnt n)"

definition bitmap_create_in_buf :: "nat \<Rightarrow> u32 list \<Rightarrow> nat \<Rightarrow> bitmap option" where
  "bitmap_create_in_buf n block block_size = do {
     ASSERT (block_size \<ge> bitmap_buf_size n);
     bitmap_set_all \<lparr>bit_cnt = n, bits = block\<rparr> False }"

function count_loop :: "bitmap \<Rightarrow> nat \<Rightarrow> nat \<Rightarrow> bool \<Rightarrow> nat \<Rightarrow> nat \<Rightarrow> nat option" where
  "count_loop b start cnt v i value_cnt =
     (if i < cnt
      then do { t \<leftarrow> bitmap_test b (wrap32 (start + i));
                count_loop b start cnt v (Suc i) (if t = v then Suc value_cnt else value_cnt) }
      else Some value_cnt)"
  by pat_completeness auto
termination
  by (relation "measure (\<lambda>(b, start, cnt, v, i, c). cnt - i)") auto

definition bitmap_count :: "bitmap \<Rightarrow> nat \<Rightarrow> nat \<Rightarrow> bool \<Rightarrow> nat option" where
  "bitmap_count b start cnt v = do {
     ASSERT (start \<le> bit_cnt b);
     ASSERT (wrap32 (start + cnt) \<le> bit_cnt b);
     count_loop b start cnt v 0 0 }"

function contains_loop :: "bitmap \<Rightarrow> nat \<Rightarrow> nat \<Rightarrow> bool \<Rightarrow> nat \<Rightarrow> bool option" where
  "contains_loop b start cnt v i =
     (if i < cnt
      then do { t \<leftarrow> bitmap_test b (wrap32 (start + i));
                if t = v then Some True else contains_loop b start cnt v (Suc i) }
      else Some False)"
  by pat_completeness auto
termination
  by (relation "measure (\<lambda>(b, start, cnt, v, i). cnt - i)") auto

definition bitmap_contains :: "bitmap \<Rightarrow> nat \<Rightarrow> nat \<Rightarrow> bool \<Rightarrow> bool option" where
  "bitmap_contains b start cnt v = do {
     ASSERT (start \<le> bit_cnt b);
     ASSERT (wrap32 (start + cnt) \<le> bit_cnt b);
     contains_loop b start cnt v 0 }"

definition bitmap_any :: "bitmap \<Rightarrow> nat \<Rightarrow> nat \<Rightarrow> bool option" where
  "bitmap_any b start cnt = bitmap_contains b start cnt True"

definition bitmap_none :: "bitmap \<Rightarrow> nat \<Rightarrow> nat \<Rightarrow> bool option" where
  "bitmap_none b start cnt = map_option Not (bitmap_contains b start cnt True)"

definition bitmap_all :: "bitmap \<Rightarrow> nat \<Rightarrow> nat \<Rightarrow> bool option" where
  "bitmap_all b start cnt = map_option Not (bitmap_contains b start cnt False)"

text \<open>
  The index of the scan loop is a \<^verbatim>\<open>size_t\<close>. It cannot wrap: the loop leaves at the latest when
  \<open>i\<close> passes \<open>last\<close>, and \<open>last\<close> is \<open>2 ^ 32 - 1\<close> only for \<open>cnt = 0\<close>, where the first test succeeds.
\<close>

function scan_loop :: "bitmap \<Rightarrow> nat \<Rightarrow> bool \<Rightarrow> nat \<Rightarrow> nat \<Rightarrow> nat option" where
  "scan_loop b cnt v lst i =
     (if i \<le> lst
      then do { c \<leftarrow> bitmap_contains b i cnt (\<not> v);
                if \<not> c then Some i else scan_loop b cnt v lst (Suc i) }
      else Some BITMAP_ERROR)"
  by pat_completeness auto
termination
  by (relation "measure (\<lambda>(b, cnt, v, lst, i). Suc lst - i)") auto

definition bitmap_scan :: "bitmap \<Rightarrow> nat \<Rightarrow> nat \<Rightarrow> bool \<Rightarrow> nat option" where
  "bitmap_scan b start cnt v = do {
     ASSERT (start \<le> bit_cnt b);
     if cnt \<le> bit_cnt b then scan_loop b cnt v (bit_cnt b - cnt) start
     else Some BITMAP_ERROR }"

definition bitmap_scan_and_flip :: "bitmap \<Rightarrow> nat \<Rightarrow> nat \<Rightarrow> bool \<Rightarrow> (nat \<times> bitmap) option" where
  "bitmap_scan_and_flip b start cnt v = do {
     idx \<leftarrow> bitmap_scan b start cnt v;
     if idx \<noteq> BITMAP_ERROR
     then do { b' \<leftarrow> bitmap_set_multiple b idx cnt (\<not> v); Some (idx, b') }
     else Some (idx, b) }"

declare set_multiple_loop.simps [simp del] count_loop.simps [simp del]
  contains_loop.simps [simp del] scan_loop.simps [simp del]

definition bitmap_file_size :: "bitmap \<Rightarrow> nat" where
  "bitmap_file_size b = byte_cnt (bit_cnt b)"

section \<open>Invariant and abstraction\<close>

text \<open>
  \<open>bm_inv\<close>: the array is long enough for the bits, and the count is below the error value.
  \<open>bm_used\<close> is the set a map stands for: the indices of its set bits.
\<close>

definition bm_inv :: "bitmap \<Rightarrow> bool" where
  "bm_inv b \<longleftrightarrow> bit_cnt b \<le> 32 * length (bits b) \<and> bit_cnt b < BITMAP_ERROR"

definition bm_bit :: "bitmap \<Rightarrow> nat \<Rightarrow> bool" where
  "bm_bit b i = bit (bits b ! (i div 32)) (i mod 32)"

definition bm_used :: "bitmap \<Rightarrow> nat set" where
  "bm_used b = {i. i < bit_cnt b \<and> bm_bit b i}"

lemma bm_inv_word_index: "bm_inv b \<Longrightarrow> i < bit_cnt b \<Longrightarrow> i div 32 < length (bits b)"
  by (auto simp: bm_inv_def)

lemma bm_inv_bound: "bm_inv b \<Longrightarrow> bit_cnt b < 4294967295"
  by (simp add: bm_inv_def BITMAP_ERROR_def)

lemma and_bit_mask_iff: "(w AND bit_mask i \<noteq> 0) = bit w (i mod 32)"
  by (simp add: bit_mask_def ELEM_BITS_def bit_iff_and_push_bit_not_eq_0)

lemma bit_bit_mask: "bit (bit_mask i) n \<longleftrightarrow> n = i mod 32"
  by (auto simp: bit_mask_def ELEM_BITS_def bit_simps)

lemma bitmap_test_eq:
  "bm_inv b \<Longrightarrow> i < bit_cnt b \<Longrightarrow> bitmap_test b i = Some (bm_bit b i)"
  by (simp add: bitmap_test_def elem_idx_def ELEM_BITS_def bm_inv_word_index and_bit_mask_iff bm_bit_def)

lemma bitmap_set_spec:
  assumes "bm_inv b" and "i < bit_cnt b"
  shows "\<exists>b'. bitmap_set b i v = Some b' \<and> bm_inv b' \<and> bit_cnt b' = bit_cnt b \<and>
    bm_bit b' = (bm_bit b)(i := v)"
proof -
  have idx: "i div 32 < length (bits b)"
    using assms by (rule bm_inv_word_index)
  define w where "w = (if v then bits b ! (i div 32) OR bit_mask i
    else bits b ! (i div 32) AND NOT (bit_mask i))"
  have eq: "bitmap_set b i v = Some (b\<lparr>bits := (bits b)[i div 32 := w]\<rparr>)"
    using assms idx
    by (simp add: bitmap_set_def bitmap_mark_def bitmap_reset_def elem_idx_def ELEM_BITS_def w_def Let_def)
  have bit_w: "bit w (j mod 32) = (if j mod 32 = i mod 32 then v else bit (bits b ! (i div 32)) (j mod 32))" for j
    by (auto simp: w_def bit_simps bit_bit_mask)
  have "bm_bit (b\<lparr>bits := (bits b)[i div 32 := w]\<rparr>) j = ((bm_bit b)(i := v)) j" for j
  proof (cases "j div 32 = i div 32")
    case True
    then have "j = i \<longleftrightarrow> j mod 32 = i mod 32" by (metis mult_div_mod_eq)
    with True idx show ?thesis by (simp add: bm_bit_def bit_w)
  next
    case False
    then show ?thesis by (auto simp: bm_bit_def)
  qed
  with eq assms(1) show ?thesis by (auto simp: bm_inv_def)
qed

lemma set_multiple_loop_spec:
  assumes "bm_inv b" and "start + cnt \<le> bit_cnt b" and "i \<le> cnt"
  shows "\<exists>b'. set_multiple_loop b start cnt v i = Some b' \<and> bm_inv b' \<and> bit_cnt b' = bit_cnt b \<and>
    bm_bit b' = (\<lambda>j. if start + i \<le> j \<and> j < start + cnt then v else bm_bit b j)"
  using assms
proof (induction "cnt - i" arbitrary: b i)
  case 0
  then show ?case by (auto simp: set_multiple_loop.simps)
next
  case (Suc k)
  then have lt: "start + i < bit_cnt b" and w: "wrap32 (start + i) = start + i"
    using bm_inv_bound [OF Suc.prems(1)] by auto
  obtain b1 where b1: "bitmap_set b (start + i) v = Some b1" "bm_inv b1"
      "bit_cnt b1 = bit_cnt b" "bm_bit b1 = (bm_bit b)(start + i := v)"
    using bitmap_set_spec [OF Suc.prems(1) lt] by blast
  have "k = cnt - Suc i" "start + cnt \<le> bit_cnt b1" "Suc i \<le> cnt"
    using Suc b1 by auto
  from Suc.hyps(1) [OF this(1) b1(2) this(2,3)] obtain b2 where
    b2: "set_multiple_loop b1 start cnt v (Suc i) = Some b2" "bm_inv b2" "bit_cnt b2 = bit_cnt b"
      "bm_bit b2 = (\<lambda>j. if start + Suc i \<le> j \<and> j < start + cnt then v else bm_bit b1 j)"
    using b1(3) by auto
  have "set_multiple_loop b start cnt v i = Some b2"
    using Suc.hyps(2) by (subst set_multiple_loop.simps) (simp add: w b1 b2)
  moreover have "bm_bit b2 = (\<lambda>j. if start + i \<le> j \<and> j < start + cnt then v else bm_bit b j)"
    using Suc.hyps(2) by (auto simp: b2(4) b1(4) fun_eq_iff)
  ultimately show ?case using b2 by blast
qed

lemma bitmap_set_multiple_spec:
  assumes "bm_inv b" and "start + cnt \<le> bit_cnt b"
  shows "\<exists>b'. bitmap_set_multiple b start cnt v = Some b' \<and> bm_inv b' \<and> bit_cnt b' = bit_cnt b \<and>
    bm_bit b' = (\<lambda>j. if start \<le> j \<and> j < start + cnt then v else bm_bit b j)"
  using set_multiple_loop_spec [of b start cnt 0 v] bm_inv_bound [of b] assms
  by (auto simp: bitmap_set_multiple_def)


section \<open>Counting and searching\<close>

definition bm_run :: "bitmap \<Rightarrow> nat \<Rightarrow> nat \<Rightarrow> bool \<Rightarrow> bool" where
  "bm_run b start cnt v \<longleftrightarrow> (\<forall>j. start \<le> j \<and> j < start + cnt \<longrightarrow> bm_bit b j = v)"

lemma contains_loop_spec:
  assumes "bm_inv b" and "start + cnt \<le> bit_cnt b"
  shows "contains_loop b start cnt v i =
    Some (\<exists>j. start + i \<le> j \<and> j < start + cnt \<and> bm_bit b j = v)"
proof (induction "cnt - i" arbitrary: i)
  case 0
  then show ?case by (auto simp: contains_loop.simps)
next
  case (Suc k)
  then have lt: "start + i < bit_cnt b" and w: "wrap32 (start + i) = start + i"
    using assms bm_inv_bound [OF assms(1)] by auto
  have IH: "contains_loop b start cnt v (Suc i) =
      Some (\<exists>j. start + Suc i \<le> j \<and> j < start + cnt \<and> bm_bit b j = v)"
    using Suc by (intro Suc.hyps(1)) simp
  have "(\<exists>j. start + i \<le> j \<and> j < start + cnt \<and> bm_bit b j = v) \<longleftrightarrow>
      bm_bit b (start + i) = v \<or> (\<exists>j. start + Suc i \<le> j \<and> j < start + cnt \<and> bm_bit b j = v)"
  proof -
    have "start + i \<le> j \<longleftrightarrow> j = start + i \<or> start + Suc i \<le> j" for j by linarith
    moreover have "start + i < start + cnt" using Suc.hyps(2) by linarith
    ultimately show ?thesis by auto
  qed
  moreover have "i < cnt" using Suc.hyps(2) by linarith
  ultimately show ?case
    by (subst contains_loop.simps) (simp add: w bitmap_test_eq [OF assms(1) lt] IH)
qed

lemma bitmap_contains_eq:
  assumes "bm_inv b" and "start + cnt \<le> bit_cnt b"
  shows "bitmap_contains b start cnt v = Some (\<not> bm_run b start cnt (\<not> v))"
  using contains_loop_spec [OF assms, of v 0] bm_inv_bound [OF assms(1)] assms(2)
  by (auto simp: bitmap_contains_def bm_run_def)

lemma bitmap_all_eq:
  "bm_inv b \<Longrightarrow> start + cnt \<le> bit_cnt b \<Longrightarrow> bitmap_all b start cnt = Some (bm_run b start cnt True)"
  by (simp add: bitmap_all_def bitmap_contains_eq)

lemma scan_loop_found:
  assumes "bm_inv b" and "lst + cnt \<le> bit_cnt b" and "i \<le> k" and "k \<le> lst"
    and "bm_run b k cnt v" and "\<forall>j. i \<le> j \<and> j < k \<longrightarrow> \<not> bm_run b j cnt v"
  shows "scan_loop b cnt v lst i = Some k"
  using assms(3-)
proof (induction "k - i" arbitrary: i)
  case 0
  with assms show ?case
    by (subst scan_loop.simps) (simp add: bitmap_contains_eq)
next
  case (Suc d)
  then have "scan_loop b cnt v lst (Suc i) = Some k"
    by (intro Suc.hyps(1)) auto
  moreover have "\<not> bm_run b i cnt v"
    using Suc.prems Suc.hyps(2) by auto
  ultimately show ?case
    using assms Suc.prems by (subst scan_loop.simps) (simp add: bitmap_contains_eq)
qed

lemma scan_loop_none:
  assumes "bm_inv b" and "lst + cnt \<le> bit_cnt b"
    and "\<forall>j. i \<le> j \<and> j \<le> lst \<longrightarrow> \<not> bm_run b j cnt v"
  shows "scan_loop b cnt v lst i = Some BITMAP_ERROR"
  using assms(3)
proof (induction "Suc lst - i" arbitrary: i)
  case 0
  then show ?case by (subst scan_loop.simps) simp
next
  case (Suc d)
  then have "scan_loop b cnt v lst (Suc i) = Some BITMAP_ERROR"
    by (intro Suc.hyps(1)) auto
  moreover have "\<not> bm_run b i cnt v" and "i \<le> lst"
    using Suc by auto
  ultimately show ?case
    using assms by (subst scan_loop.simps) (simp add: bitmap_contains_eq)
qed

lemma bitmap_scan_cases:
  assumes "bm_inv b" and "start \<le> bit_cnt b"
  obtains (found) k where "bitmap_scan b start cnt v = Some k" "start \<le> k" "k + cnt \<le> bit_cnt b"
      "bm_run b k cnt v" "\<forall>j. start \<le> j \<and> j < k \<longrightarrow> \<not> bm_run b j cnt v" "k \<noteq> BITMAP_ERROR"
    | (none) "bitmap_scan b start cnt v = Some BITMAP_ERROR"
      "\<forall>j. start \<le> j \<and> j + cnt \<le> bit_cnt b \<longrightarrow> \<not> bm_run b j cnt v"
proof (cases "\<exists>k. start \<le> k \<and> k + cnt \<le> bit_cnt b \<and> bm_run b k cnt v")
  case True
  define k where "k = (LEAST k. start \<le> k \<and> k + cnt \<le> bit_cnt b \<and> bm_run b k cnt v)"
  have k: "start \<le> k" "k + cnt \<le> bit_cnt b" "bm_run b k cnt v"
    using LeastI_ex [OF True] unfolding k_def by auto
  have least: "\<not> bm_run b j cnt v" if "start \<le> j" "j < k" for j
    using not_less_Least [OF that(2) [unfolded k_def]] that k(2) by auto
  have "scan_loop b cnt v (bit_cnt b - cnt) start = Some k"
    by (rule scan_loop_found) (use assms k least in auto)
  then have "bitmap_scan b start cnt v = Some k"
    using assms k by (simp add: bitmap_scan_def)
  moreover have "k \<noteq> BITMAP_ERROR"
    using bm_inv_bound [OF assms(1)] k by (simp add: BITMAP_ERROR_def)
  ultimately show ?thesis using k least by (intro found) auto
next
  case False
  have "bitmap_scan b start cnt v = Some BITMAP_ERROR"
  proof (cases "cnt \<le> bit_cnt b")
    case True
    then have "scan_loop b cnt v (bit_cnt b - cnt) start = Some BITMAP_ERROR"
      using assms False by (intro scan_loop_none) auto
    with True assms show ?thesis by (simp add: bitmap_scan_def)
  qed (use assms in \<open>simp add: bitmap_scan_def\<close>)
  with False show ?thesis by (intro none) auto
qed


section \<open>The slot-allocator contract\<close>

text \<open>
  What the page allocator, the swap table and the free-sector map rely on when they keep a bit map
  of used slots: grabbing a run hands out slots nobody holds and marks exactly those, failing only
  when there is no such run; releasing a held run makes exactly those slots free again.
\<close>

locale slot_allocator =
  fixes inv :: "'s \<Rightarrow> bool"
    and used :: "'s \<Rightarrow> nat set"
    and cap :: "'s \<Rightarrow> nat"
    and grab :: "'s \<Rightarrow> nat \<Rightarrow> (nat option \<times> 's) option"
    and release :: "'s \<Rightarrow> nat \<Rightarrow> nat \<Rightarrow> 's option"
  assumes used_below: "inv s \<Longrightarrow> used s \<subseteq> {..<cap s}"
    and grab_returns: "inv s \<Longrightarrow> grab s n \<noteq> None"
    and grab_none: "inv s \<Longrightarrow> grab s n = Some (None, s') \<Longrightarrow>
      s' = s \<and> (\<forall>i. i + n \<le> cap s \<longrightarrow> {i..<i + n} \<inter> used s \<noteq> {})"
    and grab_some: "inv s \<Longrightarrow> grab s n = Some (Some i, s') \<Longrightarrow>
      inv s' \<and> cap s' = cap s \<and> i + n \<le> cap s \<and> {i..<i + n} \<inter> used s = {} \<and>
      used s' = used s \<union> {i..<i + n} \<and> (\<forall>j<i. {j..<j + n} \<inter> used s \<noteq> {})"
    and release_held: "inv s \<Longrightarrow> i + n \<le> cap s \<Longrightarrow> {i..<i + n} \<subseteq> used s \<Longrightarrow>
      \<exists>s'. release s i n = Some s' \<and> inv s' \<and> cap s' = cap s \<and> used s' = used s - {i..<i + n}"
begin

lemma grab_twice_disjoint:
  assumes "inv s" and "grab s n = Some (Some i, s1)" and "grab s1 m = Some (Some j, s2)"
  shows "{i..<i + n} \<inter> {j..<j + m} = {}" and "used s2 = used s \<union> {i..<i + n} \<union> {j..<j + m}"
proof -
  note g = grab_some [OF assms(1,2)]
  then have g2: "{j..<j + m} \<inter> used s1 = {}" "used s2 = used s1 \<union> {j..<j + m}"
    using grab_some [OF _ assms(3)] by blast+
  show "{i..<i + n} \<inter> {j..<j + m} = {}" using g g2 by blast
  show "used s2 = used s \<union> {i..<i + n} \<union> {j..<j + m}" using g g2 by blast
qed

lemma grab_succeeds_iff:
  assumes "inv s"
  shows "(\<exists>i s'. grab s n = Some (Some i, s')) \<longleftrightarrow>
    (\<exists>i. i + n \<le> cap s \<and> {i..<i + n} \<inter> used s = {})"
proof -
  obtain r s' where g: "grab s n = Some (r, s')"
    using grab_returns [OF assms, of n] by auto
  show ?thesis
  proof (cases r)
    case None
    with g grab_none [OF assms, of n s'] show ?thesis by auto
  next
    case (Some i)
    with g grab_some [OF assms, of n i s'] show ?thesis by auto
  qed
qed

lemma grab_release:
  assumes "inv s" and "grab s n = Some (Some i, s1)"
  shows "\<exists>s2. release s1 i n = Some s2 \<and> inv s2 \<and> cap s2 = cap s \<and> used s2 = used s"
proof -
  note g = grab_some [OF assms]
  have "{i..<i + n} \<subseteq> used s1" and "i + n \<le> cap s1" using g by auto
  with release_held [of s1 i n] g obtain s2 where
    "release s1 i n = Some s2" "inv s2" "cap s2 = cap s1" "used s2 = used s1 - {i..<i + n}" by blast
  moreover from this g have "used s2 = used s" by auto
  ultimately show ?thesis using g by auto
qed

end

definition bm_grab :: "bitmap \<Rightarrow> nat \<Rightarrow> (nat option \<times> bitmap) option" where
  "bm_grab b n = do {
     (i, b') \<leftarrow> bitmap_scan_and_flip b 0 n False;
     Some (if i = BITMAP_ERROR then None else Some i, b') }"

definition bm_release :: "bitmap \<Rightarrow> nat \<Rightarrow> nat \<Rightarrow> bitmap option" where
  "bm_release b i n = bitmap_set_multiple b i n False"

lemma bm_run_free_iff:
  "i + n \<le> bit_cnt b \<Longrightarrow> bm_run b i n False \<longleftrightarrow> {i..<i + n} \<inter> bm_used b = {}"
  by (auto simp: bm_run_def bm_used_def)

lemma bm_run_used_iff:
  "i + n \<le> bit_cnt b \<Longrightarrow> bm_run b i n True \<longleftrightarrow> {i..<i + n} \<subseteq> bm_used b"
  by (auto simp: bm_run_def bm_used_def)

lemma bitmap_set_multiple_used:
  assumes "bm_inv b" and "start + cnt \<le> bit_cnt b"
  shows "\<exists>b'. bitmap_set_multiple b start cnt v = Some b' \<and> bm_inv b' \<and> bit_cnt b' = bit_cnt b \<and>
    bm_used b' = (if v then bm_used b \<union> {start..<start + cnt} else bm_used b - {start..<start + cnt})"
proof -
  obtain b' where "bitmap_set_multiple b start cnt v = Some b'" "bm_inv b'" "bit_cnt b' = bit_cnt b"
    "bm_bit b' = (\<lambda>j. if start \<le> j \<and> j < start + cnt then v else bm_bit b j)"
    using bitmap_set_multiple_spec [OF assms] by blast
  with assms(2) show ?thesis by (auto simp: bm_used_def)
qed

lemma bm_grab_cases:
  assumes "bm_inv b"
  obtains (some) i b' where "bitmap_scan_and_flip b 0 n False = Some (i, b')" "i \<noteq> BITMAP_ERROR"
      "bm_inv b'" "bit_cnt b' = bit_cnt b" "i + n \<le> bit_cnt b" "{i..<i + n} \<inter> bm_used b = {}"
      "bm_used b' = bm_used b \<union> {i..<i + n}" "\<forall>j<i. {j..<j + n} \<inter> bm_used b \<noteq> {}"
    | (none) "bitmap_scan_and_flip b 0 n False = Some (BITMAP_ERROR, b)"
      "\<forall>i. i + n \<le> bit_cnt b \<longrightarrow> {i..<i + n} \<inter> bm_used b \<noteq> {}"
  using assms le0
proof (cases rule: bitmap_scan_cases [where cnt = n and v = False])
  case (found k)
  obtain b' where b': "bitmap_set_multiple b k n True = Some b'" "bm_inv b'" "bit_cnt b' = bit_cnt b"
    "bm_used b' = bm_used b \<union> {k..<k + n}"
    using bitmap_set_multiple_used [OF assms found(3), of True] by auto
  have "bitmap_scan_and_flip b 0 n False = Some (k, b')"
    using found(1,6) b'(1) by (simp add: bitmap_scan_and_flip_def)
  moreover have "\<forall>j<k. {j..<j + n} \<inter> bm_used b \<noteq> {}"
    using found(3,5) by (auto simp: bm_run_free_iff)
  ultimately show ?thesis
    using found b' by (intro some) (auto simp: bm_run_free_iff)
next
  case none
  then show ?thesis
    by (intro that(2)) (auto simp: bitmap_scan_and_flip_def bm_run_free_iff)
qed

interpretation bm: slot_allocator bm_inv bm_used bit_cnt bm_grab bm_release
proof
  fix b b' :: bitmap and n i :: nat
  assume inv: "bm_inv b"
  show "bm_used b \<subseteq> {..<bit_cnt b}" by (auto simp: bm_used_def)
  show "bm_grab b n \<noteq> None"
    using inv by (cases rule: bm_grab_cases [where n = n]) (auto simp: bm_grab_def)
  show "b' = b \<and> (\<forall>i. i + n \<le> bit_cnt b \<longrightarrow> {i..<i + n} \<inter> bm_used b \<noteq> {})"
    if "bm_grab b n = Some (None, b')"
    using inv that by (cases rule: bm_grab_cases [where n = n]) (auto simp: bm_grab_def)
  show "bm_inv b' \<and> bit_cnt b' = bit_cnt b \<and> i + n \<le> bit_cnt b \<and> {i..<i + n} \<inter> bm_used b = {} \<and>
      bm_used b' = bm_used b \<union> {i..<i + n} \<and> (\<forall>j<i. {j..<j + n} \<inter> bm_used b \<noteq> {})"
    if "bm_grab b n = Some (Some i, b')"
    using inv that by (cases rule: bm_grab_cases [where n = n]) (auto simp: bm_grab_def)
  show "\<exists>s'. bm_release b i n = Some s' \<and> bm_inv s' \<and> bit_cnt s' = bit_cnt b \<and>
      bm_used s' = bm_used b - {i..<i + n}"
    if "i + n \<le> bit_cnt b" "{i..<i + n} \<subseteq> bm_used b"
    using bitmap_set_multiple_used [OF inv that(1), of False] by (auto simp: bm_release_def)
qed


section \<open>Creation, counting, and the properties of the component\<close>

lemma bitmap_set_all_used:
  assumes "bm_inv b"
  shows "\<exists>b'. bitmap_set_all b v = Some b' \<and> bm_inv b' \<and> bit_cnt b' = bit_cnt b \<and>
    bm_used b' = (if v then {..<bit_cnt b} else {})"
proof -
  obtain b' where b': "bitmap_set_multiple b 0 (bit_cnt b) v = Some b'" "bm_inv b'"
      "bit_cnt b' = bit_cnt b"
      "bm_used b' = (if v then bm_used b \<union> {0..<0 + bit_cnt b} else bm_used b - {0..<0 + bit_cnt b})"
    using bitmap_set_multiple_used [of b 0 "bit_cnt b" v] assms by auto
  moreover have "bm_used b \<subseteq> {..<bit_cnt b}" by (auto simp: bm_used_def)
  ultimately have "bm_used b' = (if v then {..<bit_cnt b} else {})"
    by (auto simp: atLeast0LessThan)
  with b' show ?thesis by (auto simp: bitmap_set_all_def bitmap_size_def)
qed

lemma elem_cnt_enough: "n \<le> 4294967264 \<Longrightarrow> n \<le> 32 * elem_cnt n"
  using DIV_ROUND_UP_ge [of 32 n] by (simp add: elem_cnt_def ELEM_BITS_def mult.commute)

lemma count_loop_spec:
  assumes "bm_inv b" and "start + cnt \<le> bit_cnt b" and "i \<le> cnt"
  shows "count_loop b start cnt v i c =
    Some (c + card {j. start + i \<le> j \<and> j < start + cnt \<and> bm_bit b j = v})"
  using assms(3)
proof (induction "cnt - i" arbitrary: i c)
  case 0
  then show ?case by (auto simp: count_loop.simps)
next
  case (Suc k)
  let ?S = "\<lambda>i. {j. start + i \<le> j \<and> j < start + cnt \<and> bm_bit b j = v}"
  have lt: "start + i < bit_cnt b" and w: "wrap32 (start + i) = start + i" and i: "i < cnt"
    using Suc assms bm_inv_bound [OF assms(1)] by auto
  have IH: "count_loop b start cnt v (Suc i) d = Some (d + card (?S (Suc i)))" for d
    using Suc by (intro Suc.hyps(1)) auto
  have "?S i = (if bm_bit b (start + i) = v then insert (start + i) (?S (Suc i)) else ?S (Suc i))"
    using i by (auto simp: Suc_le_eq order.order_iff_strict)
  moreover have "finite (?S (Suc i))" by simp
  ultimately have "card (?S i) = (if bm_bit b (start + i) = v then 1 else 0) + card (?S (Suc i))"
    by simp
  then show ?case
    using i by (subst count_loop.simps) (simp add: w bitmap_test_eq [OF assms(1) lt] IH)
qed

text \<open>
  C22. \<open>bitmap_scan_and_flip\<close> returns the first group of \<open>cnt\<close> consecutive bits at or after \<open>start\<close>
  that all have the value asked for and flips exactly those bits, or reports BITMAP_ERROR and leaves
  the map alone when there is no such group; it never panics on a well-formed map.
\<close>

theorem bitmap_scan_and_flip_first_group:
  assumes "bm_inv b" and "start \<le> bit_cnt b"
  shows "\<exists>idx b'. bitmap_scan_and_flip b start cnt v = Some (idx, b') \<and>
    (if \<exists>k\<ge>start. k + cnt \<le> bit_cnt b \<and> bm_run b k cnt v
     then start \<le> idx \<and> idx + cnt \<le> bit_cnt b \<and> bm_run b idx cnt v \<and>
          (\<forall>j. start \<le> j \<and> j < idx \<longrightarrow> \<not> bm_run b j cnt v) \<and> bm_inv b' \<and> bit_cnt b' = bit_cnt b \<and>
          bm_bit b' = (\<lambda>j. if idx \<le> j \<and> j < idx + cnt then \<not> v else bm_bit b j)
     else idx = BITMAP_ERROR \<and> b' = b)"
  using assms
proof (cases rule: bitmap_scan_cases [where cnt = cnt and v = v])
  case (found k)
  obtain b' where b': "bitmap_set_multiple b k cnt (\<not> v) = Some b'" "bm_inv b'"
      "bit_cnt b' = bit_cnt b"
      "bm_bit b' = (\<lambda>j. if k \<le> j \<and> j < k + cnt then \<not> v else bm_bit b j)"
    using bitmap_set_multiple_spec [OF assms(1) found(3), of "\<not> v"] by blast
  then have "bitmap_scan_and_flip b start cnt v = Some (k, b')"
    using found by (simp add: bitmap_scan_and_flip_def)
  moreover have "\<exists>k\<ge>start. k + cnt \<le> bit_cnt b \<and> bm_run b k cnt v" using found by blast
  ultimately show ?thesis using found b' by (intro exI [of _ k] exI [of _ b']) simp
next
  case none
  then have "\<not> (\<exists>k\<ge>start. k + cnt \<le> bit_cnt b \<and> bm_run b k cnt v)" by blast
  moreover have "bitmap_scan_and_flip b start cnt v = Some (BITMAP_ERROR, b)"
    using none by (simp add: bitmap_scan_and_flip_def)
  ultimately show ?thesis by auto
qed

theorem bitmap_scan_and_flip_first_group_witness:
  "bm_inv \<lparr>bit_cnt = 8, bits = [0x13]\<rparr> \<and>
   (\<exists>idx b'. bitmap_scan_and_flip \<lparr>bit_cnt = 8, bits = [0x13]\<rparr> 1 2 False = Some (idx, b') \<and>
     \<not> bm_run \<lparr>bit_cnt = 8, bits = [0x13]\<rparr> 1 2 False)"
proof -
  let ?b = "\<lparr>bit_cnt = 8, bits = [0x13]\<rparr> :: bitmap"
  have inv: "bm_inv ?b" and st: "1 \<le> bit_cnt ?b"
    by (simp_all add: bm_inv_def BITMAP_ERROR_def)
  have "bm_bit ?b 1" by (simp add: bm_bit_def)
  then have "\<not> bm_run ?b 1 2 False" by (auto simp: bm_run_def)
  with bitmap_scan_and_flip_first_group [OF inv st, of 2 False] inv show ?thesis by blast
qed

text \<open>
  \<open>bitmap_create\<close> and \<open>bitmap_create_in_buf\<close> give a map of \<open>n\<close> clear bits whatever the fresh
  memory held; \<open>bitmap_create\<close> returns a null pointer exactly when an allocation it needs fails.
\<close>

lemma bitmap_create_all_clear:
  assumes "n < BITMAP_ERROR" and "n \<le> 32 * length mem" and "bitmap_buf_size n \<le> sz"
  shows "(\<exists>b. bitmap_create True (Some mem) n = Some (Some b) \<and> bm_inv b \<and> bit_cnt b = n \<and> bm_used b = {}) \<and>
    bitmap_create False m n = Some None \<and>
    (bitmap_create True None n = Some None \<longleftrightarrow> n \<noteq> 0) \<and>
    (\<exists>b. bitmap_create_in_buf n mem sz = Some b \<and> bm_inv b \<and> bit_cnt b = n \<and> bm_used b = {})"
proof -
  have "bm_inv \<lparr>bit_cnt = n, bits = mem\<rparr>" using assms by (simp add: bm_inv_def)
  from bitmap_set_all_used [OF this, of False]
  obtain b where "bitmap_set_all \<lparr>bit_cnt = n, bits = mem\<rparr> False = Some b" "bm_inv b"
    "bit_cnt b = n" "bm_used b = {}" by auto
  moreover have "bm_inv \<lparr>bit_cnt = 0, bits = []\<rparr>" by (simp add: bm_inv_def BITMAP_ERROR_def)
  from bitmap_set_all_used [OF this, of False]
  have "bitmap_create True None n = Some None \<longleftrightarrow> n \<noteq> 0"
    by (auto simp: bitmap_create_def)
  ultimately show ?thesis
    using assms(3) by (simp add: bitmap_create_def bitmap_create_in_buf_def)
qed

text \<open>
  \<open>bitmap_count\<close> returns the number of bits of the range that have the given value.
\<close>

lemma bitmap_count_card:
  assumes "bm_inv b" and "start + cnt \<le> bit_cnt b"
  shows "bitmap_count b start cnt v = Some (card {j. start \<le> j \<and> j < start + cnt \<and> bm_bit b j = v})"
  using count_loop_spec [OF assms, of 0 v 0] bm_inv_bound [OF assms(1)] assms(2)
  by (simp add: bitmap_count_def)

text \<open>
  Asked for a group of zero bits, \<open>bitmap_scan_and_flip\<close> returns the start index it was given and
  flips nothing. The comment above the function says it returns 0.
\<close>

lemma bitmap_scan_and_flip_zero:
  assumes "bm_inv b" and "start \<le> bit_cnt b"
  shows "bitmap_scan_and_flip b start 0 v = Some (start, b)"
proof -
  have "bitmap_contains b start 0 (\<not> v) = Some False"
    using bitmap_contains_eq [of b start 0 "\<not> v"] assms by (simp add: bm_run_def)
  then have "bitmap_scan b start 0 v = Some start"
    using assms by (simp add: bitmap_scan_def scan_loop.simps)
  moreover have "bitmap_set_multiple b start 0 (\<not> v) = Some b"
    using assms bm_inv_bound [OF assms(1)] by (simp add: bitmap_set_multiple_def set_multiple_loop.simps)
  ultimately show ?thesis
    using assms bm_inv_bound [OF assms(1)] by (simp add: bitmap_scan_and_flip_def)
qed

end
