(* ===== verification/Arith64.thy ===== *)
theory Arith64
  imports Kernel_Prelude
begin

text \<open>
  64-bit division for a 32-bit machine, \<^verbatim>\<open>lib/arithmetic.c\<close>: the routines GCC calls for
  \<^verbatim>\<open>long long\<close> division and remainder. \<^term>\<open>None\<close> is the divide-error trap of the x86 DIVL
  instruction (divisor zero, or a quotient that does not fit in 32 bits).
\<close>

unbundle bit_operations_syntax

section \<open>Operations\<close>

definition divl :: "u64 \<Rightarrow> u32 \<Rightarrow> u32 option" where
  "divl n d = (if d = 0 \<or> unat n div unat d \<ge> 2 ^ 32 then None
     else Some (word_of_nat (unat n div unat d)))"

definition nlz :: "u32 \<Rightarrow> nat" where
  "nlz x0 =
     (let n = 0; x = x0;
          (n, x) = (if x \<le> 0x0000FFFF then (n + 16, push_bit 16 x) else (n, x));
          (n, x) = (if x \<le> 0x00FFFFFF then (n + 8, push_bit 8 x) else (n, x));
          (n, x) = (if x \<le> 0x0FFFFFFF then (n + 4, push_bit 4 x) else (n, x));
          (n, x) = (if x \<le> 0x3FFFFFFF then (n + 2, push_bit 2 x) else (n, x))
      in if x \<le> 0x7FFFFFFF then n + 1 else n)"

definition udiv64 :: "u64 \<Rightarrow> u64 \<Rightarrow> u64 option" where
  "udiv64 n d =
     (if drop_bit 32 d = 0
      then let b = push_bit 32 1 :: u64;
               n1 = ucast (drop_bit 32 n) :: u32;
               n0 = ucast n :: u32;
               d0 = ucast d :: u32
           in if d0 = 0 then None
              else do { q \<leftarrow> divl (b * ucast (n1 mod d0) + ucast n0) d0;
                        Some (ucast q + b * ucast (n1 div d0)) }
      else if n < d then Some 0
      else let d1 = ucast (drop_bit 32 d) :: u32;
               s = nlz d1
           in do { q0 \<leftarrow> divl (drop_bit 1 n) (ucast (drop_bit 32 (push_bit s d)));
                   let q = ucast (drop_bit (31 - s) q0);
                   Some (if n - (q - 1) * d < d then q - 1 else q) })"

definition umod64 :: "u64 \<Rightarrow> u64 \<Rightarrow> u32 option" where
  "umod64 n d = do { q \<leftarrow> udiv64 n d; Some (ucast (n - d * q)) }"

text \<open>Signed values are read from the 64-bit pattern with \<open>sint\<close>.\<close>

definition sdiv64 :: "u64 \<Rightarrow> u64 \<Rightarrow> u64 option" where
  "sdiv64 n d =
     (let n_abs = (if 0 \<le> sint n then n else - n);
          d_abs = (if 0 \<le> sint d then d else - d)
      in do { q_abs \<leftarrow> udiv64 n_abs d_abs;
              Some (if (sint n < 0) = (sint d < 0) then q_abs else - q_abs) })"

definition smod64 :: "u64 \<Rightarrow> u64 \<Rightarrow> u32 option" where
  "smod64 n d = do { q \<leftarrow> sdiv64 n d; Some (ucast (n - d * q)) }"

text \<open>The entry points GCC calls: the 32-bit remainders are converted back to 64 bits.\<close>

definition udivdi3 :: "u64 \<Rightarrow> u64 \<Rightarrow> u64 option" where
  "udivdi3 n d = udiv64 n d"

definition umoddi3 :: "u64 \<Rightarrow> u64 \<Rightarrow> u64 option" where
  "umoddi3 n d = map_option ucast (umod64 n d)"

definition divdi3 :: "u64 \<Rightarrow> u64 \<Rightarrow> u64 option" where
  "divdi3 n d = sdiv64 n d"

definition moddi3 :: "u64 \<Rightarrow> u64 \<Rightarrow> u64 option" where
  "moddi3 n d = map_option scast (smod64 n d)"

section \<open>The division algorithm\<close>

lemma unat_push_bit: "unat (push_bit k (w :: 'a::len word)) = unat w * 2 ^ k mod 2 ^ LENGTH('a)"
  by (subst unsigned_push_bit_eq) (simp add: push_bit_eq_mult take_bit_eq_mod)

lemma unat_drop_bit: "unat (drop_bit k (w :: 'a::len word)) = unat w div 2 ^ k"
  by (subst unat_drop_bit_eq) (simp add: drop_bit_eq_div)

lemma unat_low: "unat (ucast (w :: u64) :: u32) = unat w mod 2 ^ 32"
  by (simp add: unsigned_ucast_eq take_bit_eq_mod)

lemma unat_high: "unat (ucast (drop_bit 32 (w :: u64)) :: u32) = unat w div 2 ^ 32"
proof -
  have "unat w < 2 ^ 64" using unsigned_less [of w] by simp
  then have "unat w div 2 ^ 32 < 2 ^ 32" by (simp add: less_mult_imp_div_less)
  then show ?thesis by (simp add: unsigned_ucast_eq take_bit_eq_mod unat_drop_bit)
qed

lemma nlz_normalizes:
  assumes "x \<noteq> 0"
  shows "nlz x \<le> 31 \<and> 2 ^ 31 \<le> unat x * 2 ^ nlz x \<and> unat x * 2 ^ nlz x < 2 ^ 32"
proof -
  have "0 < unat x" and "unat x < 4294967296"
    using assms unat_less_2p32 by (simp_all add: unat_gt_0)
  then show ?thesis
    by (auto simp: nlz_def word_le_nat_alt unat_push_bit Let_def split: if_splits)
qed

text \<open>
  The estimate behind the two-word case: with \<open>v\<close> the top 32 bits of the normalized divisor,
  \<open>n div (v * 2 ^ (32 - s))\<close> is the quotient or one more.
\<close>

lemma quotient_estimate:
  fixes n d s v :: nat
  assumes s: "s \<le> 31" and n: "n < 2 ^ 64" and d: "2 ^ 63 \<le> d * 2 ^ s" "d * 2 ^ s < 2 ^ 64"
    and v: "v = d * 2 ^ s div 2 ^ 32" and nd: "d \<le> n"
  shows "n div d \<le> n div (v * 2 ^ (32 - s))" and "n div (v * 2 ^ (32 - s)) \<le> Suc (n div d)"
proof -
  let ?d' = "v * 2 ^ (32 - s)" and ?q = "n div (v * 2 ^ (32 - s))"
  have pow: "(2::nat) ^ 32 = 2 ^ (32 - s) * 2 ^ s"
    using s by (simp flip: power_add)
  have v_alt: "v = d div 2 ^ (32 - s)"
    unfolding v by (subst pow) simp
  have d'_le: "?d' \<le> d" by (simp add: v_alt)
  have d'_gap: "d < ?d' + 2 ^ (32 - s)"
    by (simp add: v_alt) (metis add.commute mod_less_divisor mult_div_mod_eq mult.commute nat_add_left_cancel_less zero_less_numeral zero_less_power)
  have v31: "2 ^ 31 \<le> v" using d(1) by (simp add: v)
  then have d'_pos: "0 < ?d'" by (simp add: Suc_leI)
  show "n div d \<le> ?q" by (rule div_le_mono2 [OF d'_pos d'_le])
  have q_small: "?q < 2 ^ (s + 1)"
  proof -
    have "2 ^ 31 * 2 ^ (32 - s) \<le> ?d'" using v31 by simp
    moreover have "(2::nat) ^ 64 = 2 ^ (s + 1) * (2 ^ 31 * 2 ^ (32 - s))"
      using s by (simp flip: power_add)
    ultimately have "(2::nat) ^ 64 \<le> 2 ^ (s + 1) * ?d'"
      by (metis mult_le_mono2)
    then have "n < 2 ^ (s + 1) * ?d'" using n by linarith
    then show ?thesis by (simp add: less_mult_imp_div_less)
  qed
  have gap: "?q * (d - ?d') \<le> d"
  proof (cases "s = 31")
    case True
    then have "d - ?d' \<le> 1" using d'_gap by simp
    then have "?q * (d - ?d') \<le> ?q * 1" by (rule mult_le_mono2)
    also have "\<dots> < 2 ^ 32" using q_small True by simp
    also have "\<dots> \<le> d" using d(1) True by simp
    finally show ?thesis by simp
  next
    case False
    have "?q * (d - ?d') \<le> 2 ^ (s + 1) * 2 ^ (32 - s)"
      using q_small d'_gap by (intro mult_le_mono) auto
    also have "\<dots> = 2 ^ 33" using s by (simp flip: power_add)
    also have "\<dots> \<le> d"
    proof (rule ccontr)
      have s30: "(2::nat) ^ s \<le> 2 ^ 30" using False s by (intro power_increasing) auto
      assume "\<not> 2 ^ 33 \<le> d"
      then have "d * 2 ^ s < 2 ^ 33 * 2 ^ s" by simp
      also have "\<dots> \<le> 2 ^ 33 * 2 ^ 30" using s30 by simp
      finally show False using d(1) by simp
    qed
    finally show ?thesis .
  qed
  have "?q * d = ?q * ?d' + ?q * (d - ?d')"
    using d'_le by (simp flip: add_mult_distrib2)
  also have "\<dots> \<le> n + d" using gap div_times_less_eq_dividend [of n ?d'] by linarith
  finally have "(?q - 1) * d \<le> n" by (simp add: diff_mult_distrib)
  then have "(?q - 1) * d div d \<le> n div d" by (rule div_le_mono)
  moreover have "0 < d" using d'_pos d'_le by linarith
  ultimately have "?q - 1 \<le> n div d" by simp
  then show "?q \<le> Suc (n div d)" by simp
qed


lemma two_word_split:
  fixes n d :: nat
  assumes "0 < d"
  shows "n div d = (2 ^ 32 * ((n div 2 ^ 32) mod d) + n mod 2 ^ 32) div d + 2 ^ 32 * (n div 2 ^ 32 div d)"
proof -
  let ?h = "n div 2 ^ 32" and ?l = "n mod 2 ^ 32"
  have "n = 2 ^ 32 * (d * (?h div d) + ?h mod d) + ?l" by simp
  also have "\<dots> = (2 ^ 32 * (?h mod d) + ?l) + (2 ^ 32 * (?h div d)) * d"
    by (simp only: add_mult_distrib2 mult.assoc mult.commute mult.left_commute add.assoc add.commute add.left_commute)
  finally have "n div d = ((2 ^ 32 * (?h mod d) + ?l) + (2 ^ 32 * (?h div d)) * d) div d" by simp
  also have "\<dots> = 2 ^ 32 * (?h div d) + (2 ^ 32 * (?h mod d) + ?l) div d"
    using assms by (subst div_mult_self1) auto
  finally show ?thesis by simp
qed

lemma unat_less_2p64: "unat (w :: u64) < 2 ^ 64"
  using unsigned_less [of w] by simp

lemma unat_widen: "unat (ucast (w :: u32) :: u64) = unat w"
  using unat_less_2p32 [of w] by (simp add: unsigned_ucast_eq take_bit_eq_mod)

lemma unat_add64: "unat (a :: u64) + unat b < 2 ^ 64 \<Longrightarrow> unat (a + b) = unat a + unat b"
  by (simp add: unat_word_ariths)

lemma unat_b_mult:
  "unat (push_bit 32 (1 :: u64) * ucast (x :: u32)) = 2 ^ 32 * unat x"
  using unat_less_2p32 [of x] by (simp add: unat_word_ariths unat_widen)

lemma divl_Some:
  "d \<noteq> 0 \<Longrightarrow> unat n div unat d < 2 ^ 32 \<Longrightarrow> divl n d = Some (word_of_nat (unat n div unat d))"
  by (simp add: divl_def)

lemma udiv64_one_word:
  assumes "drop_bit 32 d = 0" and "d \<noteq> 0"
  shows "udiv64 n d = Some (n div d)"
proof -
  let ?N = "unat n" and ?D = "unat d"
  define n1 n0 d0 where w: "n1 = (ucast (drop_bit 32 n) :: u32)" "n0 = (ucast n :: u32)" "d0 = (ucast d :: u32)"
  have "?D div 2 ^ 32 = 0"
    using assms(1) by (metis unat_drop_bit unsigned_0)
  then have D: "?D < 2 ^ 32" by (simp add: div_eq_0_iff)
  have u: "unat n1 = ?N div 2 ^ 32" "unat n0 = ?N mod 2 ^ 32" "unat d0 = ?D"
    using D by (simp_all only: w unat_high, simp_all only: unat_low mod_less)
  have Dpos: "0 < ?D" using assms(2) by (simp add: unat_gt_0)
  then have d0: "d0 \<noteq> 0" using u(3) by auto
  let ?r = "2 ^ 32 * (?N div 2 ^ 32 mod ?D) + ?N mod 2 ^ 32"
  have "?N div 2 ^ 32 mod ?D \<le> ?D - 1" using mod_less_divisor [OF Dpos, of "?N div 2 ^ 32"] by linarith
  then have "2 ^ 32 * (?N div 2 ^ 32 mod ?D) \<le> 2 ^ 32 * (?D - 1)" by (rule mult_le_mono2)
  then have r1: "?r < 2 ^ 32 * ?D" using Dpos by (simp add: diff_mult_distrib2)
  then have r2: "?r < 2 ^ 64" using D by simp
  have r: "unat (push_bit 32 (1 :: u64) * ucast (n1 mod d0) + ucast n0) = ?r"
    using r2 by (subst unat_add64) (simp_all only: unat_b_mult unat_widen unat_mod u)
  have rq: "?r div ?D < 2 ^ 32" using r1 by (simp add: less_mult_imp_div_less)
  have "divl (push_bit 32 (1 :: u64) * ucast (n1 mod d0) + ucast n0) d0 = Some (word_of_nat (?r div ?D))"
    using divl_Some [OF d0, of "push_bit 32 (1 :: u64) * ucast (n1 mod d0) + ucast n0"] rq by (simp only: r u)
  then have "udiv64 n d = Some (ucast (word_of_nat (?r div ?D) :: u32) + push_bit 32 1 * ucast (n1 div d0))"
    unfolding udiv64_def Let_def w [symmetric] using assms(1) d0
    by (simp only: if_True if_False Option.bind.simps simp_thms)
  moreover have "unat (ucast (word_of_nat (?r div ?D) :: u32) + push_bit 32 1 * ucast (n1 div d0) :: u64)
      = ?N div ?D"
  proof -
    have q: "unat (ucast (word_of_nat (?r div ?D) :: u32) :: u64) = ?r div ?D"
      using rq by (simp add: unat_widen unsigned_of_nat take_bit_eq_mod)
    have t: "unat (push_bit 32 (1 :: u64) * ucast (n1 div d0)) = 2 ^ 32 * (?N div 2 ^ 32 div ?D)"
      by (simp only: unat_b_mult unat_div u)
    have sum: "?r div ?D + 2 ^ 32 * (?N div 2 ^ 32 div ?D) = ?N div ?D"
      using two_word_split [OF Dpos, of ?N] by simp
    moreover have "?N div ?D < 2 ^ 64"
      using unat_less_2p64 [of n] div_le_dividend [of ?N ?D] by linarith
    ultimately show ?thesis by (subst unat_add64) (simp_all only: q t)
  qed
  ultimately show ?thesis by (metis unat_div word_unat_eq_iff)
qed


lemma normalized_divisor:
  fixes D s :: nat
  assumes "2 ^ 31 \<le> D div 2 ^ 32 * 2 ^ s" and "D div 2 ^ 32 * 2 ^ s < 2 ^ 32" and "s \<le> 31"
  shows "2 ^ 63 \<le> D * 2 ^ s" and "D * 2 ^ s < 2 ^ 64"
proof -
  let ?h = "D div 2 ^ 32"
  have "2 ^ 32 * (?h * 2 ^ s) = (?h * 2 ^ 32) * 2 ^ s" by simp
  also have "\<dots> \<le> D * 2 ^ s" by (intro mult_le_mono1 div_times_less_eq_dividend)
  finally have "2 ^ 32 * (?h * 2 ^ s) \<le> D * 2 ^ s" .
  moreover have "2 ^ 32 * 2 ^ 31 \<le> 2 ^ 32 * (?h * 2 ^ s)" using assms(1) by (rule mult_le_mono2)
  ultimately have "2 ^ 32 * 2 ^ 31 \<le> D * 2 ^ s" by (rule order_trans [rotated])
  then show "2 ^ 63 \<le> D * 2 ^ s" by simp
  have pow: "(2::nat) ^ 32 = 2 ^ (32 - s) * 2 ^ s"
    using assms(3) by (simp flip: power_add)
  then have "?h < 2 ^ (32 - s)"
    using assms(2) by (metis mult_less_cancel2)
  then have "(?h + 1) * 2 ^ s \<le> 2 ^ (32 - s) * 2 ^ s" by (intro mult_le_mono1) simp
  also have "\<dots> = 2 ^ 32" by (rule pow [symmetric])
  finally have le: "(?h + 1) * 2 ^ s \<le> 2 ^ 32" .
  have "D < 2 ^ 32 * (?h + 1)" using dividend_less_times_div [of "2 ^ 32" D] by simp
  then have "D * 2 ^ s < 2 ^ 32 * (?h + 1) * 2 ^ s" by simp
  also have "\<dots> = 2 ^ 32 * ((?h + 1) * 2 ^ s)" by (simp only: mult.assoc)
  also have "\<dots> \<le> 2 ^ 32 * 2 ^ 32" using le by (rule mult_le_mono2)
  finally show "D * 2 ^ s < 2 ^ 64" by simp
qed

lemma correct_estimate:
  fixes N D Q :: nat
  assumes "0 < D" and "N div D \<le> Q" and "Q \<le> Suc (N div D)" and "0 < Q"
  shows "(Q - 1) * D \<le> N" and "(if N - (Q - 1) * D < D then Q - 1 else Q) = N div D"
proof -
  show le: "(Q - 1) * D \<le> N"
    using assms(3) by (metis div_times_less_eq_dividend diff_Suc_1 diff_le_mono le_trans mult_le_mono1)
  show "(if N - (Q - 1) * D < D then Q - 1 else Q) = N div D"
  proof (cases "N div D = Q")
    case True
    then have "Q * D \<le> N" by (metis div_times_less_eq_dividend)
    then have "\<not> N - (Q - 1) * D < D"
      using assms(4) by (simp add: diff_mult_distrib not_less)
    with True show ?thesis by simp
  next
    case False
    then have q: "N div D = Q - 1" using assms by linarith
    then have "N - (Q - 1) * D = N mod D" by (metis minus_div_mult_eq_mod)
    then show ?thesis using q assms(1) by simp
  qed
qed

lemma udiv64_two_words:
  assumes hi: "drop_bit 32 d \<noteq> 0" and nd: "\<not> n < d"
  shows "udiv64 n d = Some (n div d)"
proof -
  let ?N = "unat n" and ?D = "unat d"
  define d1 s v where w: "d1 = (ucast (drop_bit 32 d) :: u32)" "s = nlz d1"
    "v = (ucast (drop_bit 32 (push_bit s d)) :: u32)"
  have d1: "unat d1 = ?D div 2 ^ 32" unfolding w by (rule unat_high)
  have h0: "?D div 2 ^ 32 \<noteq> 0"
    using hi by (metis unat_drop_bit unat_0_iff)
  have "d1 \<noteq> 0"
  proof
    assume "d1 = 0"
    with d1 h0 show False by simp
  qed
  then have nz: "s \<le> 31" "2 ^ 31 \<le> ?D div 2 ^ 32 * 2 ^ s" "?D div 2 ^ 32 * 2 ^ s < 2 ^ 32"
    using nlz_normalizes [of d1] by (simp_all only: w(2) [symmetric] d1 not_False_eq_True simp_thms)
  note norm = normalized_divisor [OF nz(2,3,1)]
  have v: "unat v = ?D * 2 ^ s div 2 ^ 32"
    unfolding w(3) using norm(2) by (simp only: unat_high unat_push_bit len_num1 len_bit0 mod_less) simp
  have N: "?N < 2 ^ 64" and ND: "?D \<le> ?N"
    using unat_less_2p64 nd by (simp_all add: word_less_nat_alt)
  let ?Q = "?N div (unat v * 2 ^ (32 - s))"
  note est = quotient_estimate [OF nz(1) N norm v ND]
  have v31: "2 ^ 31 \<le> unat v" using norm(1) unfolding v by simp
  have half: "unat (drop_bit 1 n) = ?N div 2" by (simp only: unat_drop_bit) simp
  have q0: "?N div 2 div unat v < 2 ^ 32"
  proof -
    have "?N div 2 < 2 ^ 32 * 2 ^ 31" using N by simp
    also have "\<dots> \<le> 2 ^ 32 * unat v" using v31 by (rule mult_le_mono2)
    finally show ?thesis by (rule less_mult_imp_div_less)
  qed
  have "v \<noteq> 0" using v31 by auto
  then have dv: "divl (drop_bit 1 n) v = Some (word_of_nat (?N div 2 div unat v))"
    using divl_Some [of v "drop_bit 1 n"] q0 by (simp only: half not_False_eq_True simp_thms)
  define q where "q = (ucast (drop_bit (31 - s) (word_of_nat (?N div 2 div unat v) :: u32)) :: u64)"
  have q: "unat q = ?Q"
  proof -
    have "unat q = ?N div 2 div unat v div 2 ^ (31 - s)"
      unfolding q_def using q0
      by (simp only: unat_widen unat_drop_bit) (simp add: unsigned_of_nat take_bit_eq_mod)
    also have "\<dots> = ?N div (2 * unat v * 2 ^ (31 - s))"
      by (simp only: div_mult2_eq mult.assoc)
    also have "2 * unat v * 2 ^ (31 - s) = unat v * 2 ^ Suc (31 - s)" by simp
    also have "Suc (31 - s) = 32 - s" using nz(1) by linarith
    finally show ?thesis .
  qed
  have D: "0 < ?D" using h0 by (metis div_0 gr0I)
  have "0 < ?N div ?D" using ND D by (simp add: div_greater_zero_iff)
  then have Q: "0 < ?Q" using est(1) by linarith
  note ce = correct_estimate [OF D est Q]
  have q1: "unat (q - 1) = ?Q - 1" using Q by (simp add: unat_sub word_le_nat_alt q Suc_leI)
  have qd: "unat ((q - 1) * d) = (?Q - 1) * ?D"
    using ce(1) N by (simp only: unat_word_ariths q1) simp
  have sub: "unat (n - (q - 1) * d) = ?N - (?Q - 1) * ?D"
    using ce(1) by (simp add: unat_sub word_le_nat_alt qd)
  have "unat (if n - (q - 1) * d < d then q - 1 else q) = ?N div ?D"
    using ce(2) by (simp add: word_less_nat_alt sub q q1 split: if_splits)
  then have "(if n - (q - 1) * d < d then q - 1 else q) = n div d"
    by (simp add: word_unat_eq_iff unat_div)
  moreover have "udiv64 n d = Some (if n - (q - 1) * d < d then q - 1 else q)"
    unfolding udiv64_def Let_def w(1) [symmetric] w(2) [symmetric] w(3) [symmetric]
    using hi nd dv by (simp only: if_False Option.bind.simps q_def)
  ultimately show ?thesis by simp
qed

lemma udiv64_correct: "d \<noteq> 0 \<Longrightarrow> udiv64 n d = Some (n div d)"
proof (cases "drop_bit 32 d = 0")
  case False
  then show ?thesis
  proof (cases "n < d")
    case True
    then have "n div d = 0" by (simp add: word_less_nat_alt word_unat_eq_iff unat_div)
    with True False show ?thesis by (simp add: udiv64_def)
  qed (rule udiv64_two_words)
qed (rule udiv64_one_word)


section \<open>Properties\<close>

text \<open>
  C21. The unsigned 64-bit division routine returns the exact quotient for every non-zero divisor: the
  DIVL instruction it is built on never traps, in the one-word case and in the two-word case.
\<close>

theorem udivdi3_correct: "d \<noteq> 0 \<Longrightarrow> udivdi3 n d = Some (n div d)"
  by (simp add: udivdi3_def udiv64_correct)

theorem udivdi3_correct_witness:
  "udivdi3 0xFFFFFFFFFFFFFFFF 0x1FFFFFFFF = Some (0xFFFFFFFFFFFFFFFF div 0x1FFFFFFFF)"
  by (rule udivdi3_correct) simp

lemma uint_abs_signed:
  "uint (if 0 \<le> sint (w :: u64) then w else - w) = \<bar>sint w\<bar>"
proof (cases "0 \<le> sint w")
  case True
  then have "sint w mod 2 ^ 64 = sint w"
    using sint_lt [of w] by (intro mod_pos_pos_trivial) simp_all
  with True show ?thesis by (simp add: uint_sint take_bit_eq_mod)
next
  case False
  have b: "- (2 ^ 63) \<le> sint w" and "sint w < 2 ^ 63"
    using sint_greater_eq [of w] sint_lt [of w] by simp_all
  have "uint (- w) = (- uint w) mod 2 ^ 64" by (simp only: uint_word_ariths) simp
  also have "uint w = sint w mod 2 ^ 64" by (simp only: uint_sint take_bit_eq_mod) simp
  finally have "uint (- w) = (- sint w) mod 2 ^ 64" by (simp only: mod_minus_eq)
  with False b show ?thesis by simp
qed

text \<open>
  C29. The signed 64-bit division routine rounds towards zero for every non-zero divisor, as C
  requires (the one quotient outside the type, \<open>- 2 ^ 63\<close> by \<open>- 1\<close>, wraps).
\<close>

theorem divdi3_truncates:
  assumes "d \<noteq> 0"
  shows "divdi3 n d = Some (word_of_int (sgn (sint n) * sgn (sint d) * (\<bar>sint n\<bar> div \<bar>sint d\<bar>)))"
proof -
  let ?n = "if 0 \<le> sint n then n else - n" and ?d = "if 0 \<le> sint d then d else - d"
  have q: "?n div ?d = word_of_int (\<bar>sint n\<bar> div \<bar>sint d\<bar>)"
    by (simp only: word_div_def uint_abs_signed)
  have "udiv64 ?n ?d = Some (?n div ?d)" using assms by (intro udiv64_correct) simp
  then have "divdi3 n d = Some (if (sint n < 0) = (sint d < 0)
      then word_of_int (\<bar>sint n\<bar> div \<bar>sint d\<bar>) else - word_of_int (\<bar>sint n\<bar> div \<bar>sint d\<bar>))"
    by (simp only: divdi3_def sdiv64_def Let_def Option.bind.simps q)
  then show ?thesis
    by (auto simp: sgn_if simp del: abs_div)
qed

theorem divdi3_truncates_witness:
  "divdi3 (- 7) 2 = Some (word_of_int (sgn (sint (- 7 :: u64)) * sgn (sint (2 :: u64)) * (\<bar>sint (- 7 :: u64)\<bar> div \<bar>sint (2 :: u64)\<bar>)))"
  by (rule divdi3_truncates) simp

lemma widen_low: "(ucast (ucast (w :: u64) :: u32) :: u64) = take_bit 32 w"
  by (rule bit_word_eqI) (auto simp: bit_simps)

text \<open>
  C30. The unsigned 64-bit remainder routine keeps only the low 32 bits of the remainder, because
  \<open>umod64\<close> returns a 32-bit integer: it is the remainder exactly when that fits in 32 bits.
\<close>

theorem umoddi3_low_half:
  assumes "d \<noteq> 0"
  shows "umoddi3 n d = Some (take_bit 32 (n mod d)) \<and>
    (umoddi3 n d = Some (n mod d) \<longleftrightarrow> n mod d < 2 ^ 32)"
proof -
  have "n - d * (n div d) = n mod d" by (metis add_diff_cancel_left' mult_div_mod_eq)
  then have eq: "umoddi3 n d = Some (take_bit 32 (n mod d))"
    using assms by (simp add: umoddi3_def umod64_def udiv64_correct widen_low)
  have "take_bit 32 (n mod d) = n mod d \<longleftrightarrow> n mod d < 2 ^ 32"
  proof -
    have "unat (take_bit 32 (n mod d)) = unat (n mod d) mod 2 ^ 32"
      by (subst unsigned_take_bit_eq) (simp add: take_bit_eq_mod)
    then show ?thesis
      by (simp add: word_unat_eq_iff word_less_nat_alt) (metis mod_less mod_less_divisor zero_less_numeral)
  qed
  with eq show ?thesis by simp
qed

theorem umoddi3_low_half_witness:
  "umoddi3 (2 ^ 32 + 5) (2 ^ 40) = Some (take_bit 32 ((2 ^ 32 + 5) mod 2 ^ 40)) \<and>
   (umoddi3 (2 ^ 32 + 5) (2 ^ 40) = Some ((2 ^ 32 + 5) mod 2 ^ 40) \<longleftrightarrow> (2 ^ 32 + 5 :: u64) mod 2 ^ 40 < 2 ^ 32)"
  by (rule umoddi3_low_half) simp

end
