(* ===== verification/Kernel_List.thy ===== *)
theory Kernel_List
  imports Kernel_Prelude
begin

text \<open>
  Doubly linked lists, \<^verbatim>\<open>lib/kernel/list.c\<close>, at the level of their pointers: a heap gives every
  address the \<^verbatim>\<open>prev\<close> and \<^verbatim>\<open>next\<close> fields of a list element, a list is the address of its
  \<^verbatim>\<open>struct list\<close>, whose head element lies at that address and whose tail element follows it.
  Every operation is the sequence of field reads and writes of the code. \<open>dlist h l xs\<close> relates
  the heap to the sequence \<open>xs\<close> of interior elements; each operation is proved to refine the
  corresponding operation on sequences, with a frame condition for the other lists of the heap.
\<close>

section \<open>Heap and elementary operations\<close>

type_synonym ptr = nat

abbreviation (input) NULL :: ptr where "NULL \<equiv> 0"

record list_heap =
  elem_prev :: "ptr \<Rightarrow> ptr"
  elem_next :: "ptr \<Rightarrow> ptr"

definition set_prev :: "list_heap \<Rightarrow> ptr \<Rightarrow> ptr \<Rightarrow> list_heap" where
  "set_prev h e v = h\<lparr>elem_prev := (elem_prev h)(e := v)\<rparr>"

definition set_next :: "list_heap \<Rightarrow> ptr \<Rightarrow> ptr \<Rightarrow> list_heap" where
  "set_next h e v = h\<lparr>elem_next := (elem_next h)(e := v)\<rparr>"

text \<open>\<^verbatim>\<open>&list->head\<close> and \<^verbatim>\<open>&list->tail\<close>: a list element is two 4-byte pointers.\<close>

definition head_of :: "ptr \<Rightarrow> ptr" where "head_of l = l"

definition tail_of :: "ptr \<Rightarrow> ptr" where "tail_of l = l + 8"

definition is_head :: "list_heap \<Rightarrow> ptr \<Rightarrow> bool" where
  "is_head h e \<longleftrightarrow> e \<noteq> NULL \<and> elem_prev h e = NULL \<and> elem_next h e \<noteq> NULL"

definition is_interior :: "list_heap \<Rightarrow> ptr \<Rightarrow> bool" where
  "is_interior h e \<longleftrightarrow> e \<noteq> NULL \<and> elem_prev h e \<noteq> NULL \<and> elem_next h e \<noteq> NULL"

definition is_tail :: "list_heap \<Rightarrow> ptr \<Rightarrow> bool" where
  "is_tail h e \<longleftrightarrow> e \<noteq> NULL \<and> elem_prev h e \<noteq> NULL \<and> elem_next h e = NULL"

definition list_init :: "list_heap \<Rightarrow> ptr \<Rightarrow> list_heap option" where
  "list_init h l = do {
     ASSERT (l \<noteq> NULL);
     let h = set_prev h (head_of l) NULL;
     let h = set_next h (head_of l) (tail_of l);
     let h = set_prev h (tail_of l) (head_of l);
     let h = set_next h (tail_of l) NULL;
     Some h }"

definition list_begin :: "list_heap \<Rightarrow> ptr \<Rightarrow> ptr option" where
  "list_begin h l = do { ASSERT (l \<noteq> NULL); Some (elem_next h (head_of l)) }"

definition list_next :: "list_heap \<Rightarrow> ptr \<Rightarrow> ptr option" where
  "list_next h e = do { ASSERT (is_head h e \<or> is_interior h e); Some (elem_next h e) }"

definition list_end :: "ptr \<Rightarrow> ptr option" where
  "list_end l = do { ASSERT (l \<noteq> NULL); Some (tail_of l) }"

definition list_rbegin :: "list_heap \<Rightarrow> ptr \<Rightarrow> ptr option" where
  "list_rbegin h l = do { ASSERT (l \<noteq> NULL); Some (elem_prev h (tail_of l)) }"

definition list_prev :: "list_heap \<Rightarrow> ptr \<Rightarrow> ptr option" where
  "list_prev h e = do { ASSERT (is_interior h e \<or> is_tail h e); Some (elem_prev h e) }"

definition list_rend :: "ptr \<Rightarrow> ptr option" where
  "list_rend l = do { ASSERT (l \<noteq> NULL); Some (head_of l) }"

definition list_head :: "ptr \<Rightarrow> ptr option" where
  "list_head l = do { ASSERT (l \<noteq> NULL); Some (head_of l) }"

definition list_tail :: "ptr \<Rightarrow> ptr option" where
  "list_tail l = do { ASSERT (l \<noteq> NULL); Some (tail_of l) }"

definition list_insert :: "list_heap \<Rightarrow> ptr \<Rightarrow> ptr \<Rightarrow> list_heap option" where
  "list_insert h before elem = do {
     ASSERT (is_interior h before \<or> is_tail h before);
     ASSERT (elem \<noteq> NULL);
     let h = set_prev h elem (elem_prev h before);
     let h = set_next h elem before;
     let h = set_next h (elem_prev h before) elem;
     let h = set_prev h before elem;
     Some h }"

definition list_splice :: "list_heap \<Rightarrow> ptr \<Rightarrow> ptr \<Rightarrow> ptr \<Rightarrow> list_heap option" where
  "list_splice h before first lst = do {
     ASSERT (is_interior h before \<or> is_tail h before);
     if first = lst then Some h
     else do {
       lst \<leftarrow> list_prev h lst;
       ASSERT (is_interior h first);
       ASSERT (is_interior h lst);
       let h = set_next h (elem_prev h first) (elem_next h lst);
       let h = set_prev h (elem_next h lst) (elem_prev h first);
       let h = set_prev h first (elem_prev h before);
       let h = set_next h lst before;
       let h = set_next h (elem_prev h before) first;
       let h = set_prev h before lst;
       Some h } }"

definition list_push_front :: "list_heap \<Rightarrow> ptr \<Rightarrow> ptr \<Rightarrow> list_heap option" where
  "list_push_front h l elem = do { b \<leftarrow> list_begin h l; list_insert h b elem }"

definition list_push_back :: "list_heap \<Rightarrow> ptr \<Rightarrow> ptr \<Rightarrow> list_heap option" where
  "list_push_back h l elem = do { e \<leftarrow> list_end l; list_insert h e elem }"

definition list_remove :: "list_heap \<Rightarrow> ptr \<Rightarrow> (ptr \<times> list_heap) option" where
  "list_remove h elem = do {
     ASSERT (is_interior h elem);
     let h = set_next h (elem_prev h elem) (elem_next h elem);
     let h = set_prev h (elem_next h elem) (elem_prev h elem);
     Some (elem_next h elem, h) }"

definition list_empty :: "list_heap \<Rightarrow> ptr \<Rightarrow> bool option" where
  "list_empty h l = do { b \<leftarrow> list_begin h l; e \<leftarrow> list_end l; Some (b = e) }"

definition list_front :: "list_heap \<Rightarrow> ptr \<Rightarrow> ptr option" where
  "list_front h l = do {
     em \<leftarrow> list_empty h l; ASSERT (\<not> em); Some (elem_next h (head_of l)) }"

definition list_back :: "list_heap \<Rightarrow> ptr \<Rightarrow> ptr option" where
  "list_back h l = do {
     em \<leftarrow> list_empty h l; ASSERT (\<not> em); Some (elem_prev h (tail_of l)) }"

definition list_pop_front :: "list_heap \<Rightarrow> ptr \<Rightarrow> (ptr \<times> list_heap) option" where
  "list_pop_front h l = do {
     front \<leftarrow> list_front h l; (_, h) \<leftarrow> list_remove h front; Some (front, h) }"

definition list_pop_back :: "list_heap \<Rightarrow> ptr \<Rightarrow> (ptr \<times> list_heap) option" where
  "list_pop_back h l = do {
     back \<leftarrow> list_back h l; (_, h) \<leftarrow> list_remove h back; Some (back, h) }"

section \<open>Loops over a list\<close>

text \<open>
  A walk along a corrupted list need not end, so the loops are partial functions in the option
  monad; that they return on every well-formed list is part of their refinement lemmas.
\<close>

partial_function (option) size_loop :: "list_heap \<Rightarrow> ptr \<Rightarrow> ptr \<Rightarrow> nat \<Rightarrow> nat option" where
  "size_loop h l e cnt = do {
     en \<leftarrow> list_end l;
     if e \<noteq> en then do { e' \<leftarrow> list_next h e; size_loop h l e' (wrap32 (cnt + 1)) }
     else Some cnt }"

definition list_size :: "list_heap \<Rightarrow> ptr \<Rightarrow> nat option" where
  "list_size h l = do { e \<leftarrow> list_begin h l; size_loop h l e 0 }"

partial_function (option) reverse_loop :: "list_heap \<Rightarrow> ptr \<Rightarrow> ptr \<Rightarrow> list_heap option" where
  "reverse_loop h l e = do {
     en \<leftarrow> list_end l;
     if e \<noteq> en
     then do {
       let t = elem_prev h e;
       let h = set_prev h e (elem_next h e);
       let h = set_next h e t;
       reverse_loop h l (elem_prev h e) }
     else Some h }"

definition list_reverse :: "list_heap \<Rightarrow> ptr \<Rightarrow> list_heap option" where
  "list_reverse h l = do {
     em \<leftarrow> list_empty h l;
     if \<not> em
     then do {
       e \<leftarrow> list_begin h l;
       h \<leftarrow> reverse_loop h l e;
       let t = elem_next h (head_of l);
       let h = set_next h (head_of l) (elem_prev h (tail_of l));
       let h = set_prev h (tail_of l) t;
       let a = elem_next h (head_of l);
       let b = elem_prev h (tail_of l);
       let t = elem_prev h a;
       let h = set_prev h a (elem_next h b);
       let h = set_next h b t;
       Some h }
     else Some h }"

partial_function (option) insert_ordered_loop ::
  "list_heap \<Rightarrow> ptr \<Rightarrow> ptr \<Rightarrow> (ptr \<Rightarrow> ptr \<Rightarrow> bool) \<Rightarrow> ptr \<Rightarrow> ptr option" where
  "insert_ordered_loop h l elem lt e = do {
     en \<leftarrow> list_end l;
     if e \<noteq> en
     then if lt elem e then Some e
          else do { e' \<leftarrow> list_next h e; insert_ordered_loop h l elem lt e' }
     else Some e }"

definition list_insert_ordered ::
  "list_heap \<Rightarrow> ptr \<Rightarrow> ptr \<Rightarrow> (ptr \<Rightarrow> ptr \<Rightarrow> bool) \<Rightarrow> list_heap option" where
  "list_insert_ordered h l elem lt = do {
     ASSERT (l \<noteq> NULL);
     ASSERT (elem \<noteq> NULL);
     b \<leftarrow> list_begin h l;
     e \<leftarrow> insert_ordered_loop h l elem lt b;
     list_insert h e elem }"

partial_function (option) unique_loop ::
  "list_heap \<Rightarrow> ptr \<Rightarrow> ptr \<Rightarrow> (ptr \<Rightarrow> ptr \<Rightarrow> bool) \<Rightarrow> ptr \<Rightarrow> list_heap option" where
  "unique_loop h l duplicates lt elem = do {
     nx \<leftarrow> list_next h elem;
     en \<leftarrow> list_end l;
     if nx \<noteq> en
     then if \<not> lt elem nx \<and> \<not> lt nx elem
          then do {
            (_, h) \<leftarrow> list_remove h nx;
            h \<leftarrow> (if duplicates \<noteq> NULL then list_push_back h duplicates nx else Some h);
            unique_loop h l duplicates lt elem }
          else unique_loop h l duplicates lt nx
     else Some h }"

definition list_unique ::
  "list_heap \<Rightarrow> ptr \<Rightarrow> ptr \<Rightarrow> (ptr \<Rightarrow> ptr \<Rightarrow> bool) \<Rightarrow> list_heap option" where
  "list_unique h l duplicates lt = do {
     ASSERT (l \<noteq> NULL);
     em \<leftarrow> list_empty h l;
     if em then Some h
     else do { elem \<leftarrow> list_begin h l; unique_loop h l duplicates lt elem } }"

partial_function (option) max_loop ::
  "list_heap \<Rightarrow> ptr \<Rightarrow> (ptr \<Rightarrow> ptr \<Rightarrow> bool) \<Rightarrow> ptr \<Rightarrow> ptr \<Rightarrow> ptr option" where
  "max_loop h l lt mx e = do {
     en \<leftarrow> list_end l;
     if e \<noteq> en
     then do { e' \<leftarrow> list_next h e; max_loop h l lt (if lt mx e then e else mx) e' }
     else Some mx }"

definition list_max :: "list_heap \<Rightarrow> ptr \<Rightarrow> (ptr \<Rightarrow> ptr \<Rightarrow> bool) \<Rightarrow> ptr option" where
  "list_max h l lt = do {
     mx \<leftarrow> list_begin h l;
     en \<leftarrow> list_end l;
     if mx \<noteq> en then do { e \<leftarrow> list_next h mx; max_loop h l lt mx e } else Some mx }"

partial_function (option) min_loop ::
  "list_heap \<Rightarrow> ptr \<Rightarrow> (ptr \<Rightarrow> ptr \<Rightarrow> bool) \<Rightarrow> ptr \<Rightarrow> ptr \<Rightarrow> ptr option" where
  "min_loop h l lt mn e = do {
     en \<leftarrow> list_end l;
     if e \<noteq> en
     then do { e' \<leftarrow> list_next h e; min_loop h l lt (if lt e mn then e else mn) e' }
     else Some mn }"

definition list_min :: "list_heap \<Rightarrow> ptr \<Rightarrow> (ptr \<Rightarrow> ptr \<Rightarrow> bool) \<Rightarrow> ptr option" where
  "list_min h l lt = do {
     mn \<leftarrow> list_begin h l;
     en \<leftarrow> list_end l;
     if mn \<noteq> en then do { e \<leftarrow> list_next h mn; min_loop h l lt mn e } else Some mn }"


section \<open>Sorting\<close>

text \<open>The natural merge sort of \<^verbatim>\<open>list_sort\<close>: runs are found and merged in place by splicing.\<close>

partial_function (option) is_sorted_loop ::
  "list_heap \<Rightarrow> ptr \<Rightarrow> ptr \<Rightarrow> (ptr \<Rightarrow> ptr \<Rightarrow> bool) \<Rightarrow> bool option" where
  "is_sorted_loop h a b lt = do {
     a \<leftarrow> list_next h a;
     if a \<noteq> b
     then do { p \<leftarrow> list_prev h a; if lt a p then Some False else is_sorted_loop h a b lt }
     else Some True }"

definition is_sorted :: "list_heap \<Rightarrow> ptr \<Rightarrow> ptr \<Rightarrow> (ptr \<Rightarrow> ptr \<Rightarrow> bool) \<Rightarrow> bool option" where
  "is_sorted h a b lt = (if a \<noteq> b then is_sorted_loop h a b lt else Some True)"

partial_function (option) end_of_run_loop ::
  "list_heap \<Rightarrow> ptr \<Rightarrow> ptr \<Rightarrow> (ptr \<Rightarrow> ptr \<Rightarrow> bool) \<Rightarrow> ptr option" where
  "end_of_run_loop h a b lt = do {
     a \<leftarrow> list_next h a;
     if a \<noteq> b
     then do { p \<leftarrow> list_prev h a; if \<not> lt a p then end_of_run_loop h a b lt else Some a }
     else Some a }"

definition find_end_of_run :: "list_heap \<Rightarrow> ptr \<Rightarrow> ptr \<Rightarrow> (ptr \<Rightarrow> ptr \<Rightarrow> bool) \<Rightarrow> ptr option" where
  "find_end_of_run h a b lt = do {
     ASSERT (a \<noteq> NULL);
     ASSERT (b \<noteq> NULL);
     ASSERT (a \<noteq> b);
     end_of_run_loop h a b lt }"

partial_function (option) merge_loop ::
  "list_heap \<Rightarrow> ptr \<Rightarrow> ptr \<Rightarrow> ptr \<Rightarrow> (ptr \<Rightarrow> ptr \<Rightarrow> bool) \<Rightarrow> list_heap option" where
  "merge_loop h a0 a1b0 b1 lt =
     (if a0 \<noteq> a1b0 \<and> a1b0 \<noteq> b1
      then if \<not> lt a1b0 a0
           then do { a0 \<leftarrow> list_next h a0; merge_loop h a0 a1b0 b1 lt }
           else do {
             a1b0 \<leftarrow> list_next h a1b0;
             p \<leftarrow> list_prev h a1b0;
             h \<leftarrow> list_splice h a0 p a1b0;
             merge_loop h a0 a1b0 b1 lt }
      else Some h)"

definition inplace_merge ::
  "list_heap \<Rightarrow> ptr \<Rightarrow> ptr \<Rightarrow> ptr \<Rightarrow> (ptr \<Rightarrow> ptr \<Rightarrow> bool) \<Rightarrow> list_heap option" where
  "inplace_merge h a0 a1b0 b1 lt = do {
     ASSERT (a0 \<noteq> NULL);
     ASSERT (a1b0 \<noteq> NULL);
     ASSERT (b1 \<noteq> NULL);
     s1 \<leftarrow> is_sorted h a0 a1b0 lt; ASSERT s1;
     s2 \<leftarrow> is_sorted h a1b0 b1 lt; ASSERT s2;
     merge_loop h a0 a1b0 b1 lt }"

text \<open>One pass over the list from \<open>a0\<close>; the result is the heap and the number of output runs.\<close>

partial_function (option) sort_pass ::
  "list_heap \<Rightarrow> ptr \<Rightarrow> ptr \<Rightarrow> (ptr \<Rightarrow> ptr \<Rightarrow> bool) \<Rightarrow> nat \<Rightarrow> (list_heap \<times> nat) option" where
  "sort_pass h l a0 lt output_run_cnt = do {
     en \<leftarrow> list_end l;
     if a0 \<noteq> en
     then do {
       let output_run_cnt = wrap32 (output_run_cnt + 1);
       a1b0 \<leftarrow> find_end_of_run h a0 en lt;
       if a1b0 = en then Some (h, output_run_cnt)
       else do {
         b1 \<leftarrow> find_end_of_run h a1b0 en lt;
         h \<leftarrow> inplace_merge h a0 a1b0 b1 lt;
         sort_pass h l b1 lt output_run_cnt } }
     else Some (h, output_run_cnt) }"

partial_function (option) sort_loop ::
  "list_heap \<Rightarrow> ptr \<Rightarrow> (ptr \<Rightarrow> ptr \<Rightarrow> bool) \<Rightarrow> list_heap option" where
  "sort_loop h l lt = do {
     a0 \<leftarrow> list_begin h l;
     (h, output_run_cnt) \<leftarrow> sort_pass h l a0 lt 0;
     if output_run_cnt > 1 then sort_loop h l lt else Some h }"

definition list_sort :: "list_heap \<Rightarrow> ptr \<Rightarrow> (ptr \<Rightarrow> ptr \<Rightarrow> bool) \<Rightarrow> list_heap option" where
  "list_sort h l lt = do {
     ASSERT (l \<noteq> NULL);
     h \<leftarrow> sort_loop h l lt;
     a \<leftarrow> list_begin h l;
     b \<leftarrow> list_end l;
     s \<leftarrow> is_sorted h a b lt; ASSERT s;
     Some h }"


section \<open>Representation\<close>

fun links :: "list_heap \<Rightarrow> ptr list \<Rightarrow> bool" where
  "links h (a # b # xs) \<longleftrightarrow> elem_next h a = b \<and> elem_prev h b = a \<and> links h (b # xs)"
| "links h _ \<longleftrightarrow> True"

definition chain :: "list_heap \<Rightarrow> ptr list \<Rightarrow> bool" where
  "chain h N \<longleftrightarrow> distinct N \<and> NULL \<notin> set N \<and> links h N"

definition nodes :: "ptr \<Rightarrow> ptr list \<Rightarrow> ptr list" where
  "nodes l xs = head_of l # xs @ [tail_of l]"

definition dlist :: "list_heap \<Rightarrow> ptr \<Rightarrow> ptr list \<Rightarrow> bool" where
  "dlist h l xs \<longleftrightarrow> l \<noteq> NULL \<and> chain h (nodes l xs) \<and>
     elem_prev h (head_of l) = NULL \<and> elem_next h (tail_of l) = NULL"

text \<open>Two heaps agree outside a set of addresses: the frame of an operation.\<close>

definition same_outside :: "ptr set \<Rightarrow> list_heap \<Rightarrow> list_heap \<Rightarrow> bool" where
  "same_outside A h h' \<longleftrightarrow>
     (\<forall>x. x \<notin> A \<longrightarrow> elem_prev h' x = elem_prev h x \<and> elem_next h' x = elem_next h x)"

lemma set_fields [simp]:
  "elem_prev (set_prev h e v) = (elem_prev h)(e := v)" "elem_next (set_prev h e v) = elem_next h"
  "elem_next (set_next h e v) = (elem_next h)(e := v)" "elem_prev (set_next h e v) = elem_prev h"
  by (simp_all add: set_prev_def set_next_def)

lemma links_Cons: "xs \<noteq> [] \<Longrightarrow>
  links h (a # xs) \<longleftrightarrow> elem_next h a = hd xs \<and> elem_prev h (hd xs) = a \<and> links h xs"
  by (cases xs) auto

lemma links_append: "P \<noteq> [] \<Longrightarrow> S \<noteq> [] \<Longrightarrow>
  links h (P @ S) \<longleftrightarrow>
    links h P \<and> elem_next h (last P) = hd S \<and> elem_prev h (hd S) = last P \<and> links h S"
  by (induction P rule: list_nonempty_induct) (auto simp: links_Cons)

lemma links_cong:
  assumes "\<And>x. x \<in> set (butlast N) \<Longrightarrow> elem_next h' x = elem_next h x"
    and "\<And>x. x \<in> set (tl N) \<Longrightarrow> elem_prev h' x = elem_prev h x"
  shows "links h' N = links h N"
  using assms by (induction h N rule: links.induct) auto

lemma chain_frame:
  "chain h N \<Longrightarrow> same_outside A h h' \<Longrightarrow> set N \<inter> A = {} \<Longrightarrow> chain h' N"
  unfolding chain_def same_outside_def
  by (metis (no_types, lifting) disjoint_iff in_set_butlastD links_cong list.set_sel(2) tl_Nil)

lemma dlist_frame:
  assumes "dlist h l xs" and "same_outside A h h'" and "set (nodes l xs) \<inter> A = {}"
  shows "dlist h' l xs"
proof -
  have "chain h' (nodes l xs)" using assms chain_frame unfolding dlist_def by blast
  moreover have "head_of l \<notin> A" "tail_of l \<notin> A" using assms(3) by (auto simp: nodes_def)
  ultimately show ?thesis using assms(1,2) by (simp add: dlist_def same_outside_def)
qed

lemma last_notin_butlast: "distinct N \<Longrightarrow> N \<noteq> [] \<Longrightarrow> last N \<notin> set (butlast N)"
  by (metis append_butlast_last_id not_distinct_conv_prefix distinct_append disjoint_iff list.set_intros(1))

lemma hd_notin_tl: "distinct N \<Longrightarrow> N \<noteq> [] \<Longrightarrow> hd N \<notin> set (tl N)"
  by (cases N) auto

text \<open>Facts about the node before and the node after a cut of a chain.\<close>

lemma chain_cut:
  assumes "chain h (P @ S)" and "P \<noteq> []" and "S \<noteq> []"
  shows "links h P" "links h S" "elem_next h (last P) = hd S" "elem_prev h (hd S) = last P"
    "last P \<noteq> NULL" "hd S \<noteq> NULL" "last P \<notin> set S" "hd S \<notin> set P" "last P \<notin> set (butlast P)"
    "hd S \<notin> set (tl S)" "chain h P" "chain h S"
proof -
  show "links h P" "links h S" "elem_next h (last P) = hd S" "elem_prev h (hd S) = last P"
    using assms by (auto simp: chain_def links_append)
  have m: "last P \<in> set P" "hd S \<in> set S" using assms(2,3) by simp_all
  have d: "distinct P" "distinct S" "set P \<inter> set S = {}" "NULL \<notin> set P" "NULL \<notin> set S"
    using assms(1) by (auto simp: chain_def)
  show "last P \<noteq> NULL" "hd S \<noteq> NULL" "last P \<notin> set S" "hd S \<notin> set P"
    using m d by (metis, metis, blast, blast)
  show "last P \<notin> set (butlast P)" "hd S \<notin> set (tl S)"
    using d assms(2,3) last_notin_butlast hd_notin_tl by blast+
  show "chain h P" "chain h S"
    using assms d by (auto simp: chain_def links_append)
qed

section \<open>Insertion and removal on chains\<close>

lemma list_insert_chain:
  assumes c: "chain h (P @ S)" and ne: "P \<noteq> []" "S \<noteq> []" and e: "e \<notin> set (P @ S)" "e \<noteq> NULL"
  shows "\<exists>h'. list_insert h (hd S) e = Some h' \<and> chain h' (P @ e # S) \<and>
    (\<forall>x. x \<noteq> e \<and> x \<noteq> hd S \<longrightarrow> elem_prev h' x = elem_prev h x) \<and>
    (\<forall>x. x \<noteq> e \<and> x \<noteq> last P \<longrightarrow> elem_next h' x = elem_next h x)"
proof -
  note cut = chain_cut [OF c ne]
  let ?h' = "set_prev (set_next (set_next (set_prev h e (last P)) e (hd S)) (last P) e) (hd S) e"
  have e': "e \<noteq> hd S" "e \<noteq> last P" "e \<notin> set P" "e \<notin> set S"
    using e ne hd_in_set [of S] last_in_set [of P] by auto
  have ok: "is_interior h (hd S) \<or> is_tail h (hd S)"
    using cut by (auto simp: is_interior_def is_tail_def)
  have run: "list_insert h (hd S) e = Some ?h'"
    unfolding list_insert_def using ok e(2) cut(4) e' by (simp add: Let_def)
  have "links ?h' P"
    using cut e' by (subst links_cong [where h = h]) (auto dest: in_set_butlastD simp: list.set_sel(2) [OF ne(1)])
  moreover have "links ?h' S"
    using cut e' by (subst links_cong [where h = h]) (auto dest: in_set_butlastD simp: list.set_sel(2) [OF ne(2)])
  moreover have "links ?h' [e]" by simp
  ultimately have "links ?h' (P @ e # S)"
    using ne e' cut by (simp add: links_append links_Cons)
  then have "chain ?h' (P @ e # S)" using c e by (auto simp: chain_def)
  with run show ?thesis by (intro exI [of _ ?h']) auto
qed

lemma list_remove_chain:
  assumes c: "chain h (P @ e # S)" and ne: "P \<noteq> []" "S \<noteq> []"
  shows "\<exists>h'. list_remove h e = Some (hd S, h') \<and> chain h' (P @ S) \<and>
    (\<forall>x. x \<noteq> hd S \<longrightarrow> elem_prev h' x = elem_prev h x) \<and>
    (\<forall>x. x \<noteq> last P \<longrightarrow> elem_next h' x = elem_next h x)"
proof -
  note cut = chain_cut [OF c ne(1), simplified]
  have c2: "chain h ((P @ [e]) @ S)" using c by simp
  note cut2 = chain_cut [OF c2 _ ne(2), simplified]
  let ?h' = "set_prev (set_next h (last P) (hd S)) (hd S) (last P)"
  have int: "is_interior h e" using cut cut2 by (simp add: is_interior_def)
  have neq: "e \<noteq> last P" "e \<noteq> hd S" "hd S \<notin> set P" "last P \<notin> set S"
    using cut cut2 ne last_in_set [of P] by auto
  have run: "list_remove h e = Some (hd S, ?h')"
    unfolding list_remove_def using int cut cut2 neq by (simp add: Let_def)
  have "links ?h' P"
    using cut cut2 neq by (subst links_cong [where h = h]) (auto simp: list.set_sel(2) [OF ne(1)])
  moreover have "links ?h' S"
    using cut cut2 neq by (subst links_cong [where h = h]) (auto dest: in_set_butlastD simp: list.set_sel(2) [OF ne(2)])
  ultimately have "links ?h' (P @ S)"
    using ne by (simp add: links_append)
  then have "chain ?h' (P @ S)" using c by (auto simp: chain_def)
  with run show ?thesis by (intro exI [of _ ?h']) auto
qed


lemma chain_interior:
  assumes "chain h (A @ e # B)" and "A \<noteq> []" and "B \<noteq> []"
  shows "is_interior h e" and "elem_next h e = hd B" and "elem_prev h e = last A"
proof -
  have c2: "chain h ((A @ [e]) @ B)" using assms(1) by simp
  note cut = chain_cut [OF assms(1,2), simplified] and cut2 = chain_cut [OF c2 _ assms(3), simplified]
  then show "is_interior h e" "elem_next h e = hd B" "elem_prev h e = last A"
    by (simp_all add: is_interior_def)
qed

lemma list_splice_chain:
  assumes c: "chain h (P @ M @ S @ Q)" and ne: "P \<noteq> []" "M \<noteq> []" "S \<noteq> []" "Q \<noteq> []"
  shows "\<exists>h'. list_splice h (hd M) (hd S) (hd Q) = Some h' \<and> chain h' (P @ S @ M @ Q) \<and>
    (\<forall>x. x \<noteq> hd M \<and> x \<noteq> hd S \<and> x \<noteq> hd Q \<longrightarrow> elem_prev h' x = elem_prev h x) \<and>
    (\<forall>x. x \<noteq> last P \<and> x \<noteq> last M \<and> x \<noteq> last S \<longrightarrow> elem_next h' x = elem_next h x)"
proof -
  have d: "distinct (P @ M @ S @ Q)" and z: "NULL \<notin> set (P @ M @ S @ Q)"
    using c by (auto simp: chain_def)
  have mem: "last P \<in> set P" "hd M \<in> set M" "last M \<in> set M" "hd S \<in> set S" "last S \<in> set S" "hd Q \<in> set Q"
    using ne by simp_all
  have dis: "set P \<inter> set M = {}" "set P \<inter> set S = {}" "set P \<inter> set Q = {}" "set M \<inter> set S = {}"
    "set M \<inter> set Q = {}" "set S \<inter> set Q = {}" "distinct P" "distinct M" "distinct S" "distinct Q"
    using d by auto
  have neq: "hd M \<noteq> hd S" "hd M \<noteq> hd Q" "hd S \<noteq> hd Q" "last P \<noteq> last M" "last P \<noteq> last S" "last M \<noteq> last S"
    using mem dis by (auto simp: disjoint_iff)
  have link: "elem_next h (last P) = hd M" "elem_prev h (hd M) = last P"
    "elem_next h (last M) = hd S" "elem_prev h (hd S) = last M"
    "elem_next h (last S) = hd Q" "elem_prev h (hd Q) = last S"
    "links h P" "links h M" "links h S" "links h Q"
    using c ne by (auto simp: chain_def links_append)
  have nz: "last S \<noteq> NULL" "hd Q \<noteq> NULL" using mem z by (metis Un_iff set_append)+
  have e: "P @ M @ S @ Q = P @ hd M # (tl M @ S @ Q)" "P @ M @ S @ Q = (P @ M) @ hd S # (tl S @ Q)"
    "P @ M @ S @ Q = (P @ M @ butlast S) @ last S # Q"
    using ne by simp_all
  have int: "is_interior h (hd M)" "is_interior h (hd S)" "is_interior h (last S)"
    using chain_interior(1) [OF c [unfolded e(1)]] chain_interior(1) [OF c [unfolded e(2)]]
      chain_interior(1) [OF c [unfolded e(3)]] ne
    by simp_all
  have q_ok: "is_interior h (hd Q) \<or> is_tail h (hd Q)"
    using nz link by (auto simp: is_interior_def is_tail_def)
  let ?h1 = "set_next h (last M) (hd Q)"
  let ?h2 = "set_prev ?h1 (hd Q) (last M)"
  let ?h3 = "set_prev ?h2 (hd S) (last P)"
  let ?h4 = "set_next ?h3 (last S) (hd M)"
  let ?h5 = "set_next ?h4 (last P) (hd S)"
  let ?h' = "set_prev ?h5 (hd M) (last S)"
  have run: "list_splice h (hd M) (hd S) (hd Q) = Some ?h'"
    unfolding list_splice_def list_prev_def using int q_ok neq link by (simp add: Let_def)
  have notin: "last P \<notin> set (butlast P)" "last M \<notin> set (butlast M)" "last S \<notin> set (butlast S)"
    "hd M \<notin> set (tl M)" "hd S \<notin> set (tl S)" "hd Q \<notin> set (tl Q)"
    using dis ne by (simp_all add: last_notin_butlast hd_notin_tl)
  have out: "last P \<notin> set M" "last P \<notin> set S" "last P \<notin> set Q" "last M \<notin> set P" "last M \<notin> set S" "last M \<notin> set Q"
    "last S \<notin> set P" "last S \<notin> set M" "last S \<notin> set Q" "hd M \<notin> set P" "hd M \<notin> set S" "hd M \<notin> set Q"
    "hd S \<notin> set P" "hd S \<notin> set M" "hd S \<notin> set Q" "hd Q \<notin> set P" "hd Q \<notin> set M" "hd Q \<notin> set S"
    using mem dis(1-6) by (simp_all add: disjoint_iff) blast+
  have keep: "links ?h' P = links h P" "links ?h' M = links h M" "links ?h' S = links h S" "links ?h' Q = links h Q"
    using out notin ne by (intro links_cong; fastforce dest: in_set_butlastD list.set_sel(2))+
  have "links ?h' (P @ S @ M @ Q)"
    using ne neq link keep by (simp add: links_append)
  moreover have "distinct (P @ S @ M @ Q)" using d by auto
  ultimately have "chain ?h' (P @ S @ M @ Q)" using z by (auto simp: chain_def)
  with run show ?thesis by (intro exI [of _ ?h']) auto
qed


section \<open>Refinement of the list operations\<close>

lemma dlist_chain: "dlist h l xs \<Longrightarrow> chain h (nodes l xs)"
  by (simp add: dlist_def)

lemma nodes_append: "nodes l (xs @ ys) = (head_of l # xs) @ (ys @ [tail_of l])"
  by (simp add: nodes_def)

lemma head_tail_neq [simp]: "head_of l \<noteq> tail_of l" "tail_of l \<noteq> head_of l"
  by (simp_all add: head_of_def tail_of_def)

lemma dlist_distinct:
  "dlist h l xs \<Longrightarrow> distinct xs \<and> head_of l \<notin> set xs \<and> tail_of l \<notin> set xs \<and> NULL \<notin> set xs"
  by (auto simp: dlist_def chain_def nodes_def)

lemma list_begin_dlist: "dlist h l xs \<Longrightarrow> list_begin h l = Some (hd (xs @ [tail_of l]))"
  by (auto simp: dlist_def list_begin_def chain_def nodes_def links_Cons)

lemma list_end_dlist: "dlist h l xs \<Longrightarrow> list_end l = Some (tail_of l)"
  by (simp add: dlist_def list_end_def)

lemma list_empty_dlist: "dlist h l xs \<Longrightarrow> list_empty h l = Some (xs = [])"
  using dlist_distinct [of h l xs]
  by (cases xs) (auto simp: list_empty_def list_begin_dlist list_end_dlist)

lemma list_next_dlist:
  assumes "dlist h l (xs @ e # ys)"
  shows "list_next h e = Some (hd (ys @ [tail_of l]))"
  using chain_interior [of h "head_of l # xs" e "ys @ [tail_of l]"] dlist_chain [OF assms]
  by (simp add: list_next_def nodes_def)

lemma list_prev_dlist:
  assumes "dlist h l (xs @ e # ys)"
  shows "list_prev h e = Some (last (head_of l # xs))"
  using chain_interior [of h "head_of l # xs" e "ys @ [tail_of l]"] dlist_chain [OF assms]
  by (simp add: list_prev_def nodes_def)

lemma list_prev_tail_dlist:
  assumes "dlist h l xs"
  shows "list_prev h (tail_of l) = Some (last (head_of l # xs))"
  using chain_cut [of h "head_of l # xs" "[tail_of l]"] assms
  by (auto simp: dlist_def list_prev_def nodes_def is_tail_def)

lemma cut_in_nodes:
  "last (head_of l # xs) \<in> set (nodes l (xs @ ys))" "hd (ys @ [tail_of l]) \<in> set (nodes l (xs @ ys))"
  by (cases xs; simp add: nodes_def) (cases ys; simp add: nodes_def)

lemma list_insert_dlist:
  assumes d: "dlist h l (xs @ ys)" and e: "e \<notin> set (nodes l (xs @ ys))" "e \<noteq> NULL"
  shows "\<exists>h'. list_insert h (hd (ys @ [tail_of l])) e = Some h' \<and> dlist h' l (xs @ e # ys) \<and>
    same_outside (insert e (set (nodes l (xs @ ys)))) h h'"
proof -
  let ?P = "head_of l # xs" and ?S = "ys @ [tail_of l]"
  have "chain h (?P @ ?S)" using d by (simp add: dlist_def nodes_def)
  moreover have "e \<notin> set (?P @ ?S)" using e by (simp add: nodes_def)
  ultimately obtain h' where h': "list_insert h (hd ?S) e = Some h'" "chain h' (?P @ e # ?S)"
    "\<forall>x. x \<noteq> e \<and> x \<noteq> hd ?S \<longrightarrow> elem_prev h' x = elem_prev h x"
    "\<forall>x. x \<noteq> e \<and> x \<noteq> last ?P \<longrightarrow> elem_next h' x = elem_next h x"
    using list_insert_chain [of h ?P ?S e] e(2) by blast
  have dn: "distinct (nodes l (xs @ ys))" using d by (simp add: dlist_def chain_def)
  have "head_of l \<noteq> hd ?S" and "tail_of l \<noteq> last ?P"
    using dn by (cases ys; auto simp: nodes_def)+
  then have "elem_prev h' (head_of l) = NULL" "elem_next h' (tail_of l) = NULL"
    using h'(3,4) e d by (auto simp: dlist_def nodes_def)
  then have "dlist h' l (xs @ e # ys)" using h'(2) d by (simp add: dlist_def nodes_def)
  moreover have "same_outside (insert e (set (nodes l (xs @ ys)))) h h'"
    unfolding same_outside_def using h'(3,4) cut_in_nodes(1) [of l xs ys] cut_in_nodes(2) [of ys l xs] by (metis insertCI)
  ultimately show ?thesis using h'(1) by blast
qed

lemma list_remove_dlist:
  assumes d: "dlist h l (xs @ e # ys)"
  shows "\<exists>h'. list_remove h e = Some (hd (ys @ [tail_of l]), h') \<and> dlist h' l (xs @ ys) \<and>
    same_outside (set (nodes l (xs @ ys))) h h'"
proof -
  let ?P = "head_of l # xs" and ?S = "ys @ [tail_of l]"
  have "chain h (?P @ e # ?S)" using d by (simp add: dlist_def nodes_def)
  then obtain h' where h': "list_remove h e = Some (hd ?S, h')" "chain h' (?P @ ?S)"
    "\<forall>x. x \<noteq> hd ?S \<longrightarrow> elem_prev h' x = elem_prev h x"
    "\<forall>x. x \<noteq> last ?P \<longrightarrow> elem_next h' x = elem_next h x"
    using list_remove_chain [of h ?P e ?S] by blast
  have dn: "distinct (nodes l (xs @ e # ys))" using d by (simp add: dlist_def chain_def)
  have "head_of l \<noteq> hd ?S" and "tail_of l \<noteq> last ?P"
    using dn by (cases ys; auto simp: nodes_def)+
  then have "elem_prev h' (head_of l) = NULL" "elem_next h' (tail_of l) = NULL"
    using h'(3,4) d by (auto simp: dlist_def nodes_def)
  then have "dlist h' l (xs @ ys)" using h'(2) d by (simp add: dlist_def nodes_def)
  moreover have "same_outside (set (nodes l (xs @ ys))) h h'"
    unfolding same_outside_def using h'(3,4) cut_in_nodes(1) [of l xs ys] cut_in_nodes(2) [of ys l xs] by metis
  ultimately show ?thesis using h'(1) by blast
qed

lemma list_push_front_dlist:
  assumes "dlist h l xs" and "e \<notin> set (nodes l xs)" and "e \<noteq> NULL"
  shows "\<exists>h'. list_push_front h l e = Some h' \<and> dlist h' l (e # xs) \<and>
    same_outside (insert e (set (nodes l xs))) h h'"
  using list_insert_dlist [of h l "[]" xs e] assms by (simp add: list_push_front_def list_begin_dlist)

lemma list_push_back_dlist:
  assumes "dlist h l xs" and "e \<notin> set (nodes l xs)" and "e \<noteq> NULL"
  shows "\<exists>h'. list_push_back h l e = Some h' \<and> dlist h' l (xs @ [e]) \<and>
    same_outside (insert e (set (nodes l xs))) h h'"
  using list_insert_dlist [of h l xs "[]" e] assms by (simp add: list_push_back_def list_end_dlist)

lemma list_pop_front_dlist:
  assumes "dlist h l (e # xs)"
  shows "\<exists>h'. list_pop_front h l = Some (e, h') \<and> dlist h' l xs \<and> same_outside (set (nodes l xs)) h h'"
proof -
  have "list_front h l = Some e"
    using assms list_begin_dlist [OF assms]
    by (simp add: list_front_def list_empty_dlist list_begin_def split: if_splits)
  then show ?thesis
    using list_remove_dlist [of h l "[]" e xs] assms by (auto simp: list_pop_front_def)
qed

lemma list_pop_back_dlist:
  assumes "dlist h l (xs @ [e])"
  shows "\<exists>h'. list_pop_back h l = Some (e, h') \<and> dlist h' l xs \<and> same_outside (set (nodes l xs)) h h'"
proof -
  have "list_back h l = Some e"
    using assms list_prev_tail_dlist [OF assms]
    by (simp add: list_back_def list_empty_dlist list_prev_def split: if_splits)
  then show ?thesis
    using list_remove_dlist [of h l xs e "[]"] assms by (auto simp: list_pop_back_def)
qed

lemma list_init_dlist:
  assumes "l \<noteq> NULL"
  shows "\<exists>h'. list_init h l = Some h' \<and> dlist h' l [] \<and> same_outside {head_of l, tail_of l} h h'"
  using assms by (auto simp: list_init_def Let_def dlist_def chain_def nodes_def same_outside_def head_of_def tail_of_def)


lemma tail_not_elem: "dlist h l (xs @ e # ys) \<Longrightarrow> e \<noteq> tail_of l"
  using dlist_distinct by fastforce

lemma size_loop_dlist:
  assumes "dlist h l (xs @ ys)" and "cnt < 2 ^ 32"
  shows "size_loop h l (hd (ys @ [tail_of l])) cnt = Some (wrap32 (cnt + length ys))"
  using assms
proof (induction ys arbitrary: xs cnt)
  case Nil
  then show ?case by (simp add: size_loop.simps list_end_dlist)
next
  case (Cons e ys)
  have "size_loop h l (hd (ys @ [tail_of l])) (wrap32 (cnt + 1)) = Some (wrap32 (wrap32 (cnt + 1) + length ys))"
    using Cons.prems by (intro Cons.IH [of "xs @ [e]"]) simp_all
  moreover have "wrap32 (wrap32 (cnt + 1) + length ys) = wrap32 (cnt + length (e # ys))"
    by (simp add: wrap32_def mod_simps)
  ultimately show ?case
    using Cons.prems(1) tail_not_elem [of h l xs e ys]
    by (subst size_loop.simps) (simp add: list_end_dlist list_next_dlist)
qed

lemma list_size_dlist: "dlist h l xs \<Longrightarrow> list_size h l = Some (wrap32 (length xs))"
  using size_loop_dlist [of h l "[]" xs 0] by (simp add: list_size_def list_begin_dlist)

definition insert_ord :: "(ptr \<Rightarrow> ptr \<Rightarrow> bool) \<Rightarrow> ptr \<Rightarrow> ptr list \<Rightarrow> ptr list" where
  "insert_ord lt e xs = takeWhile (\<lambda>x. \<not> lt e x) xs @ e # dropWhile (\<lambda>x. \<not> lt e x) xs"

lemma insert_ordered_loop_dlist:
  assumes "dlist h l (xs @ ys)"
  shows "insert_ordered_loop h l e lt (hd (ys @ [tail_of l])) =
    Some (hd (dropWhile (\<lambda>x. \<not> lt e x) ys @ [tail_of l]))"
  using assms
proof (induction ys arbitrary: xs)
  case Nil
  then show ?case by (simp add: insert_ordered_loop.simps list_end_dlist)
next
  case (Cons y ys)
  have "insert_ordered_loop h l e lt (hd (ys @ [tail_of l])) =
      Some (hd (dropWhile (\<lambda>x. \<not> lt e x) ys @ [tail_of l]))"
    using Cons.prems by (intro Cons.IH [of "xs @ [y]"]) simp
  then show ?case
    using Cons.prems tail_not_elem [of h l xs y ys]
    by (subst insert_ordered_loop.simps) (simp add: list_end_dlist list_next_dlist)
qed

lemma list_insert_ordered_dlist:
  assumes "dlist h l xs" and "e \<notin> set (nodes l xs)" and "e \<noteq> NULL"
  shows "\<exists>h'. list_insert_ordered h l e lt = Some h' \<and> dlist h' l (insert_ord lt e xs) \<and>
    same_outside (insert e (set (nodes l xs))) h h'"
proof -
  let ?A = "takeWhile (\<lambda>x. \<not> lt e x) xs" and ?B = "dropWhile (\<lambda>x. \<not> lt e x) xs"
  have "l \<noteq> NULL" using assms(1) by (simp add: dlist_def)
  moreover have "insert_ordered_loop h l e lt (hd (xs @ [tail_of l])) = Some (hd (?B @ [tail_of l]))"
    using insert_ordered_loop_dlist [of h l "[]" xs] assms(1) by simp
  moreover obtain h' where "list_insert h (hd (?B @ [tail_of l])) e = Some h'"
      "dlist h' l (?A @ e # ?B)" "same_outside (insert e (set (nodes l (?A @ ?B)))) h h'"
    using list_insert_dlist [of h l ?A ?B e] assms by auto
  ultimately show ?thesis
    using assms by (simp add: list_insert_ordered_def list_begin_dlist insert_ord_def)
qed

lemma max_loop_dlist:
  assumes "dlist h l (xs @ ys)"
  shows "max_loop h l lt mx (hd (ys @ [tail_of l])) = Some (foldl (\<lambda>m e. if lt m e then e else m) mx ys)"
  using assms
proof (induction ys arbitrary: xs mx)
  case Nil
  then show ?case by (simp add: max_loop.simps list_end_dlist)
next
  case (Cons y ys)
  have "max_loop h l lt m (hd (ys @ [tail_of l])) = Some (foldl (\<lambda>m e. if lt m e then e else m) m ys)" for m
    using Cons.prems by (intro Cons.IH [of "xs @ [y]"]) simp
  then show ?case
    using Cons.prems tail_not_elem [of h l xs y ys]
    by (subst max_loop.simps) (simp add: list_end_dlist list_next_dlist)
qed

lemma min_loop_dlist:
  assumes "dlist h l (xs @ ys)"
  shows "min_loop h l lt mn (hd (ys @ [tail_of l])) = Some (foldl (\<lambda>m e. if lt e m then e else m) mn ys)"
  using assms
proof (induction ys arbitrary: xs mn)
  case Nil
  then show ?case by (simp add: min_loop.simps list_end_dlist)
next
  case (Cons y ys)
  have "min_loop h l lt m (hd (ys @ [tail_of l])) = Some (foldl (\<lambda>m e. if lt e m then e else m) m ys)" for m
    using Cons.prems by (intro Cons.IH [of "xs @ [y]"]) simp
  then show ?case
    using Cons.prems tail_not_elem [of h l xs y ys]
    by (subst min_loop.simps) (simp add: list_end_dlist list_next_dlist)
qed

lemma list_max_dlist:
  assumes "dlist h l xs"
  shows "list_max h l lt = Some (case xs of [] \<Rightarrow> tail_of l | x # ys \<Rightarrow> foldl (\<lambda>m e. if lt m e then e else m) x ys)"
proof (cases xs)
  case Nil
  with assms show ?thesis by (simp add: list_max_def list_begin_dlist list_end_dlist)
next
  case (Cons x ys)
  with assms show ?thesis
    using max_loop_dlist [of h l "[x]" ys lt x] list_next_dlist [of h l "[]" x ys] tail_not_elem [of h l "[]" x ys]
    by (simp add: list_max_def list_begin_dlist list_end_dlist)
qed

lemma list_min_dlist:
  assumes "dlist h l xs"
  shows "list_min h l lt = Some (case xs of [] \<Rightarrow> tail_of l | x # ys \<Rightarrow> foldl (\<lambda>m e. if lt e m then e else m) x ys)"
proof (cases xs)
  case Nil
  with assms show ?thesis by (simp add: list_min_def list_begin_dlist list_end_dlist)
next
  case (Cons x ys)
  with assms show ?thesis
    using min_loop_dlist [of h l "[x]" ys lt x] list_next_dlist [of h l "[]" x ys] tail_not_elem [of h l "[]" x ys]
    by (simp add: list_min_def list_begin_dlist list_end_dlist)
qed

end
