(* ===== verification/List_Sort.thy ===== *)
theory List_Sort
  imports Kernel_List "HOL-Library.Multiset"
begin

text \<open>
  Correctness of the natural merge sort of \<^verbatim>\<open>lib/kernel/list.c\<close>: the run finder, the in-place merge
  and the passes of \<^verbatim>\<open>list_sort\<close> refine functions on lists of elements, the passes end, and the result is
  the stable rearrangement of the list. The contract of the comparison function a client passes is
  the locale \<open>less_func\<close>; it is interpreted on the comparison by a key that the clients of the
  library use.
\<close>

section \<open>The contract of a comparison function\<close>

locale less_func =
  fixes lt :: "'a \<Rightarrow> 'a \<Rightarrow> bool"
  assumes asym: "lt a b \<Longrightarrow> \<not> lt b a"
    and negtrans: "\<not> lt b a \<Longrightarrow> \<not> lt c b \<Longrightarrow> \<not> lt c a"
begin

definition eqv :: "'a \<Rightarrow> 'a \<Rightarrow> bool" where
  "eqv a b \<longleftrightarrow> \<not> lt a b \<and> \<not> lt b a"

lemma irrefl [simp]: "\<not> lt a a"
  using asym by blast

lemma eqv_refl [simp]: "eqv a a"
  by (simp add: eqv_def)

lemma eqv_sym: "eqv a b \<Longrightarrow> eqv b a"
  by (simp add: eqv_def)

lemma eqv_trans: "eqv a b \<Longrightarrow> eqv b c \<Longrightarrow> eqv a c"
  using negtrans unfolding eqv_def by blast

lemma trans: "lt a b \<Longrightarrow> lt b c \<Longrightarrow> lt a c"
  using negtrans asym by blast

lemma lt_eqv_left: "eqv a b \<Longrightarrow> lt b c \<Longrightarrow> lt a c"
  using negtrans unfolding eqv_def by blast

end

text \<open>The comparison of \<^verbatim>\<open>tests/internal/list.c\<close>: elements are compared by the value they are embedded with.\<close>

definition value_less :: "(ptr \<Rightarrow> int) \<Rightarrow> ptr \<Rightarrow> ptr \<Rightarrow> bool" where
  "value_less val_of a b \<longleftrightarrow> val_of a < val_of b"

interpretation value_less: less_func "value_less val_of" for val_of
  by unfold_locales (auto simp: value_less_def)

section \<open>The functions on lists of elements\<close>

fun split_run :: "('a \<Rightarrow> 'a \<Rightarrow> bool) \<Rightarrow> 'a \<Rightarrow> 'a list \<Rightarrow> 'a list \<times> 'a list" where
  "split_run lt a [] = ([], [])"
| "split_run lt a (y # ys) =
     (if lt y a then ([], y # ys) else (y # fst (split_run lt y ys), snd (split_run lt y ys)))"

fun is_run :: "('a \<Rightarrow> 'a \<Rightarrow> bool) \<Rightarrow> 'a list \<Rightarrow> bool" where
  "is_run lt (a # b # xs) \<longleftrightarrow> \<not> lt b a \<and> is_run lt (b # xs)"
| "is_run lt _ \<longleftrightarrow> True"

fun merge :: "('a \<Rightarrow> 'a \<Rightarrow> bool) \<Rightarrow> 'a list \<Rightarrow> 'a list \<Rightarrow> 'a list" where
  "merge lt (a # A) (b # B) =
     (if \<not> lt b a then a # merge lt A (b # B) else b # merge lt (a # A) B)"
| "merge lt [] B = B"
| "merge lt A [] = A"

lemma split_run_append: "fst (split_run lt a ys) @ snd (split_run lt a ys) = ys"
  by (induction lt a ys rule: split_run.induct) auto

lemma split_run_is_run: "is_run lt (a # fst (split_run lt a ys))"
  by (induction lt a ys rule: split_run.induct) auto

lemma split_run_length: "length (snd (split_run lt a ys)) \<le> length ys"
  by (metis le_add2 length_append split_run_append)

lemma merge_Nil2 [simp]: "merge lt A [] = A"
  by (cases A) auto

function pass :: "('a \<Rightarrow> 'a \<Rightarrow> bool) \<Rightarrow> 'a list \<Rightarrow> 'a list" where
  "pass lt [] = []"
| "pass lt (a # ys) =
     (case snd (split_run lt a ys) of
        [] \<Rightarrow> a # ys
      | b # zs \<Rightarrow>
          merge lt (a # fst (split_run lt a ys)) (b # fst (split_run lt b zs)) @ pass lt (snd (split_run lt b zs)))"
  by pat_completeness auto
termination
proof (relation "measure (\<lambda>(lt, xs). length xs)")
  fix lt :: "'a \<Rightarrow> 'a \<Rightarrow> bool" and a ys b zs
  assume "snd (split_run lt a ys) = b # zs"
  then show "((lt, snd (split_run lt b zs)), lt, a # ys) \<in> measure (\<lambda>(lt, xs). length xs)"
    using split_run_length [of lt a ys] split_run_length [of lt b zs] by simp
qed simp

text \<open>The number of maximal runs of a list, and the number of runs a pass writes.\<close>

fun nruns :: "('a \<Rightarrow> 'a \<Rightarrow> bool) \<Rightarrow> 'a list \<Rightarrow> nat" where
  "nruns lt [] = 0"
| "nruns lt [a] = 1"
| "nruns lt (a # b # xs) = (if lt b a then 1 else 0) + nruns lt (b # xs)"

definition out_runs :: "('a \<Rightarrow> 'a \<Rightarrow> bool) \<Rightarrow> 'a list \<Rightarrow> nat" where
  "out_runs lt xs = (nruns lt xs + 1) div 2"

lemma nruns_split: "nruns lt (a # ys) = 1 + nruns lt (snd (split_run lt a ys))"
  by (induction lt a ys rule: split_run.induct) auto

lemma nruns_le_length: "nruns lt xs \<le> length xs"
  by (induction lt xs rule: nruns.induct) auto

lemma nruns_is_run: "is_run lt xs \<Longrightarrow> nruns lt xs \<le> 1"
  by (induction lt xs rule: is_run.induct) auto

lemma is_run_nruns: "nruns lt xs \<le> 1 \<Longrightarrow> is_run lt xs"
proof (induction lt xs rule: is_run.induct)
  case (1 lt a b xs)
  have "1 \<le> nruns lt (b # xs)" by (simp add: nruns_split)
  with 1 show ?case by (auto split: if_splits)
qed auto

lemma nruns_append: "nruns lt (xs @ ys) \<le> nruns lt xs + nruns lt ys"
proof (induction lt xs rule: nruns.induct)
  case (2 lt a)
  then show ?case by (cases ys) auto
qed auto

lemma out_runs_simps:
  "out_runs lt [] = 0"
  "snd (split_run lt a ys) = [] \<Longrightarrow> out_runs lt (a # ys) = 1"
  "snd (split_run lt a ys) = b # zs \<Longrightarrow> out_runs lt (a # ys) = 1 + out_runs lt (snd (split_run lt b zs))"
  by (simp_all add: out_runs_def nruns_split [of lt a ys] nruns_split [of lt b zs])

lemma mset_merge [simp]: "mset (merge lt A B) = mset A + mset B"
  by (induction lt A B rule: merge.induct) auto

lemma set_merge [simp]: "set (merge lt A B) = set A \<union> set B"
  by (metis mset_merge set_mset_mset set_mset_union)

lemma mset_pass [simp]: "mset (pass lt xs) = mset xs"
proof (induction lt xs rule: pass.induct)
  case (2 lt a ys)
  let ?A = "fst (split_run lt a ys)"
  have ys: "mset ys = mset ?A + mset (snd (split_run lt a ys))"
    by (metis split_run_append mset_append)
  show ?case
  proof (cases "snd (split_run lt a ys)")
    case (Cons b zs)
    have "mset zs = mset (fst (split_run lt b zs)) + mset (snd (split_run lt b zs))"
      by (metis split_run_append mset_append)
    with Cons ys 2 show ?thesis by simp
  qed simp
qed simp

lemma merge_induct [case_names Cons Nil1 Nil2]:
  fixes lt :: "'a \<Rightarrow> 'a \<Rightarrow> bool"
  assumes "\<And>a A b B. (\<not> lt b a \<Longrightarrow> P A (b # B)) \<Longrightarrow> (lt b a \<Longrightarrow> P (a # A) B) \<Longrightarrow> P (a # A) (b # B)"
    and "\<And>B. P [] B" and "\<And>A. P A []"
  shows "P A B"
  by (induction A B rule: merge.induct [where P = "\<lambda>l A B. l = lt \<longrightarrow> P A B", rule_format, of lt])
    (use assms in blast)+

context less_func
begin

lemma is_run_Cons: "is_run lt (a # xs) \<longleftrightarrow> (\<forall>x\<in>set xs. \<not> lt x a) \<and> is_run lt xs"
proof (induction xs arbitrary: a)
  case (Cons b xs)
  have "(\<forall>x\<in>set xs. \<not> lt x a)" if "\<not> lt b a" "\<forall>x\<in>set xs. \<not> lt x b"
    using that negtrans by blast
  with Cons show ?case by auto
qed simp

lemma is_run_sorted: "is_run lt xs \<longleftrightarrow> sorted_wrt (\<lambda>a b. \<not> lt b a) xs"
  by (induction xs) (simp_all add: is_run_Cons)

lemma is_run_merge: "is_run lt A \<Longrightarrow> is_run lt B \<Longrightarrow> is_run lt (merge lt A B)"
proof (induction A B rule: merge_induct [where lt = lt])
  case (Cons a A b B)
  show ?case
  proof (cases "lt b a")
    case True
    have "\<not> lt x b" if "x \<in> set A" for x
      using that Cons.prems negtrans [OF asym [OF True]] by (simp add: is_run_Cons)
    with True Cons asym [OF True] show ?thesis by (auto simp: is_run_Cons)
  next
    case False
    have "\<not> lt x a" if "x \<in> set B" for x
      using that Cons.prems negtrans [OF False] by (simp add: is_run_Cons)
    with False Cons show ?thesis by (auto simp: is_run_Cons)
  qed
qed auto

text \<open>The merge is stable: elements that compare equal keep their order, the left run first.\<close>

lemma filter_merge:
  assumes "is_run lt A"
  shows "filter (eqv k) (merge lt A B) = filter (eqv k) A @ filter (eqv k) B"
  using assms
proof (induction A B rule: merge_induct [where lt = lt])
  case (Cons a A b B)
  show ?case
  proof (cases "lt b a")
    case True
    have "filter (eqv k) (a # A) = []" if "eqv k b"
    proof -
      have "lt k x" if "x \<in> set (a # A)" for x
      proof -
        have "\<not> lt x a" using Cons.prems that by (auto simp: is_run_Cons)
        with True have "lt b x" using negtrans by blast
        with \<open>eqv k b\<close> show ?thesis by (rule lt_eqv_left)
      qed
      then show ?thesis by (auto simp: eqv_def filter_empty_conv)
    qed
    with Cons True show ?thesis by auto
  next
    case False
    with Cons show ?thesis by (simp add: is_run_Cons)
  qed
qed auto

lemma filter_pass: "filter (eqv k) (pass lt xs) = filter (eqv k) xs"
proof (induction xs rule: length_induct)
  case (1 xs)
  show ?case
  proof (cases xs)
    case (Cons a ys)
    let ?A = "fst (split_run lt a ys)"
    have ys: "filter (eqv k) ys = filter (eqv k) ?A @ filter (eqv k) (snd (split_run lt a ys))"
      by (metis split_run_append filter_append)
    show ?thesis
    proof (cases "snd (split_run lt a ys)")
      case Nil
      with Cons show ?thesis by simp
    next
      case (Cons b zs)
      have zs: "filter (eqv k) zs =
          filter (eqv k) (fst (split_run lt b zs)) @ filter (eqv k) (snd (split_run lt b zs))"
        by (metis split_run_append filter_append)
      have "length (snd (split_run lt b zs)) < length xs"
        using split_run_length [of lt a ys] split_run_length [of lt b zs] Cons \<open>xs = a # ys\<close> by simp
      with 1 have C: "filter (eqv k) (pass lt (snd (split_run lt b zs))) = filter (eqv k) (snd (split_run lt b zs))"
        by blast
      have "filter (eqv k) (merge lt (a # ?A) (b # fst (split_run lt b zs))) =
          filter (eqv k) (a # ?A) @ filter (eqv k) (b # fst (split_run lt b zs))"
        by (rule filter_merge [OF split_run_is_run])
      then show ?thesis
        using C Cons \<open>xs = a # ys\<close> ys zs by (simp del: merge.simps)
    qed
  qed simp
qed

lemma nruns_pass: "nruns lt (pass lt xs) \<le> out_runs lt xs"
proof (induction xs rule: length_induct)
  case (1 xs)
  show ?case
  proof (cases xs)
    case (Cons a ys)
    show ?thesis
    proof (cases "snd (split_run lt a ys)")
      case Nil
      with Cons show ?thesis by (simp add: out_runs_simps nruns_split)
    next
      case (Cons b zs)
      let ?A = "a # fst (split_run lt a ys)" and ?B = "b # fst (split_run lt b zs)"
        and ?C = "snd (split_run lt b zs)"
      have "length ?C < length xs"
        using split_run_length [of lt a ys] split_run_length [of lt b zs] Cons \<open>xs = a # ys\<close> by simp
      with 1 have "nruns lt (pass lt ?C) \<le> out_runs lt ?C" by blast
      moreover have "nruns lt (merge lt ?A ?B) \<le> 1"
        by (intro nruns_is_run is_run_merge split_run_is_run)
      moreover have "nruns lt (merge lt ?A ?B @ pass lt ?C) \<le> nruns lt (merge lt ?A ?B) + nruns lt (pass lt ?C)"
        by (rule nruns_append)
      ultimately show ?thesis
        using Cons \<open>xs = a # ys\<close> by (simp add: out_runs_simps)
    qed
  qed simp
qed

end


section \<open>The routines refine the list functions\<close>

lemma end_of_run_loop_dlist:
  assumes "dlist h l (xs @ a # ys)"
  shows "end_of_run_loop h a (tail_of l) lt = Some (hd (snd (split_run lt a ys) @ [tail_of l]))"
  using assms
proof (induction ys arbitrary: xs a)
  case Nil
  then show ?case by (subst end_of_run_loop.simps) (simp add: list_next_dlist)
next
  case (Cons y ys)
  have d: "dlist h l ((xs @ [a]) @ y # ys)" using Cons.prems by simp
  have "end_of_run_loop h y (tail_of l) lt = Some (hd (snd (split_run lt y ys) @ [tail_of l]))"
    by (rule Cons.IH [OF d])
  then show ?case
    using tail_not_elem [OF d] list_prev_dlist [OF d]
    by (subst end_of_run_loop.simps) (simp add: list_next_dlist [OF Cons.prems])
qed

lemma find_end_of_run_dlist:
  assumes "dlist h l (xs @ a # ys)"
  shows "find_end_of_run h a (tail_of l) lt = Some (hd (snd (split_run lt a ys) @ [tail_of l]))"
  using end_of_run_loop_dlist [OF assms] dlist_distinct [OF assms] tail_not_elem [OF assms]
  by (auto simp: find_end_of_run_def tail_of_def)

lemma hd_app_neq: "dlist h l (xs @ a # ys @ B) \<Longrightarrow> a \<noteq> hd (B @ [tail_of l])"
  using dlist_distinct [of h l "xs @ a # ys @ B"] by (cases B) auto

lemma is_sorted_loop_dlist:
  assumes "dlist h l (xs @ a # A @ B)"
  shows "is_sorted_loop h a (hd (B @ [tail_of l])) lt = Some (is_run lt (a # A))"
  using assms
proof (induction A arbitrary: xs a)
  case Nil
  then show ?case by (subst is_sorted_loop.simps) (simp add: list_next_dlist)
next
  case (Cons y A)
  have d: "dlist h l ((xs @ [a]) @ y # A @ B)" using Cons.prems by simp
  have "is_sorted_loop h y (hd (B @ [tail_of l])) lt = Some (is_run lt (y # A))"
    by (rule Cons.IH [OF d])
  then show ?case
    using hd_app_neq [OF d] list_prev_dlist [OF d] Cons.prems
    by (subst is_sorted_loop.simps) (simp add: list_next_dlist)
qed

lemma is_sorted_dlist:
  assumes "dlist h l (xs @ A @ B)"
  shows "is_sorted h (hd (A @ B @ [tail_of l])) (hd (B @ [tail_of l])) lt = Some (is_run lt A)"
proof (cases A)
  case (Cons a A')
  with assms have "dlist h l (xs @ a # A' @ B)" by simp
  then show ?thesis
    using hd_app_neq [of h l xs a A' B] is_sorted_loop_dlist [of h l xs a A' B lt] Cons
    by (simp add: is_sorted_def)
qed (simp add: is_sorted_def)

lemma list_splice_dlist:
  assumes d: "dlist h l (xs @ M @ S @ ys)" and ne: "M \<noteq> []" "S \<noteq> []"
  shows "\<exists>h'. list_splice h (hd M) (hd S) (hd (ys @ [tail_of l])) = Some h' \<and>
    dlist h' l (xs @ S @ M @ ys) \<and> same_outside (set (nodes l (xs @ M @ S @ ys))) h h'"
proof -
  let ?P = "head_of l # xs" and ?Q = "ys @ [tail_of l]"
  have "chain h (?P @ M @ S @ ?Q)" using d by (simp add: dlist_def nodes_def)
  then obtain h' where h': "list_splice h (hd M) (hd S) (hd ?Q) = Some h'" "chain h' (?P @ S @ M @ ?Q)"
    "\<forall>x. x \<noteq> hd M \<and> x \<noteq> hd S \<and> x \<noteq> hd ?Q \<longrightarrow> elem_prev h' x = elem_prev h x"
    "\<forall>x. x \<noteq> last ?P \<and> x \<noteq> last M \<and> x \<noteq> last S \<longrightarrow> elem_next h' x = elem_next h x"
    using list_splice_chain [of h ?P M S ?Q] ne by blast
  have mem: "hd M \<in> set M" "last M \<in> set M" "hd S \<in> set S" "last S \<in> set S" using ne by simp_all
  have dn: "distinct (nodes l (xs @ M @ S @ ys))" using d by (simp add: dlist_def chain_def)
  have "head_of l \<noteq> hd ?Q" "tail_of l \<noteq> last ?P"
    using dn by (cases ys; auto simp: nodes_def)+
  moreover have "head_of l \<noteq> hd M" "head_of l \<noteq> hd S" "tail_of l \<noteq> last M" "tail_of l \<noteq> last S"
    using dn mem by (auto simp: nodes_def)
  ultimately have "elem_prev h' (head_of l) = NULL" "elem_next h' (tail_of l) = NULL"
    using h'(3,4) d by (auto simp: dlist_def)
  then have "dlist h' l (xs @ S @ M @ ys)" using h'(2) d by (simp add: dlist_def nodes_def)
  moreover have "same_outside (set (nodes l (xs @ M @ S @ ys))) h h'"
  proof -
    have "last ?P \<in> set (nodes l (xs @ M @ S @ ys))" "hd ?Q \<in> set (nodes l (xs @ M @ S @ ys))"
      using cut_in_nodes(1) [of l xs "M @ S @ ys"] cut_in_nodes(2) [of ys l "xs @ M @ S"] by simp_all
    moreover have "hd M \<in> set (nodes l (xs @ M @ S @ ys))" "last M \<in> set (nodes l (xs @ M @ S @ ys))"
      "hd S \<in> set (nodes l (xs @ M @ S @ ys))" "last S \<in> set (nodes l (xs @ M @ S @ ys))"
      using mem by (simp_all add: nodes_def)
    ultimately show ?thesis unfolding same_outside_def using h'(3,4) by metis
  qed
  ultimately show ?thesis using h'(1) by blast
qed

lemma same_outside_refl [simp]: "same_outside A h h"
  by (simp add: same_outside_def)

lemma same_outside_trans: "same_outside A h h' \<Longrightarrow> same_outside A h' h'' \<Longrightarrow> same_outside A h h''"
  by (simp add: same_outside_def)

lemma set_nodes: "set (nodes l xs) = insert (head_of l) (insert (tail_of l) (set xs))"
  by (auto simp: nodes_def)

lemma merge_loop_dlist:
  assumes "dlist h l (xs @ A @ B @ ys)"
  shows "\<exists>h'. merge_loop h (hd (A @ B @ ys @ [tail_of l])) (hd (B @ ys @ [tail_of l])) (hd (ys @ [tail_of l])) lt
      = Some h' \<and> dlist h' l (xs @ merge lt A B @ ys) \<and> same_outside (set (nodes l (xs @ A @ B @ ys))) h h'"
  using assms
proof (induction A B arbitrary: h xs rule: merge_induct [where lt = lt])
  case (Cons a A b B)
  have da: "dlist h l (xs @ a # A @ (b # B @ ys))" and db: "dlist h l ((xs @ a # A) @ b # B @ ys)"
    using Cons.prems by simp_all
  have neq: "a \<noteq> b" "b \<noteq> hd (ys @ [tail_of l])"
    using hd_app_neq [OF da] hd_app_neq [OF db] by simp_all
  show ?case
  proof (cases "lt b a")
    case False
    have "dlist h l ((xs @ [a]) @ A @ (b # B) @ ys)" using Cons.prems by simp
    from Cons.IH(1) [OF False this] show ?thesis
      using False neq list_next_dlist [OF da] by (subst merge_loop.simps) simp
  next
    case True
    let ?q = "hd (B @ ys @ [tail_of l])"
    have nb: "list_next h b = Some ?q" using list_next_dlist [OF db] by simp
    have pv: "list_prev h ?q = Some b"
    proof (cases "B @ ys")
      case Nil
      then show ?thesis using list_prev_tail_dlist [OF db] by simp
    next
      case (Cons q qs)
      have "dlist h l ((xs @ a # A @ [b]) @ q # qs)" using db Cons by simp
      from list_prev_dlist [OF this] show ?thesis using Cons by (cases B) auto
    qed
    have "dlist h l (xs @ (a # A) @ [b] @ (B @ ys))" using Cons.prems by simp
    then obtain h1 where h1: "list_splice h a b ?q = Some h1" "dlist h1 l (xs @ [b] @ (a # A) @ (B @ ys))"
      "same_outside (set (nodes l (xs @ (a # A) @ [b] @ (B @ ys)))) h h1"
      using list_splice_dlist [of h l xs "a # A" "[b]" "B @ ys"] by auto
    have "dlist h1 l ((xs @ [b]) @ (a # A) @ B @ ys)" using h1(2) by simp
    from Cons.IH(2) [OF True this] obtain h' where h': "merge_loop h1 a ?q (hd (ys @ [tail_of l])) lt = Some h'"
      "dlist h' l (xs @ merge lt (a # A) (b # B) @ ys)"
      "same_outside (set (nodes l ((xs @ [b]) @ (a # A) @ B @ ys))) h1 h'"
      using True by auto
    have "merge_loop h a b (hd (ys @ [tail_of l])) lt = Some h'"
      using True neq nb pv h1(1) h'(1) by (subst merge_loop.simps) simp
    moreover have "same_outside (set (nodes l (xs @ (a # A) @ (b # B) @ ys))) h h'"
    proof -
      have e: "set (nodes l ((xs @ [b]) @ (a # A) @ B @ ys)) = set (nodes l (xs @ (a # A) @ (b # B) @ ys))"
        "set (nodes l (xs @ (a # A) @ [b] @ (B @ ys))) = set (nodes l (xs @ (a # A) @ (b # B) @ ys))"
        by (auto simp: set_nodes)
      show ?thesis using same_outside_trans [OF h1(3) [unfolded e] h'(3) [unfolded e]] .
    qed
    ultimately show ?thesis using h'(2) by auto
  qed
next
  case (Nil1 B)
  then show ?case by (subst merge_loop.simps) simp
next
  case (Nil2 A)
  then show ?case by (subst merge_loop.simps) simp
qed


lemma split_run_decomp:
  obtains A where "ys = A @ snd (split_run lt a ys)" "A = fst (split_run lt a ys)"
  by (metis split_run_append)

lemma is_sorted_run:
  assumes "dlist h l (xs @ A @ B)" and "is_run lt A"
  shows "is_sorted h (hd (A @ B @ [tail_of l])) (hd (B @ [tail_of l])) lt = Some True"
  using is_sorted_dlist [OF assms(1)] assms(2) by simp

lemma inplace_merge_dlist:
  assumes d: "dlist h l (xs @ A @ B @ ys)" and r: "is_run lt A" "is_run lt B"
  shows "\<exists>h'. inplace_merge h (hd (A @ B @ ys @ [tail_of l])) (hd (B @ ys @ [tail_of l])) (hd (ys @ [tail_of l])) lt
      = Some h' \<and> dlist h' l (xs @ merge lt A B @ ys) \<and> same_outside (set (nodes l (xs @ A @ B @ ys))) h h'"
proof -
  have nz: "hd (N @ [tail_of l]) \<noteq> NULL" if "set N \<subseteq> set (xs @ A @ B @ ys)" for N
    using that dlist_distinct [OF d] by (cases N) (auto simp: tail_of_def)
  have s: "is_sorted h (hd (A @ B @ ys @ [tail_of l])) (hd (B @ ys @ [tail_of l])) lt = Some True"
    using is_sorted_run [of h l xs A "B @ ys"] d r by simp
  have s2: "is_sorted h (hd (B @ ys @ [tail_of l])) (hd (ys @ [tail_of l])) lt = Some True"
    using is_sorted_run [of h l "xs @ A" B ys] d r by simp
  have "inplace_merge h (hd (A @ B @ ys @ [tail_of l])) (hd (B @ ys @ [tail_of l])) (hd (ys @ [tail_of l])) lt =
      merge_loop h (hd (A @ B @ ys @ [tail_of l])) (hd (B @ ys @ [tail_of l])) (hd (ys @ [tail_of l])) lt"
  proof -
    have "hd (A @ B @ ys @ [tail_of l]) \<noteq> NULL" "hd (B @ ys @ [tail_of l]) \<noteq> NULL" "hd (ys @ [tail_of l]) \<noteq> NULL"
      using nz [of "A @ B @ ys"] nz [of "B @ ys"] nz [of ys] by fastforce+
    then show ?thesis by (simp only: inplace_merge_def s s2 ASSERT_bind if_True not_False_eq_True bind.bind_lunit)
  qed
  then show ?thesis using merge_loop_dlist [OF d, of lt] by simp
qed

lemma sort_pass_dlist:
  assumes "dlist h l (xs @ zs)" and "cnt + out_runs lt zs < 4294967296"
  shows "\<exists>h'. sort_pass h l (hd (zs @ [tail_of l])) lt cnt = Some (h', cnt + out_runs lt zs) \<and>
    dlist h' l (xs @ pass lt zs) \<and> same_outside (set (nodes l (xs @ zs))) h h'"
  using assms
proof (induction zs arbitrary: h xs cnt rule: length_induct)
  case (1 zs)
  note d = "1.prems"(1)
  show ?case
  proof (cases zs)
    case Nil
    with d show ?thesis by (subst sort_pass.simps) (simp add: list_end_dlist out_runs_simps)
  next
    case zs: (Cons a ys)
    let ?A = "fst (split_run lt a ys)"
    have ys: "ys = ?A @ snd (split_run lt a ys)" by (simp add: split_run_append)
    have da: "dlist h l (xs @ a # ys)" using d zs by simp
    note run1 = find_end_of_run_dlist [OF da, of lt]
    show ?thesis
    proof (cases "snd (split_run lt a ys)")
      case Nil
      then show ?thesis
        using d zs run1 "1.prems"(2) tail_not_elem [OF da]
        by (subst sort_pass.simps) (simp add: list_end_dlist [OF d] out_runs_simps)
    next
      case (Cons b bs)
      let ?B = "fst (split_run lt b bs)" and ?C = "snd (split_run lt b bs)"
      have bs: "bs = ?B @ ?C" by (simp add: split_run_append)
      have all: "zs = (a # ?A) @ (b # ?B) @ ?C" using zs ys Cons bs by simp
      have db: "dlist h l ((xs @ a # ?A) @ b # bs)" using d zs ys Cons by simp
      note run2 = find_end_of_run_dlist [OF db, of lt]
      have "dlist h l (xs @ (a # ?A) @ (b # ?B) @ ?C)" using d all by simp
      from inplace_merge_dlist [OF this split_run_is_run split_run_is_run]
      obtain h1 where h1: "inplace_merge h a b (hd (?C @ [tail_of l])) lt = Some h1"
        "dlist h1 l ((xs @ merge lt (a # ?A) (b # ?B)) @ ?C)" "same_outside (set (nodes l (xs @ zs))) h h1"
        using all by auto
      have len: "length ?C < length zs" using arg_cong [OF all, of length] by simp
      have cnt: "cnt + out_runs lt zs = (cnt + 1) + out_runs lt ?C" "wrap32 (cnt + 1) = cnt + 1"
        using Cons zs "1.prems"(2) by (simp_all add: out_runs_simps)
      from "1.IH" [rule_format, OF len h1(2), of "cnt + 1"] "1.prems"(2)
      obtain h' where h': "sort_pass h1 l (hd (?C @ [tail_of l])) lt (cnt + 1) = Some (h', cnt + out_runs lt zs)"
        "dlist h' l ((xs @ merge lt (a # ?A) (b # ?B)) @ pass lt ?C)"
        "same_outside (set (nodes l ((xs @ merge lt (a # ?A) (b # ?B)) @ ?C))) h1 h'"
        unfolding cnt(1) by blast
      have "set (nodes l ((xs @ merge lt (a # ?A) (b # ?B)) @ ?C)) = set (nodes l (xs @ zs))"
        by (subst all) (auto simp: set_nodes simp del: merge.simps)
      then have "same_outside (set (nodes l (xs @ zs))) h h'"
        using same_outside_trans [OF h1(3)] h'(3) by simp
      moreover have "sort_pass h l a lt cnt = Some (h', cnt + out_runs lt zs)"
        using h'(1) h1(1) run1 run2 cnt Cons tail_not_elem [OF da] tail_not_elem [OF db]
        by (subst sort_pass.simps) (simp add: list_end_dlist [OF d])
      ultimately show ?thesis using h'(2) zs Cons by simp
    qed
  qed
qed


context less_func
begin

text \<open>An ordered insertion keeps a sorted list sorted.\<close>

lemma insert_ord_sorted:
  assumes "sorted_wrt (\<lambda>a b. \<not> lt b a) xs"
  shows "sorted_wrt (\<lambda>a b. \<not> lt b a) (takeWhile (\<lambda>x. \<not> lt e x) xs @ e # dropWhile (\<lambda>x. \<not> lt e x) xs)"
  using assms
proof (induction xs)
  case (Cons x xs)
  show ?case
  proof (cases "lt e x")
    case True
    have "\<not> lt y e" if "y \<in> set xs" for y
      using that Cons.prems negtrans [OF asym [OF True]] by auto
    with True Cons.prems asym [OF True] show ?thesis by auto
  next
    case False
    with Cons show ?thesis by (auto dest: set_takeWhileD set_dropWhileD)
  qed
qed simp

text \<open>The fold of \<^verbatim>\<open>list_max\<close> returns the first of the largest elements, that of \<^verbatim>\<open>list_min\<close> the first of the smallest.\<close>

lemma fold_max_first:
  "\<exists>A B. x # ys = A @ foldl (\<lambda>m e. if lt m e then e else m) x ys # B \<and>
     (\<forall>a\<in>set A. lt a (foldl (\<lambda>m e. if lt m e then e else m) x ys)) \<and>
     (\<forall>b\<in>set B. \<not> lt (foldl (\<lambda>m e. if lt m e then e else m) x ys) b)"
proof (induction ys rule: rev_induct)
  case (snoc y ys)
  let ?m = "foldl (\<lambda>m e. if lt m e then e else m) x ys"
  obtain A B where AB: "x # ys = A @ ?m # B" "\<forall>a\<in>set A. lt a ?m" "\<forall>b\<in>set B. \<not> lt ?m b"
    using snoc by blast
  show ?case
  proof (cases "lt ?m y")
    case True
    have "\<forall>a\<in>set (A @ ?m # B). lt a y"
    proof
      fix a assume "a \<in> set (A @ ?m # B)"
      then consider "a \<in> set A" | "a = ?m" | "a \<in> set B" by auto
      then show "lt a y"
      proof cases
        case 1
        with AB(2) True show ?thesis using trans by blast
      next
        case 2
        with True show ?thesis by simp
      next
        case 3
        with AB(3) have "\<not> lt ?m a" by blast
        with True show ?thesis using negtrans [of a y ?m] by blast
      qed
    qed
    with True AB show ?thesis
      by (intro exI [of _ "x # ys"] exI [of _ "[]"]) simp
  next
    case False
    with AB show ?thesis by (intro exI [of _ A] exI [of _ "B @ [y]"]) auto
  qed
qed (intro exI [of _ "[]"], simp)

end

locale ptr_less = less_func lt for lt :: "ptr \<Rightarrow> ptr \<Rightarrow> bool"
begin

lemma sort_loop_dlist:
  assumes "dlist h l xs" and "length xs < 4294967294"
  shows "\<exists>h' ys. sort_loop h l lt = Some h' \<and> dlist h' l ys \<and> mset ys = mset xs \<and> is_run lt ys \<and>
    (\<forall>k. filter (eqv k) ys = filter (eqv k) xs) \<and> same_outside (set (nodes l xs)) h h'"
  using assms
proof (induction "nruns lt xs" arbitrary: h xs rule: less_induct)
  case less
  note d = less.prems(1)
  have small: "out_runs lt xs < 4294967296"
    using less.prems(2) nruns_le_length [of lt xs] by (simp add: out_runs_def)
  obtain h1 where h1: "sort_pass h l (hd (xs @ [tail_of l])) lt 0 = Some (h1, out_runs lt xs)"
    "dlist h1 l (pass lt xs)" "same_outside (set (nodes l xs)) h h1"
    using sort_pass_dlist [of h l "[]" xs 0 lt] d small by auto
  have m: "mset (pass lt xs) = mset xs" by simp
  have sn: "set (nodes l (pass lt xs)) = set (nodes l xs)" "length (pass lt xs) = length xs"
    using mset_eq_setD [OF m] mset_eq_length [OF m] by (simp_all add: set_nodes)
  show ?case
  proof (cases "out_runs lt xs > 1")
    case True
    then have "nruns lt (pass lt xs) < nruns lt xs"
      using nruns_pass [of xs] by (simp add: out_runs_def)
    from less.hyps [OF this h1(2)] sn less.prems(2) obtain h' ys where
      h': "sort_loop h1 l lt = Some h'" "dlist h' l ys" "mset ys = mset (pass lt xs)" "is_run lt ys"
      "\<forall>k. filter (eqv k) ys = filter (eqv k) (pass lt xs)" "same_outside (set (nodes l xs)) h1 h'"
      by auto
    have "sort_loop h l lt = Some h'"
      using h1(1) h'(1) True by (subst sort_loop.simps) (simp add: list_begin_dlist [OF d])
    then show ?thesis
      using h' filter_pass same_outside_trans [OF h1(3) h'(6)] by auto
  next
    case False
    then have "is_run lt (pass lt xs)"
      using nruns_pass [of xs] by (intro is_run_nruns) simp
    moreover have "sort_loop h l lt = Some h1"
      using h1(1) False by (subst sort_loop.simps) (simp add: list_begin_dlist [OF d])
    ultimately show ?thesis
      using h1(2,3) m filter_pass by blast
  qed
qed

lemma list_sort_dlist:
  assumes "dlist h l xs" and "length xs < 4294967294"
  shows "\<exists>h' ys. list_sort h l lt = Some h' \<and> dlist h' l ys \<and> mset ys = mset xs \<and>
    sorted_wrt (\<lambda>a b. \<not> lt b a) ys \<and>
    (\<forall>k. filter (eqv k) ys = filter (eqv k) xs) \<and> same_outside (set (nodes l xs)) h h'"
proof -
  obtain h' ys where h': "sort_loop h l lt = Some h'" "dlist h' l ys" "mset ys = mset xs" "is_run lt ys"
    "\<forall>k. filter (eqv k) ys = filter (eqv k) xs" "same_outside (set (nodes l xs)) h h'"
    using sort_loop_dlist [OF assms] by blast
  have "is_sorted h' (hd (ys @ [tail_of l])) (tail_of l) lt = Some True"
    using is_sorted_run [of h' l "[]" ys "[]" lt] h' by simp
  moreover have "l \<noteq> NULL" using assms(1) by (simp add: dlist_def)
  ultimately have "list_sort h l lt = Some h'"
    using h'(1) by (simp add: list_sort_def list_begin_dlist [OF h'(2)] list_end_dlist [OF h'(2)])
  with h' is_run_sorted show ?thesis by blast
qed

end

interpretation value_less: ptr_less "value_less val_of" for val_of ..

section \<open>Properties\<close>

text \<open>
  C12. \<^verbatim>\<open>list_sort\<close> with a strict weak order returns, and leaves in the list a stable sorted
  rearrangement: the same elements, in nondecreasing order, elements that compare equal in their
  original order; nothing outside the list's own nodes is written.
\<close>

theorem list_sort_stable:
  assumes "dlist h l xs" and "length xs < 4294967294"
    and "\<And>a b. lt a b \<Longrightarrow> \<not> lt b a"
    and "\<And>a b c. \<not> lt b a \<Longrightarrow> \<not> lt c b \<Longrightarrow> \<not> lt c a"
  shows "\<exists>h' ys. list_sort h l lt = Some h' \<and> dlist h' l ys \<and> mset ys = mset xs \<and>
    sorted_wrt (\<lambda>a b. \<not> lt b a) ys \<and>
    (\<forall>k. filter (\<lambda>x. \<not> lt k x \<and> \<not> lt x k) ys = filter (\<lambda>x. \<not> lt k x \<and> \<not> lt x k) xs) \<and>
    same_outside (set (nodes l xs)) h h'"
proof -
  have "ptr_less lt"
    by (intro ptr_less.intro less_func.intro) (use assms(3,4) in blast)+
  moreover have "less_func.eqv lt k = (\<lambda>x. \<not> lt k x \<and> \<not> lt x k)" for k
    by (intro ext) (simp add: less_func.eqv_def [OF ptr_less.axioms] \<open>ptr_less lt\<close>)
  ultimately show ?thesis using ptr_less.list_sort_dlist [OF \<open>ptr_less lt\<close> assms(1,2)] by simp
qed

text \<open>A list at address 100 with the elements 1, 2 and 3, for the witnesses.\<close>

definition sample_heap :: list_heap where
  "sample_heap = \<lparr> elem_prev = (\<lambda>_. 0)(1 := 100, 2 := 1, 3 := 2, 108 := 3),
                   elem_next = (\<lambda>_. 0)(100 := 1, 1 := 2, 2 := 3, 3 := 108) \<rparr>"

lemma sample_heap_dlist: "dlist sample_heap 100 [1, 2, 3]"
  by (simp add: dlist_def chain_def nodes_def head_of_def tail_of_def sample_heap_def)

lemma list_sort_stable_witness:
  "\<exists>h' ys. list_sort sample_heap 100 (value_less (\<lambda>p. - int (p div 2))) = Some h' \<and> dlist h' 100 ys \<and>
    mset ys = mset [1, 2, 3] \<and> sorted_wrt (\<lambda>a b. \<not> value_less (\<lambda>p. - int (p div 2)) b a) ys"
  using list_sort_stable [OF sample_heap_dlist, of "value_less (\<lambda>p. - int (p div 2))"]
  by (auto simp: value_less_def)

text \<open>
  C31. \<^verbatim>\<open>list_insert_ordered\<close> returns, links the new element behind every element that is not greater,
  keeps a sorted list sorted, and writes nothing outside the list and the new element.
\<close>

theorem list_insert_ordered_sorted:
  assumes "dlist h l xs" and "e \<notin> set (nodes l xs)" and "e \<noteq> NULL"
    and "\<And>a b. lt a b \<Longrightarrow> \<not> lt b a"
    and "\<And>a b c. \<not> lt b a \<Longrightarrow> \<not> lt c b \<Longrightarrow> \<not> lt c a"
    and "sorted_wrt (\<lambda>a b. \<not> lt b a) xs"
  shows "\<exists>h' A B. list_insert_ordered h l e lt = Some h' \<and> dlist h' l (A @ e # B) \<and> xs = A @ B \<and>
    (\<forall>a\<in>set A. \<not> lt e a) \<and> (\<forall>b\<in>set B. lt e b) \<and> sorted_wrt (\<lambda>a b. \<not> lt b a) (A @ e # B) \<and>
    same_outside (insert e (set (nodes l xs))) h h'"
proof -
  let ?A = "takeWhile (\<lambda>x. \<not> lt e x) xs" and ?B = "dropWhile (\<lambda>x. \<not> lt e x) xs"
  have "less_func lt" by (intro less_func.intro) (use assms(4,5) in blast)+
  then have "sorted_wrt (\<lambda>a b. \<not> lt b a) (?A @ e # ?B)"
    by (rule less_func.insert_ord_sorted) (rule assms(6))
  moreover have "\<forall>b\<in>set ?B. lt e b"
  proof (cases ?B)
    case (Cons c C)
    have "sorted_wrt (\<lambda>a b. \<not> lt b a) (c # C)" using assms(6) Cons by (metis sorted_wrt_append takeWhile_dropWhile_id)
    moreover have "lt e c" using Cons by (metis dropWhile_eq_Cons_conv)
    ultimately have "lt e b" if "b \<in> set (c # C)" for b
      using that assms(5) [of b c e] by auto
    then show ?thesis unfolding Cons by blast
  next
    case Nil
    then show ?thesis unfolding Nil by simp
  qed
  moreover have "\<forall>a\<in>set ?A. \<not> lt e a" by (auto dest: set_takeWhileD)
  moreover obtain h' where "list_insert_ordered h l e lt = Some h'" "dlist h' l (?A @ e # ?B)"
      "same_outside (insert e (set (nodes l xs))) h h'"
    using list_insert_ordered_dlist [OF assms(1-3), of lt] unfolding insert_ord_def by blast
  moreover have "xs = ?A @ ?B" by simp
  ultimately show ?thesis by blast
qed

lemma list_insert_ordered_sorted_witness:
  "\<exists>h' A B. list_insert_ordered sample_heap 100 7 (value_less (\<lambda>p. int (p mod 4))) = Some h' \<and>
    dlist h' 100 (A @ 7 # B) \<and> [1, 2, 3] = A @ B"
  using list_insert_ordered_sorted [OF sample_heap_dlist, of 7 "value_less (\<lambda>p. int (p mod 4))"]
  by (auto simp: value_less_def nodes_def head_of_def tail_of_def)

text \<open>
  \<^verbatim>\<open>list_max\<close> on a nonempty list returns its first largest element: every earlier element is
  smaller and no later one is larger.
\<close>

lemma list_max_first:
  assumes "dlist h l xs" and "xs \<noteq> []"
    and "\<And>a b. lt a b \<Longrightarrow> \<not> lt b a"
    and "\<And>a b c. \<not> lt b a \<Longrightarrow> \<not> lt c b \<Longrightarrow> \<not> lt c a"
  shows "\<exists>m A B. list_max h l lt = Some m \<and> xs = A @ m # B \<and> (\<forall>a\<in>set A. lt a m) \<and> (\<forall>b\<in>set B. \<not> lt m b)"
proof (cases xs)
  case (Cons x ys)
  have "less_func lt" by (intro less_func.intro) (use assms(3,4) in blast)+
  from less_func.fold_max_first [OF this, of x ys] show ?thesis
    using list_max_dlist [OF assms(1), of lt] Cons by auto
qed (use assms(2) in simp)


section \<open>Removing adjacent duplicates\<close>

fun uniq :: "('a \<Rightarrow> 'a \<Rightarrow> bool) \<Rightarrow> 'a \<Rightarrow> 'a list \<Rightarrow> 'a list \<times> 'a list" where
  "uniq lt a [] = ([], [])"
| "uniq lt a (y # ys) =
     (if \<not> lt a y \<and> \<not> lt y a then (fst (uniq lt a ys), y # snd (uniq lt a ys))
      else (y # fst (uniq lt y ys), snd (uniq lt y ys)))"

lemma unique_loop_dlist:
  assumes "dlist h l (xs @ a # ys)" and "dlist h d ds"
    and "set (nodes l (xs @ a # ys)) \<inter> set (nodes d ds) = {}"
  shows "\<exists>h'. unique_loop h l d lt a = Some h' \<and> dlist h' l (xs @ a # fst (uniq lt a ys)) \<and>
    dlist h' d (ds @ snd (uniq lt a ys))"
  using assms
proof (induction ys arbitrary: h xs a ds)
  case Nil
  then show ?case by (subst unique_loop.simps) (simp add: list_next_dlist list_end_dlist)
next
  case (Cons y ys)
  note d = Cons.prems(1)
  have dy: "dlist h l ((xs @ [a]) @ y # ys)" using d by simp
  show ?case
  proof (cases "\<not> lt a y \<and> \<not> lt y a")
    case True
    have ny: "y \<noteq> NULL" "y \<notin> set (nodes d ds)" "y \<notin> set (nodes l (xs @ a # ys))"
      using dlist_distinct [OF d] Cons.prems(3) tail_not_elem [OF dy] by (auto simp: set_nodes)
    obtain h1 where h1: "list_remove h y = Some (hd (ys @ [tail_of l]), h1)" "dlist h1 l (xs @ a # ys)"
      "same_outside (set (nodes l (xs @ a # ys))) h h1"
      using list_remove_dlist [OF dy] by auto
    have "dlist h1 d ds"
      using Cons.prems(2) h1(3) by (rule dlist_frame) (use Cons.prems(3) in \<open>auto simp: set_nodes\<close>)
    then obtain h2 where h2: "list_push_back h1 d y = Some h2" "dlist h2 d (ds @ [y])"
      "same_outside (insert y (set (nodes d ds))) h1 h2"
      using list_push_back_dlist [of h1 d ds y] ny by auto
    have l2: "dlist h2 l (xs @ a # ys)"
      using h1(2) h2(3) by (rule dlist_frame) (use Cons.prems(3) ny in \<open>auto simp: set_nodes\<close>)
    have "set (nodes l (xs @ a # ys)) \<inter> set (nodes d (ds @ [y])) = {}"
      using Cons.prems(3) ny by (auto simp: set_nodes)
    from Cons.IH [OF l2 h2(2) this] obtain h' where h': "unique_loop h2 l d lt a = Some h'"
      "dlist h' l (xs @ a # fst (uniq lt a ys))" "dlist h' d ((ds @ [y]) @ snd (uniq lt a ys))"
      by blast
    have "d \<noteq> NULL" using Cons.prems(2) by (simp add: dlist_def)
    then have "unique_loop h l d lt a = Some h'"
      using True h1(1) h2(1) h'(1) list_next_dlist [OF d] list_end_dlist [OF d] tail_not_elem [OF dy]
      by (subst unique_loop.simps) simp
    with h' True show ?thesis by auto
  next
    case False
    have "set (nodes l ((xs @ [a]) @ y # ys)) \<inter> set (nodes d ds) = {}"
      using Cons.prems(3) by simp
    from Cons.IH [OF dy Cons.prems(2) this] obtain h' where h': "unique_loop h l d lt y = Some h'"
      "dlist h' l ((xs @ [a]) @ y # fst (uniq lt y ys))" "dlist h' d (ds @ snd (uniq lt y ys))"
      by blast
    have "unique_loop h l d lt a = Some h'"
      using False h'(1) list_next_dlist [OF d] list_end_dlist [OF d] tail_not_elem [OF dy]
      by (subst unique_loop.simps) auto
    with h' False show ?thesis by auto
  qed
qed

text \<open>
  \<^verbatim>\<open>list_unique\<close> with a second list for the duplicates returns; of every run of adjacent equal
  elements it keeps the first, and the others are appended to the second list, in order.
\<close>

lemma list_unique_moves_duplicates:
  assumes "dlist h l (a # ys)" and "dlist h d ds"
    and "set (nodes l (a # ys)) \<inter> set (nodes d ds) = {}"
  shows "\<exists>h'. list_unique h l d lt = Some h' \<and> dlist h' l (a # fst (uniq lt a ys)) \<and>
    dlist h' d (ds @ snd (uniq lt a ys))"
proof -
  have "l \<noteq> NULL" using assms(1) by (simp add: dlist_def)
  then show ?thesis
    using unique_loop_dlist [of h l "[]" a ys d ds lt] assms list_begin_dlist [OF assms(1)]
    by (simp add: list_unique_def list_empty_dlist)
qed

definition sample_heap2 :: list_heap where
  "sample_heap2 = \<lparr> elem_prev = (elem_prev sample_heap)(208 := 200),
                    elem_next = (elem_next sample_heap)(200 := 208) \<rparr>"

end
