(* ===== verification/Kernel_Hash.thy ===== *)
theory Kernel_Hash
  imports Kernel_Prelude List_Sort
begin

unbundle bit_operations_syntax

text \<open>
  The chained hash table of \<^verbatim>\<open>lib/kernel/hash.c\<close>. A bucket is the list of its elements in the order of
  the bucket's linked list (the list operations themselves are refined in \<open>Kernel_List\<close>), the table
  an array of buckets. \<open>hash\<close> and \<open>less\<close> stand for the client's functions applied to its auxiliary
  data. The outcome of an allocation is the argument \<open>mem\<close> of the operations that allocate.

  The contract of the client's two functions is the locale \<open>hash_funcs\<close>: a strict weak order, and equal
  elements have equal hash values. Under it the table is a finite map from classes of equal elements
  to elements, whatever the outcomes of the allocations.
\<close>

section \<open>The table and its operations\<close>

record 'e hash_table =
  elem_cnt :: u32
  bucket_cnt :: u32
  buckets :: "'e list list"
  hash_fn :: "'e \<Rightarrow> u32"
  less_fn :: "'e \<Rightarrow> 'e \<Rightarrow> bool"

definition bucket_idx :: "'e hash_table \<Rightarrow> 'e \<Rightarrow> nat" where
  "bucket_idx h e = unat (hash_fn h e AND (bucket_cnt h - 1))"

definition find_bucket :: "'e hash_table \<Rightarrow> 'e \<Rightarrow> 'e list" where
  "find_bucket h e = buckets h ! bucket_idx h e"

definition equal_elems :: "'e hash_table \<Rightarrow> 'e \<Rightarrow> 'e \<Rightarrow> bool" where
  "equal_elems h hi e \<longleftrightarrow> \<not> less_fn h hi e \<and> \<not> less_fn h e hi"

fun find_elem :: "'e hash_table \<Rightarrow> 'e list \<Rightarrow> 'e \<Rightarrow> 'e option" where
  "find_elem h [] e = None"
| "find_elem h (hi # bucket) e = (if equal_elems h hi e then Some hi else find_elem h bucket e)"

text \<open>\<^verbatim>\<open>list_push_front\<close> and \<^verbatim>\<open>list_remove\<close> on bucket \<open>i\<close>.\<close>

definition push_bucket :: "nat \<Rightarrow> 'e \<Rightarrow> 'e list list \<Rightarrow> 'e list list" where
  "push_bucket i e bs = bs[i := e # bs ! i]"

definition insert_elem :: "'e hash_table \<Rightarrow> nat \<Rightarrow> 'e \<Rightarrow> 'e hash_table" where
  "insert_elem h i e = h\<lparr>elem_cnt := elem_cnt h + 1, buckets := push_bucket i e (buckets h)\<rparr>"

definition remove_elem :: "'e hash_table \<Rightarrow> nat \<Rightarrow> 'e \<Rightarrow> 'e hash_table" where
  "remove_elem h i e =
     h\<lparr>elem_cnt := elem_cnt h - 1, buckets := (buckets h)[i := remove1 e (buckets h ! i)]\<rparr>"

definition turn_off_least_1bit :: "u32 \<Rightarrow> u32" where
  "turn_off_least_1bit x = x AND (x - 1)"

definition is_power_of_2 :: "u32 \<Rightarrow> bool" where
  "is_power_of_2 x \<longleftrightarrow> x \<noteq> 0 \<and> turn_off_least_1bit x = 0"

partial_function (option) power_of_2_loop :: "u32 \<Rightarrow> u32 option" where
  "power_of_2_loop x = (if \<not> is_power_of_2 x then power_of_2_loop (turn_off_least_1bit x) else Some x)"

definition MIN_ELEMS_PER_BUCKET :: u32 where "MIN_ELEMS_PER_BUCKET = 1"
definition BEST_ELEMS_PER_BUCKET :: u32 where "BEST_ELEMS_PER_BUCKET = 2"
definition MAX_ELEMS_PER_BUCKET :: u32 where "MAX_ELEMS_PER_BUCKET = 4"

text \<open>The loop that moves each old element to the front of its new bucket.\<close>

definition move_elems :: "'e hash_table \<Rightarrow> 'e list list \<Rightarrow> 'e hash_table" where
  "move_elems h old_buckets =
     foldl (\<lambda>h e. h\<lparr>buckets := push_bucket (bucket_idx h e) e (buckets h)\<rparr>) h (concat old_buckets)"

definition rehash :: "bool \<Rightarrow> 'e hash_table \<Rightarrow> 'e hash_table option" where
  "rehash mem h = do {
     let old_buckets = buckets h;
     let old_bucket_cnt = bucket_cnt h;
     let new_bucket_cnt = elem_cnt h div BEST_ELEMS_PER_BUCKET;
     let new_bucket_cnt = (if new_bucket_cnt < 4 then 4 else new_bucket_cnt);
     new_bucket_cnt \<leftarrow> power_of_2_loop new_bucket_cnt;
     if new_bucket_cnt = old_bucket_cnt then Some h
     else if \<not> mem then Some h
     else Some (move_elems
       (h\<lparr>buckets := replicate (unat new_bucket_cnt) [], bucket_cnt := new_bucket_cnt\<rparr>) old_buckets) }"

text \<open>
  \<open>hash_clear\<close> returns the table and the elements in the order the destructor is called on them, if
  there is one.
\<close>

definition hash_clear :: "'e hash_table \<Rightarrow> bool \<Rightarrow> 'e hash_table \<times> 'e list" where
  "hash_clear h destructor =
     (h\<lparr>buckets := replicate (unat (bucket_cnt h)) [], elem_cnt := 0\<rparr>,
      if destructor then concat (buckets h) else [])"

definition hash_destroy :: "'e hash_table \<Rightarrow> bool \<Rightarrow> 'e list" where
  "hash_destroy h destructor = (if destructor then snd (hash_clear h True) else [])"

definition hash_init :: "bool \<Rightarrow> ('e \<Rightarrow> u32) \<Rightarrow> ('e \<Rightarrow> 'e \<Rightarrow> bool) \<Rightarrow> 'e hash_table option" where
  "hash_init mem hash lt =
     (let h = \<lparr>elem_cnt = 0, bucket_cnt = 4, buckets = [], hash_fn = hash, less_fn = lt\<rparr>
      in if mem then Some (fst (hash_clear h False)) else None)"

definition hash_insert :: "bool \<Rightarrow> 'e hash_table \<Rightarrow> 'e \<Rightarrow> ('e option \<times> 'e hash_table) option" where
  "hash_insert mem h new = do {
     let bucket = bucket_idx h new;
     let old = find_elem h (find_bucket h new) new;
     let h = (if old = None then insert_elem h bucket new else h);
     h \<leftarrow> rehash mem h;
     Some (old, h) }"

definition hash_replace :: "bool \<Rightarrow> 'e hash_table \<Rightarrow> 'e \<Rightarrow> ('e option \<times> 'e hash_table) option" where
  "hash_replace mem h new = do {
     let bucket = bucket_idx h new;
     let old = find_elem h (find_bucket h new) new;
     let h = (case old of Some e \<Rightarrow> remove_elem h bucket e | None \<Rightarrow> h);
     let h = insert_elem h bucket new;
     h \<leftarrow> rehash mem h;
     Some (old, h) }"

definition hash_find :: "'e hash_table \<Rightarrow> 'e \<Rightarrow> 'e option" where
  "hash_find h e = find_elem h (find_bucket h e) e"

definition hash_delete :: "bool \<Rightarrow> 'e hash_table \<Rightarrow> 'e \<Rightarrow> ('e option \<times> 'e hash_table) option" where
  "hash_delete mem h e =
     (case find_elem h (find_bucket h e) e of
        None \<Rightarrow> Some (None, h)
      | Some found \<Rightarrow> do {
          h \<leftarrow> rehash mem (remove_elem h (bucket_idx h e) found);
          Some (Some found, h) })"

text \<open>\<open>hash_apply\<close> threads a state through the client's action, bucket by bucket.\<close>

definition hash_apply :: "'e hash_table \<Rightarrow> ('e \<Rightarrow> 's \<Rightarrow> 's) \<Rightarrow> 's \<Rightarrow> 's" where
  "hash_apply h action s = foldl (\<lambda>s bucket. foldl (\<lambda>s e. action e s) s bucket) s (buckets h)"

definition hash_size :: "'e hash_table \<Rightarrow> u32" where
  "hash_size h = elem_cnt h"

definition hash_empty :: "'e hash_table \<Rightarrow> bool" where
  "hash_empty h \<longleftrightarrow> elem_cnt h = 0"

section \<open>Iterators\<close>

text \<open>
  The position of an iterator is the index of its bucket and the index in it of the next list element
  to visit: the list head before the first element, so that a fresh iterator is at \<open>(0, 0)\<close>; \<open>it_elem\<close>
  is the current element, \<open>None\<close> for the null pointer at the end.
\<close>

record 'e hash_iterator =
  it_hash :: "'e hash_table"
  it_bucket :: nat
  it_pos :: nat
  it_elem :: "'e option"

definition hash_first :: "'e hash_table \<Rightarrow> 'e hash_iterator" where
  "hash_first h = \<lparr>it_hash = h, it_bucket = 0, it_pos = 0, it_elem = None\<rparr>"

function hash_next_loop :: "'e hash_iterator \<Rightarrow> 'e hash_iterator" where
  "hash_next_loop i =
     (if it_bucket i < length (buckets (it_hash i)) \<and> it_pos i = length (buckets (it_hash i) ! it_bucket i)
      then if it_bucket i + 1 \<ge> unat (bucket_cnt (it_hash i))
           then i\<lparr>it_bucket := it_bucket i + 1, it_elem := None\<rparr>
           else hash_next_loop (i\<lparr>it_bucket := it_bucket i + 1, it_pos := 0\<rparr>)
      else i\<lparr>it_elem := Some (buckets (it_hash i) ! it_bucket i ! it_pos i), it_pos := it_pos i + 1\<rparr>)"
  by pat_completeness auto
termination
  by (relation "measure (\<lambda>i. length (buckets (it_hash i)) - it_bucket i)") auto

text \<open>Advancing an iterator that is at the end follows the null pointer: \<open>None\<close>.\<close>

definition hash_next :: "'e hash_iterator \<Rightarrow> ('e option \<times> 'e hash_iterator) option" where
  "hash_next i =
     (if it_bucket i < length (buckets (it_hash i))
      then let i' = hash_next_loop i in Some (it_elem i', i') else None)"

text \<open>The iteration idiom of the documentation of \<open>hash_first\<close>, collecting the elements it visits.\<close>

partial_function (option) hash_walk :: "'e hash_iterator \<Rightarrow> 'e list option" where
  "hash_walk i = do {
     (e, i') \<leftarrow> hash_next i;
     case e of None \<Rightarrow> Some [] | Some x \<Rightarrow> do { xs \<leftarrow> hash_walk i'; Some (x # xs) } }"

definition hash_cur :: "'e hash_iterator \<Rightarrow> 'e option" where
  "hash_cur i = it_elem i"

section \<open>Sample hash functions\<close>

definition FNV_32_PRIME :: u32 where "FNV_32_PRIME = 16777619"
definition FNV_32_BASIS :: u32 where "FNV_32_BASIS = 2166136261"

definition hash_bytes :: "u8 list \<Rightarrow> u32" where
  "hash_bytes buf = foldl (\<lambda>hash b. (hash * FNV_32_PRIME) XOR ucast b) FNV_32_BASIS buf"

text \<open>\<open>hash_string\<close> runs to the first null byte; a buffer without one is not a string.\<close>

definition hash_string :: "u8 list \<Rightarrow> u32 option" where
  "hash_string s = (if 0 \<in> set s then Some (hash_bytes (takeWhile (\<lambda>b. b \<noteq> 0) s)) else None)"

text \<open>The four bytes of an integer, least significant first, as they lie in memory.\<close>

definition int_bytes :: "u32 \<Rightarrow> u8 list" where
  "int_bytes i = map (\<lambda>k. ucast (drop_bit (8 * k) i)) [0, 1, 2, 3]"

definition hash_int :: "u32 \<Rightarrow> u32" where
  "hash_int i = hash_bytes (int_bytes i)"


section \<open>The number of buckets\<close>

lemma unat_drop_bit_1:
  fixes x :: u32
  assumes "drop_bit k x = 1"
  shows "2 ^ k \<le> unat x" and "unat x < 2 ^ (k + 1)"
proof -
  have "unat x div 2 ^ k = 1"
    using assms by (metis unat_drop_bit_eq drop_bit_eq_div unsigned_1)
  moreover have "unat x = 2 ^ k * (unat x div 2 ^ k) + unat x mod 2 ^ k" by (rule mult_div_mod_eq [symmetric])
  moreover have "unat x mod 2 ^ k < 2 ^ k" by (rule mod_less_divisor) simp
  ultimately have "unat x = 2 ^ k + unat x mod 2 ^ k" "unat x mod 2 ^ k < 2 ^ k" by simp_all
  moreover have "(2::nat) ^ (k + 1) = 2 ^ k + 2 ^ k" by simp
  ultimately show "2 ^ k \<le> unat x" "unat x < 2 ^ (k + 1)" by linarith+
qed

lemma drop_bit_1I:
  fixes x :: u32
  assumes "2 ^ k \<le> unat x" and "unat x < 2 ^ (k + 1)"
  shows "drop_bit k x = 1"
proof -
  have "unat x div 2 ^ k = 1" using assms by (intro div_nat_eqI) simp_all
  moreover have "unat (drop_bit k x) = unat x div 2 ^ k" by (metis unat_drop_bit_eq drop_bit_eq_div)
  ultimately have "unat (drop_bit k x) = 1" by simp
  then show ?thesis by (metis unsigned_1 unsigned_word_eqI)
qed

lemma turn_off_least_1bit_step:
  fixes x :: u32
  assumes k: "2 ^ k \<le> unat x" "unat x < 2 ^ (k + 1)" and x: "unat x \<noteq> 2 ^ k"
  shows "2 ^ k \<le> unat (turn_off_least_1bit x)" and "unat (turn_off_least_1bit x) < unat x"
proof -
  have "unat x \<noteq> 0" using k(1) by (metis not_le zero_less_numeral zero_less_power)
  then have "x \<noteq> 0" by (metis unsigned_0)
  then have m: "unat (x - 1) = unat x - 1" by (simp add: unat_minus_one)
  have d: "drop_bit k x = 1" "drop_bit k (x - 1) = 1"
    using k x m by (auto intro!: drop_bit_1I)
  have "drop_bit k (x AND (x - 1)) = 1" using d by simp
  then show "2 ^ k \<le> unat (turn_off_least_1bit x)"
    unfolding turn_off_least_1bit_def by (rule unat_drop_bit_1)
  have "unat (x AND (x - 1)) \<le> unat (x - 1)"
    by (metis and.commute unsigned_and_eq and_nat_def nat_mono AND_upper1 of_nat_0_le_iff nat_int)
  with m \<open>unat x \<noteq> 0\<close> show "unat (turn_off_least_1bit x) < unat x"
    by (simp add: turn_off_least_1bit_def)
qed

lemma is_power_of_2_exp:
  fixes x :: u32
  assumes "unat x = 2 ^ k"
  shows "is_power_of_2 x"
proof -
  have k: "k < 32"
  proof (rule ccontr)
    assume "\<not> k < 32"
    then have "(2::nat) ^ 32 \<le> 2 ^ k" by (intro power_increasing) auto
    with assms unat_less_2p32 [of x] show False by simp
  qed
  have "x = of_nat (unat x)" by simp
  then have x: "x = 2 ^ k" unfolding assms by simp
  have "(2 ^ k :: u32) - 1 = mask k" by (simp add: mask_eq_exp_minus_1)
  then have "x AND (x - 1) = take_bit k (2 ^ k :: u32)" by (simp add: x take_bit_eq_mask)
  also have "take_bit k (2 ^ k :: u32) = 0"
    by (rule bit_word_eqI) (auto simp: bit_take_bit_iff bit_exp_iff)
  finally have "turn_off_least_1bit x = 0" by (simp add: turn_off_least_1bit_def)
  moreover have "x \<noteq> 0" using assms by auto
  ultimately show ?thesis by (simp add: is_power_of_2_def)
qed

lemma power_of_2_loop_exp:
  assumes "2 ^ k \<le> unat x" and "unat x < 2 ^ (k + 1)"
  shows "\<exists>y. power_of_2_loop x = Some y \<and> unat y = 2 ^ k"
  using assms
proof (induction "unat x" arbitrary: x rule: less_induct)
  case less
  show ?case
  proof (cases "unat x = 2 ^ k")
    case True
    then show ?thesis using is_power_of_2_exp [OF True] by (subst power_of_2_loop.simps) simp
  next
    case False
    note step = turn_off_least_1bit_step [OF less.prems False]
    have "turn_off_least_1bit x \<noteq> 0"
      using step(1) by (metis not_le unsigned_0 zero_less_numeral zero_less_power)
    then have "\<not> is_power_of_2 x" by (simp add: is_power_of_2_def)
    moreover have "\<exists>y. power_of_2_loop (turn_off_least_1bit x) = Some y \<and> unat y = 2 ^ k"
      using less.hyps [OF step(2)] step less.prems(2) by simp
    ultimately show ?thesis by (subst power_of_2_loop.simps) simp
  qed
qed

lemma power_of_2_loop_total:
  assumes "x \<noteq> 0"
  obtains y k where "power_of_2_loop x = Some y" "unat y = 2 ^ k" "2 ^ k \<le> unat x" "unat x < 2 ^ (k + 1)" "k < 32"
proof -
  have "0 < unat x" using assms by (metis gr0I unat_eq_zero)
  then obtain k where k: "2 ^ k \<le> unat x" "unat x < 2 ^ (k + 1)" using ex_power_ivl1 [of 2 "unat x"] by auto
  from power_of_2_loop_exp [OF this] obtain y where y: "power_of_2_loop x = Some y" "unat y = 2 ^ k" by blast
  have "k < 32"
  proof (rule ccontr)
    assume "\<not> k < 32"
    then have "(2::nat) ^ 32 \<le> 2 ^ k" by (intro power_increasing) auto
    with k(1) unat_less_2p32 [of x] show False by simp
  qed
  with that y k show thesis by blast
qed


section \<open>Representation invariant\<close>

definition hash_elems :: "'e hash_table \<Rightarrow> 'e list" where
  "hash_elems h = concat (buckets h)"

definition hash_shape :: "'e hash_table \<Rightarrow> bool" where
  "hash_shape h \<longleftrightarrow>
     (\<exists>k. unat (bucket_cnt h) = 2 ^ k \<and> 2 \<le> k) \<and> length (buckets h) = unat (bucket_cnt h) \<and>
     (\<forall>i<length (buckets h). \<forall>e\<in>set (buckets h ! i). bucket_idx h e = i)"

definition hash_ok :: "'e hash_table \<Rightarrow> bool" where
  "hash_ok h \<longleftrightarrow> hash_shape h \<and> distinct (hash_elems h) \<and>
     (\<forall>a\<in>set (hash_elems h). \<forall>b\<in>set (hash_elems h). equal_elems h a b \<longrightarrow> a = b) \<and>
     unat (elem_cnt h) = length (hash_elems h)"

lemma word_and_pred_less:
  fixes a c :: u32
  assumes "c \<noteq> 0"
  shows "unat (a AND (c - 1)) < unat c"
proof -
  have "unat (a AND (c - 1)) \<le> unat (c - 1)"
    by (metis and.commute unsigned_and_eq and_nat_def nat_mono AND_upper1 of_nat_0_le_iff nat_int)
  moreover have "unat (c - 1) < unat c"
    using assms by (simp add: unat_minus_one unat_gt_0)
  ultimately show ?thesis by simp
qed

lemma bucket_idx_less: "hash_shape h \<Longrightarrow> bucket_idx h e < length (buckets h)"
proof -
  assume h: "hash_shape h"
  then obtain k where "unat (bucket_cnt h) = 2 ^ k" by (auto simp: hash_shape_def)
  then have "bucket_cnt h \<noteq> 0" by auto
  then show ?thesis using h by (simp add: bucket_idx_def hash_shape_def word_and_pred_less)
qed

lemma mset_concat_update:
  "i < length bs \<Longrightarrow> mset (concat (bs[i := b])) + mset (bs ! i) = mset (concat bs) + mset b"
proof (induction bs arbitrary: i)
  case (Cons c bs)
  then show ?case by (cases i) (auto simp: union_ac add.assoc)
qed simp

lemma mset_push_bucket:
  "i < length bs \<Longrightarrow> mset (concat (push_bucket i e bs)) = add_mset e (mset (concat bs))"
  using mset_concat_update [of i bs "e # bs ! i"] by (simp add: push_bucket_def)

lemma mset_remove_bucket:
  assumes "i < length bs" and "e \<in> set (bs ! i)"
  shows "add_mset e (mset (concat (bs[i := remove1 e (bs ! i)]))) = mset (concat bs)"
proof -
  have "mset (bs ! i) = add_mset e (mset (remove1 e (bs ! i)))"
    using assms(2) by simp
  then show ?thesis
    using mset_concat_update [OF assms(1), of "remove1 e (bs ! i)"] by (simp del: mset_remove1)
qed

lemma find_elem_Some: "find_elem h b e = Some x \<Longrightarrow> x \<in> set b \<and> equal_elems h x e"
  by (induction b) (auto split: if_splits)

lemma find_elem_None: "find_elem h b e = None \<longleftrightarrow> (\<forall>x\<in>set b. \<not> equal_elems h x e)"
  by (induction b) auto

lemma bucket_in_elems:
  "hash_shape h \<Longrightarrow> x \<in> set (find_bucket h e) \<Longrightarrow> x \<in> set (hash_elems h)"
  using bucket_idx_less [of h e] by (auto simp: find_bucket_def hash_elems_def)

lemma elem_in_bucket:
  assumes "hash_shape h" and "x \<in> set (hash_elems h)"
  shows "x \<in> set (buckets h ! bucket_idx h x)"
proof -
  from assms(2) obtain b where b: "b \<in> set (buckets h)" "x \<in> set b" by (auto simp: hash_elems_def)
  then obtain i where i: "i < length (buckets h)" "buckets h ! i = b" by (auto simp: in_set_conv_nth)
  with assms(1) b(2) have "bucket_idx h x = i" by (auto simp: hash_shape_def)
  with i b show ?thesis by simp
qed

text \<open>Updates that leave the sizes alone keep the bucket an element belongs in.\<close>

lemma bucket_idx_cong:
  "bucket_cnt h' = bucket_cnt h \<Longrightarrow> hash_fn h' = hash_fn h \<Longrightarrow> bucket_idx h' e = bucket_idx h e"
  by (simp add: bucket_idx_def)

lemma equal_elems_cong: "less_fn h' = less_fn h \<Longrightarrow> equal_elems h' = equal_elems h"
  by (simp add: equal_elems_def fun_eq_iff)

lemma hash_shape_push:
  assumes h: "hash_shape h" and i: "bucket_idx h e = i"
    and h': "buckets h' = push_bucket i e (buckets h)" "bucket_cnt h' = bucket_cnt h" "hash_fn h' = hash_fn h"
  shows "hash_shape h'"
  using h i h' bucket_idx_cong [of h' h]
  by (auto simp: hash_shape_def push_bucket_def nth_list_update_if)

lemma move_elems_spec:
  assumes "hash_shape h"
  shows "hash_shape (foldl (\<lambda>h e. h\<lparr>buckets := push_bucket (bucket_idx h e) e (buckets h)\<rparr>) h es) \<and>
    mset (hash_elems (foldl (\<lambda>h e. h\<lparr>buckets := push_bucket (bucket_idx h e) e (buckets h)\<rparr>) h es)) =
      mset (hash_elems h) + mset es \<and>
    elem_cnt (foldl (\<lambda>h e. h\<lparr>buckets := push_bucket (bucket_idx h e) e (buckets h)\<rparr>) h es) = elem_cnt h \<and>
    hash_fn (foldl (\<lambda>h e. h\<lparr>buckets := push_bucket (bucket_idx h e) e (buckets h)\<rparr>) h es) = hash_fn h \<and>
    less_fn (foldl (\<lambda>h e. h\<lparr>buckets := push_bucket (bucket_idx h e) e (buckets h)\<rparr>) h es) = less_fn h"
  using assms
proof (induction es arbitrary: h)
  case (Cons e es)
  let ?h = "h\<lparr>buckets := push_bucket (bucket_idx h e) e (buckets h)\<rparr>"
  have "hash_shape ?h" by (rule hash_shape_push [OF Cons.prems refl]) simp_all
  moreover have "mset (hash_elems ?h) = add_mset e (mset (hash_elems h))"
    using bucket_idx_less [OF Cons.prems] by (simp add: hash_elems_def mset_push_bucket)
  ultimately show ?case using Cons.IH [of ?h] by simp
qed simp

lemma rehash_spec:
  assumes h: "hash_shape h"
  obtains h' where "rehash mem h = Some h'" "hash_shape h'" "mset (hash_elems h') = mset (hash_elems h)"
    "elem_cnt h' = elem_cnt h" "hash_fn h' = hash_fn h" "less_fn h' = less_fn h"
proof -
  let ?n = "elem_cnt h div BEST_ELEMS_PER_BUCKET"
  let ?m = "if ?n < 4 then 4 else ?n"
  have m: "(4::u32) \<le> ?m" by auto
  then have "?m \<noteq> 0" by (simp add: word_le_nat_alt split: if_splits) auto
  then obtain y k where y: "power_of_2_loop ?m = Some y" "unat y = 2 ^ k" "2 ^ k \<le> unat ?m" "unat ?m < 2 ^ (k + 1)"
    by (rule power_of_2_loop_total)
  have "4 \<le> unat ?m" using m by (simp add: word_le_nat_alt)
  with y(4) have "(2::nat) ^ 2 < 2 ^ (k + 1)" by simp
  then have "2 < k + 1" by (rule power_less_imp_less_exp [rotated]) simp
  then have k: "2 \<le> k" by simp
  show thesis
  proof (cases "y = bucket_cnt h \<or> \<not> mem")
    case True
    with y(1) have "rehash mem h = Some h" by (auto simp: rehash_def Let_def)
    with that h show thesis by blast
  next
    case False
    let ?h0 = "h\<lparr>buckets := replicate (unat y) [], bucket_cnt := y\<rparr>"
    have s: "hash_shape ?h0" using y(2) k by (auto simp: hash_shape_def)
    have "hash_elems ?h0 = []" by (simp add: hash_elems_def)
    then show thesis
      using that [of "move_elems ?h0 (buckets h)"] move_elems_spec [OF s, of "concat (buckets h)"] False y(1)
      by (auto simp: rehash_def Let_def move_elems_def hash_elems_def)
  qed
qed


section \<open>The table as a map\<close>

locale hash_funcs = less_func lt for lt :: "'e \<Rightarrow> 'e \<Rightarrow> bool" +
  fixes hash :: "'e \<Rightarrow> u32"
  assumes eqv_hash: "eqv a b \<Longrightarrow> hash a = hash b"
begin

definition client :: "'e hash_table \<Rightarrow> bool" where
  "client h \<longleftrightarrow> less_fn h = lt \<and> hash_fn h = hash"

lemma equal_eqv: "client h \<Longrightarrow> equal_elems h a b \<longleftrightarrow> eqv a b"
  by (simp add: client_def equal_elems_def eqv_def)

lemma client_bucket: "client h \<Longrightarrow> eqv a b \<Longrightarrow> bucket_idx h a = bucket_idx h b"
  using eqv_hash by (simp add: client_def bucket_idx_def)

lemma hash_find_Some:
  assumes "hash_ok h" and "client h"
  shows "hash_find h e = Some x \<longleftrightarrow> x \<in> set (hash_elems h) \<and> eqv x e"
proof
  assume "hash_find h e = Some x"
  then have "x \<in> set (find_bucket h e)" "eqv x e"
    using find_elem_Some assms(2) equal_eqv unfolding hash_find_def by fastforce+
  then show "x \<in> set (hash_elems h) \<and> eqv x e"
    using bucket_in_elems [of h x e] assms(1) by (simp add: hash_ok_def)
next
  assume x: "x \<in> set (hash_elems h) \<and> eqv x e"
  then have "x \<in> set (find_bucket h e)"
    using elem_in_bucket [of h x] client_bucket [OF assms(2)] assms(1)
    by (auto simp: hash_ok_def find_bucket_def)
  then have "hash_find h e \<noteq> None"
    using x equal_eqv [OF assms(2)] by (auto simp: hash_find_def find_elem_None)
  then obtain y where y: "hash_find h e = Some y" by blast
  then have "y \<in> set (find_bucket h e)" "eqv y e"
    using find_elem_Some assms(2) equal_eqv unfolding hash_find_def by fastforce+
  then have "y \<in> set (hash_elems h)" "eqv y x"
    using bucket_in_elems [of h y e] assms(1) eqv_trans [of y e x] eqv_sym [of x e] x by (simp_all add: hash_ok_def)
  then have "y = x" using assms x equal_eqv by (auto simp: hash_ok_def)
  with y show "hash_find h e = Some x" by simp
qed

lemma hash_find_None:
  assumes "hash_ok h" and "client h"
  shows "hash_find h e = None \<longleftrightarrow> (\<forall>x\<in>set (hash_elems h). \<not> eqv x e)"
  using hash_find_Some [OF assms] by (metis not_Some_eq)

lemma hash_find_eq:
  assumes "hash_ok h" "client h" "hash_ok h'" "client h'"
    and "\<And>x. x \<in> set (hash_elems h') \<and> eqv x e \<longleftrightarrow> x \<in> set (hash_elems h) \<and> eqv x e"
  shows "hash_find h' e = hash_find h e"
proof -
  have "hash_find h' e = Some x \<longleftrightarrow> hash_find h e = Some x" for x
    using hash_find_Some [OF assms(1,2)] hash_find_Some [OF assms(3,4)] assms(5) by simp
  then show ?thesis by (metis not_Some_eq)
qed

text \<open>The invariant of a table with the right shape depends on the multiset of its elements only.\<close>

lemma hash_okI:
  assumes "hash_shape h" and "mset (hash_elems h) = mset es" and "distinct es"
    and "\<And>a b. a \<in> set es \<Longrightarrow> b \<in> set es \<Longrightarrow> equal_elems h a b \<Longrightarrow> a = b"
    and "unat (elem_cnt h) = length es"
  shows "hash_ok h"
  using assms mset_eq_setD [OF assms(2)] mset_eq_length [OF assms(2)] mset_eq_imp_distinct_iff [OF assms(2)]
  by (auto simp: hash_ok_def)

lemma rehash_ok:
  assumes "hash_shape h" and "mset (hash_elems h) = mset es" and "distinct es"
    and "\<And>a b. a \<in> set es \<Longrightarrow> b \<in> set es \<Longrightarrow> eqv a b \<Longrightarrow> a = b"
    and "unat (elem_cnt h) = length es" and "client h"
  obtains h' where "rehash mem h = Some h'" "hash_ok h'" "client h'" "set (hash_elems h') = set es"
    "elem_cnt h' = elem_cnt h"
proof -
  from rehash_spec [OF assms(1), of mem] obtain h' where h': "rehash mem h = Some h'" "hash_shape h'"
    "mset (hash_elems h') = mset (hash_elems h)" "elem_cnt h' = elem_cnt h" "hash_fn h' = hash_fn h" "less_fn h' = less_fn h"
    by blast
  have c: "client h'" using h' assms(6) by (simp add: client_def)
  have "hash_ok h'"
    using h' assms equal_eqv [OF c] by (intro hash_okI [of h' es]) auto
  moreover have "set (hash_elems h') = set es" using h'(3) assms(2) by (metis mset_eq_setD)
  ultimately show thesis using that h' c by blast
qed

lemma ok_unique: "hash_ok h \<Longrightarrow> client h \<Longrightarrow> a \<in> set (hash_elems h) \<Longrightarrow> b \<in> set (hash_elems h) \<Longrightarrow> eqv a b \<Longrightarrow> a = b"
  using equal_eqv unfolding hash_ok_def by blast

lemma unat_Suc: "unat (c :: u32) < 4294967295 \<Longrightarrow> unat (c + 1) = unat c + 1"
  by (simp add: unat_word_ariths)

lemma insert_elem_facts:
  assumes "hash_shape h"
  shows "hash_shape (insert_elem h (bucket_idx h e) e)"
    "mset (hash_elems (insert_elem h (bucket_idx h e) e)) = add_mset e (mset (hash_elems h))"
    "less_fn (insert_elem h (bucket_idx h e) e) = less_fn h" "hash_fn (insert_elem h (bucket_idx h e) e) = hash_fn h"
    "elem_cnt (insert_elem h (bucket_idx h e) e) = elem_cnt h + 1"
  using hash_shape_push [OF assms refl, of "insert_elem h (bucket_idx h e) e" e] bucket_idx_less [OF assms]
  by (simp_all add: insert_elem_def hash_elems_def mset_push_bucket)

lemma remove_elem_facts:
  assumes "hash_shape h" and "x \<in> set (find_bucket h e)"
  shows "hash_shape (remove_elem h (bucket_idx h e) x)"
    "add_mset x (mset (hash_elems (remove_elem h (bucket_idx h e) x))) = mset (hash_elems h)"
    "less_fn (remove_elem h (bucket_idx h e) x) = less_fn h" "hash_fn (remove_elem h (bucket_idx h e) x) = hash_fn h"
    "elem_cnt (remove_elem h (bucket_idx h e) x) = elem_cnt h - 1" "bucket_cnt (remove_elem h (bucket_idx h e) x) = bucket_cnt h"
proof -
  let ?h = "remove_elem h (bucket_idx h e) x"
  show "hash_shape ?h"
    using assms(1) bucket_idx_cong [of ?h h]
    by (auto simp: hash_shape_def remove_elem_def nth_list_update_if dest: notin_set_remove1 set_remove1_subset [THEN subsetD])
  show "add_mset x (mset (hash_elems ?h)) = mset (hash_elems h)"
    using bucket_idx_less [OF assms(1), of e] assms(2)
    by (simp add: remove_elem_def hash_elems_def find_bucket_def mset_remove_bucket)
qed (simp_all add: remove_elem_def)

lemma hash_insert_map:
  assumes h: "hash_ok h" "client h" and sz: "length (hash_elems h) < 4294967295"
  shows "\<exists>h'. hash_insert mem h new = Some (hash_find h new, h') \<and> hash_ok h' \<and> client h' \<and>
    (\<forall>e. hash_find h' e = (if hash_find h new = None \<and> eqv new e then Some new else hash_find h e)) \<and>
    elem_cnt h' = (if hash_find h new = None then elem_cnt h + 1 else elem_cnt h)"
proof (cases "hash_find h new")
  case None
  let ?h = "insert_elem h (bucket_idx h new) new"
  have s: "hash_shape h" and cnt: "unat (elem_cnt h) = length (hash_elems h)" using h by (simp_all add: hash_ok_def)
  note ins = insert_elem_facts [OF s, of new]
  have no: "\<forall>x\<in>set (hash_elems h). \<not> eqv x new" using None hash_find_None [OF h] by simp
  have m: "mset (hash_elems ?h) = mset (new # hash_elems h)" using ins(2) by simp
  have d: "distinct (new # hash_elems h)" using no h(1) by (auto simp: hash_ok_def)
  have u: "a = b" if "a \<in> set (new # hash_elems h)" "b \<in> set (new # hash_elems h)" "eqv a b" for a b
    using that no ok_unique [OF h] eqv_sym by auto
  have n: "unat (elem_cnt ?h) = length (new # hash_elems h)"
    using ins(5) cnt sz unat_Suc [of "elem_cnt h"] by simp
  have c: "client ?h" using h ins by (simp add: client_def)
  obtain h' where h': "rehash mem ?h = Some h'" "hash_ok h'" "client h'"
    "set (hash_elems h') = set (new # hash_elems h)" "elem_cnt h' = elem_cnt ?h"
    by (rule rehash_ok [OF ins(1) m d u n c])
  have "hash_find h' e = (if eqv new e then Some new else hash_find h e)" for e
  proof (cases "eqv new e")
    case True
    then show ?thesis using hash_find_Some [OF h'(2,3), of e new] h'(4) by simp
  next
    case False
    then show ?thesis using hash_find_eq [OF h h'(2,3), of e] h'(4) by auto
  qed
  moreover have "hash_insert mem h new = Some (None, h')"
    using None h'(1) by (simp add: hash_insert_def hash_find_def Let_def)
  ultimately show ?thesis using None h' ins by auto
next
  case (Some old)
  have s: "hash_shape h" using h by (simp add: hash_ok_def)
  obtain h' where h': "rehash mem h = Some h'" "hash_ok h'" "client h'"
    "set (hash_elems h') = set (hash_elems h)" "elem_cnt h' = elem_cnt h"
    using rehash_ok [of h "hash_elems h" mem] h ok_unique [OF h] unfolding hash_ok_def by blast
  have "hash_find h' e = hash_find h e" for e
    using hash_find_eq [OF h h'(2,3), of e] h'(4) by simp
  moreover have "hash_insert mem h new = Some (Some old, h')"
    using Some h'(1) by (simp add: hash_insert_def hash_find_def Let_def)
  ultimately show ?thesis using Some h' by auto
qed

lemma hash_delete_map:
  assumes h: "hash_ok h" "client h"
  shows "\<exists>h'. hash_delete mem h d = Some (hash_find h d, h') \<and> hash_ok h' \<and> client h' \<and>
    (\<forall>e. hash_find h' e = (if eqv d e then None else hash_find h e)) \<and>
    elem_cnt h' = (if hash_find h d = None then elem_cnt h else elem_cnt h - 1)"
proof (cases "hash_find h d")
  case None
  have "hash_find h e = None" if "eqv d e" for e
  proof -
    have "\<not> eqv x e" if "x \<in> set (hash_elems h)" for x
      using that None hash_find_None [OF h] eqv_trans [of x e d] eqv_sym [OF \<open>eqv d e\<close>] by blast
    then show ?thesis using hash_find_None [OF h] by blast
  qed
  moreover have "hash_delete mem h d = Some (None, h)"
    using None by (simp add: hash_delete_def hash_find_def)
  ultimately show ?thesis using None h by auto
next
  case (Some x)
  let ?h = "remove_elem h (bucket_idx h d) x"
  have s: "hash_shape h" and cnt: "unat (elem_cnt h) = length (hash_elems h)" and dis: "distinct (hash_elems h)"
    using h by (simp_all add: hash_ok_def)
  have x: "x \<in> set (find_bucket h d)" "eqv x d" "x \<in> set (hash_elems h)"
    using Some find_elem_Some hash_find_Some [OF h] unfolding hash_find_def by fastforce+
  note rem = remove_elem_facts [OF s x(1)]
  have m: "mset (x # hash_elems ?h) = mset (hash_elems h)" using rem(2) by simp
  have d': "distinct (x # hash_elems ?h)" using dis mset_eq_imp_distinct_iff [OF m] by simp
  have set': "set (hash_elems h) = insert x (set (hash_elems ?h))" using mset_eq_setD [OF m] by simp
  have "unat (elem_cnt h) = Suc (length (hash_elems ?h))" using cnt mset_eq_length [OF m] by simp
  then have "unat (elem_cnt ?h) = length (hash_elems ?h)"
    using rem(5) by (metis diff_Suc_1 nat.distinct(1) unat_minus_one unsigned_0)
  moreover have "client ?h" using h rem by (simp add: client_def)
  moreover have "a = b" if "a \<in> set (hash_elems ?h)" "b \<in> set (hash_elems ?h)" "eqv a b" for a b
    using that ok_unique [OF h] set' by blast
  ultimately obtain h' where h': "rehash mem ?h = Some h'" "hash_ok h'" "client h'"
    "set (hash_elems h') = set (hash_elems ?h)" "elem_cnt h' = elem_cnt ?h"
    using rehash_ok [of ?h "hash_elems ?h" mem] rem(1) d' by auto
  have "hash_find h' e = (if eqv d e then None else hash_find h e)" for e
  proof (cases "eqv d e")
    case True
    have "\<not> eqv y e" if "y \<in> set (hash_elems ?h)" for y
    proof
      assume "eqv y e"
      then have "eqv y x"
        using eqv_trans [of y e x] eqv_trans [of x d e] eqv_sym [of x e] True x(2) by blast
      then have "y = x" using ok_unique [OF h] x(3) that set' by blast
      with that d' show False by simp
    qed
    then show ?thesis using True hash_find_None [OF h'(2,3)] h'(4) by auto
  next
    case False
    have "\<not> eqv x e" using False eqv_trans [of d x e] eqv_sym [OF x(2)] by blast
    then show ?thesis using False hash_find_eq [OF h h'(2,3), of e] h'(4) set' by auto
  qed
  moreover have "hash_delete mem h d = Some (Some x, h')"
    using Some h'(1) by (simp add: hash_delete_def hash_find_def)
  ultimately show ?thesis using Some h' rem by auto
qed

lemma hash_replace_map:
  assumes h: "hash_ok h" "client h" and sz: "length (hash_elems h) < 4294967295"
  shows "\<exists>h'. hash_replace mem h new = Some (hash_find h new, h') \<and> hash_ok h' \<and> client h' \<and>
    (\<forall>e. hash_find h' e = (if eqv new e then Some new else hash_find h e)) \<and>
    elem_cnt h' = (if hash_find h new = None then elem_cnt h + 1 else elem_cnt h)"
proof (cases "hash_find h new")
  case None
  then have "hash_replace mem h new = hash_insert mem h new"
    by (simp add: hash_replace_def hash_insert_def hash_find_def Let_def)
  then show ?thesis using hash_insert_map [OF assms, of mem new] None by simp
next
  case (Some x)
  let ?r = "remove_elem h (bucket_idx h new) x"
  let ?h = "insert_elem ?r (bucket_idx ?r new) new"
  have s: "hash_shape h" and cnt: "unat (elem_cnt h) = length (hash_elems h)" and dis: "distinct (hash_elems h)"
    using h by (simp_all add: hash_ok_def)
  have x: "x \<in> set (find_bucket h new)" "eqv x new" "x \<in> set (hash_elems h)"
    using Some find_elem_Some hash_find_Some [OF h] unfolding hash_find_def by fastforce+
  note rem = remove_elem_facts [OF s x(1)]
  note ins = insert_elem_facts [OF rem(1), of new]
  let ?es = "new # hash_elems ?r"
  have m: "mset (x # hash_elems ?r) = mset (hash_elems h)" using rem(2) by simp
  have d': "distinct (x # hash_elems ?r)" using dis mset_eq_imp_distinct_iff [OF m] by simp
  have set': "set (hash_elems h) = insert x (set (hash_elems ?r))" using mset_eq_setD [OF m] by simp
  have far: "\<not> eqv y new" if "y \<in> set (hash_elems ?r)" for y
  proof
    assume "eqv y new"
    then have "eqv y x" using eqv_trans [of y new x] eqv_sym [OF x(2)] by blast
    then have "y = x" using ok_unique [OF h] x(3) that set' by blast
    with that d' show False by simp
  qed
  have d: "distinct ?es" using far [of new] d' by auto
  have u: "a = b" if "a \<in> set ?es" "b \<in> set ?es" "eqv a b" for a b
    using that far [of a] far [of b] ok_unique [OF h, of a b] set' eqv_sym [of a b] by auto
  have n: "unat (elem_cnt ?h) = length ?es"
    using ins(5) rem(5) cnt mset_eq_length [OF m] by simp
  have c: "client ?h" using h ins rem by (simp add: client_def)
  have me: "mset (hash_elems ?h) = mset ?es" using ins(2) by simp
  obtain h' where h': "rehash mem ?h = Some h'" "hash_ok h'" "client h'"
    "set (hash_elems h') = set ?es" "elem_cnt h' = elem_cnt ?h"
    by (rule rehash_ok [OF ins(1) me d u n c])
  have "hash_find h' e = (if eqv new e then Some new else hash_find h e)" for e
  proof (cases "eqv new e")
    case True
    then show ?thesis using hash_find_Some [OF h'(2,3), of e new] h'(4) by simp
  next
    case False
    have "\<not> eqv x e" using False eqv_trans [of new x e] eqv_sym [OF x(2)] by blast
    then show ?thesis using False hash_find_eq [OF h h'(2,3), of e] h'(4) set' by auto
  qed
  moreover have "bucket_idx ?r new = bucket_idx h new"
    using rem by (intro bucket_idx_cong) simp_all
  then have "hash_replace mem h new = Some (Some x, h')"
    using Some h'(1) by (simp add: hash_replace_def hash_find_def Let_def)
  ultimately show ?thesis using Some h' ins rem by auto
qed

end

lemma hash_clear_ok:
  assumes "hash_shape h"
  shows "hash_ok (fst (hash_clear h d))" and "hash_elems (fst (hash_clear h d)) = []"
  using assms by (auto simp: hash_ok_def hash_shape_def hash_clear_def hash_elems_def)

lemma hash_init_ok:
  "\<exists>h. hash_init True hf lt = Some h \<and> hash_ok h \<and> hash_elems h = [] \<and> hash_fn h = hf \<and> less_fn h = lt"
  by (auto simp: hash_init_def Let_def hash_clear_def hash_ok_def hash_shape_def hash_elems_def intro!: exI [of _ 2])

lemma hash_apply_fold: "hash_apply h action s = foldl (\<lambda>s e. action e s) s (hash_elems h)"
proof -
  have "foldl (\<lambda>s bucket. foldl (\<lambda>s e. action e s) s bucket) s bs = foldl (\<lambda>s e. action e s) s (concat bs)" for bs
    by (induction bs arbitrary: s) simp_all
  then show ?thesis by (simp add: hash_apply_def hash_elems_def)
qed

section \<open>Iteration visits every element once\<close>

definition it_rest :: "'e hash_iterator \<Rightarrow> 'e list" where
  "it_rest i = drop (it_pos i) (buckets (it_hash i) ! it_bucket i) @ concat (drop (Suc (it_bucket i)) (buckets (it_hash i)))"

definition it_ok :: "'e hash_iterator \<Rightarrow> bool" where
  "it_ok i \<longleftrightarrow> length (buckets (it_hash i)) = unat (bucket_cnt (it_hash i)) \<and>
     it_bucket i < length (buckets (it_hash i)) \<and> it_pos i \<le> length (buckets (it_hash i) ! it_bucket i)"

declare hash_next_loop.simps [simp del]

lemma hash_next_loop_rest:
  "it_ok i \<Longrightarrow> it_hash (hash_next_loop i) = it_hash i \<and>
    (case it_rest i of
       [] \<Rightarrow> it_elem (hash_next_loop i) = None
     | x # xs \<Rightarrow> it_elem (hash_next_loop i) = Some x \<and> it_ok (hash_next_loop i) \<and> it_rest (hash_next_loop i) = xs)"
proof (induction i rule: hash_next_loop.induct)
  case (1 i)
  let ?bs = "buckets (it_hash i)" and ?b = "it_bucket i"
  have ok: "length ?bs = unat (bucket_cnt (it_hash i))" "?b < length ?bs" "it_pos i \<le> length (?bs ! ?b)"
    using "1.prems" by (simp_all add: it_ok_def)
  show ?case
  proof (cases "it_pos i = length (?bs ! ?b)")
    case atend: True
    show ?thesis
    proof (cases "?b + 1 \<ge> unat (bucket_cnt (it_hash i))")
      case True
      then have "it_rest i = []" using ok atend by (simp add: it_rest_def)
      then show ?thesis using True ok atend by (subst (1 2) hash_next_loop.simps) simp
    next
      case False
      let ?i = "i\<lparr>it_bucket := ?b + 1, it_pos := 0\<rparr>"
      have "it_ok ?i" using False ok by (simp add: it_ok_def)
      moreover have "it_rest ?i = it_rest i"
        using False ok atend by (simp add: it_rest_def Cons_nth_drop_Suc [symmetric])
      moreover have "hash_next_loop i = hash_next_loop ?i"
        using False ok atend by (subst hash_next_loop.simps) simp
      ultimately show ?thesis using "1.IH" False ok atend by (cases "it_rest i") simp_all
    qed
  next
    case False
    then have lt: "it_pos i < length (?bs ! ?b)" using ok by simp
    then have "it_rest i = ?bs ! ?b ! it_pos i # drop (Suc (it_pos i)) (?bs ! ?b) @ concat (drop (Suc ?b) ?bs)"
      by (simp add: it_rest_def Cons_nth_drop_Suc [symmetric])
    moreover have "hash_next_loop i = i\<lparr>it_elem := Some (?bs ! ?b ! it_pos i), it_pos := it_pos i + 1\<rparr>"
      using False by (subst hash_next_loop.simps) simp
    ultimately show ?thesis using ok lt by (simp add: it_ok_def it_rest_def)
  qed
qed

lemma hash_walk_rest: "it_ok i \<Longrightarrow> hash_walk i = Some (it_rest i)"
proof (induction "it_rest i" arbitrary: i)
  case Nil
  then show ?case
    using hash_next_loop_rest [OF Nil.prems]
    by (subst hash_walk.simps) (simp add: hash_next_def it_ok_def Let_def split: list.splits)
next
  case (Cons x xs)
  note step = hash_next_loop_rest [OF Cons.prems, folded Cons.hyps(2), simplified]
  have "hash_walk (hash_next_loop i) = Some xs"
    using Cons.hyps(1) [of "hash_next_loop i"] step by simp
  then show ?case
    using step Cons.prems by (subst hash_walk.simps) (simp add: hash_next_def it_ok_def Let_def Cons.hyps(2) [symmetric])
qed


section \<open>Properties\<close>

definition sample_table :: "u32 hash_table" where
  "sample_table = \<lparr>elem_cnt = 2, bucket_cnt = 4, buckets = [[], [], [10, 6], []], hash_fn = id, less_fn = (<)\<rparr>"

lemma sample_table_client: "hash_funcs (less_fn sample_table) (hash_fn sample_table)"
proof -
  have i: "less_func ((<) :: u32 \<Rightarrow> u32 \<Rightarrow> bool)" by unfold_locales auto
  then have "hash_funcs (<) (id :: u32 \<Rightarrow> u32)"
    by (intro hash_funcs.intro hash_funcs_axioms.intro)
      (auto simp: less_func.eqv_def not_less intro: order.antisym)
  then show ?thesis by (simp add: sample_table_def)
qed

lemma sample_table_ok: "hash_ok sample_table"
proof -
  have "unat (bucket_cnt sample_table) = 2 ^ 2" by (simp add: sample_table_def)
  moreover have "bucket_idx sample_table 10 = 2" "bucket_idx sample_table 6 = 2"
    by (simp_all add: bucket_idx_def sample_table_def)
  ultimately show ?thesis
    by (auto simp: hash_ok_def hash_shape_def hash_elems_def equal_elems_def sample_table_def nth_Cons'
        intro!: exI [of _ 2])
qed

text \<open>
  C15. \<^verbatim>\<open>hash_insert\<close> never panics or loops, whatever the allocator does; it returns the equal element
  that is already present and then leaves every lookup as it was; otherwise lookups of elements equal
  to the new one return it, all other lookups are unchanged, and the size grows by one.
\<close>

theorem hash_insert_refines_map:
  assumes "hash_ok h" and "hash_funcs (less_fn h) (hash_fn h)" and "length (hash_elems h) < 4294967295"
  shows "\<exists>h'. hash_insert mem h new = Some (hash_find h new, h') \<and> hash_ok h' \<and>
    less_fn h' = less_fn h \<and> hash_fn h' = hash_fn h \<and>
    (\<forall>e. hash_find h' e = (if hash_find h new = None \<and> equal_elems h new e then Some new else hash_find h e)) \<and>
    hash_size h' = (if hash_find h new = None then hash_size h + 1 else hash_size h)"
  using hash_funcs.hash_insert_map [OF assms(2,1) _ assms(3), of mem new]
  by (auto simp: hash_funcs.client_def [OF assms(2)] hash_size_def equal_elems_def
      less_func.eqv_def [OF hash_funcs.axioms(1) [OF assms(2)]])

lemma hash_insert_refines_map_witness:
  "\<exists>h'. hash_insert False sample_table 7 = Some (None, h') \<and> hash_ok h' \<and> hash_find h' 7 = Some 7 \<and>
    hash_find h' 6 = Some 6 \<and> hash_size h' = 3"
proof -
  have "length (hash_elems sample_table) < 4294967295" by (simp add: sample_table_def hash_elems_def)
  from hash_insert_refines_map [OF sample_table_ok sample_table_client this, of False 7] show ?thesis
    by (auto simp: hash_find_def find_bucket_def bucket_idx_def equal_elems_def hash_size_def sample_table_def)
qed

text \<open>
  C24. \<^verbatim>\<open>hash_replace\<close> returns the equal element that was present, if any, and afterwards lookups of
  elements equal to the new one return the new one; all other lookups are unchanged.
\<close>

theorem hash_replace_refines_map:
  assumes "hash_ok h" and "hash_funcs (less_fn h) (hash_fn h)" and "length (hash_elems h) < 4294967295"
  shows "\<exists>h'. hash_replace mem h new = Some (hash_find h new, h') \<and> hash_ok h' \<and>
    less_fn h' = less_fn h \<and> hash_fn h' = hash_fn h \<and>
    (\<forall>e. hash_find h' e = (if equal_elems h new e then Some new else hash_find h e)) \<and>
    hash_size h' = (if hash_find h new = None then hash_size h + 1 else hash_size h)"
  using hash_funcs.hash_replace_map [OF assms(2,1) _ assms(3), of mem new]
  by (auto simp: hash_funcs.client_def [OF assms(2)] hash_size_def equal_elems_def
      less_func.eqv_def [OF hash_funcs.axioms(1) [OF assms(2)]])

lemma hash_replace_refines_map_witness:
  "\<exists>h'. hash_replace True sample_table 10 = Some (Some 10, h') \<and> hash_ok h' \<and> hash_find h' 10 = Some 10 \<and>
    hash_find h' 6 = Some 6 \<and> hash_size h' = 2"
proof -
  have "length (hash_elems sample_table) < 4294967295" by (simp add: sample_table_def hash_elems_def)
  from hash_replace_refines_map [OF sample_table_ok sample_table_client this, of True 10] show ?thesis
    by (auto simp: hash_find_def find_bucket_def bucket_idx_def equal_elems_def hash_size_def sample_table_def)
qed

text \<open>
  C25. \<^verbatim>\<open>hash_delete\<close> returns the element equal to its argument, or null; afterwards lookups of equal
  elements fail and all other lookups are unchanged, whether or not the table could be shrunk.
\<close>

theorem hash_delete_refines_map:
  assumes "hash_ok h" and "hash_funcs (less_fn h) (hash_fn h)"
  shows "\<exists>h'. hash_delete mem h d = Some (hash_find h d, h') \<and> hash_ok h' \<and>
    less_fn h' = less_fn h \<and> hash_fn h' = hash_fn h \<and>
    (\<forall>e. hash_find h' e = (if equal_elems h d e then None else hash_find h e)) \<and>
    hash_size h' = (if hash_find h d = None then hash_size h else hash_size h - 1)"
  using hash_funcs.hash_delete_map [OF assms(2,1), of mem d]
  by (auto simp: hash_funcs.client_def [OF assms(2)] hash_size_def equal_elems_def
      less_func.eqv_def [OF hash_funcs.axioms(1) [OF assms(2)]])

lemma hash_delete_refines_map_witness:
  "\<exists>h'. hash_delete True sample_table 10 = Some (Some 10, h') \<and> hash_ok h' \<and> hash_find h' 10 = None \<and>
    hash_find h' 6 = Some 6 \<and> hash_size h' = 1"
  using hash_delete_refines_map [OF sample_table_ok sample_table_client, of True 10]
  by (auto simp: hash_find_def find_bucket_def bucket_idx_def equal_elems_def hash_size_def sample_table_def)

text \<open>
  C26. The documented iteration, \<^verbatim>\<open>hash_first\<close> followed by \<^verbatim>\<open>hash_next\<close> until it returns null, ends and
  visits every element of the table exactly once.
\<close>

theorem hash_iteration_complete:
  assumes "hash_ok h"
  shows "hash_walk (hash_first h) = Some (hash_elems h) \<and> distinct (hash_elems h)"
proof -
  from assms obtain k where h: "length (buckets h) = unat (bucket_cnt h)" "unat (bucket_cnt h) = 2 ^ k"
    by (auto simp: hash_ok_def hash_shape_def)
  then have ne: "0 < length (buckets h)" by simp
  with h have "it_ok (hash_first h)" by (simp add: it_ok_def hash_first_def)
  moreover have "it_rest (hash_first h) = hash_elems h"
  proof (cases "buckets h")
    case Nil
    with ne show ?thesis by simp
  qed (simp add: it_rest_def hash_first_def hash_elems_def)
  ultimately show ?thesis using assms by (simp add: hash_walk_rest hash_ok_def)
qed

lemma hash_iteration_complete_witness: "hash_walk (hash_first sample_table) = Some [10, 6]"
  using hash_iteration_complete [OF sample_table_ok] by (simp add: hash_elems_def sample_table_def)

end
