(* ===== verification/Kernel_String.thy ===== *)
theory Kernel_String
  imports Kernel_Prelude
begin

text \<open>
  The string and block routines of \<^verbatim>\<open>lib/string.c\<close>, on a memory of bytes. A pointer is the number of the
  byte it points to, 0 the null pointer; the objects the routines work on lie inside the address space,
  so that stepping a pointer through them does not wrap. A loop that looks for a terminator is a
  partial function: \<open>None\<close> when it never finds one.
\<close>

type_synonym memory = "nat \<Rightarrow> u8"

section \<open>Blocks\<close>

fun copy_up :: "memory \<Rightarrow> nat \<Rightarrow> nat \<Rightarrow> nat \<Rightarrow> memory" where
  "copy_up m dst src 0 = m"
| "copy_up m dst src (Suc sz) = copy_up (m(dst := m src)) (dst + 1) (src + 1) sz"

definition memcpy :: "memory \<Rightarrow> nat \<Rightarrow> nat \<Rightarrow> nat \<Rightarrow> (nat \<times> memory) option" where
  "memcpy m dst src sz = do {
     ASSERT (dst \<noteq> 0 \<or> sz = 0);
     ASSERT (src \<noteq> 0 \<or> sz = 0);
     Some (dst, copy_up m dst src sz) }"

fun copy_down :: "memory \<Rightarrow> nat \<Rightarrow> nat \<Rightarrow> nat \<Rightarrow> memory" where
  "copy_down m dst src 0 = m"
| "copy_down m dst src (Suc sz) = copy_down (m(dst - 1 := m (src - 1))) (dst - 1) (src - 1) sz"

text \<open>
  The pointer returned is the variable \<open>dst\<close> after the copy loop, which the upward loop has advanced.
\<close>

definition memmove :: "memory \<Rightarrow> nat \<Rightarrow> nat \<Rightarrow> nat \<Rightarrow> (nat \<times> memory) option" where
  "memmove m dst src sz = do {
     ASSERT (dst \<noteq> 0 \<or> sz = 0);
     ASSERT (src \<noteq> 0 \<or> sz = 0);
     if dst < src then Some (dst + sz, copy_up m dst src sz)
     else Some (dst, copy_down m (dst + sz) (src + sz) sz) }"

fun memcmp_loop :: "memory \<Rightarrow> nat \<Rightarrow> nat \<Rightarrow> nat \<Rightarrow> int" where
  "memcmp_loop m a b 0 = 0"
| "memcmp_loop m a b (Suc sz) =
     (if m a \<noteq> m b then (if m a > m b then 1 else - 1) else memcmp_loop m (a + 1) (b + 1) sz)"

definition memcmp :: "memory \<Rightarrow> nat \<Rightarrow> nat \<Rightarrow> nat \<Rightarrow> int option" where
  "memcmp m a b sz = do {
     ASSERT (a \<noteq> 0 \<or> sz = 0);
     ASSERT (b \<noteq> 0 \<or> sz = 0);
     Some (memcmp_loop m a b sz) }"

fun memchr_loop :: "memory \<Rightarrow> nat \<Rightarrow> u8 \<Rightarrow> nat \<Rightarrow> nat" where
  "memchr_loop m block ch 0 = 0"
| "memchr_loop m block ch (Suc sz) = (if m block = ch then block else memchr_loop m (block + 1) ch sz)"

definition memchr :: "memory \<Rightarrow> nat \<Rightarrow> u8 \<Rightarrow> nat \<Rightarrow> nat option" where
  "memchr m block ch sz = do {
     ASSERT (block \<noteq> 0 \<or> sz = 0);
     Some (memchr_loop m block ch sz) }"

fun fill_up :: "memory \<Rightarrow> nat \<Rightarrow> u8 \<Rightarrow> nat \<Rightarrow> memory" where
  "fill_up m dst v 0 = m"
| "fill_up m dst v (Suc sz) = fill_up (m(dst := v)) (dst + 1) v sz"

definition memset :: "memory \<Rightarrow> nat \<Rightarrow> u8 \<Rightarrow> nat \<Rightarrow> (nat \<times> memory) option" where
  "memset m dst v sz = do {
     ASSERT (dst \<noteq> 0 \<or> sz = 0);
     Some (dst, fill_up m dst v sz) }"

section \<open>Strings\<close>

partial_function (option) strcmp_loop :: "memory \<Rightarrow> nat \<Rightarrow> nat \<Rightarrow> int option" where
  "strcmp_loop m a b =
     (if m a \<noteq> 0 \<and> m a = m b then strcmp_loop m (a + 1) (b + 1)
      else Some (if m a < m b then - 1 else if m a > m b then 1 else 0))"

definition strcmp :: "memory \<Rightarrow> nat \<Rightarrow> nat \<Rightarrow> int option" where
  "strcmp m a b = do { ASSERT (a \<noteq> 0); ASSERT (b \<noteq> 0); strcmp_loop m a b }"

partial_function (option) strchr_loop :: "memory \<Rightarrow> nat \<Rightarrow> u8 \<Rightarrow> nat option" where
  "strchr_loop m string c =
     (if m string = c then Some string
      else if m string = 0 then Some 0
      else strchr_loop m (string + 1) c)"

definition strchr :: "memory \<Rightarrow> nat \<Rightarrow> u8 \<Rightarrow> nat option" where
  "strchr m string c = do { ASSERT (string \<noteq> 0); strchr_loop m string c }"

partial_function (option) strcspn_loop :: "memory \<Rightarrow> nat \<Rightarrow> nat \<Rightarrow> nat \<Rightarrow> nat option" where
  "strcspn_loop m string stop len =
     (if m (string + len) \<noteq> 0
      then do {
        p \<leftarrow> strchr m stop (m (string + len));
        if p \<noteq> 0 then Some len else strcspn_loop m string stop (len + 1) }
      else Some len)"

definition strcspn :: "memory \<Rightarrow> nat \<Rightarrow> nat \<Rightarrow> nat option" where
  "strcspn m string stop = strcspn_loop m string stop 0"

partial_function (option) strpbrk :: "memory \<Rightarrow> nat \<Rightarrow> nat \<Rightarrow> nat option" where
  "strpbrk m string stop =
     (if m string \<noteq> 0
      then do {
        p \<leftarrow> strchr m stop (m string);
        if p \<noteq> 0 then Some string else strpbrk m (string + 1) stop }
      else Some 0)"

partial_function (option) strrchr_loop :: "memory \<Rightarrow> nat \<Rightarrow> u8 \<Rightarrow> nat \<Rightarrow> nat option" where
  "strrchr_loop m string c p =
     (if m string \<noteq> 0 then strrchr_loop m (string + 1) c (if m string = c then string else p) else Some p)"

definition strrchr :: "memory \<Rightarrow> nat \<Rightarrow> u8 \<Rightarrow> nat option" where
  "strrchr m string c = strrchr_loop m string c 0"

partial_function (option) strspn_loop :: "memory \<Rightarrow> nat \<Rightarrow> nat \<Rightarrow> nat \<Rightarrow> nat option" where
  "strspn_loop m string skip len =
     (if m (string + len) \<noteq> 0
      then do {
        p \<leftarrow> strchr m skip (m (string + len));
        if p = 0 then Some len else strspn_loop m string skip (len + 1) }
      else Some len)"

definition strspn :: "memory \<Rightarrow> nat \<Rightarrow> nat \<Rightarrow> nat option" where
  "strspn m string skip = strspn_loop m string skip 0"

partial_function (option) strlen_loop :: "memory \<Rightarrow> nat \<Rightarrow> nat option" where
  "strlen_loop m p = (if m p \<noteq> 0 then strlen_loop m (p + 1) else Some p)"

definition strlen :: "memory \<Rightarrow> nat \<Rightarrow> nat option" where
  "strlen m string = do { ASSERT (string \<noteq> 0); p \<leftarrow> strlen_loop m string; Some (p - string) }"

partial_function (option) strnlen_loop :: "memory \<Rightarrow> nat \<Rightarrow> nat \<Rightarrow> nat \<Rightarrow> nat option" where
  "strnlen_loop m string maxlen len =
     (if m (string + len) \<noteq> 0 \<and> len < maxlen then strnlen_loop m string maxlen (len + 1) else Some len)"

definition strnlen :: "memory \<Rightarrow> nat \<Rightarrow> nat \<Rightarrow> nat option" where
  "strnlen m string maxlen = strnlen_loop m string maxlen 0"

text \<open>The search loop of \<^verbatim>\<open>strstr\<close> runs for \<open>i\<close> from 0 up to the difference of the lengths; \<open>n\<close> positions are left.\<close>

fun strstr_loop :: "memory \<Rightarrow> nat \<Rightarrow> nat \<Rightarrow> nat \<Rightarrow> nat \<Rightarrow> nat \<Rightarrow> nat option" where
  "strstr_loop m haystack needle needle_len i 0 = Some 0"
| "strstr_loop m haystack needle needle_len i (Suc n) = do {
     c \<leftarrow> memcmp m (haystack + i) needle needle_len;
     if c = 0 then Some (haystack + i) else strstr_loop m haystack needle needle_len (i + 1) n }"

definition strstr :: "memory \<Rightarrow> nat \<Rightarrow> nat \<Rightarrow> nat option" where
  "strstr m haystack needle = do {
     haystack_len \<leftarrow> strlen m haystack;
     needle_len \<leftarrow> strlen m needle;
     if haystack_len \<ge> needle_len
     then strstr_loop m haystack needle needle_len 0 (haystack_len - needle_len + 1)
     else Some 0 }"

text \<open>The tokenizer: the result is the token (0 for null), the new saved pointer and the memory.\<close>

partial_function (option) skip_delims :: "memory \<Rightarrow> nat \<Rightarrow> nat \<Rightarrow> (bool \<times> nat) option" where
  "skip_delims m delimiters s = do {
     p \<leftarrow> strchr m delimiters (m s);
     if p \<noteq> 0 then if m s = 0 then Some (True, s) else skip_delims m delimiters (s + 1)
     else Some (False, s) }"

partial_function (option) skip_token :: "memory \<Rightarrow> nat \<Rightarrow> nat \<Rightarrow> nat option" where
  "skip_token m delimiters s = do {
     p \<leftarrow> strchr m delimiters (m s);
     if p = 0 then skip_token m delimiters (s + 1) else Some s }"

definition strtok_r :: "memory \<Rightarrow> nat \<Rightarrow> nat \<Rightarrow> nat \<Rightarrow> (nat \<times> nat \<times> memory) option" where
  "strtok_r m s delimiters save = do {
     ASSERT (delimiters \<noteq> 0);
     let s = (if s = 0 then save else s);
     ASSERT (s \<noteq> 0);
     (at_end, s) \<leftarrow> skip_delims m delimiters s;
     if at_end then Some (0, s, m)
     else do {
       let token = s;
       s \<leftarrow> skip_token m delimiters s;
       if m s \<noteq> 0 then Some (token, s + 1, m(s := 0)) else Some (token, s, m) } }"

definition strlcpy :: "memory \<Rightarrow> nat \<Rightarrow> nat \<Rightarrow> nat \<Rightarrow> (nat \<times> memory) option" where
  "strlcpy m dst src sz = do {
     ASSERT (dst \<noteq> 0);
     ASSERT (src \<noteq> 0);
     src_len \<leftarrow> strlen m src;
     if sz > 0
     then do {
       let dst_len = (if src_len < sz - 1 then src_len else sz - 1);
       (_, m) \<leftarrow> memcpy m dst src dst_len;
       Some (src_len, m(dst + dst_len := 0)) }
     else Some (src_len, m) }"

definition strlcat :: "memory \<Rightarrow> nat \<Rightarrow> nat \<Rightarrow> nat \<Rightarrow> (nat \<times> memory) option" where
  "strlcat m dst src sz = do {
     ASSERT (dst \<noteq> 0);
     ASSERT (src \<noteq> 0);
     src_len \<leftarrow> strlen m src;
     dst_len \<leftarrow> strlen m dst;
     if sz > 0 \<and> dst_len < sz
     then do {
       let copy_cnt = (if src_len < sz - dst_len - 1 then src_len else sz - dst_len - 1);
       (_, m) \<leftarrow> memcpy m (dst + dst_len) src copy_cnt;
       Some (src_len + dst_len, m(dst + dst_len + copy_cnt := 0)) }
     else Some (src_len + dst_len, m) }"


section \<open>Correctness of the block routines\<close>

lemma copy_up_apply:
  "dst \<le> src \<or> src + sz \<le> dst \<Longrightarrow>
   copy_up m dst src sz a = (if dst \<le> a \<and> a < dst + sz then m (src + (a - dst)) else m a)"
proof (induction m dst src sz rule: copy_up.induct)
  case (2 m dst src sz)
  have IH: "copy_up (m(dst := m src)) (dst + 1) (src + 1) sz a =
      (if dst + 1 \<le> a \<and> a < dst + 1 + sz then (m(dst := m src)) (src + 1 + (a - (dst + 1)))
       else (m(dst := m src)) a)"
    using 2(2) by (intro "2.IH") auto
  consider "a < dst" | "a = dst" | "dst < a" by linarith
  then show ?case
  proof cases
    case 3
    then have "src + 1 + (a - (dst + 1)) = src + (a - dst)" by simp
    moreover have "src + (a - dst) \<noteq> dst" if "a < dst + Suc sz" using 3 that 2(2) by linarith
    ultimately show ?thesis using 3 IH by auto
  qed (use IH in simp_all)
qed auto

lemma copy_down_apply:
  "src \<le> dst \<Longrightarrow>
   copy_down m (dst + sz) (src + sz) sz a = (if dst \<le> a \<and> a < dst + sz then m (src + (a - dst)) else m a)"
proof (induction sz arbitrary: m)
  case (Suc sz)
  have "copy_down m (dst + Suc sz) (src + Suc sz) (Suc sz) a =
      copy_down (m(dst + sz := m (src + sz))) (dst + sz) (src + sz) sz a"
    by simp
  also have "\<dots> = (if dst \<le> a \<and> a < dst + sz then (m(dst + sz := m (src + sz))) (src + (a - dst))
      else (m(dst + sz := m (src + sz))) a)"
    by (rule Suc.IH [OF Suc.prems])
  finally show ?case using Suc.prems by (auto simp: less_Suc_eq)
qed auto

lemma fill_up_apply: "fill_up m dst v sz a = (if dst \<le> a \<and> a < dst + sz then v else m a)"
proof (induction sz arbitrary: m dst)
  case (Suc sz)
  have "fill_up m dst v (Suc sz) a = fill_up (m(dst := v)) (dst + 1) v sz a" by simp
  also have "\<dots> = (if dst + 1 \<le> a \<and> a < dst + 1 + sz then v else (m(dst := v)) a)" by (rule Suc.IH)
  finally show ?case by auto
qed auto

lemma memcmp_loop_spec:
  "(memcmp_loop m a b sz = 0 \<longleftrightarrow> (\<forall>i< sz. m (a + i) = m (b + i))) \<and>
   (memcmp_loop m a b sz > 0 \<longleftrightarrow> (\<exists>i< sz. m (a + i) > m (b + i) \<and> (\<forall>j<i. m (a + j) = m (b + j))))"
proof (induction m a b sz rule: memcmp_loop.induct)
  case (2 m a b sz)
  have all: "(\<forall>i < Suc sz. m (a + i) = m (b + i)) \<longleftrightarrow> m a = m b \<and> (\<forall>i< sz. m (a + 1 + i) = m (b + 1 + i))"
    by (auto simp: All_less_Suc2)
  have ex: "(\<exists>i < Suc sz. m (a + i) > m (b + i) \<and> (\<forall>j<i. m (a + j) = m (b + j))) \<longleftrightarrow>
      m a > m b \<or> m a = m b \<and> (\<exists>i< sz. m (a + 1 + i) > m (b + 1 + i) \<and> (\<forall>j<i. m (a + 1 + j) = m (b + 1 + j)))"
    by (auto simp: All_less_Suc2 Ex_less_Suc2)
  show ?case unfolding all ex using 2 by auto
qed simp

section \<open>Strings in memory\<close>

definition cstr :: "memory \<Rightarrow> nat \<Rightarrow> u8 list \<Rightarrow> bool" where
  "cstr m p s \<longleftrightarrow> p \<noteq> 0 \<and> 0 \<notin> set s \<and> (\<forall>i<length s. m (p + i) = s ! i) \<and> m (p + length s) = 0"

lemma cstr_Nil: "cstr m p [] \<longleftrightarrow> p \<noteq> 0 \<and> m p = 0"
  by (simp add: cstr_def)

lemma cstr_Cons: "cstr m p (c # s) \<longleftrightarrow> p \<noteq> 0 \<and> c \<noteq> 0 \<and> m p = c \<and> cstr m (p + 1) s"
  by (auto simp: cstr_def All_less_Suc2 nth_Cons')

lemmas cstr_simps [simp] = cstr_Nil cstr_Cons

lemma cstr_append: "cstr m p (s @ t) \<longleftrightarrow>
    p \<noteq> 0 \<and> 0 \<notin> set s \<and> (\<forall>i<length s. m (p + i) = s ! i) \<and> cstr m (p + length s) t"
proof (induction s arbitrary: p)
  case (Cons c s)
  show ?case unfolding append_Cons cstr_Cons Cons.IH [of "p + 1"] by (auto simp: All_less_Suc2)
qed (auto simp: cstr_def)

lemma cstr_cong: "cstr m p s \<Longrightarrow> (\<And>a. p \<le> a \<Longrightarrow> a \<le> p + length s \<Longrightarrow> m' a = m a) \<Longrightarrow> cstr m' p s"
  by (auto simp: cstr_def)

lemma cstr_unique: "cstr m p s \<Longrightarrow> cstr m p t \<Longrightarrow> s = t"
proof (induction s arbitrary: p t)
  case Nil
  then show ?case by (cases t) auto
next
  case (Cons c s)
  then show ?case by (cases t) auto
qed

lemma strlen_loop_cstr: "cstr m p s \<Longrightarrow> strlen_loop m p = Some (p + length s)"
  by (induction s arbitrary: p) (subst strlen_loop.simps; simp)+

lemma strlen_cstr: "cstr m p s \<Longrightarrow> strlen m p = Some (length s)"
  by (simp add: strlen_def strlen_loop_cstr) (simp add: cstr_def)

lemma strchr_loop_cstr:
  "cstr m p s \<Longrightarrow> strchr_loop m p c =
     Some (if c = 0 then p + length s else if c \<in> set s then p + length (takeWhile (\<lambda>x. x \<noteq> c) s) else 0)"
  by (induction s arbitrary: p) (subst strchr_loop.simps; auto)+

lemma strchr_cstr:
  "cstr m p s \<Longrightarrow> strchr m p c =
     Some (if c = 0 then p + length s else if c \<in> set s then p + length (takeWhile (\<lambda>x. x \<noteq> c) s) else 0)"
  by (simp add: strchr_def strchr_loop_cstr) (simp add: cstr_def)

text \<open>The delimiter test of the tokenizer: the terminator counts as one.\<close>

lemma strchr_found: "cstr m d ds \<Longrightarrow> \<exists>p. strchr m d c = Some p \<and> (p \<noteq> 0 \<longleftrightarrow> c = 0 \<or> c \<in> set ds)"
  using strchr_cstr [of m d ds c] by (auto simp: cstr_def)

lemma skip_delims_cstr:
  assumes "cstr m d ds" and "cstr m p s"
  shows "skip_delims m d p =
    Some (list_all (\<lambda>c. c \<in> set ds) s, p + length (takeWhile (\<lambda>c. c \<in> set ds) s))"
  using assms(2)
proof (induction s arbitrary: p)
  case Nil
  then show ?case using strchr_found [OF assms(1), of 0] by (subst skip_delims.simps) auto
next
  case (Cons c s)
  then show ?case using strchr_found [OF assms(1), of c] by (subst skip_delims.simps) auto
qed

lemma skip_token_cstr:
  assumes "cstr m d ds" and "cstr m p s"
  shows "skip_token m d p = Some (p + length (takeWhile (\<lambda>c. c \<notin> set ds) s))"
  using assms(2)
proof (induction s arbitrary: p)
  case Nil
  then show ?case using strchr_found [OF assms(1), of 0] by (subst skip_token.simps) auto
next
  case (Cons c s)
  then show ?case using strchr_found [OF assms(1), of c] by (subst skip_token.simps) auto
qed


lemma strcmp_loop_cstr:
  assumes "cstr m a s" and "cstr m b t"
  shows "\<exists>r. strcmp_loop m a b = Some r \<and> (r = 0 \<longleftrightarrow> s = t) \<and>
    (r < 0 \<longleftrightarrow> ord.lexordp (<) s t) \<and> r \<in> {- 1, 0, 1}"
  using assms
proof (induction s arbitrary: a b t)
  case Nil
  then show ?case by (cases t; subst strcmp_loop.simps) (auto simp: word_gt_0)
next
  case (Cons c s)
  show ?case
  proof (cases t)
    case Nil
    with Cons.prems show ?thesis by (subst strcmp_loop.simps) (auto simp: word_gt_0)
  next
    case (Cons d t')
    show ?thesis
    proof (cases "c = d")
      case True
      have "cstr m (a + 1) s" "cstr m (b + 1) t'" using Cons.prems \<open>t = d # t'\<close> by simp_all
      from Cons.IH [OF this] show ?thesis
        using True Cons.prems \<open>t = d # t'\<close> by (subst strcmp_loop.simps) auto
    next
      case False
      then show ?thesis
        using Cons.prems \<open>t = d # t'\<close> by (subst strcmp_loop.simps) auto
    qed
  qed
qed

lemma strspn_loop_cstr:
  assumes "cstr m d ds" and "cstr m (p + len) s"
  shows "strspn_loop m p d len = Some (len + length (takeWhile (\<lambda>c. c \<in> set ds) s))"
  using assms(2)
proof (induction s arbitrary: len)
  case Nil
  then show ?case by (subst strspn_loop.simps) simp
next
  case (Cons c s)
  then show ?case using strchr_found [OF assms(1), of c] by (subst strspn_loop.simps) auto
qed

lemma strcspn_loop_cstr:
  assumes "cstr m d ds" and "cstr m (p + len) s"
  shows "strcspn_loop m p d len = Some (len + length (takeWhile (\<lambda>c. c \<notin> set ds) s))"
  using assms(2)
proof (induction s arbitrary: len)
  case Nil
  then show ?case by (subst strcspn_loop.simps) simp
next
  case (Cons c s)
  then show ?case using strchr_found [OF assms(1), of c] by (subst strcspn_loop.simps) auto
qed

lemma strstr_loop_spec:
  assumes "needle \<noteq> 0" and "haystack \<noteq> 0"
  shows "\<exists>r. strstr_loop m haystack needle k i n = Some r \<and>
    (r \<noteq> 0 \<longleftrightarrow> (\<exists>j<n. \<forall>q<k. m (haystack + i + j + q) = m (needle + q))) \<and>
    (r \<noteq> 0 \<longrightarrow> (\<exists>j<n. r = haystack + i + j \<and> (\<forall>q<k. m (haystack + i + j + q) = m (needle + q)) \<and>
        (\<forall>j'<j. \<exists>q<k. m (haystack + i + j' + q) \<noteq> m (needle + q))))"
proof (induction n arbitrary: i)
  case (Suc n)
  have c: "memcmp m (haystack + i) needle k = Some (memcmp_loop m (haystack + i) needle k)"
    using assms by (simp add: memcmp_def)
  have z: "memcmp_loop m (haystack + i) needle k = 0 \<longleftrightarrow> (\<forall>q<k. m (haystack + i + q) = m (needle + q))"
    using memcmp_loop_spec [of m "haystack + i" needle k] by simp
  show ?case
  proof (cases "memcmp_loop m (haystack + i) needle k = 0")
    case True
    then show ?thesis using c z assms by (auto intro!: exI [of _ 0])
  next
    case False
    obtain r where r: "strstr_loop m haystack needle k (i + 1) n = Some r"
      "r \<noteq> 0 \<longleftrightarrow> (\<exists>j<n. \<forall>q<k. m (haystack + (i + 1) + j + q) = m (needle + q))"
      "r \<noteq> 0 \<longrightarrow> (\<exists>j<n. r = haystack + (i + 1) + j \<and> (\<forall>q<k. m (haystack + (i + 1) + j + q) = m (needle + q)) \<and>
        (\<forall>j'<j. \<exists>q<k. m (haystack + (i + 1) + j' + q) \<noteq> m (needle + q)))"
      using Suc.IH by blast
    have shift: "haystack + (i + 1) + j = haystack + i + Suc j" for j by simp
    have "strstr_loop m haystack needle k i (Suc n) = Some r" using False c r(1) by simp
    moreover have "r \<noteq> 0 \<longleftrightarrow> (\<exists>j<Suc n. \<forall>q<k. m (haystack + i + j + q) = m (needle + q))"
      unfolding r(2) shift Ex_less_Suc2 using False z by (simp only: add_0_right) blast
    moreover have "r \<noteq> 0 \<longrightarrow> (\<exists>j<Suc n. r = haystack + i + j \<and> (\<forall>q<k. m (haystack + i + j + q) = m (needle + q)) \<and>
        (\<forall>j'<j. \<exists>q<k. m (haystack + i + j' + q) \<noteq> m (needle + q)))"
    proof
      assume "r \<noteq> 0"
      with r(3) obtain j where j: "j < n" "r = haystack + i + Suc j"
        "\<forall>q<k. m (haystack + i + Suc j + q) = m (needle + q)"
        "\<forall>j'<j. \<exists>q<k. m (haystack + i + Suc j' + q) \<noteq> m (needle + q)"
        unfolding shift by blast
      have "\<forall>j'<Suc j. \<exists>q<k. m (haystack + i + j' + q) \<noteq> m (needle + q)"
        unfolding All_less_Suc2 using j(4) False z by simp
      with j show "\<exists>j<Suc n. r = haystack + i + j \<and> (\<forall>q<k. m (haystack + i + j + q) = m (needle + q)) \<and>
        (\<forall>j'<j. \<exists>q<k. m (haystack + i + j' + q) \<noteq> m (needle + q))"
        by (intro exI [of _ "Suc j"]) simp
    qed
    ultimately show ?thesis by blast
  qed
qed simp

section \<open>Properties\<close>

text \<open>
  C32. \<^verbatim>\<open>memmove\<close> copies the block as it was before the call, however the two blocks overlap, and
  changes nothing else; the pointer it returns is the end of the destination, not the destination,
  whenever the destination lies below the source.
\<close>

theorem memmove_overlap:
  assumes "dst \<noteq> 0" and "src \<noteq> 0"
  shows "memmove m dst src sz = Some (if dst < src then dst + sz else dst,
    \<lambda>a. if dst \<le> a \<and> a < dst + sz then m (src + (a - dst)) else m a)"
  using assms by (auto simp: memmove_def fun_eq_iff copy_up_apply copy_down_apply)

lemma memmove_overlap_witness:
  "map_option (\<lambda>(p, m'). (p, map m' [10, 11, 12, 13, 14])) (memmove (\<lambda>a. of_nat a) 10 12 4) =
    Some (14, [12, 13, 14, 15, 14])"
  using memmove_overlap [of 10 12 "\<lambda>a. of_nat a" 4] by simp

text \<open>
  \<^verbatim>\<open>strlcpy\<close> returns the length of the source string and, when the size is not 0, leaves in the
  destination the null-terminated string of the source's first \<open>size - 1\<close> characters; it writes no
  byte outside the destination's \<open>size\<close> bytes.
\<close>

lemma strlcpy_truncates:
  assumes "cstr m src s" and "dst \<noteq> 0" and "dst + sz \<le> src \<or> src + length s < dst"
  shows "\<exists>m'. strlcpy m dst src sz = Some (length s, m') \<and>
    (if sz = 0 then m' = m else cstr m' dst (take (sz - 1) s)) \<and>
    (\<forall>a. a < dst \<or> dst + sz \<le> a \<longrightarrow> m' a = m a)"
proof (cases "sz = 0")
  case True
  then show ?thesis using assms by (auto simp: strlcpy_def strlen_cstr cstr_def)
next
  case False
  define n where "n = (if length s < sz - 1 then length s else sz - 1)"
  let ?m = "(copy_up m dst src n)(dst + n := 0)"
  have src: "src \<noteq> 0" using assms(1) by (simp add: cstr_def)
  have run: "strlcpy m dst src sz = Some (length s, ?m)"
    using False assms(2) src strlen_cstr [OF assms(1)] by (simp add: strlcpy_def memcpy_def n_def Let_def)
  have n: "n < sz" "n \<le> length s" "take (sz - 1) s = take n s" using False by (auto simp: n_def)
  have "dst \<le> src \<or> src + n \<le> dst" using assms(3) n by auto
  note cp = copy_up_apply [OF this, of m]
  have "cstr ?m dst (take (sz - 1) s)"
    using assms(1,2) n by (auto simp: cstr_def cp dest: in_set_takeD)
  with run n show ?thesis by (auto simp: cp False)
qed

lemma strtok_r_spec:
  assumes "cstr m d ds" and "cstr m p s" and "d + length ds < p \<or> p + length s < d"
  shows "\<exists>token save m'. strtok_r m p d old = Some (token, save, m') \<and>
    (let k = length (takeWhile (\<lambda>c. c \<in> set ds) s); rest = dropWhile (\<lambda>c. c \<in> set ds) s;
         w = takeWhile (\<lambda>c. c \<notin> set ds) rest; after = tl (dropWhile (\<lambda>c. c \<notin> set ds) rest) in
       (if rest = [] then token = 0 \<and> m' = m \<and> cstr m' save []
        else token = p + k \<and> w \<noteq> [] \<and> cstr m' token w \<and> cstr m' save after \<and> cstr m' d ds \<and>
          (\<forall>a. a \<noteq> token + length w \<longrightarrow> m' a = m a))) \<and>
    (token \<noteq> 0 \<longrightarrow> save + length (tl (dropWhile (\<lambda>c. c \<notin> set ds) (dropWhile (\<lambda>c. c \<in> set ds) s))) = p + length s)"
proof -
  define k where "k = length (takeWhile (\<lambda>c. c \<in> set ds) s)"
  define rest where "rest = dropWhile (\<lambda>c. c \<in> set ds) s"
  define w where "w = takeWhile (\<lambda>c. c \<notin> set ds) rest"
  define u where "u = dropWhile (\<lambda>c. c \<notin> set ds) rest"
  have split_s: "s = takeWhile (\<lambda>c. c \<in> set ds) s @ rest" and split_r: "rest = w @ u"
    by (simp_all add: rest_def w_def u_def)
  have nz: "d \<noteq> 0" "p \<noteq> 0" using assms(1,2) by (simp_all add: cstr_def)
  have all: "list_all (\<lambda>c. c \<in> set ds) s \<longleftrightarrow> rest = []"
    by (auto simp: rest_def list_all_iff dropWhile_eq_Nil_conv)
  have at_rest: "cstr m (p + k) rest"
    using assms(2) split_s unfolding k_def by (metis cstr_append)
  have at_u: "cstr m (p + k + length w) u"
    using at_rest unfolding split_r by (simp add: cstr_append)
  note sk = skip_delims_cstr [OF assms(1,2), folded k_def, unfolded all]
  have tk: "skip_token m d (p + k) = Some (p + k + length w)"
    using skip_token_cstr [OF assms(1) at_rest] by (simp add: w_def)
  have len: "length s = k + length w + length u"
    using arg_cong [OF split_s, of length] arg_cong [OF split_r, of length] by (simp add: k_def)
  show ?thesis
  proof (cases "rest = []")
    case True
    then have "strtok_r m p d old = Some (0, p + k, m)"
      using sk nz by (simp add: strtok_r_def Let_def)
    with True at_rest show ?thesis by (simp add: Let_def rest_def [symmetric])
  next
    case False
    then have wne: "w \<noteq> []"
      using hd_dropWhile [of "\<lambda>c. c \<in> set ds" s] by (cases rest) (auto simp: w_def rest_def)
    define save where "save = (if u = [] then p + k + length w else p + k + length w + 1)"
    define m' where "m' = (if u = [] then m else m(p + k + length w := 0))"
    have endc: "m (p + k + length w) = 0 \<longleftrightarrow> u = []" using at_u by (cases u) auto
    have run: "strtok_r m p d old = Some (p + k, save, m')"
      using sk tk nz False endc by (simp add: strtok_r_def Let_def save_def m'_def)
    have w_in: "\<forall>i<length w. m (p + k + i) = w ! i" "0 \<notin> set w"
      using at_rest unfolding split_r by (simp_all add: cstr_append)
    have "cstr m' (p + k) w"
      using w_in nz endc by (auto simp: cstr_def m'_def)
    moreover have "cstr m' save (tl u)"
    proof (cases u)
      case Nil
      then show ?thesis using at_u by (simp add: save_def m'_def)
    next
      case (Cons c u')
      then have "cstr m (p + k + length w + 1) u'" using at_u by simp
      then show ?thesis using Cons by (auto simp: save_def m'_def cstr_def)
    qed
    moreover have "cstr m' d ds"
    proof (rule cstr_cong [OF assms(1)])
      fix a assume a: "d \<le> a" "a \<le> d + length ds"
      then have "a \<noteq> p + k + length w" if "u \<noteq> []"
        using assms(3) len that by (cases u) auto
      then show "m' a = m a" by (auto simp: m'_def)
    qed
    moreover have "m' a = m a" if "a \<noteq> p + k + length w" for a using that by (simp add: m'_def)
    moreover have "save + length (tl u) = p + length s" using len by (cases u) (simp_all add: save_def)
    ultimately show ?thesis
      using run wne False
      by (simp add: Let_def rest_def [symmetric] w_def [symmetric] u_def [symmetric] k_def [symmetric])
  qed
qed

lemma strtok_r_continue: "p \<noteq> 0 \<Longrightarrow> strtok_r m 0 d p = strtok_r m p d old"
  by (simp add: strtok_r_def)

text \<open>
  C28. \<^verbatim>\<open>strtok_r\<close> skips the leading delimiters and returns null exactly when nothing else is left;
  otherwise it returns the maximal nonempty run of other characters as a null-terminated string, saves
  a position from which the rest of the string is read, and changes no byte but the delimiter that
  ends the token.
\<close>

theorem strtok_r_next_token:
  assumes "cstr m d ds" and "cstr m p s" and "d + length ds < p \<or> p + length s < d"
  shows "\<exists>token save m'. strtok_r m p d old = Some (token, save, m') \<and>
    (let k = length (takeWhile (\<lambda>c. c \<in> set ds) s); rest = dropWhile (\<lambda>c. c \<in> set ds) s;
         w = takeWhile (\<lambda>c. c \<notin> set ds) rest; after = tl (dropWhile (\<lambda>c. c \<notin> set ds) rest) in
       (if rest = [] then token = 0 \<and> m' = m \<and> cstr m' save []
        else token = p + k \<and> w \<noteq> [] \<and> cstr m' token w \<and> cstr m' save after \<and> cstr m' d ds \<and>
          (\<forall>a. a \<noteq> token + length w \<longrightarrow> m' a = m a)))"
  using strtok_r_spec [OF assms, of old] by blast

lemma strtok_r_next_token_witness:
  "\<exists>save m'. strtok_r ((\<lambda>_. 0)(10 := 32, 20 := 32, 21 := 97, 22 := 32, 23 := 98)) 20 10 0 = Some (21, save, m') \<and>
    cstr m' 21 [97] \<and> cstr m' save [98]"
  using strtok_r_next_token [of "(\<lambda>_. 0)(10 := 32, 20 := 32, 21 := 97, 22 := 32, 23 := 98)" 10 "[32]" 20 "[32, 97, 32, 98]" 0]
  by (auto simp: Let_def)

end
