(* ===== verification/Kernel_Stdlib.thy ===== *)
theory Kernel_Stdlib
  imports Kernel_String "HOL-Library.Multiset"
begin

text \<open>
  \<^verbatim>\<open>lib/ctype.h\<close> and \<^verbatim>\<open>lib/stdlib.c\<close>: character classes, \<^verbatim>\<open>atoi\<close>, the heap sort behind \<^verbatim>\<open>qsort\<close> and the
  binary search. An array of \<open>cnt\<close> elements of \<open>size\<close> bytes is the list of its elements, so that a pointer
  into it is an index; the comparison function is a function of two elements, with its auxiliary data
  applied. Signed overflow in \<^verbatim>\<open>atoi\<close>, which C leaves undefined, is \<open>None\<close>.
\<close>

section \<open>Character classes\<close>

definition islower :: "int \<Rightarrow> bool" where "islower c \<longleftrightarrow> c \<ge> 97 \<and> c \<le> 122"
definition isupper :: "int \<Rightarrow> bool" where "isupper c \<longleftrightarrow> c \<ge> 65 \<and> c \<le> 90"
definition isalpha :: "int \<Rightarrow> bool" where "isalpha c \<longleftrightarrow> islower c \<or> isupper c"
definition isdigit :: "int \<Rightarrow> bool" where "isdigit c \<longleftrightarrow> c \<ge> 48 \<and> c \<le> 57"
definition isalnum :: "int \<Rightarrow> bool" where "isalnum c \<longleftrightarrow> isalpha c \<or> isdigit c"
definition isxdigit :: "int \<Rightarrow> bool" where
  "isxdigit c \<longleftrightarrow> isdigit c \<or> (c \<ge> 97 \<and> c \<le> 102) \<or> (c \<ge> 65 \<and> c \<le> 70)"
definition isspace :: "int \<Rightarrow> bool" where
  "isspace c \<longleftrightarrow> c = 32 \<or> c = 12 \<or> c = 10 \<or> c = 13 \<or> c = 9 \<or> c = 11"
definition isblank :: "int \<Rightarrow> bool" where "isblank c \<longleftrightarrow> c = 32 \<or> c = 9"
definition isgraph :: "int \<Rightarrow> bool" where "isgraph c \<longleftrightarrow> c > 32 \<and> c < 127"
definition isprint :: "int \<Rightarrow> bool" where "isprint c \<longleftrightarrow> c \<ge> 32 \<and> c < 127"
definition iscntrl :: "int \<Rightarrow> bool" where "iscntrl c \<longleftrightarrow> (c \<ge> 0 \<and> c < 32) \<or> c = 127"
definition isascii :: "int \<Rightarrow> bool" where "isascii c \<longleftrightarrow> c \<ge> 0 \<and> c < 128"
definition ispunct :: "int \<Rightarrow> bool" where "ispunct c \<longleftrightarrow> isprint c \<and> \<not> isalnum c \<and> \<not> isspace c"
definition tolower :: "int \<Rightarrow> int" where "tolower c = (if isupper c then c - 65 + 97 else c)"
definition toupper :: "int \<Rightarrow> int" where "toupper c = (if islower c then c - 97 + 65 else c)"

lemmas ctype_defs = islower_def isupper_def isalpha_def isdigit_def isalnum_def isspace_def isprint_def
  iscntrl_def isascii_def isgraph_def ispunct_def isblank_def isxdigit_def tolower_def toupper_def

lemma ctype_partition:
  "isascii c \<Longrightarrow> iscntrl c \<or> c = 32 \<or> isalnum c \<or> ispunct c"
  by (auto simp: ctype_defs)

section \<open>atoi\<close>

definition in_int :: "int \<Rightarrow> int option" where
  "in_int v = (if - (2 ^ 31) \<le> v \<and> v < 2 ^ 31 then Some v else None)"

partial_function (option) skip_space :: "memory \<Rightarrow> nat \<Rightarrow> nat option" where
  "skip_space m s = (if isspace (uint (m s)) then skip_space m (s + 1) else Some s)"

partial_function (option) digits_loop :: "memory \<Rightarrow> nat \<Rightarrow> int \<Rightarrow> int option" where
  "digits_loop m s v =
     (if isdigit (sint (m s))
      then do {
        t \<leftarrow> in_int (v * 10);
        v \<leftarrow> in_int (t - (sint (m s) - 48));
        digits_loop m (s + 1) v }
      else Some v)"

definition atoi :: "memory \<Rightarrow> nat \<Rightarrow> int option" where
  "atoi m s = do {
     ASSERT (s \<noteq> 0);
     s \<leftarrow> skip_space m s;
     let negative = (m s = 45);
     let s = (if m s = 43 \<or> m s = 45 then s + 1 else s);
     v \<leftarrow> digits_loop m s 0;
     if \<not> negative then in_int (- v) else Some v }"

definition dec_value :: "int \<Rightarrow> u8 list \<Rightarrow> int" where
  "dec_value v ds = foldl (\<lambda>v d. v * 10 + (uint d - 48)) v ds"

lemma dec_value_simps [simp]:
  "dec_value v [] = v" "dec_value v (d # ds) = dec_value (v * 10 + (uint d - 48)) ds"
  by (simp_all add: dec_value_def)

lemma dec_value_ge: "0 \<le> v \<Longrightarrow> \<forall>d\<in>set ds. isdigit (uint d) \<Longrightarrow> v \<le> dec_value v ds"
proof (induction ds arbitrary: v)
  case (Cons d ds)
  have "v \<le> v * 10 + (uint d - 48)" using Cons.prems by (simp add: isdigit_def)
  also have "\<dots> \<le> dec_value (v * 10 + (uint d - 48)) ds"
    using Cons.prems by (intro Cons.IH) (simp_all add: isdigit_def)
  finally show ?case by simp
qed simp

lemma sint_u8: "sint (c :: u8) = (if uint c < 128 then uint c else uint c - 256)"
proof -
  have r: "0 \<le> uint c" "uint c < 256" using uint_lt2p [of c] by simp_all
  have "sint c = take_bit 8 (uint c) - 256 * of_bool (bit (uint c) 7)"
    by (simp add: sint_uint signed_take_bit_eq_take_bit_minus)
  moreover have "take_bit 8 (uint c) = uint c" using r by (simp add: take_bit_eq_mod)
  moreover have "bit (uint c) 7 \<longleftrightarrow> 128 \<le> uint c"
  proof -
    have "bit (uint c) 7 \<longleftrightarrow> odd (uint c div 128)" by (simp add: bit_iff_odd)
    moreover have "uint c div 128 = (if 128 \<le> uint c then 1 else 0)" using r by auto
    ultimately show ?thesis by simp
  qed
  ultimately show ?thesis by auto
qed

lemma isdigit_sint: "isdigit (sint (c :: u8)) \<longleftrightarrow> isdigit (uint c)"
  using uint_lt2p [of c] by (auto simp: sint_u8 isdigit_def)

lemma digits_loop_spec:
  assumes "\<forall>i<length ds. m (p + i) = ds ! i" and "\<forall>d\<in>set ds. isdigit (uint d)"
    and "\<not> isdigit (uint (m (p + length ds)))" and "0 \<le> v" and "v \<le> 2 ^ 31"
  shows "digits_loop m p (- v) = (if dec_value v ds \<le> 2 ^ 31 then Some (- dec_value v ds) else None)"
  using assms
proof (induction ds arbitrary: p v)
  case Nil
  then show ?case by (subst digits_loop.simps) (simp add: isdigit_sint)
next
  case (Cons d ds)
  let ?w = "v * 10 + (uint d - 48)"
  have d: "m p = d" "isdigit (uint d)" using Cons.prems(1,2) by auto
  have sd: "sint d = uint d" "isdigit (sint d)" "0 \<le> uint d - 48" "uint d - 48 \<le> 9"
    using d(2) by (auto simp: isdigit_sint sint_u8 isdigit_def)
  have ge: "?w \<le> dec_value ?w ds"
    using Cons.prems(2,4) sd by (intro dec_value_ge) auto
  have rest: "\<forall>i<length ds. m (p + 1 + i) = ds ! i" "\<not> isdigit (uint (m (p + 1 + length ds)))"
    "\<forall>d\<in>set ds. isdigit (uint d)"
    using Cons.prems(1-3) by auto
  show ?case
  proof (cases "?w \<le> 2 ^ 31")
    case True
    then have "in_int (- v * 10) = Some (- v * 10)" "in_int (- v * 10 - (sint d - 48)) = Some (- ?w)"
      using sd Cons.prems(4) by (auto simp: in_int_def)
    moreover have "digits_loop m (p + 1) (- ?w) =
        (if dec_value ?w ds \<le> 2 ^ 31 then Some (- dec_value ?w ds) else None)"
      using True sd Cons.prems(4) by (intro Cons.IH rest) auto
    ultimately show ?thesis using d sd by (subst digits_loop.simps) simp
  next
    case False
    then have "Option.bind (in_int (- v * 10)) (\<lambda>t. Option.bind (in_int (t - (sint d - 48))) f) = None" for f
      using sd by (auto simp: in_int_def)
    then show ?thesis using d sd False ge by (subst digits_loop.simps) simp
  qed
qed

lemma skip_space_spec:
  assumes "\<forall>i<length sp. isspace (uint (m (p + i)))" and "\<not> isspace (uint (m (p + length sp)))"
  shows "skip_space m p = Some (p + length sp)"
  using assms
proof (induction sp arbitrary: p)
  case Nil
  then show ?case by (subst skip_space.simps) simp
next
  case (Cons a sp)
  have "skip_space m (p + 1) = Some (p + 1 + length sp)" using Cons.prems by (intro Cons.IH) auto
  then show ?case using Cons.prems(1) by (subst skip_space.simps) auto
qed

lemma atoi_spec:
  assumes "cstr m p (sp @ sg @ ds @ rest)"
    and "\<forall>c\<in>set sp. isspace (uint c)" and "sg \<in> {[], [43], [45]}"
    and "ds \<noteq> []" and "\<forall>d\<in>set ds. isdigit (uint d)" and "rest \<noteq> [] \<longrightarrow> \<not> isdigit (uint (hd rest))"
  shows "atoi m p = (let v = (if sg = [45] then - dec_value 0 ds else dec_value 0 ds) in
    if - (2 ^ 31) \<le> v \<and> v < 2 ^ 31 then Some v else None)"
proof -
  let ?q = "p + length sp" and ?r = "p + length sp + length sg"
  have c: "\<forall>i<length sp. m (p + i) = sp ! i" "cstr m ?q (sg @ ds @ rest)" "p \<noteq> 0"
    using assms(1) by (auto simp: cstr_append)
  have cd: "cstr m ?r (ds @ rest)" and csg: "\<forall>i<length sg. m (?q + i) = sg ! i"
    using c(2) by (auto simp: cstr_append)
  have dg: "\<forall>i<length ds. m (?r + i) = ds ! i" and cr: "cstr m (?r + length ds) rest"
    using cd by (auto simp: cstr_append)
  have stop: "\<not> isdigit (uint (m (?r + length ds)))"
    using cr assms(6) by (cases rest) (auto simp: isdigit_def)
  have hd_d: "m ?r = hd ds" "isdigit (uint (hd ds))"
    using dg assms(4,5) by (cases ds; auto)+
  have sgc: "m ?q = 43 \<and> length sg = 1 \<and> sg = [43] \<or> m ?q = 45 \<and> length sg = 1 \<and> sg = [45] \<or>
      sg = [] \<and> m ?q = hd ds"
    using assms(3) csg hd_d by auto
  have ns: "\<not> isspace (uint (m ?q))" using sgc hd_d by (auto simp: isspace_def isdigit_def)
  have sk: "skip_space m p = Some ?q"
    using c(1) assms(2) ns by (intro skip_space_spec) auto
  have nodig: "hd ds \<noteq> 43" "hd ds \<noteq> 45" using hd_d by (auto simp: isdigit_def)
  have nxt: "(if m ?q = 43 \<or> m ?q = 45 then ?q + 1 else ?q) = ?r" using sgc nodig by auto
  have neg: "m ?q = 45 \<longleftrightarrow> sg = [45]" using sgc nodig by auto
  have "digits_loop m ?r (- 0) = (if dec_value 0 ds \<le> 2 ^ 31 then Some (- dec_value 0 ds) else None)"
    using dg assms(5) stop by (intro digits_loop_spec) auto
  then have dl: "digits_loop m ?r 0 = (if dec_value 0 ds \<le> 2 ^ 31 then Some (- dec_value 0 ds) else None)"
    by simp
  have pos: "0 \<le> dec_value 0 ds" using assms(5) by (intro dec_value_ge) auto
  have "atoi m p = Option.bind (digits_loop m ?r 0) (\<lambda>v. if sg \<noteq> [45] then in_int (- v) else Some v)"
    unfolding atoi_def sk bind.bind_lunit Let_def nxt unfolding neg using c(3) by simp
  with dl pos show ?thesis by (auto simp: in_int_def Let_def)
qed

text \<open>
  C33. \<^verbatim>\<open>atoi\<close> on white space, an optional sign and decimal digits returns the integer they denote
  whenever it fits an \<^verbatim>\<open>int\<close>, the least negative one included; it overflows exactly for the numerals
  that do not fit.
\<close>

theorem atoi_decimal:
  assumes "cstr m p (sp @ sg @ ds @ rest)"
    and "\<forall>c\<in>set sp. isspace (uint c)" and "sg \<in> {[], [43], [45]}"
    and "ds \<noteq> []" and "\<forall>d\<in>set ds. isdigit (uint d)" and "rest \<noteq> [] \<longrightarrow> \<not> isdigit (uint (hd rest))"
  shows "atoi m p = (let v = (if sg = [45] then - dec_value 0 ds else dec_value 0 ds) in
    if - (2 ^ 31) \<le> v \<and> v < 2 ^ 31 then Some v else None)"
  using assms by (rule atoi_spec)

lemma atoi_decimal_witness:
  "atoi ((\<lambda>_. 0)(10 := 32, 11 := 45, 12 := 50, 13 := 49)) 10 = Some (- 21)"
  using atoi_decimal [of "(\<lambda>_. 0)(10 := 32, 11 := 45, 12 := 50, 13 := 49)" 10 "[32]" "[45]" "[50, 49]" "[]"]
  by (simp add: isspace_def isdigit_def Let_def)


section \<open>Heap sort\<close>

text \<open>Indexes are 1-based, as in the source: \<open>elem_at xs i\<close> is the element with index \<open>i\<close>.\<close>

definition elem_at :: "'a list \<Rightarrow> nat \<Rightarrow> 'a" where
  "elem_at xs i = xs ! (i - 1)"

definition do_swap :: "'a list \<Rightarrow> nat \<Rightarrow> nat \<Rightarrow> 'a list" where
  "do_swap xs a_idx b_idx = xs[a_idx - 1 := elem_at xs b_idx, b_idx - 1 := elem_at xs a_idx]"

definition do_compare :: "'a list \<Rightarrow> nat \<Rightarrow> nat \<Rightarrow> ('a \<Rightarrow> 'a \<Rightarrow> int) \<Rightarrow> int" where
  "do_compare xs a_idx b_idx compare = compare (elem_at xs a_idx) (elem_at xs b_idx)"

text \<open>The index of the largest element among \<open>i\<close> and its children. An array has fewer than \<open>2 ^ 31\<close> elements, so that \<open>2 * i + 1\<close> is a \<^verbatim>\<open>size_t\<close>.\<close>

definition max_child :: "'a list \<Rightarrow> nat \<Rightarrow> nat \<Rightarrow> ('a \<Rightarrow> 'a \<Rightarrow> int) \<Rightarrow> nat" where
  "max_child xs i cnt compare =
     (let left = 2 * i; right = 2 * i + 1; mx = i;
          mx = (if left \<le> cnt \<and> do_compare xs left mx compare > 0 then left else mx);
          mx = (if right \<le> cnt \<and> do_compare xs right mx compare > 0 then right else mx)
      in mx)"

lemma max_child_bounds:
  "max_child xs i cnt compare \<noteq> i \<Longrightarrow> i < max_child xs i cnt compare \<or> i = 0 \<and> max_child xs i cnt compare = 1"
  "max_child xs i cnt compare \<noteq> i \<Longrightarrow> max_child xs i cnt compare \<le> cnt"
  by (auto simp: max_child_def Let_def split: if_splits)

function heapify :: "'a list \<Rightarrow> nat \<Rightarrow> nat \<Rightarrow> ('a \<Rightarrow> 'a \<Rightarrow> int) \<Rightarrow> 'a list" where
  "heapify xs i cnt compare =
     (let mx = max_child xs i cnt compare
      in if mx = i then xs else heapify (do_swap xs i mx) mx cnt compare)"
  by pat_completeness auto
termination
proof (relation "measure (\<lambda>(xs, i, cnt, compare). cnt + 1 - i)")
  fix xs :: "'a list" and i cnt and compare :: "'a \<Rightarrow> 'a \<Rightarrow> int" and mx
  assume "mx = max_child xs i cnt compare" "mx \<noteq> i"
  then show "((do_swap xs i mx, mx, cnt, compare), xs, i, cnt, compare)
      \<in> measure (\<lambda>(xs, i, cnt, compare). cnt + 1 - i)"
    using max_child_bounds [of xs i cnt compare] by auto
qed simp

declare heapify.simps [simp del]

fun build_heap :: "'a list \<Rightarrow> nat \<Rightarrow> nat \<Rightarrow> ('a \<Rightarrow> 'a \<Rightarrow> int) \<Rightarrow> 'a list" where
  "build_heap xs 0 cnt compare = xs"
| "build_heap xs (Suc i) cnt compare = build_heap (heapify xs (Suc i) cnt compare) i cnt compare"

fun sort_heap :: "'a list \<Rightarrow> nat \<Rightarrow> ('a \<Rightarrow> 'a \<Rightarrow> int) \<Rightarrow> 'a list" where
  "sort_heap xs (Suc (Suc i)) compare =
     sort_heap (heapify (do_swap xs 1 (i + 2)) 1 (i + 1) compare) (Suc i) compare"
| "sort_heap xs _ compare = xs"

definition heap_sort :: "'a list \<Rightarrow> ('a \<Rightarrow> 'a \<Rightarrow> int) \<Rightarrow> 'a list" where
  "heap_sort array compare =
     (let cnt = length array in sort_heap (build_heap array (cnt div 2) cnt compare) cnt compare)"

definition qsort :: "'a list \<Rightarrow> ('a \<Rightarrow> 'a \<Rightarrow> int) \<Rightarrow> 'a list" where
  "qsort array compare = heap_sort array compare"

section \<open>Binary search\<close>

text \<open>\<open>fs\<close> and \<open>lst\<close> are the bounds of the part still searched; the result is the index of a match.\<close>

function binary_search_loop :: "('k \<Rightarrow> 'a \<Rightarrow> int) \<Rightarrow> 'k \<Rightarrow> 'a list \<Rightarrow> nat \<Rightarrow> nat \<Rightarrow> nat option" where
  "binary_search_loop compare key array fs lst =
     (if fs < lst
      then let middle = fs + (lst - fs) div 2; cmp = compare key (array ! middle)
           in if cmp < 0 then binary_search_loop compare key array fs middle
              else if cmp > 0 then binary_search_loop compare key array (middle + 1) lst
              else Some middle
      else None)"
  by pat_completeness auto
termination
  by (relation "measure (\<lambda>(compare, key, array, fs, lst). lst - fs)") auto

declare binary_search_loop.simps [simp del]

definition binary_search :: "'k \<Rightarrow> 'a list \<Rightarrow> ('k \<Rightarrow> 'a \<Rightarrow> int) \<Rightarrow> nat option" where
  "binary_search key array compare = binary_search_loop compare key array 0 (length array)"

definition bsearch :: "'k \<Rightarrow> 'a list \<Rightarrow> ('k \<Rightarrow> 'a \<Rightarrow> int) \<Rightarrow> nat option" where
  "bsearch key array compare = binary_search key array compare"

section \<open>Heaps\<close>

lemma do_swap_mset:
  assumes "1 \<le> a" "a \<le> n" "1 \<le> b" "b \<le> n" "n \<le> length xs"
  shows "mset (take n (do_swap xs a b)) = mset (take n xs)" "drop n (do_swap xs a b) = drop n xs"
    "length (do_swap xs a b) = length xs"
proof -
  have "take n (do_swap xs a b) = (take n xs)[a - 1 := take n xs ! (b - 1), b - 1 := take n xs ! (a - 1)]"
    using assms by (simp add: do_swap_def elem_at_def take_update_swap)
  then show "mset (take n (do_swap xs a b)) = mset (take n xs)"
    using assms mset_swap [of "b - 1" "take n xs" "a - 1"] by simp
  show "drop n (do_swap xs a b) = drop n xs" using assms by (simp add: do_swap_def)
qed (simp add: do_swap_def)

lemma elem_at_do_swap:
  assumes "1 \<le> a" "a \<le> length xs" "1 \<le> b" "b \<le> length xs" "1 \<le> c" "c \<le> length xs"
  shows "elem_at (do_swap xs a b) c =
    (if c = b then elem_at xs a else if c = a then elem_at xs b else elem_at xs c)"
  using assms by (auto simp: elem_at_def do_swap_def nth_list_update)

lemma heapify_perm:
  assumes "1 \<le> i" and "n \<le> length xs" and "i \<le> n"
  shows "mset (take n (heapify xs i n cmp)) = mset (take n xs) \<and> drop n (heapify xs i n cmp) = drop n xs \<and>
    length (heapify xs i n cmp) = length xs"
  using assms
proof (induction xs i n cmp rule: heapify.induct)
  case (1 xs i n cmp)
  show ?case
  proof (cases "max_child xs i n cmp = i")
    case True
    then show ?thesis by (subst (1 2 3) heapify.simps) simp
  next
    case False
    let ?m = "max_child xs i n cmp"
    have m: "i < ?m" "?m \<le> n" using max_child_bounds [OF False] "1.prems" by auto
    note sw = do_swap_mset [of i n ?m xs]
    have "heapify xs i n cmp = heapify (do_swap xs i ?m) ?m n cmp"
      using False by (subst heapify.simps) (simp add: Let_def)
    then show ?thesis using "1.IH" [OF refl False] sw m "1.prems" by simp
  qed
qed

text \<open>The contract of a comparison function that returns a \<^verbatim>\<open>strcmp\<close>-type result.\<close>

locale compare_func =
  fixes cmp :: "'a \<Rightarrow> 'a \<Rightarrow> int"
  assumes cmp_sym: "cmp a b > 0 \<longleftrightarrow> cmp b a < 0"
    and cmp_trans: "cmp a b \<le> 0 \<Longrightarrow> cmp b c \<le> 0 \<Longrightarrow> cmp a c \<le> 0"
begin

lemma cmp_refl: "cmp a a \<le> 0"
  using cmp_sym [of a a] by linarith

lemma cmp_total: "\<not> cmp a b > 0 \<Longrightarrow> cmp a b \<le> 0" "cmp a b > 0 \<Longrightarrow> cmp b a \<le> 0"
  using cmp_sym [of a b] by linarith+

definition heap :: "nat \<Rightarrow> nat \<Rightarrow> 'a list \<Rightarrow> bool" where
  "heap lo n xs \<longleftrightarrow> (\<forall>c\<le>n. lo \<le> c div 2 \<longrightarrow> cmp (elem_at xs c) (elem_at xs (c div 2)) \<le> 0)"

lemma max_child_max:
  assumes "max_child xs i n cmp = m"
  shows "2 * i \<le> n \<Longrightarrow> cmp (elem_at xs (2 * i)) (elem_at xs m) \<le> 0"
    and "2 * i + 1 \<le> n \<Longrightarrow> cmp (elem_at xs (2 * i + 1)) (elem_at xs m) \<le> 0"
    and "cmp (elem_at xs i) (elem_at xs m) \<le> 0" and "m \<in> {i, 2 * i, 2 * i + 1}"
  using assms cmp_total cmp_trans cmp_refl
  by (auto simp: max_child_def Let_def do_compare_def split: if_splits) (meson cmp_total cmp_trans not_le)+

end


context compare_func
begin

lemma heapify_heap:
  assumes "1 \<le> lo" and "lo \<le> i" and "i \<le> n" and "n \<le> length xs"
    and "\<And>c. c \<le> n \<Longrightarrow> lo \<le> c div 2 \<Longrightarrow> c div 2 \<noteq> i \<Longrightarrow> cmp (elem_at xs c) (elem_at xs (c div 2)) \<le> 0"
    and "\<And>c. c \<le> n \<Longrightarrow> c div 2 = i \<Longrightarrow> lo \<le> i div 2 \<Longrightarrow> cmp (elem_at xs c) (elem_at xs (i div 2)) \<le> 0"
  shows "heap lo n (heapify xs i n cmp)"
  using assms(2-)
proof (induction "n + 1 - i" arbitrary: xs i rule: less_induct)
  case less
  let ?m = "max_child xs i n cmp"
  note mc = max_child_max [of xs i n ?m, OF refl]
  show ?case
  proof (cases "?m = i")
    case True
    have "cmp (elem_at xs c) (elem_at xs (c div 2)) \<le> 0" if c: "c \<le> n" "lo \<le> c div 2" for c
    proof (cases "c div 2 = i")
      case True
      then have "c = 2 * i \<or> c = 2 * i + 1" by linarith
      then show ?thesis using mc(1,2) \<open>?m = i\<close> c True by auto
    qed (use less.prems(4) c in blast)
    moreover have "heapify xs i n cmp = xs" using True by (subst heapify.simps) simp
    ultimately show ?thesis by (simp add: heap_def)
  next
    case False
    have m: "i < ?m" "?m \<le> n" "?m div 2 = i"
      using max_child_bounds [OF False] mc(4) less.prems(1,2) assms(1) False by auto
    let ?ys = "do_swap xs i ?m"
    have at_ys: "elem_at ?ys c = (if c = ?m then elem_at xs i else if c = i then elem_at xs ?m else elem_at xs c)"
      if "1 \<le> c" "c \<le> n" for c
      using that m less.prems(1-3) assms(1) by (intro elem_at_do_swap) auto
    have len: "n \<le> length ?ys" using less.prems(3) by (simp add: do_swap_def)
    have h1: "cmp (elem_at ?ys c) (elem_at ?ys (c div 2)) \<le> 0"
      if c: "c \<le> n" "lo \<le> c div 2" "c div 2 \<noteq> ?m" for c
    proof -
      have r: "1 \<le> c" "1 \<le> c div 2" "c div 2 \<le> n" using c assms(1) by auto
      consider "c = ?m" | "c \<noteq> ?m" "c div 2 = i" | "c = i" "c \<noteq> ?m" | "c \<noteq> ?m" "c \<noteq> i" "c div 2 \<noteq> i"
        by blast
      then show ?thesis
      proof cases
        case 1
        then show ?thesis using at_ys r m mc(3) by simp
      next
        case 2
        then have "c = 2 * i \<or> c = 2 * i + 1" "c \<noteq> i" using less.prems(1) assms(1) by linarith+
        then show ?thesis using at_ys r 2 mc(1,2) c(1) m by auto
      next
        case 3
        then have "c div 2 \<noteq> i" using less.prems(1) assms(1) by auto
        moreover have "cmp (elem_at xs ?m) (elem_at xs (i div 2)) \<le> 0"
          using less.prems(5) [of ?m] m c 3 by simp
        ultimately show ?thesis using at_ys r 3 c(3) less.prems(2) by simp
      next
        case 4
        then show ?thesis using at_ys r c less.prems(4) by simp
      qed
    qed
    have h2: "cmp (elem_at ?ys c) (elem_at ?ys (?m div 2)) \<le> 0" if c: "c \<le> n" "c div 2 = ?m" for c
    proof -
      have "c \<noteq> i" "c \<noteq> ?m" "1 \<le> c" "1 \<le> i" using c m less.prems(1) assms(1) by auto
      moreover have "cmp (elem_at xs c) (elem_at xs ?m) \<le> 0"
        using less.prems(4) [of c] c m less.prems(1) by simp
      ultimately show ?thesis using at_ys c m less.prems(2) by simp
    qed
    have "heap lo n (heapify ?ys ?m n cmp)"
      using m less.prems(1) len h1 h2 by (intro less.hyps) auto
    moreover have "heapify xs i n cmp = heapify ?ys ?m n cmp"
      using False by (subst heapify.simps) (simp add: Let_def)
    ultimately show ?thesis by simp
  qed
qed

lemma build_heap_spec:
  assumes "i \<le> n" and "n \<le> length xs" and "heap (i + 1) n xs"
  shows "heap 1 n (build_heap xs i n cmp) \<and> mset (take n (build_heap xs i n cmp)) = mset (take n xs) \<and>
    drop n (build_heap xs i n cmp) = drop n xs \<and> length (build_heap xs i n cmp) = length xs"
  using assms
proof (induction i arbitrary: xs)
  case (Suc i)
  let ?ys = "heapify xs (Suc i) n cmp"
  have p: "mset (take n ?ys) = mset (take n xs) \<and> drop n ?ys = drop n xs \<and> length ?ys = length xs"
    using Suc.prems by (intro heapify_perm) auto
  have "heap (Suc i) n ?ys"
  proof (rule heapify_heap)
    fix c
    assume "c \<le> n" "Suc i \<le> c div 2" "c div 2 \<noteq> Suc i"
    then show "cmp (elem_at xs c) (elem_at xs (c div 2)) \<le> 0"
      using Suc.prems(3) by (auto simp: heap_def)
  next
    fix c
    assume "Suc i \<le> Suc i div 2"
    then show "cmp (elem_at xs c) (elem_at xs (Suc i div 2)) \<le> 0" by auto
  qed (use Suc.prems in auto)
  then show ?case using Suc.IH [of ?ys] Suc.prems p by simp
qed simp

lemma heap_root_max:
  assumes "heap 1 n xs" and "1 \<le> c" and "c \<le> n"
  shows "cmp (elem_at xs c) (elem_at xs 1) \<le> 0"
  using assms(2,3)
proof (induction c rule: less_induct)
  case (less c)
  show ?case
  proof (cases "c = 1")
    case False
    then have "1 \<le> c div 2" "c div 2 < c" using less.prems by auto
    then show ?thesis
      using assms(1) less.IH [of "c div 2"] less.prems cmp_trans by (auto simp: heap_def)
  qed (simp add: cmp_refl)
qed

definition sorted_from :: "nat \<Rightarrow> 'a list \<Rightarrow> bool" where
  "sorted_from n xs \<longleftrightarrow> sorted_wrt (\<lambda>a b. cmp a b \<le> 0) (drop n xs) \<and>
     (\<forall>a\<in>set (take n xs). \<forall>b\<in>set (drop n xs). cmp a b \<le> 0)"

lemma sort_heap_spec:
  assumes "heap 1 n xs" and "n \<le> length xs" and "sorted_from n xs"
  shows "sorted_wrt (\<lambda>a b. cmp a b \<le> 0) (sort_heap xs n cmp) \<and> mset (sort_heap xs n cmp) = mset xs"
  using assms
proof (induction n arbitrary: xs rule: less_induct)
  case (less n)
  consider "n = 0" | "n = 1" | i where "n = Suc (Suc i)" by (metis One_nat_def not0_implies_Suc)
  then show ?case
  proof cases
    case 1
    then show ?thesis using less.prems(3) by (simp add: sorted_from_def)
  next
    case 2
    then obtain x ys where "xs = x # ys" using less.prems(2) by (cases xs) auto
    then show ?thesis using 2 less.prems(3) by (simp add: sorted_from_def)
  next
    case 3
    let ?s = "do_swap xs 1 n" and ?h = "heapify (do_swap xs 1 n) 1 (Suc i) cmp"
    have s: "mset (take n ?s) = mset (take n xs)" "drop n ?s = drop n xs" "length ?s = length xs"
      using do_swap_mset [of 1 n n xs] 3 less.prems(2) by auto
    have h: "mset (take (Suc i) ?h) = mset (take (Suc i) ?s)" "drop (Suc i) ?h = drop (Suc i) ?s" "length ?h = length ?s"
      using heapify_perm [of 1 "Suc i" ?s cmp] 3 less.prems(2) s(3) by auto
    have at_s: "elem_at ?s c = (if c = n then elem_at xs 1 else if c = 1 then elem_at xs n else elem_at xs c)"
      if "1 \<le> c" "c \<le> n" for c
      using that 3 less.prems(2) by (intro elem_at_do_swap) auto
    have heap: "heap 1 (Suc i) ?h"
    proof (rule heapify_heap)
      fix c
      assume c: "c \<le> Suc i" "1 \<le> c div 2" "c div 2 \<noteq> 1"
      then have "1 \<le> c" "c \<noteq> 1" "c \<noteq> n" "c div 2 \<noteq> n" "c \<le> n" "c div 2 \<le> n" using 3 by auto
      then show "cmp (elem_at ?s c) (elem_at ?s (c div 2)) \<le> 0"
        using c at_s less.prems(1) by (simp add: heap_def)
    qed (use 3 less.prems(2) s(3) in auto)
    have top: "drop (Suc i) ?s = elem_at xs 1 # drop n xs"
    proof -
      have "drop (Suc i) ?s = ?s ! Suc i # drop (Suc (Suc i)) ?s"
        using 3 less.prems(2) s(3) by (intro Cons_nth_drop_Suc [symmetric]) simp
      then show ?thesis using at_s [of n] 3 s(2) by (simp add: elem_at_def)
    qed
    have pre: "cmp a (elem_at xs 1) \<le> 0" if "a \<in> set (take n xs)" for a
    proof -
      from that obtain k where "k < n" "a = xs ! k" using less.prems(2) by (auto simp: in_set_conv_nth)
      then have "a = elem_at xs (k + 1)" "k + 1 \<le> n" by (simp_all add: elem_at_def)
      then show ?thesis using heap_root_max [OF less.prems(1), of "k + 1"] by simp
    qed
    have "mset (take (Suc i) ?s) \<subseteq># mset (take n ?s)"
      using 3 by (metis mset_subset_eq_add_left mset_append take_Suc_conv_app_nth less.prems(2) s(3) Suc_le_lessD)
    then have sub: "set (take (Suc i) ?h) \<subseteq> set (take n xs)"
      using h(1) s(1) by (metis set_mset_mset set_mset_mono)
    have x1: "elem_at xs 1 \<in> set (take n xs)"
      using 3 less.prems(2) by (cases xs) (simp_all add: elem_at_def)
    have "sorted_from (Suc i) ?h"
      using less.prems(3) sub pre x1 unfolding sorted_from_def h(2) top by auto
    then have "sorted_wrt (\<lambda>a b. cmp a b \<le> 0) (sort_heap ?h (Suc i) cmp) \<and> mset (sort_heap ?h (Suc i) cmp) = mset ?h"
      using heap 3 less.prems(2) h(3) s(3) by (intro less.IH) auto
    moreover have "mset ?h = mset xs"
    proof -
      have "mset ?h = mset (take (Suc i) ?h) + mset (drop (Suc i) ?h)" by (metis append_take_drop_id mset_append)
      also have "\<dots> = mset ?s" unfolding h by (metis append_take_drop_id mset_append)
      also have "\<dots> = mset xs" by (metis append_take_drop_id mset_append s(1,2))
      finally show ?thesis .
    qed
    ultimately show ?thesis using 3 by simp
  qed
qed

lemma heap_sort_correct:
  "sorted_wrt (\<lambda>a b. cmp a b \<le> 0) (heap_sort xs cmp) \<and> mset (heap_sort xs cmp) = mset xs"
proof -
  let ?n = "length xs"
  have "heap (?n div 2 + 1) ?n xs" by (auto simp: heap_def dest: div_le_mono [of _ _ 2])
  from build_heap_spec [OF _ _ this] have b: "heap 1 ?n (build_heap xs (?n div 2) ?n cmp)"
    "mset (build_heap xs (?n div 2) ?n cmp) = mset xs" "length (build_heap xs (?n div 2) ?n cmp) = ?n"
    by (auto simp: take_all)
  then show ?thesis
    using sort_heap_spec [OF b(1)] by (simp add: heap_sort_def Let_def sorted_from_def)
qed

end

text \<open>The comparison of \<^verbatim>\<open>tests/internal/stdlib.c\<close>, the client of \<^verbatim>\<open>qsort\<close> and \<^verbatim>\<open>bsearch\<close>.\<close>

definition compare_ints :: "int \<Rightarrow> int \<Rightarrow> int" where
  "compare_ints a b = (if a < b then - 1 else if a > b then 1 else 0)"

interpretation compare_ints: compare_func compare_ints
  by unfold_locales (auto simp: compare_ints_def split: if_splits)

text \<open>
  C27. \<^verbatim>\<open>sort\<close>, and with it \<^verbatim>\<open>qsort\<close>, returns a permutation of the array in nondecreasing order, for every
  comparison function that is a total preorder.
\<close>

theorem qsort_sorts:
  assumes "\<And>a b. cmp a b > 0 \<longleftrightarrow> cmp b a < 0"
    and "\<And>a b c. cmp a b \<le> 0 \<Longrightarrow> cmp b c \<le> 0 \<Longrightarrow> cmp a c \<le> 0"
  shows "mset (qsort xs cmp) = mset xs \<and> sorted_wrt (\<lambda>a b. cmp a b \<le> 0) (qsort xs cmp)"
proof -
  have "compare_func cmp" by (rule compare_func.intro) (use assms in blast)+
  then show ?thesis using compare_func.heap_sort_correct by (auto simp: qsort_def)
qed

lemma qsort_sorts_witness:
  "mset (qsort [3, 1, 2] compare_ints) = mset [3, 1, 2] \<and>
    sorted_wrt (\<lambda>a b. compare_ints a b \<le> 0) (qsort [3, 1, 2] compare_ints)"
  using qsort_sorts [of compare_ints "[3, 1, 2]", OF compare_ints.cmp_sym compare_ints.cmp_trans] by simp

lemma binary_search_loop_spec:
  assumes "lst \<le> length xs"
    and "\<And>i j. i \<le> j \<Longrightarrow> j < length xs \<Longrightarrow> cmp key (xs ! i) < 0 \<Longrightarrow> cmp key (xs ! j) < 0"
    and "\<And>i j. i \<le> j \<Longrightarrow> j < length xs \<Longrightarrow> cmp key (xs ! j) > 0 \<Longrightarrow> cmp key (xs ! i) > 0"
  shows "case binary_search_loop cmp key xs fs lst of
      Some i \<Rightarrow> fs \<le> i \<and> i < lst \<and> cmp key (xs ! i) = 0
    | None \<Rightarrow> \<forall>i. fs \<le> i \<and> i < lst \<longrightarrow> cmp key (xs ! i) \<noteq> 0"
  using assms(1)
proof (induction "lst - fs" arbitrary: fs lst rule: less_induct)
  case less
  show ?case
  proof (cases "fs < lst")
    case False
    then show ?thesis by (subst binary_search_loop.simps) simp
  next
    case True
    let ?m = "fs + (lst - fs) div 2"
    have m: "fs \<le> ?m" "?m < lst" using True by auto
    consider "cmp key (xs ! ?m) < 0" | "cmp key (xs ! ?m) > 0" | "cmp key (xs ! ?m) = 0" by linarith
    then show ?thesis
    proof cases
      case 1
      have "binary_search_loop cmp key xs fs lst = binary_search_loop cmp key xs fs ?m"
        using True 1 by (subst binary_search_loop.simps) (simp add: Let_def)
      moreover have "cmp key (xs ! i) \<noteq> 0" if "?m \<le> i" "i < lst" for i
        using assms(2) [of ?m i] that 1 less.prems by simp
      moreover have "case binary_search_loop cmp key xs fs ?m of
          Some i \<Rightarrow> fs \<le> i \<and> i < ?m \<and> cmp key (xs ! i) = 0
        | None \<Rightarrow> \<forall>i. fs \<le> i \<and> i < ?m \<longrightarrow> cmp key (xs ! i) \<noteq> 0"
        using m less.prems by (intro less.hyps) auto
      ultimately show ?thesis
        using m(2) by (cases "binary_search_loop cmp key xs fs ?m") (simp_all, meson not_le)
    next
      case 2
      have "binary_search_loop cmp key xs fs lst = binary_search_loop cmp key xs (?m + 1) lst"
        using True 2 by (subst binary_search_loop.simps) (simp add: Let_def)
      moreover have "cmp key (xs ! i) \<noteq> 0" if "i \<le> ?m" for i
        using assms(3) [of i ?m] that 2 m less.prems by simp
      moreover have "case binary_search_loop cmp key xs (?m + 1) lst of
          Some i \<Rightarrow> ?m + 1 \<le> i \<and> i < lst \<and> cmp key (xs ! i) = 0
        | None \<Rightarrow> \<forall>i. ?m + 1 \<le> i \<and> i < lst \<longrightarrow> cmp key (xs ! i) \<noteq> 0"
        using m less.prems by (intro less.hyps) auto
      ultimately show ?thesis
        using m(1) by (cases "binary_search_loop cmp key xs (?m + 1) lst") (simp_all, meson Suc_leI not_le)
    next
      case 3
      then have "binary_search_loop cmp key xs fs lst = Some ?m"
        using True by (subst binary_search_loop.simps) (simp add: Let_def)
      with 3 m show ?thesis by simp
    qed
  qed
qed

text \<open>
  C34. \<^verbatim>\<open>bsearch\<close> on an array that is sorted with respect to the key returns a match if there is one
  and null only if there is none.
\<close>

theorem bsearch_finds:
  assumes "\<And>i j. i \<le> j \<Longrightarrow> j < length xs \<Longrightarrow> cmp key (xs ! i) < 0 \<Longrightarrow> cmp key (xs ! j) < 0"
    and "\<And>i j. i \<le> j \<Longrightarrow> j < length xs \<Longrightarrow> cmp key (xs ! j) > 0 \<Longrightarrow> cmp key (xs ! i) > 0"
  shows "case bsearch key xs cmp of
      Some i \<Rightarrow> i < length xs \<and> cmp key (xs ! i) = 0
    | None \<Rightarrow> \<forall>x\<in>set xs. cmp key x \<noteq> 0"
  using binary_search_loop_spec [of "length xs" xs cmp key 0] assms
  by (auto simp: bsearch_def binary_search_def in_set_conv_nth split: option.splits)

lemma bsearch_finds_witness:
  "case bsearch 5 [1, 5, 9] compare_ints of Some i \<Rightarrow> i < 3 \<and> [1, 5, 9] ! i = (5::int) | None \<Rightarrow> False"
proof -
  have srt: "i \<le> j \<Longrightarrow> j < length [1, 5, 9::int] \<Longrightarrow> [1, 5, 9::int] ! i \<le> [1, 5, 9] ! j" for i j
    by (rule sorted_nth_mono) auto
  have "case bsearch 5 [1, 5, 9] compare_ints of
      Some i \<Rightarrow> i < length [1, 5, 9::int] \<and> compare_ints 5 ([1, 5, 9] ! i) = 0
    | None \<Rightarrow> \<forall>x\<in>set [1, 5, 9]. compare_ints 5 x \<noteq> 0"
    by (rule bsearch_finds) (use srt in \<open>fastforce simp: compare_ints_def split: if_splits\<close>)+
  then show ?thesis by (auto simp: compare_ints_def split: option.splits if_splits)
qed

end
