(* ===== verification/Pagedir.thy ===== *)
theory Pagedir
  imports Kernel_Prelude
begin

unbundle bit_operations_syntax

text \<open>
  Virtual addresses (\<^verbatim>\<open>threads/vaddr.h\<close>), page table entries (\<^verbatim>\<open>threads/pte.h\<close>) and page directories
  (\<^verbatim>\<open>userprog/pagedir.c\<close>). Addresses and entries are 32-bit words with the bit operations of the source.
  The memory that holds page directories and page tables maps the base address of a page and the
  index of a word in it to the word, so that \<^verbatim>\<open>&pt[i]\<close> is the pair of \<open>pt\<close> and \<open>i\<close>. The page an allocation
  returns is an argument (\<open>None\<close> when there is none); reloading CR3 changes nothing the model sees.
\<close>

section \<open>Virtual addresses\<close>

definition PGBITS :: nat where "PGBITS = 12"
definition PGSIZE :: u32 where "PGSIZE = 4096"
definition PGMASK :: u32 where "PGMASK = 0xfff"
definition PHYS_BASE :: u32 where "PHYS_BASE = 0xc0000000"

definition pg_ofs :: "u32 \<Rightarrow> u32" where "pg_ofs va = va AND PGMASK"
definition pg_no :: "u32 \<Rightarrow> u32" where "pg_no va = drop_bit PGBITS va"
definition pg_round_up :: "u32 \<Rightarrow> u32" where "pg_round_up va = (va + PGSIZE - 1) AND NOT PGMASK"
definition pg_round_down :: "u32 \<Rightarrow> u32" where "pg_round_down va = va AND NOT PGMASK"

definition is_user_vaddr :: "u32 \<Rightarrow> bool" where "is_user_vaddr vaddr \<longleftrightarrow> vaddr < PHYS_BASE"
definition is_kernel_vaddr :: "u32 \<Rightarrow> bool" where "is_kernel_vaddr vaddr \<longleftrightarrow> vaddr \<ge> PHYS_BASE"

definition ptov :: "u32 \<Rightarrow> u32 option" where
  "ptov paddr = do { ASSERT (paddr < PHYS_BASE); Some (paddr + PHYS_BASE) }"

definition vtop :: "u32 \<Rightarrow> u32 option" where
  "vtop vaddr = do { ASSERT (is_kernel_vaddr vaddr); Some (vaddr - PHYS_BASE) }"

section \<open>Page table entries\<close>

definition PTSHIFT :: nat where "PTSHIFT = PGBITS"
definition PTBITS :: nat where "PTBITS = 10"
definition PTMASK :: u32 where "PTMASK = 0x003ff000"
definition PDSHIFT :: nat where "PDSHIFT = PTSHIFT + PTBITS"

definition pt_no :: "u32 \<Rightarrow> nat" where "pt_no va = unat (drop_bit PTSHIFT (va AND PTMASK))"
definition pd_no :: "u32 \<Rightarrow> nat" where "pd_no va = unat (drop_bit PDSHIFT va)"

definition PTE_ADDR :: u32 where "PTE_ADDR = 0xfffff000"
definition PTE_P :: u32 where "PTE_P = 0x1"
definition PTE_W :: u32 where "PTE_W = 0x2"
definition PTE_U :: u32 where "PTE_U = 0x4"
definition PTE_A :: u32 where "PTE_A = 0x20"
definition PTE_D :: u32 where "PTE_D = 0x40"

definition pde_create :: "u32 \<Rightarrow> u32 option" where
  "pde_create pt = do { ASSERT (pg_ofs pt = 0); p \<leftarrow> vtop pt; Some (p OR PTE_U OR PTE_P OR PTE_W) }"

definition pde_get_pt :: "u32 \<Rightarrow> u32 option" where
  "pde_get_pt pde = do { ASSERT (pde AND PTE_P \<noteq> 0); ptov (pde AND PTE_ADDR) }"

definition pte_create_kernel :: "u32 \<Rightarrow> bool \<Rightarrow> u32 option" where
  "pte_create_kernel page writable = do {
     ASSERT (pg_ofs page = 0);
     p \<leftarrow> vtop page;
     Some (p OR PTE_P OR (if writable then PTE_W else 0)) }"

definition pte_create_user :: "u32 \<Rightarrow> bool \<Rightarrow> u32 option" where
  "pte_create_user page writable = do { p \<leftarrow> pte_create_kernel page writable; Some (p OR PTE_U) }"

definition pte_get_page :: "u32 \<Rightarrow> u32 option" where
  "pte_get_page pte = ptov (pte AND PTE_ADDR)"

section \<open>Page directories\<close>

type_synonym pt_mem = "u32 \<Rightarrow> nat \<Rightarrow> u32"

definition write_word :: "pt_mem \<Rightarrow> u32 \<times> nat \<Rightarrow> u32 \<Rightarrow> pt_mem" where
  "write_word m p v = m(fst p := (m (fst p))(snd p := v))"

definition read_word :: "pt_mem \<Rightarrow> u32 \<times> nat \<Rightarrow> u32" where
  "read_word m p = m (fst p) (snd p)"

definition pagedir_create :: "pt_mem \<Rightarrow> u32 \<Rightarrow> u32 option \<Rightarrow> u32 option \<times> pt_mem" where
  "pagedir_create m init_page_dir pd_new =
     (case pd_new of None \<Rightarrow> (None, m) | Some pd \<Rightarrow> (Some pd, m(pd := m init_page_dir)))"

text \<open>The pages \<open>pagedir_destroy\<close> frees, in order.\<close>

fun destroy_loop :: "pt_mem \<Rightarrow> u32 \<Rightarrow> nat list \<Rightarrow> u32 list option" where
  "destroy_loop m pd [] = Some []"
| "destroy_loop m pd (i # is) =
     (if m pd i AND PTE_P \<noteq> 0
      then do { pt \<leftarrow> pde_get_pt (m pd i); freed \<leftarrow> destroy_loop m pd is; Some (pt # freed) }
      else destroy_loop m pd is)"

definition pagedir_destroy :: "pt_mem \<Rightarrow> u32 \<Rightarrow> u32 \<Rightarrow> u32 list option" where
  "pagedir_destroy m init_page_dir pd =
     (if pd = 0 then Some []
      else do {
        ASSERT (pd \<noteq> init_page_dir);
        freed \<leftarrow> destroy_loop m pd [0..<pd_no PHYS_BASE];
        Some (freed @ [pd]) })"

definition lookup_page ::
  "pt_mem \<Rightarrow> u32 \<Rightarrow> u32 \<Rightarrow> bool \<Rightarrow> u32 option \<Rightarrow> ((u32 \<times> nat) option \<times> pt_mem) option" where
  "lookup_page m pd vaddr create pt_new = do {
     ASSERT (pd \<noteq> 0);
     ASSERT (\<not> create \<or> is_user_vaddr vaddr);
     let pde = (pd, pd_no vaddr);
     if read_word m pde = 0
     then if create
       then case pt_new of
           None \<Rightarrow> Some (None, m)
         | Some pt \<Rightarrow> do {
             let m = m(pt := (\<lambda>_. 0));
             e \<leftarrow> pde_create pt;
             let m = write_word m pde e;
             pt \<leftarrow> pde_get_pt (read_word m pde);
             Some (Some (pt, pt_no vaddr), m) }
       else Some (None, m)
     else do {
       pt \<leftarrow> pde_get_pt (read_word m pde);
       Some (Some (pt, pt_no vaddr), m) } }"

definition pagedir_set_page ::
  "pt_mem \<Rightarrow> u32 \<Rightarrow> u32 \<Rightarrow> u32 \<Rightarrow> u32 \<Rightarrow> u32 \<Rightarrow> bool \<Rightarrow> u32 option \<Rightarrow> (bool \<times> pt_mem) option" where
  "pagedir_set_page m init_page_dir init_ram_pages pd upage kpage writable pt_new = do {
     ASSERT (pg_ofs upage = 0);
     ASSERT (pg_ofs kpage = 0);
     ASSERT (is_user_vaddr upage);
     pa \<leftarrow> vtop kpage;
     ASSERT (drop_bit PTSHIFT pa < init_ram_pages);
     ASSERT (pd \<noteq> init_page_dir);
     (pte, m) \<leftarrow> lookup_page m pd upage True pt_new;
     case pte of
       Some p \<Rightarrow> do {
         ASSERT (read_word m p AND PTE_P = 0);
         e \<leftarrow> pte_create_user kpage writable;
         Some (True, write_word m p e) }
     | None \<Rightarrow> Some (False, m) }"

definition pagedir_get_page :: "pt_mem \<Rightarrow> u32 \<Rightarrow> u32 \<Rightarrow> u32 option option" where
  "pagedir_get_page m pd uaddr = do {
     ASSERT (is_user_vaddr uaddr);
     (pte, m) \<leftarrow> lookup_page m pd uaddr False None;
     case pte of
       Some p \<Rightarrow>
         if read_word m p AND PTE_P \<noteq> 0
         then do { page \<leftarrow> pte_get_page (read_word m p); Some (Some (page + pg_ofs uaddr)) }
         else Some None
     | None \<Rightarrow> Some None }"

definition pagedir_clear_page :: "pt_mem \<Rightarrow> u32 \<Rightarrow> u32 \<Rightarrow> pt_mem option" where
  "pagedir_clear_page m pd upage = do {
     ASSERT (pg_ofs upage = 0);
     ASSERT (is_user_vaddr upage);
     (pte, m) \<leftarrow> lookup_page m pd upage False None;
     case pte of
       Some p \<Rightarrow>
         Some (if read_word m p AND PTE_P \<noteq> 0 then write_word m p (read_word m p AND NOT PTE_P) else m)
     | None \<Rightarrow> Some m }"

definition pagedir_is_dirty :: "pt_mem \<Rightarrow> u32 \<Rightarrow> u32 \<Rightarrow> bool option" where
  "pagedir_is_dirty m pd vpage = do {
     (pte, m) \<leftarrow> lookup_page m pd vpage False None;
     Some (case pte of Some p \<Rightarrow> read_word m p AND PTE_D \<noteq> 0 | None \<Rightarrow> False) }"

definition pagedir_set_dirty :: "pt_mem \<Rightarrow> u32 \<Rightarrow> u32 \<Rightarrow> bool \<Rightarrow> pt_mem option" where
  "pagedir_set_dirty m pd vpage dirty = do {
     (pte, m) \<leftarrow> lookup_page m pd vpage False None;
     Some (case pte of
         Some p \<Rightarrow> write_word m p (if dirty then read_word m p OR PTE_D else read_word m p AND NOT PTE_D)
       | None \<Rightarrow> m) }"

definition pagedir_is_accessed :: "pt_mem \<Rightarrow> u32 \<Rightarrow> u32 \<Rightarrow> bool option" where
  "pagedir_is_accessed m pd vpage = do {
     (pte, m) \<leftarrow> lookup_page m pd vpage False None;
     Some (case pte of Some p \<Rightarrow> read_word m p AND PTE_A \<noteq> 0 | None \<Rightarrow> False) }"

definition pagedir_set_accessed :: "pt_mem \<Rightarrow> u32 \<Rightarrow> u32 \<Rightarrow> bool \<Rightarrow> pt_mem option" where
  "pagedir_set_accessed m pd vpage accessed = do {
     (pte, m) \<leftarrow> lookup_page m pd vpage False None;
     Some (case pte of
         Some p \<Rightarrow> write_word m p (if accessed then read_word m p OR PTE_A else read_word m p AND NOT PTE_A)
       | None \<Rightarrow> m) }"

lemmas vaddr_defs = PGBITS_def PGSIZE_def PGMASK_def PHYS_BASE_def pg_ofs_def pg_no_def pg_round_up_def
  pg_round_down_def is_user_vaddr_def is_kernel_vaddr_def

lemmas pte_defs = PTSHIFT_def PTBITS_def PTMASK_def PDSHIFT_def PTE_ADDR_def PTE_P_def PTE_W_def PTE_U_def
  PTE_A_def PTE_D_def

section \<open>Address arithmetic\<close>

lemma mask12: "(0xfff :: u32) = mask 12"
  by (simp add: mask_eq_exp_minus_1)

lemma pg_ofs_take: "pg_ofs va = take_bit 12 va"
  by (simp add: pg_ofs_def PGMASK_def mask12 take_bit_eq_mask)

lemma addr_mask: "w AND PTE_ADDR = w AND NOT PGMASK"
  unfolding PTE_ADDR_def PGMASK_def by (rule arg_cong [where f = "\<lambda>x. w AND x"]) simp

lemma round_down_split: "pg_round_down va + pg_ofs va = va"
proof -
  have "pg_round_down va OR pg_ofs va = va"
    by (rule bit_word_eqI) (auto simp: pg_round_down_def pg_ofs_def bit_or_iff bit_and_iff bit_not_iff)
  moreover have "pg_round_down va AND pg_ofs va = 0"
    by (rule bit_word_eqI) (auto simp: pg_round_down_def pg_ofs_def bit_and_iff bit_not_iff)
  ultimately show ?thesis by (metis disjunctive_add_eq_or)
qed

lemma round_down_aligned [simp]: "pg_ofs (pg_round_down va) = 0"
  by (rule bit_word_eqI) (auto simp: pg_round_down_def pg_ofs_def bit_and_iff bit_not_iff)

lemma aligned_round_down: "pg_ofs va = 0 \<Longrightarrow> pg_round_down va = va"
  using round_down_split [of va] by simp

lemma pg_no_eq: "pg_no va = pg_no vb \<longleftrightarrow> pg_round_down va = pg_round_down vb"
proof -
  have "pg_round_down v = push_bit 12 (drop_bit 12 v)" for v
    by (rule bit_word_eqI)
      (auto simp: pg_round_down_def PGMASK_def mask12 bit_and_iff bit_not_iff bit_push_bit_iff bit_drop_bit_eq bit_mask_iff)
  moreover have "drop_bit 12 (push_bit 12 (drop_bit 12 v)) = drop_bit 12 v" for v :: u32
    by (rule bit_word_eqI) (auto simp: bit_push_bit_iff bit_drop_bit_eq bit_simps dest: bit_imp_le_length)
  ultimately show ?thesis unfolding pg_no_def PGBITS_def by metis
qed

lemma pg_ofs_diff_base: "pg_ofs (va - PHYS_BASE) = pg_ofs va"
proof -
  have e: "va - PHYS_BASE = va + 0x40000000" by (simp add: PHYS_BASE_def)
  have "unat (take_bit 12 (va + 0x40000000)) = unat (take_bit 12 va)"
  proof -
    have "unat (va + 0x40000000) mod 4096 = (unat va + 0x40000000) mod 4294967296 mod 4096"
      by (simp add: unat_word_ariths)
    also have "\<dots> = (unat va + 0x40000000) mod 4096" by (rule mod_mod_cancel) simp
    also have "\<dots> = (unat va + 262144 * 4096) mod 4096" by simp
    also have "\<dots> = unat va mod 4096" by (rule mod_mult_self1)
    finally show ?thesis unfolding unsigned_take_bit_eq by (simp add: take_bit_eq_mod)
  qed
  then show ?thesis unfolding pg_ofs_take e by (simp only: word_unat_eq_iff)
qed

lemma entry_addr: "pg_ofs p = 0 \<Longrightarrow> f AND PTE_ADDR = 0 \<Longrightarrow> (p OR f) AND PTE_ADDR = p"
  using aligned_round_down [of p]
  by (simp add: bit.conj_disj_distrib2 addr_mask pg_round_down_def)

lemma flags_no_addr:
  "(PTE_U OR PTE_P OR PTE_W) AND PTE_ADDR = 0" "(PTE_P OR PTE_W OR PTE_U) AND PTE_ADDR = 0"
  "(PTE_P OR 0 OR PTE_U) AND PTE_ADDR = 0" "PTE_P AND PTE_ADDR = 0" "PTE_D AND PTE_ADDR = 0" "PTE_A AND PTE_ADDR = 0"
  by (simp_all add: pte_defs)

text \<open>A kernel page whose physical address has a virtual alias: the first gigabyte of physical memory.\<close>

definition kpage_ok :: "u32 \<Rightarrow> bool" where
  "kpage_ok k \<longleftrightarrow> pg_ofs k = 0 \<and> is_kernel_vaddr k"

lemma kpage_phys: "kpage_ok k \<Longrightarrow> k - PHYS_BASE < PHYS_BASE"
proof -
  assume "kpage_ok k"
  then have "PHYS_BASE \<le> k" by (simp add: kpage_ok_def is_kernel_vaddr_def)
  then have "unat (k - PHYS_BASE) = unat k - unat PHYS_BASE" by (simp add: unat_sub_if_size word_le_nat_alt)
  moreover have "unat k < 4294967296" using unsigned_less [of k] by simp
  ultimately show ?thesis by (simp add: word_less_nat_alt PHYS_BASE_def)
qed

lemma vtop_kpage: "kpage_ok k \<Longrightarrow> vtop k = Some (k - PHYS_BASE)"
  by (simp add: vtop_def kpage_ok_def)

lemma ptov_entry:
  assumes "kpage_ok k" and "f AND PTE_ADDR = 0"
  shows "ptov (((k - PHYS_BASE) OR f) AND PTE_ADDR) = Some k"
proof -
  have "pg_ofs (k - PHYS_BASE) = 0" using assms(1) by (simp add: pg_ofs_diff_base kpage_ok_def)
  from entry_addr [OF this assms(2)] kpage_phys [OF assms(1)] show ?thesis by (simp add: ptov_def)
qed

definition pde_flags :: u32 where "pde_flags = PTE_U OR PTE_P OR PTE_W"
definition pte_flags :: "bool \<Rightarrow> u32" where "pte_flags writable = PTE_P OR (if writable then PTE_W else 0) OR PTE_U"

lemma pde_create_kpage: "kpage_ok k \<Longrightarrow> pde_create k = Some ((k - PHYS_BASE) OR pde_flags)"
  by (simp add: pde_create_def vtop_kpage) (simp add: kpage_ok_def pde_flags_def)

lemma pte_create_user_kpage:
  "kpage_ok k \<Longrightarrow> pte_create_user k w = Some ((k - PHYS_BASE) OR pte_flags w)"
  by (simp add: pte_create_user_def pte_create_kernel_def vtop_kpage)
    (simp add: kpage_ok_def pte_flags_def or.assoc)

lemma present_or: "f AND PTE_P = PTE_P \<Longrightarrow> (p OR f) AND PTE_P = PTE_P"
proof -
  assume f: "f AND PTE_P = PTE_P"
  have "(p OR f) AND PTE_P = p AND PTE_P OR PTE_P" by (simp only: bit.conj_disj_distrib2 f)
  also have "\<dots> = PTE_P" by (rule bit_word_eqI) (auto simp: bit_or_iff bit_and_iff)
  finally show ?thesis .
qed

lemma flags_present: "pde_flags AND PTE_P = PTE_P" "pte_flags w AND PTE_P = PTE_P" "PTE_P \<noteq> 0"
  by (simp_all add: pde_flags_def pte_flags_def pte_defs)

lemma flags_addr0: "pde_flags AND PTE_ADDR = 0" "pte_flags w AND PTE_ADDR = 0"
  by (simp_all add: pde_flags_def pte_flags_def pte_defs)

text \<open>The flags of a present directory entry: those of \<open>pde_create\<close>, and those the processor sets.\<close>

definition entry_flags :: "u32 \<Rightarrow> bool" where
  "entry_flags f \<longleftrightarrow> f AND PTE_ADDR = 0 \<and> f AND PTE_P = PTE_P"

lemma entry_flags_pde [simp]: "entry_flags pde_flags" "entry_flags (pde_flags OR PTE_A)"
  by (simp_all add: entry_flags_def pde_flags_def pte_defs)

lemma pde_roundtrip:
  assumes "kpage_ok k" and "entry_flags f"
  shows "pde_get_pt ((k - PHYS_BASE) OR f) = Some k"
  using present_or [of f "k - PHYS_BASE"] ptov_entry [OF assms(1), of f] assms(2) flags_present(3)
  by (simp add: pde_get_pt_def entry_flags_def)

section \<open>The map a page directory implements\<close>

text \<open>The page table of a directory entry, and the entry for a virtual address, 0 where there is none.\<close>

definition table_of :: "pt_mem \<Rightarrow> u32 \<Rightarrow> nat \<Rightarrow> u32 option" where
  "table_of m pd i = (if m pd i = 0 then None else pde_get_pt (m pd i))"

definition pte_of :: "pt_mem \<Rightarrow> u32 \<Rightarrow> u32 \<Rightarrow> u32" where
  "pte_of m pd va = (case table_of m pd (pd_no va) of None \<Rightarrow> 0 | Some pt \<Rightarrow> m pt (pt_no va))"

text \<open>
  A directory is well formed when it is a page of its own, each entry for a user address is 0 or that of a table with
  flags as \<open>pde_create\<close> and the processor set them, and the tables are distinct pages.
\<close>

definition pd_ok :: "pt_mem \<Rightarrow> u32 \<Rightarrow> bool" where
  "pd_ok m pd \<longleftrightarrow> kpage_ok pd \<and>
     (\<forall>i<768. m pd i \<noteq> 0 \<longrightarrow> (\<exists>pt f. kpage_ok pt \<and> pt \<noteq> pd \<and> entry_flags f \<and> m pd i = (pt - PHYS_BASE) OR f)) \<and>
     (\<forall>i<768. \<forall>j<768. table_of m pd i \<noteq> None \<longrightarrow> table_of m pd i = table_of m pd j \<longrightarrow> i = j)"

lemma kpage_nonzero: "kpage_ok k \<Longrightarrow> k \<noteq> 0"
  by (auto simp: kpage_ok_def is_kernel_vaddr_def PHYS_BASE_def)

lemma pd_no_user: "is_user_vaddr va \<Longrightarrow> pd_no va < 768"
proof -
  assume "is_user_vaddr va"
  then have "unat va < 3221225472" by (simp add: is_user_vaddr_def PHYS_BASE_def word_less_nat_alt)
  then have "unat va div 4194304 < 768" by simp
  moreover have "pd_no va = unat va div 4194304"
    unfolding pd_no_def pte_defs vaddr_defs unat_drop_bit_eq by (simp add: drop_bit_eq_div)
  ultimately show ?thesis by simp
qed

lemma pd_no_phys_base: "pd_no PHYS_BASE = 768"
  by (simp add: pd_no_def pte_defs vaddr_defs)

text \<open>The two indexes are the page number.\<close>

lemma page_indexes: "pd_no va = pd_no vb \<and> pt_no va = pt_no vb \<longleftrightarrow> pg_no va = pg_no vb"
proof -
  have pt: "drop_bit 12 (v AND PTMASK) = take_bit 10 (drop_bit 12 v)" for v :: u32
  proof -
    have e: "PTMASK = push_bit 12 (mask 10)"
      by (simp add: PTMASK_def mask_eq_exp_minus_1 push_bit_eq_mult)
    show ?thesis unfolding e
      by (auto intro!: bit_word_eqI simp: bit_and_iff bit_drop_bit_eq bit_take_bit_iff bit_push_bit_iff bit_mask_iff
          dest: bit_imp_le_length)
  qed
  have pd: "drop_bit 22 v = drop_bit 10 (drop_bit 12 v)" for v :: u32 by simp
  have inj: "drop_bit 10 a = drop_bit 10 b \<Longrightarrow> take_bit 10 a = take_bit 10 b \<Longrightarrow> a = b" for a b :: u32
    by (metis bits_ident)
  have d22: "drop_bit (12 + 10) v = drop_bit 10 (drop_bit 12 v)" for v :: u32 using pd [of v] by simp
  show ?thesis
    unfolding pd_no_def pt_no_def pg_no_def PDSHIFT_def PTSHIFT_def PTBITS_def PGBITS_def pt d22
      word_unat_eq_iff [symmetric]
    using inj by metis
qed

lemma table_of_entry:
  assumes "pd_ok m pd" and "i < 768"
  shows "m pd i = 0 \<and> table_of m pd i = None \<or>
    (\<exists>pt. m pd i \<noteq> 0 \<and> pde_get_pt (m pd i) = Some pt \<and> table_of m pd i = Some pt \<and> kpage_ok pt \<and> pt \<noteq> pd)"
proof (cases "m pd i = 0")
  case False
  then obtain pt f where "kpage_ok pt" "pt \<noteq> pd" "entry_flags f" "m pd i = (pt - PHYS_BASE) OR f"
    using assms unfolding pd_ok_def by blast
  with False pde_roundtrip show ?thesis by (auto simp: table_of_def)
qed (simp add: table_of_def)

lemma lookup_no_create:
  assumes "pd_ok m pd" and "is_user_vaddr va"
  shows "lookup_page m pd va False pt_new =
    Some (map_option (\<lambda>pt. (pt, pt_no va)) (table_of m pd (pd_no va)), m)"
  using table_of_entry [OF assms(1) pd_no_user [OF assms(2)]] assms(1)
  by (auto simp: lookup_page_def read_word_def pd_ok_def kpage_nonzero)

text \<open>Writing the entry of one page changes that entry only and keeps the directory well formed.\<close>

lemma table_of_write_table:
  assumes "pd_ok m pd" and "i < 768" and "table_of m pd i = Some pt"
  shows "table_of (write_word m (pt, k) e) pd j = table_of m pd j"
  using table_of_entry [OF assms(1,2)] assms(3) by (auto simp: table_of_def write_word_def)

lemma pd_ok_write_table:
  assumes "pd_ok m pd" and "i < 768" and "table_of m pd i = Some pt"
  shows "pd_ok (write_word m (pt, k) e) pd"
proof -
  have "pt \<noteq> pd" using table_of_entry [OF assms(1,2)] assms(3) by auto
  then have w: "(write_word m (pt, k) e) pd j = m pd j" for j by (simp add: write_word_def)
  show ?thesis using assms(1) unfolding pd_ok_def table_of_write_table [OF assms] w .
qed

lemma pte_of_write_table:
  assumes "pd_ok m pd" and "is_user_vaddr va" and "table_of m pd (pd_no va) = Some pt" and "is_user_vaddr vb"
  shows "pte_of (write_word m (pt, pt_no va) e) pd vb = (if pg_no vb = pg_no va then e else pte_of m pd vb)"
proof -
  note t = table_of_write_table [OF assms(1) pd_no_user [OF assms(2)] assms(3)]
  show ?thesis
  proof (cases "table_of m pd (pd_no vb)")
    case None
    then have "pg_no vb \<noteq> pg_no va" using page_indexes [of vb va] assms(3) by auto
    with None show ?thesis by (simp add: pte_of_def t)
  next
    case (Some q)
    have "q = pt \<longleftrightarrow> pd_no vb = pd_no va"
      using assms(1,3) Some pd_no_user [OF assms(2)] pd_no_user [OF assms(4)] unfolding pd_ok_def
      by (metis option.distinct(1) option.inject)
    then have "q = pt \<and> pt_no vb = pt_no va \<longleftrightarrow> pg_no vb = pg_no va" using page_indexes [of vb va] by simp
    moreover have "pte_of (write_word m (pt, pt_no va) e) pd vb = write_word m (pt, pt_no va) e q (pt_no vb)"
      unfolding pte_of_def t Some by simp
    ultimately show ?thesis using Some by (auto simp: pte_of_def write_word_def)
  qed
qed


text \<open>A page an allocation may return: not the directory and not one of its tables.\<close>

definition fresh_table :: "pt_mem \<Rightarrow> u32 \<Rightarrow> u32 \<Rightarrow> bool" where
  "fresh_table m pd pt \<longleftrightarrow> kpage_ok pt \<and> pt \<noteq> pd \<and> (\<forall>i<768. table_of m pd i \<noteq> Some pt)"

lemma table_of_new:
  assumes "kpage_ok pt" and "pt \<noteq> pd"
  shows "table_of (write_word (m(pt := \<lambda>_. 0)) (pd, i) ((pt - PHYS_BASE) OR pde_flags)) pd j =
    (if j = i then Some pt else table_of m pd j)"
proof -
  have "((pt - PHYS_BASE) OR pde_flags) AND PTE_P \<noteq> 0"
    using present_or [OF flags_present(1), of "pt - PHYS_BASE"] flags_present(3) by simp
  then have "(pt - PHYS_BASE) OR pde_flags \<noteq> 0" by auto
  then show ?thesis using assms pde_roundtrip [OF assms(1) entry_flags_pde(1)] by (simp add: table_of_def write_word_def)
qed

lemma lookup_create:
  assumes ok: "pd_ok m pd" and u: "is_user_vaddr va" and none: "table_of m pd (pd_no va) = None"
    and fr: "fresh_table m pd pt"
  shows "\<exists>m'. lookup_page m pd va True (Some pt) = Some (Some (pt, pt_no va), m') \<and> pd_ok m' pd \<and>
    table_of m' pd (pd_no va) = Some pt \<and> (\<forall>vb. is_user_vaddr vb \<longrightarrow> pte_of m' pd vb = pte_of m pd vb)"
proof -
  let ?i = "pd_no va" and ?e = "(pt - PHYS_BASE) OR pde_flags"
  let ?m = "write_word (m(pt := \<lambda>_. 0)) (pd, pd_no va) ((pt - PHYS_BASE) OR pde_flags)"
  have pt: "kpage_ok pt" "pt \<noteq> pd" "\<And>j. j < 768 \<Longrightarrow> table_of m pd j \<noteq> Some pt"
    using fr by (auto simp: fresh_table_def)
  have i: "?i < 768" by (rule pd_no_user [OF u])
  note t = table_of_new [OF pt(1,2), of m ?i]
  have z: "m pd ?i = 0" using table_of_entry [OF ok i] none by auto
  have run: "lookup_page m pd va True (Some pt) = Some (Some (pt, pt_no va), ?m)"
    using z u ok pde_create_kpage [OF pt(1)] pde_roundtrip [OF pt(1) entry_flags_pde(1)]
    by (simp add: lookup_page_def read_word_def pd_ok_def kpage_nonzero write_word_def Let_def)
  have dir: "?m pd j = (if j = ?i then ?e else m pd j)" for j using pt(2) by (simp add: write_word_def)
  have "pd_ok ?m pd"
    unfolding pd_ok_def
  proof (intro conjI allI impI)
    show "kpage_ok pd" using ok by (simp add: pd_ok_def)
  next
    fix j
    assume "j < 768" "?m pd j \<noteq> 0"
    then show "\<exists>pt f. kpage_ok pt \<and> pt \<noteq> pd \<and> entry_flags f \<and> ?m pd j = (pt - PHYS_BASE) OR f"
    proof (cases "j = ?i")
      case True
      then show ?thesis using pt unfolding dir by (intro exI [of _ pt] exI [of _ pde_flags]) simp
    next
      case False
      then show ?thesis using \<open>j < 768\<close> \<open>?m pd j \<noteq> 0\<close> ok unfolding dir pd_ok_def by simp
    qed
  next
    fix j k
    assume jk: "j < 768" "k < 768" "table_of ?m pd j \<noteq> None" "table_of ?m pd j = table_of ?m pd k"
    have "j = k" if "table_of m pd j \<noteq> None" "table_of m pd j = table_of m pd k"
      using ok that jk(1,2) unfolding pd_ok_def by blast
    then show "j = k" using jk pt(3) [of j] pt(3) [of k] unfolding t by (auto split: if_splits)
  qed
  moreover have "pte_of ?m pd vb = pte_of m pd vb" if vb: "is_user_vaddr vb" for vb
  proof (cases "pd_no vb = ?i")
    case True
    then show ?thesis using none pt(2) unfolding pte_of_def t by (simp add: write_word_def)
  next
    case False
    have "q \<noteq> pt \<and> q \<noteq> pd" if "table_of m pd (pd_no vb) = Some q" for q
      using that pt(3) [OF pd_no_user [OF vb]] table_of_entry [OF ok pd_no_user [OF vb]] by auto
    then show ?thesis using False unfolding pte_of_def t
      by (cases "table_of m pd (pd_no vb)") (auto simp: write_word_def)
  qed
  ultimately show ?thesis using run t by auto
qed

lemma lookup_existing:
  assumes "pd_ok m pd" and "is_user_vaddr va" and "table_of m pd (pd_no va) = Some pt"
  shows "lookup_page m pd va create pt_new = Some (Some (pt, pt_no va), m)"
  using table_of_entry [OF assms(1) pd_no_user [OF assms(2)]] assms
  by (auto simp: lookup_page_def read_word_def pd_ok_def kpage_nonzero)

lemma set_page_spec:
  assumes ok: "pd_ok m pd" and up: "is_user_vaddr upage" "pg_ofs upage = 0"
    and kp: "kpage_ok kpage" "drop_bit 12 (kpage - PHYS_BASE) < ram_pages" and pd: "pd \<noteq> init_pd"
    and unmapped: "pte_of m pd upage AND PTE_P = 0"
    and fr: "\<And>pt. pt_new = Some pt \<Longrightarrow> fresh_table m pd pt"
  shows "\<exists>m'. pagedir_set_page m init_pd ram_pages pd upage kpage w pt_new =
      Some (table_of m pd (pd_no upage) \<noteq> None \<or> pt_new \<noteq> None, m') \<and> pd_ok m' pd \<and>
    (\<forall>vb. is_user_vaddr vb \<longrightarrow> pte_of m' pd vb =
      (if (table_of m pd (pd_no upage) \<noteq> None \<or> pt_new \<noteq> None) \<and> pg_no vb = pg_no upage
       then (kpage - PHYS_BASE) OR pte_flags w else pte_of m pd vb))"
proof -
  have "pagedir_set_page m init_pd ram_pages pd upage kpage w pt_new = do {
      (pte, m) \<leftarrow> lookup_page m pd upage True pt_new;
      case pte of
        Some p \<Rightarrow> if read_word m p AND PTE_P = 0
                  then Some (True, write_word m p ((kpage - PHYS_BASE) OR pte_flags w)) else None
      | None \<Rightarrow> Some (False, m) }"
    using up kp pd vtop_kpage [OF kp(1)] pte_create_user_kpage [OF kp(1)]
    by (auto simp: pagedir_set_page_def kpage_ok_def pte_defs PGBITS_def split: option.splits bind_splits)
  note run = this
  have key: ?thesis if l: "lookup_page m pd upage True pt_new = Some (Some (pt, pt_no upage), m1)"
    and ok1: "pd_ok m1 pd" and t1: "table_of m1 pd (pd_no upage) = Some pt"
    and same: "\<forall>vb. is_user_vaddr vb \<longrightarrow> pte_of m1 pd vb = pte_of m pd vb"
    and some: "table_of m pd (pd_no upage) \<noteq> None \<or> pt_new \<noteq> None" for pt m1
  proof -
    have "read_word m1 (pt, pt_no upage) = pte_of m1 pd upage"
      using t1 by (simp add: read_word_def pte_of_def)
    also have "\<dots> = pte_of m pd upage" using same up by blast
    finally have "read_word m1 (pt, pt_no upage) AND PTE_P = 0" using unmapped by simp
    then have "pagedir_set_page m init_pd ram_pages pd upage kpage w pt_new =
        Some (True, write_word m1 (pt, pt_no upage) ((kpage - PHYS_BASE) OR pte_flags w))"
      using l run by simp
    then show ?thesis
      using some pd_ok_write_table [OF ok1 pd_no_user [OF up(1)] t1]
        pte_of_write_table [OF ok1 up(1) t1] same by auto
  qed
  show ?thesis
  proof (cases "table_of m pd (pd_no upage)")
    case (Some pt)
    from key [OF lookup_existing [OF ok up(1) Some] ok Some] Some show ?thesis by simp
  next
    case none: None
    show ?thesis
    proof (cases pt_new)
      case None
      have "m pd (pd_no upage) = 0" using table_of_entry [OF ok pd_no_user [OF up(1)]] none by auto
      then have "lookup_page m pd upage True pt_new = Some (None, m)"
        using None up ok by (simp add: lookup_page_def read_word_def pd_ok_def kpage_nonzero)
      then show ?thesis using None none run ok by auto
    next
      case (Some pt)
      from lookup_create [OF ok up(1) none fr [OF Some]] obtain m1 where
        "lookup_page m pd upage True (Some pt) = Some (Some (pt, pt_no upage), m1)" "pd_ok m1 pd"
        "table_of m1 pd (pd_no upage) = Some pt" "\<forall>vb. is_user_vaddr vb \<longrightarrow> pte_of m1 pd vb = pte_of m pd vb"
        by blast
      then show ?thesis using key [of pt m1] Some by simp
    qed
  qed
qed

lemma get_page_spec:
  assumes "pd_ok m pd" and "is_user_vaddr va"
  shows "pagedir_get_page m pd va =
    (if pte_of m pd va AND PTE_P \<noteq> 0
     then do { page \<leftarrow> pte_get_page (pte_of m pd va); Some (Some (page + pg_ofs va)) } else Some None)"
  using assms(2) lookup_no_create [OF assms, of None]
  by (auto simp: pagedir_get_page_def pte_of_def read_word_def split: option.splits)

lemma get_page_user_pte:
  assumes "pd_ok m pd" and "is_user_vaddr va" and "pte_of m pd va = (k - PHYS_BASE) OR pte_flags w" and "kpage_ok k"
  shows "pagedir_get_page m pd va = Some (Some (k + pg_ofs va))"
  using get_page_spec [OF assms(1,2)] present_or [OF flags_present(2), of "k - PHYS_BASE" w] flags_present(3)
    ptov_entry [OF assms(4) flags_addr0(2), of w] assms(3)
  by (simp add: pte_get_page_def)

lemma clear_page_spec:
  assumes ok: "pd_ok m pd" and up: "is_user_vaddr upage" "pg_ofs upage = 0"
  shows "\<exists>m'. pagedir_clear_page m pd upage = Some m' \<and> pd_ok m' pd \<and>
    (\<forall>vb. is_user_vaddr vb \<longrightarrow> pte_of m' pd vb =
      (if pg_no vb = pg_no upage then pte_of m pd vb AND NOT PTE_P else pte_of m pd vb))"
proof (cases "table_of m pd (pd_no upage)")
  case None
  then have "pagedir_clear_page m pd upage = Some m"
    using up lookup_no_create [OF ok up(1), of None] by (simp add: pagedir_clear_page_def)
  moreover have "pte_of m pd vb = 0" if "pg_no vb = pg_no upage" for vb
    using None page_indexes [of vb upage] that by (simp add: pte_of_def)
  ultimately show ?thesis using ok by auto
next
  case (Some pt)
  let ?p = "(pt, pt_no upage)"
  have rd: "read_word m ?p = pte_of m pd upage" using Some by (simp add: read_word_def pte_of_def)
  have pte_eq: "pte_of m pd vb = pte_of m pd upage" if "pg_no vb = pg_no upage" for vb
    using page_indexes [of vb upage] that unfolding pte_of_def by metis
  have run: "pagedir_clear_page m pd upage = Some
      (if pte_of m pd upage AND PTE_P \<noteq> 0 then write_word m ?p (pte_of m pd upage AND NOT PTE_P) else m)"
    using up Some lookup_no_create [OF ok up(1), of None] rd by (simp add: pagedir_clear_page_def)
  show ?thesis
  proof (cases "pte_of m pd upage AND PTE_P \<noteq> 0")
    case True
    let ?m = "write_word m ?p (pte_of m pd upage AND NOT PTE_P)"
    have "pte_of ?m pd vb = (if pg_no vb = pg_no upage then pte_of m pd vb AND NOT PTE_P else pte_of m pd vb)"
      if "is_user_vaddr vb" for vb
      using pte_of_write_table [OF ok up(1) Some that] pte_eq [of vb] by (cases "pg_no vb = pg_no upage") simp_all
    then show ?thesis
      using True run pd_ok_write_table [OF ok pd_no_user [OF up(1)] Some] by (intro exI [of _ ?m]) simp
  next
    case False
    have id: "w AND NOT PTE_P = w" if "w AND PTE_P = 0" for w :: u32
    proof -
      have "w = (w AND PTE_P) OR (w AND NOT PTE_P)"
        by (rule bit_word_eqI) (auto simp: bit_or_iff bit_and_iff bit_not_iff)
      with that show ?thesis by simp
    qed
    from False id [of "pte_of m pd upage"] have "pte_of m pd upage AND NOT PTE_P = pte_of m pd upage" by simp
    then have "pte_of m pd vb AND NOT PTE_P = pte_of m pd vb" if "pg_no vb = pg_no upage" for vb
      using pte_eq [OF that] by simp
    then show ?thesis using run False ok by (intro exI [of _ m]) simp
  qed
qed

text \<open>The accessed and the dirty bit are read from the entry.\<close>

lemma is_dirty_spec: "pd_ok m pd \<Longrightarrow> is_user_vaddr va \<Longrightarrow>
    pagedir_is_dirty m pd va = Some (pte_of m pd va AND PTE_D \<noteq> 0)"
  using lookup_no_create [of m pd va None]
  by (auto simp: pagedir_is_dirty_def pte_of_def read_word_def split: option.splits)

lemma is_accessed_spec: "pd_ok m pd \<Longrightarrow> is_user_vaddr va \<Longrightarrow>
    pagedir_is_accessed m pd va = Some (pte_of m pd va AND PTE_A \<noteq> 0)"
  using lookup_no_create [of m pd va None]
  by (auto simp: pagedir_is_accessed_def pte_of_def read_word_def split: option.splits)


section \<open>Destroying a directory\<close>

lemma destroy_loop_spec:
  assumes "pd_ok m pd" and "set is \<subseteq> {..<768}"
  shows "destroy_loop m pd is = Some (List.map_filter (table_of m pd) is)"
  using assms(2)
proof (induction "is")
  case (Cons i "is")
  have i: "i < 768" using Cons.prems by simp
  note e = table_of_entry [OF assms(1) i]
  show ?case
  proof (cases "table_of m pd i")
    case None
    then have "m pd i = 0" using e by auto
    then show ?thesis using Cons None by (simp add: map_filter_simps)
  next
    case (Some pt)
    then have g: "pde_get_pt (m pd i) = Some pt" using e by auto
    then have "m pd i AND PTE_P \<noteq> 0" by (auto simp: pde_get_pt_def split: if_splits)
    then show ?thesis using Cons Some g by (simp add: map_filter_simps)
  qed
qed (simp add: map_filter_simps)

lemma map_filter_distinct:
  assumes "distinct is" and "\<And>i j. i \<in> set is \<Longrightarrow> j \<in> set is \<Longrightarrow> f i \<noteq> None \<Longrightarrow> f i = f j \<Longrightarrow> i = j"
  shows "distinct (List.map_filter f is)"
  using assms
proof (induction "is")
  case (Cons i "is")
  have "distinct (List.map_filter f is)" using Cons by (metis distinct.simps(2) list.set_intros(2))
  moreover have "x \<notin> set (List.map_filter f is)" if "f i = Some x" for x
  proof
    assume "x \<in> set (List.map_filter f is)"
    then obtain j where "j \<in> set is" "f j = Some x" by (auto simp: map_filter_def)
    then show False using Cons.prems that by force
  qed
  ultimately show ?case by (auto simp: map_filter_simps split: option.splits)
qed (simp add: map_filter_simps)

section \<open>Properties\<close>

text \<open>A directory at \<open>0xc0010000\<close> without tables, for the witnesses.\<close>

definition sample_pd :: u32 where "sample_pd = 0xc0010000"
definition sample_mem :: pt_mem where "sample_mem = (\<lambda>_ _. 0)"

lemma sample_pd_ok: "pd_ok sample_mem sample_pd"
  by (auto simp: pd_ok_def sample_mem_def sample_pd_def kpage_ok_def table_of_def vaddr_defs)

text \<open>
  C23. \<^verbatim>\<open>pagedir_set_page\<close> of an unmapped user page either reports that no page table could be
  allocated and changes no mapping, or maps it: \<^verbatim>\<open>pagedir_get_page\<close> of every address in the page is then
  the address at the same offset in the frame, and of every other user address what it was before.
\<close>

theorem pagedir_set_get:
  assumes "pd_ok m pd" and "is_user_vaddr upage" and "pg_ofs upage = 0"
    and "kpage_ok kpage" and "drop_bit 12 (kpage - PHYS_BASE) < ram_pages" and "pd \<noteq> init_pd"
    and "pte_of m pd upage AND PTE_P = 0"
    and "case pt_new of None \<Rightarrow> True | Some pt \<Rightarrow> fresh_table m pd pt"
  shows "\<exists>ok m'. pagedir_set_page m init_pd ram_pages pd upage kpage w pt_new = Some (ok, m') \<and> pd_ok m' pd \<and>
    (ok \<longleftrightarrow> table_of m pd (pd_no upage) \<noteq> None \<or> pt_new \<noteq> None) \<and>
    (\<forall>va. is_user_vaddr va \<longrightarrow> pagedir_get_page m' pd va =
      (if ok \<and> pg_no va = pg_no upage then Some (Some (kpage + pg_ofs va)) else pagedir_get_page m pd va))"
proof -
  have fr: "\<And>pt. pt_new = Some pt \<Longrightarrow> fresh_table m pd pt" using assms(8) by auto
  from set_page_spec [OF assms(1-7) fr, where w = w] obtain m' where
    r: "pagedir_set_page m init_pd ram_pages pd upage kpage w pt_new =
      Some (table_of m pd (pd_no upage) \<noteq> None \<or> pt_new \<noteq> None, m')" "pd_ok m' pd"
    "\<forall>vb. is_user_vaddr vb \<longrightarrow> pte_of m' pd vb =
      (if (table_of m pd (pd_no upage) \<noteq> None \<or> pt_new \<noteq> None) \<and> pg_no vb = pg_no upage
       then (kpage - PHYS_BASE) OR pte_flags w else pte_of m pd vb)"
    by blast
  have "pagedir_get_page m' pd va =
      (if (table_of m pd (pd_no upage) \<noteq> None \<or> pt_new \<noteq> None) \<and> pg_no va = pg_no upage
       then Some (Some (kpage + pg_ofs va)) else pagedir_get_page m pd va)" if va: "is_user_vaddr va" for va
  proof (cases "(table_of m pd (pd_no upage) \<noteq> None \<or> pt_new \<noteq> None) \<and> pg_no va = pg_no upage")
    case True
    then have "pte_of m' pd va = (kpage - PHYS_BASE) OR pte_flags w" using r(3) va by simp
    with True show ?thesis using get_page_user_pte [OF r(2) va _ assms(4)] by simp
  next
    case False
    then have "pte_of m' pd va = pte_of m pd va" using r(3) va by auto
    then show ?thesis using False get_page_spec [OF r(2) va] get_page_spec [OF assms(1) va] by auto
  qed
  with r show ?thesis by blast
qed

lemma pagedir_set_get_witness:
  "\<exists>m'. pagedir_set_page sample_mem 0xc0000000 1024 sample_pd 0x8048000 0xc0020000 True (Some 0xc0011000) =
      Some (True, m') \<and> pagedir_get_page m' sample_pd 0x8048123 = Some (Some 0xc0020123)"
proof -
  have fr: "fresh_table sample_mem sample_pd 0xc0011000"
    by (simp add: fresh_table_def kpage_ok_def sample_pd_def sample_mem_def table_of_def vaddr_defs)
  have a: "is_user_vaddr 0x8048000" "pg_ofs 0x8048000 = 0" "kpage_ok 0xc0020000" "sample_pd \<noteq> 0xc0000000"
    "drop_bit 12 (0xc0020000 - PHYS_BASE) < 1024" "pte_of sample_mem sample_pd 0x8048000 AND PTE_P = 0"
    "is_user_vaddr 0x8048123" "pg_no 0x8048123 = pg_no 0x8048000" "0xc0020000 + pg_ofs 0x8048123 = 0xc0020123"
    by (simp_all add: kpage_ok_def vaddr_defs sample_pd_def pte_of_def table_of_def sample_mem_def)
  show ?thesis
    using pagedir_set_get [OF sample_pd_ok a(1-3,5,4,6), where pt_new = "Some 0xc0011000" and w = True] fr a(7-9) by auto
qed

text \<open>
  \<^verbatim>\<open>pagedir_clear_page\<close> makes the page, and no other, inaccessible, and keeps its dirty bit, which
  \<^verbatim>\<open>page_out\<close> reads afterwards.
\<close>

lemma pagedir_clear_keeps_dirty:
  assumes "pd_ok m pd" and "is_user_vaddr upage" and "pg_ofs upage = 0"
  shows "\<exists>m'. pagedir_clear_page m pd upage = Some m' \<and> pd_ok m' pd \<and>
    (\<forall>va. is_user_vaddr va \<longrightarrow> pagedir_get_page m' pd va =
      (if pg_no va = pg_no upage then Some None else pagedir_get_page m pd va)) \<and>
    (\<forall>va. is_user_vaddr va \<longrightarrow> pagedir_is_dirty m' pd va = pagedir_is_dirty m pd va)"
proof -
  obtain m' where r: "pagedir_clear_page m pd upage = Some m'" "pd_ok m' pd"
    "\<forall>vb. is_user_vaddr vb \<longrightarrow> pte_of m' pd vb =
      (if pg_no vb = pg_no upage then pte_of m pd vb AND NOT PTE_P else pte_of m pd vb)"
    using clear_page_spec [OF assms] by blast
  have p: "(w AND NOT PTE_P) AND PTE_P = 0" for w :: u32
    by (rule bit_word_eqI) (auto simp: bit_and_iff bit_not_iff)
  have "NOT PTE_P AND PTE_D = PTE_D" by (simp add: pte_defs)
  then have d: "(w AND NOT PTE_P) AND PTE_D = w AND PTE_D" for w :: u32 by (simp add: and.assoc)
  have "pagedir_get_page m' pd va = (if pg_no va = pg_no upage then Some None else pagedir_get_page m pd va)"
    if "is_user_vaddr va" for va
    using r(3) that p by (auto simp: get_page_spec [OF r(2) that] get_page_spec [OF assms(1) that])
  moreover have "pagedir_is_dirty m' pd va = pagedir_is_dirty m pd va" if "is_user_vaddr va" for va
    using r(3) that d by (simp add: is_dirty_spec [OF r(2) that] is_dirty_spec [OF assms(1) that])
  ultimately show ?thesis using r by blast
qed

text \<open>
  C35. \<^verbatim>\<open>pagedir_destroy\<close> frees each page table of the directory exactly once and then the directory
  itself, which is none of them. The pages that the tables map stay allocated, although the comment on the function says that it
  frees all the pages the directory references: in this kernel they belong to the frame table.
\<close>

theorem pagedir_destroy_frees_once:
  assumes "pd_ok m pd" and "pd \<noteq> init_pd"
  shows "\<exists>freed. pagedir_destroy m init_pd pd = Some freed \<and> distinct freed \<and>
    set freed = insert pd {pt. \<exists>i<768. table_of m pd i = Some pt} \<and>
    (\<forall>va page. is_user_vaddr va \<longrightarrow> pg_ofs va = 0 \<longrightarrow> pagedir_get_page m pd va = Some (Some page) \<longrightarrow>
      page \<noteq> pd \<longrightarrow> (\<forall>i<768. table_of m pd i \<noteq> Some page) \<longrightarrow> page \<notin> set freed)"
proof -
  let ?f = "List.map_filter (table_of m pd) [0..<768]"
  have "destroy_loop m pd [0..<768] = Some ?f" using assms(1) by (intro destroy_loop_spec) auto
  then have "pagedir_destroy m init_pd pd = Some (?f @ [pd])"
    using assms kpage_nonzero [of pd] by (simp add: pagedir_destroy_def pd_no_phys_base pd_ok_def)
  moreover have "distinct ?f"
    using assms(1) by (intro map_filter_distinct) (auto simp: pd_ok_def)
  moreover have "set ?f = {pt. \<exists>i<768. table_of m pd i = Some pt}" by (force simp: map_filter_def)
  moreover have "pd \<noteq> pt" if "i < 768" "table_of m pd i = Some pt" for i pt
    using table_of_entry [OF assms(1) that(1)] that(2) by auto
  ultimately show ?thesis by (intro exI [of _ "?f @ [pd]"]) auto
qed

text \<open>
  The directory with one table, whose entry the processor has marked as accessed, and one page mapped through it: the table is
  freed, the page is not.
\<close>

definition mapped_mem :: pt_mem where
  "mapped_mem = (\<lambda>_ _. 0)(sample_pd := (\<lambda>_. 0)(32 := (0xc0011000 - PHYS_BASE) OR (pde_flags OR PTE_A)),
     0xc0011000 := (\<lambda>_. 0)(72 := (0xc0020000 - PHYS_BASE) OR pte_flags True))"

lemma mapped_entry: "mapped_mem sample_pd i = (if i = 32 then (0xc0011000 - PHYS_BASE) OR (pde_flags OR PTE_A) else 0)"
  by (simp add: mapped_mem_def sample_pd_def)

lemma mapped_table: "table_of mapped_mem sample_pd i = (if i = 32 then Some 0xc0011000 else None)"
proof -
  have "kpage_ok 0xc0011000" by (simp add: kpage_ok_def vaddr_defs)
  then have "pde_get_pt ((0xc0011000 - PHYS_BASE) OR (pde_flags OR PTE_A)) = Some 0xc0011000" by (rule pde_roundtrip) simp
  moreover have "(0xc0011000 - PHYS_BASE) OR (pde_flags OR PTE_A) \<noteq> 0" by (simp add: vaddr_defs pde_flags_def pte_defs)
  ultimately show ?thesis by (simp add: table_of_def mapped_entry)
qed

lemma mapped_pd_ok: "pd_ok mapped_mem sample_pd"
proof -
  have "kpage_ok 0xc0011000" "0xc0011000 \<noteq> sample_pd" "kpage_ok sample_pd"
    by (simp_all add: kpage_ok_def vaddr_defs sample_pd_def)
  moreover have "\<exists>pt f. kpage_ok pt \<and> pt \<noteq> sample_pd \<and> entry_flags f \<and> mapped_mem sample_pd i = (pt - PHYS_BASE) OR f"
    if "mapped_mem sample_pd i \<noteq> 0" for i
    using that calculation unfolding mapped_entry
    by (intro exI [of _ "0xc0011000"] exI [of _ "pde_flags OR PTE_A"]) (simp split: if_splits)
  ultimately show ?thesis by (simp add: pd_ok_def mapped_table)
qed

lemma pagedir_destroy_frees_once_witness:
  "\<exists>freed. pagedir_destroy mapped_mem 0xc0000000 sample_pd = Some freed \<and> set freed = {sample_pd, 0xc0011000} \<and>
    pagedir_get_page mapped_mem sample_pd 0x8048000 = Some (Some 0xc0020000) \<and> 0xc0020000 \<notin> set freed"
proof -
  have "pd_no 0x8048000 = 32" "pt_no 0x8048000 = 72" by (simp_all add: pd_no_def pt_no_def pte_defs vaddr_defs)
  then have "pte_of mapped_mem sample_pd 0x8048000 = (0xc0020000 - PHYS_BASE) OR pte_flags True"
    by (simp add: pte_of_def mapped_table) (simp add: mapped_mem_def)
  then have g: "pagedir_get_page mapped_mem sample_pd 0x8048000 = Some (Some 0xc0020000)"
    using get_page_user_pte [OF mapped_pd_ok, of "0x8048000" "0xc0020000" True] by (simp add: kpage_ok_def vaddr_defs)
  have "sample_pd \<noteq> 0xc0000000" "(0xc0020000 :: u32) \<noteq> sample_pd" by (simp_all add: sample_pd_def)
  then obtain freed where "pagedir_destroy mapped_mem 0xc0000000 sample_pd = Some freed"
    "set freed = insert sample_pd {pt. \<exists>i<768. table_of mapped_mem sample_pd i = Some pt}"
    using pagedir_destroy_frees_once [OF mapped_pd_ok, of "0xc0000000"] by blast
  moreover have "{pt. \<exists>i<768. table_of mapped_mem sample_pd i = Some pt} = {0xc0011000}" by (auto simp: mapped_table split: if_splits)
  ultimately show ?thesis using g \<open>(0xc0020000 :: u32) \<noteq> sample_pd\<close> by auto
qed

end
