(* ===== verification/Vm.thy ===== *)
theory Vm
  imports Kernel_Hash Bitmap Pagedir
begin

text \<open>
  Virtual memory: \<^verbatim>\<open>vm/frame.c\<close>, \<^verbatim>\<open>vm/swap.c\<close> and \<^verbatim>\<open>vm/page.c\<close>.

  The state holds the frame table with the locks of the frames, the heap of \<^verbatim>\<open>struct page\<close> objects, the
  page hash table and the page table entries of each thread, the contents of the frames, the swap
  device with its bitmap, and the files pages are backed by. A frame is named by its index in the
  frame table, a page object by a number. Page table entries are given by the map that \<open>Pagedir\<close> shows
  a page directory to implement.

  Each operation is run by a current thread \<open>t\<close>. \<open>None\<close> is a failed assertion, a null or dangling
  pointer, or a wait for a lock that another thread holds; the last is outside the model, whose
  operations run without being interleaved, except that a frame lock may be held by another thread
  when \<^verbatim>\<open>lock_try_acquire\<close> looks at it. What the allocators return is in the record \<open>vm_env\<close>.
\<close>

section \<open>State\<close>

record frame =
  fkbase :: u32
  fr_page :: "nat option"
  fr_lock :: "nat option"

record page =
  pg_frame :: "nat option"
  pg_thread :: nat
  pg_file :: "nat option"
  pg_private :: bool
  swap_sec :: u32
  user_vaddr :: u32
  ro_page :: bool
  f_ofs :: nat
  byts_rw_f :: nat

text \<open>A hash element: the page it is embedded in and that page's address, which never changes.\<close>

record page_elem =
  pe_vaddr :: u32
  pe_page :: nat

record vm =
  s_frame :: "frame list"
  f_hand :: nat
  s_lock :: "nat option"
  page_heap :: "nat \<Rightarrow> page option"
  page_tables :: "nat \<Rightarrow> page_elem hash_table option"
  ptes :: "nat \<Rightarrow> u32 \<Rightarrow> u32"
  user_stack_ptr :: "nat \<Rightarrow> u32"
  frame_mem :: "nat \<Rightarrow> u8 list"
  swap_dev :: "nat \<Rightarrow> u8 list"
  sw_lock :: "nat option"
  sw_bitmap :: bitmap
  vm_files :: "nat \<Rightarrow> u8 list"

record vm_env =
  env_page :: "nat option"
  env_hash :: bool
  env_pt :: bool

definition MAX_STACK_SIZE :: u32 where "MAX_STACK_SIZE = 1024 * 1024"
definition BLOCK_SECTOR_SIZE :: nat where "BLOCK_SECTOR_SIZE = 512"
definition PAGE_SECTORS :: nat where "PAGE_SECTORS = 4096 div BLOCK_SECTOR_SIZE"
definition NO_SECTOR :: u32 where "NO_SECTOR = - 1"

definition upd_frame :: "nat \<Rightarrow> (frame \<Rightarrow> frame) \<Rightarrow> vm \<Rightarrow> vm" where
  "upd_frame i f vm = vm\<lparr>s_frame := (s_frame vm)[i := f (s_frame vm ! i)]\<rparr>"

definition upd_page :: "nat \<Rightarrow> (page \<Rightarrow> page) \<Rightarrow> vm \<Rightarrow> vm" where
  "upd_page p f vm = vm\<lparr>page_heap := (page_heap vm)(p := map_option f (page_heap vm p))\<rparr>"

section \<open>Locks and page table entries\<close>

definition frame_lock_acquire :: "nat \<Rightarrow> nat \<Rightarrow> vm \<Rightarrow> vm option" where
  "frame_lock_acquire t i vm = do {
     ASSERT (i < length (s_frame vm));
     ASSERT (fr_lock (s_frame vm ! i) = None);
     Some (upd_frame i (\<lambda>f. f\<lparr>fr_lock := Some t\<rparr>) vm) }"

definition frame_lock_try_acquire :: "nat \<Rightarrow> nat \<Rightarrow> vm \<Rightarrow> (bool \<times> vm) option" where
  "frame_lock_try_acquire t i vm = do {
     ASSERT (i < length (s_frame vm));
     ASSERT (fr_lock (s_frame vm ! i) \<noteq> Some t);
     if fr_lock (s_frame vm ! i) = None
     then Some (True, upd_frame i (\<lambda>f. f\<lparr>fr_lock := Some t\<rparr>) vm) else Some (False, vm) }"

definition frame_lock_release :: "nat \<Rightarrow> nat \<Rightarrow> vm \<Rightarrow> vm option" where
  "frame_lock_release t i vm = do {
     ASSERT (i < length (s_frame vm));
     ASSERT (fr_lock (s_frame vm ! i) = Some t);
     Some (upd_frame i (\<lambda>f. f\<lparr>fr_lock := None\<rparr>) vm) }"

definition frame_held :: "nat \<Rightarrow> nat option \<Rightarrow> vm \<Rightarrow> bool" where
  "frame_held t fr vm \<longleftrightarrow> (case fr of None \<Rightarrow> False
     | Some i \<Rightarrow> i < length (s_frame vm) \<and> fr_lock (s_frame vm ! i) = Some t)"

definition s_lock_acquire :: "nat \<Rightarrow> vm \<Rightarrow> vm option" where
  "s_lock_acquire t vm = do { ASSERT (s_lock vm = None); Some (vm\<lparr>s_lock := Some t\<rparr>) }"

definition s_lock_release :: "nat \<Rightarrow> vm \<Rightarrow> vm option" where
  "s_lock_release t vm = do { ASSERT (s_lock vm = Some t); Some (vm\<lparr>s_lock := None\<rparr>) }"

text \<open>The page directory operations on the entries of thread \<open>t\<close>, as \<open>Pagedir\<close> specifies them.\<close>

definition pd_set_page :: "nat \<Rightarrow> u32 \<Rightarrow> u32 \<Rightarrow> bool \<Rightarrow> bool \<Rightarrow> vm \<Rightarrow> (bool \<times> vm) option" where
  "pd_set_page t upage kpage writable pt_ok vm = do {
     ASSERT (pg_ofs upage = 0);
     ASSERT (pg_ofs kpage = 0);
     ASSERT (is_user_vaddr upage);
     if pt_ok
     then do {
       ASSERT (ptes vm t upage AND PTE_P = 0);
       e \<leftarrow> pte_create_user kpage writable;
       Some (True, vm\<lparr>ptes := (ptes vm)(t := (ptes vm t)(upage := e))\<rparr>) }
     else Some (False, vm) }"

definition pd_clear_page :: "nat \<Rightarrow> u32 \<Rightarrow> vm \<Rightarrow> vm option" where
  "pd_clear_page t upage vm = do {
     ASSERT (pg_ofs upage = 0);
     ASSERT (is_user_vaddr upage);
     Some (vm\<lparr>ptes := (ptes vm)(t := (ptes vm t)(upage := ptes vm t upage AND NOT PTE_P))\<rparr>) }"

definition pd_is_dirty :: "nat \<Rightarrow> u32 \<Rightarrow> vm \<Rightarrow> bool" where
  "pd_is_dirty t upage vm \<longleftrightarrow> ptes vm t upage AND PTE_D \<noteq> 0"

definition pd_is_accessed :: "nat \<Rightarrow> u32 \<Rightarrow> vm \<Rightarrow> bool" where
  "pd_is_accessed t upage vm \<longleftrightarrow> ptes vm t upage AND PTE_A \<noteq> 0"

definition pd_clear_accessed :: "nat \<Rightarrow> u32 \<Rightarrow> vm \<Rightarrow> vm" where
  "pd_clear_accessed t upage vm =
     vm\<lparr>ptes := (ptes vm)(t := (ptes vm t)(upage := ptes vm t upage AND NOT PTE_A))\<rparr>"

section \<open>Files\<close>

text \<open>\<^verbatim>\<open>file_write_at\<close> on a file's bytes; a file does not grow.\<close>

definition file_write_bytes :: "u8 list \<Rightarrow> u8 list \<Rightarrow> nat \<Rightarrow> nat \<times> u8 list" where
  "file_write_bytes d b ofs = (let b' = take (length d - ofs) b in (length b', if b' = [] then d else overlay d ofs b'))"

section \<open>Swap\<close>

text \<open>\<open>swap_init\<close> with the size of the swap device, if there is one; \<open>None\<close> is the panic.\<close>

definition swap_init :: "nat option \<Rightarrow> bool \<Rightarrow> u32 list option \<Rightarrow> bitmap option" where
  "swap_init dev_size ok mem = do {
     b \<leftarrow> bitmap_create ok mem (case dev_size of Some n \<Rightarrow> n div PAGE_SECTORS | None \<Rightarrow> 0);
     b }"

fun swap_read_loop :: "vm \<Rightarrow> nat \<Rightarrow> nat \<Rightarrow> nat list \<Rightarrow> vm" where
  "swap_read_loop vm sec i [] = vm"
| "swap_read_loop vm sec i (n # ns) =
     swap_read_loop
       (vm\<lparr>frame_mem := (frame_mem vm)(i := overlay (frame_mem vm i) (n * BLOCK_SECTOR_SIZE) (swap_dev vm (sec + n)))\<rparr>)
       sec i ns"

fun swap_write_loop :: "vm \<Rightarrow> nat \<Rightarrow> nat \<Rightarrow> nat list \<Rightarrow> vm" where
  "swap_write_loop vm sec i [] = vm"
| "swap_write_loop vm sec i (n # ns) =
     swap_write_loop
       (vm\<lparr>swap_dev := (swap_dev vm)(sec + n :=
          take BLOCK_SECTOR_SIZE (drop (n * BLOCK_SECTOR_SIZE) (frame_mem vm i)))\<rparr>)
       sec i ns"

definition page_swap_in :: "nat \<Rightarrow> nat \<Rightarrow> vm \<Rightarrow> vm option" where
  "page_swap_in t p vm = do {
     pg \<leftarrow> page_heap vm p;
     i \<leftarrow> pg_frame pg;
     ASSERT (frame_held t (Some i) vm);
     ASSERT (swap_sec pg \<noteq> NO_SECTOR);
     let vm = swap_read_loop vm (unat (swap_sec pg)) i [0..<PAGE_SECTORS];
     b \<leftarrow> bitmap_reset (sw_bitmap vm) (unat (swap_sec pg) div PAGE_SECTORS);
     Some (upd_page p (\<lambda>pg. pg\<lparr>swap_sec := NO_SECTOR\<rparr>) (vm\<lparr>sw_bitmap := b\<rparr>)) }"

definition page_swap_out :: "nat \<Rightarrow> nat \<Rightarrow> vm \<Rightarrow> (bool \<times> vm) option" where
  "page_swap_out t p vm = do {
     pg \<leftarrow> page_heap vm p;
     i \<leftarrow> pg_frame pg;
     ASSERT (frame_held t (Some i) vm);
     ASSERT (sw_lock vm = None);
     (sw_slot, b) \<leftarrow> bitmap_scan_and_flip (sw_bitmap vm) 0 1 False;
     let vm = vm\<lparr>sw_bitmap := b\<rparr>;
     if sw_slot = BITMAP_ERROR then Some (False, vm)
     else do {
       let sec = of_nat (sw_slot * PAGE_SECTORS);
       let vm = upd_page p (\<lambda>pg. pg\<lparr>swap_sec := sec\<rparr>) vm;
       let vm = swap_write_loop vm (unat sec) i [0..<PAGE_SECTORS];
       b \<leftarrow> bitmap_mark (sw_bitmap vm) (unat sec div PAGE_SECTORS);
       let vm = vm\<lparr>sw_bitmap := b\<rparr>;
       Some (True, upd_page p (\<lambda>pg. pg\<lparr>pg_file := None, pg_private := False, byts_rw_f := 0, f_ofs := 0\<rparr>) vm) } }"

section \<open>Frames\<close>

definition frame_init :: "bool \<Rightarrow> u32 list \<Rightarrow> frame list option" where
  "frame_init mem pages = do {
     ASSERT mem;
     Some (map (\<lambda>k. \<lparr>fkbase = k, fr_page = None, fr_lock = None\<rparr>) pages) }"

definition is_page_recently_accessed :: "nat \<Rightarrow> nat \<Rightarrow> vm \<Rightarrow> (bool \<times> vm) option" where
  "is_page_recently_accessed t p vm = do {
     pg \<leftarrow> page_heap vm p;
     ASSERT (pg_frame pg \<noteq> None);
     ASSERT (frame_held t (pg_frame pg) vm);
     let is_accessed = pd_is_accessed (pg_thread pg) (user_vaddr pg) vm;
     Some (is_accessed, if is_accessed then pd_clear_accessed (pg_thread pg) (user_vaddr pg) vm else vm) }"

text \<open>The eviction of a page whose frame is locked.\<close>

definition page_out :: "nat \<Rightarrow> nat \<Rightarrow> vm \<Rightarrow> (bool \<times> vm) option" where
  "page_out t p vm = do {
     pg \<leftarrow> page_heap vm p;
     i \<leftarrow> pg_frame pg;
     ASSERT (frame_held t (Some i) vm);
     vm \<leftarrow> pd_clear_page (pg_thread pg) (user_vaddr pg) vm;
     let dirty_pg = pd_is_dirty (pg_thread pg) (user_vaddr pg) vm;
     (success, vm) \<leftarrow>
       (case pg_file pg of
          Some f \<Rightarrow>
            if dirty_pg
            then if \<not> pg_private pg
              then let (total_write_amt, d) = file_write_bytes (vm_files vm f) (take (byts_rw_f pg) (frame_mem vm i)) (f_ofs pg)
                   in Some (total_write_amt = byts_rw_f pg, vm\<lparr>vm_files := (vm_files vm)(f := d)\<rparr>)
              else page_swap_out t p vm
            else Some (True, vm)
        | None \<Rightarrow> page_swap_out t p vm);
     Some (success, if success then upd_page p (\<lambda>pg. pg\<lparr>pg_frame := None\<rparr>) vm else vm) }"

text \<open>The scan for a free frame over the indexes given, and the clock that runs for \<open>n\<close> more steps.\<close>

fun scan_free :: "nat \<Rightarrow> nat \<Rightarrow> nat list \<Rightarrow> vm \<Rightarrow> (nat option \<times> vm) option" where
  "scan_free t p [] vm = Some (None, vm)"
| "scan_free t p (i # is) vm = do {
     (got, vm) \<leftarrow> frame_lock_try_acquire t i vm;
     if \<not> got then scan_free t p is vm
     else if fr_page (s_frame vm ! i) = None
     then Some (Some i, upd_frame i (\<lambda>f. f\<lparr>fr_page := Some p\<rparr>) vm)
     else do { vm \<leftarrow> frame_lock_release t i vm; scan_free t p is vm } }"

fun clock :: "nat \<Rightarrow> nat \<Rightarrow> nat \<Rightarrow> vm \<Rightarrow> (nat option \<times> vm) option" where
  "clock t p 0 vm = do { vm \<leftarrow> s_lock_release t vm; Some (None, vm) }"
| "clock t p (Suc n) vm = do {
     let i = f_hand vm;
     let vm = vm\<lparr>f_hand := (if i + 1 \<ge> length (s_frame vm) then 0 else i + 1)\<rparr>;
     (got, vm) \<leftarrow> frame_lock_try_acquire t i vm;
     if \<not> got then clock t p n vm
     else case fr_page (s_frame vm ! i) of
       None \<Rightarrow> do {
         let vm = upd_frame i (\<lambda>f. f\<lparr>fr_page := Some p\<rparr>) vm;
         vm \<leftarrow> s_lock_release t vm;
         Some (Some i, vm) }
     | Some q \<Rightarrow> do {
         (accessed, vm) \<leftarrow> is_page_recently_accessed t q vm;
         if accessed then do { vm \<leftarrow> frame_lock_release t i vm; clock t p n vm }
         else do {
           vm \<leftarrow> s_lock_release t vm;
           (ok, vm) \<leftarrow> page_out t q vm;
           if \<not> ok then do { vm \<leftarrow> frame_lock_release t i vm; Some (None, vm) }
           else Some (Some i, upd_frame i (\<lambda>f. f\<lparr>fr_page := Some p\<rparr>) vm) } } }"

definition try_frame_alloc_and_lock :: "nat \<Rightarrow> nat \<Rightarrow> vm \<Rightarrow> (nat option \<times> vm) option" where
  "try_frame_alloc_and_lock t p vm = do {
     vm \<leftarrow> s_lock_acquire t vm;
     (fr, vm) \<leftarrow> scan_free t p [0..<length (s_frame vm)] vm;
     case fr of
       Some i \<Rightarrow> do { vm \<leftarrow> s_lock_release t vm; Some (Some i, vm) }
     | None \<Rightarrow> clock t p (length (s_frame vm) * 2) vm }"

text \<open>Up to three attempts; in the source a second passes between them.\<close>

fun alloc_tries :: "nat \<Rightarrow> nat \<Rightarrow> nat \<Rightarrow> vm \<Rightarrow> (nat option \<times> vm) option" where
  "alloc_tries 0 t p vm = Some (None, vm)"
| "alloc_tries (Suc n) t p vm = do {
     (fr, vm) \<leftarrow> try_frame_alloc_and_lock t p vm;
     case fr of
       Some i \<Rightarrow> do { ASSERT (frame_held t (Some i) vm); Some (Some i, vm) }
     | None \<Rightarrow> alloc_tries n t p vm }"

definition frame_allocate :: "nat \<Rightarrow> nat \<Rightarrow> vm \<Rightarrow> (nat option \<times> vm) option" where
  "frame_allocate t p vm = alloc_tries 3 t p vm"

definition lock_curr_pg_frame :: "nat \<Rightarrow> nat \<Rightarrow> vm \<Rightarrow> vm option" where
  "lock_curr_pg_frame t p vm = do {
     pg \<leftarrow> page_heap vm p;
     case pg_frame pg of
       None \<Rightarrow> Some vm
     | Some i \<Rightarrow> do {
         vm \<leftarrow> frame_lock_acquire t i vm;
         pg \<leftarrow> page_heap vm p;
         if pg_frame pg \<noteq> Some i
         then do { vm \<leftarrow> frame_lock_release t i vm; ASSERT (pg_frame pg = None); Some vm }
         else Some vm } }"

definition release_frame :: "nat \<Rightarrow> nat \<Rightarrow> vm \<Rightarrow> vm option" where
  "release_frame t i vm = do {
     ASSERT (frame_held t (Some i) vm);
     frame_lock_release t i (upd_frame i (\<lambda>f. f\<lparr>fr_page := None\<rparr>) vm) }"

definition unlock_curr_pg_frame :: "nat \<Rightarrow> nat \<Rightarrow> vm \<Rightarrow> vm option" where
  "unlock_curr_pg_frame t i vm = do {
     ASSERT (frame_held t (Some i) vm);
     frame_lock_release t i vm }"

section \<open>Pages\<close>

text \<open>The client functions of the page hash table.\<close>

definition get_page_hash_value :: "page_elem \<Rightarrow> u32" where
  "get_page_hash_value e = drop_bit PGBITS (pe_vaddr e)"

definition check_hash_entries :: "page_elem \<Rightarrow> page_elem \<Rightarrow> bool" where
  "check_hash_entries a b \<longleftrightarrow> pe_vaddr a < pe_vaddr b"

definition allocation_of_page :: "vm_env \<Rightarrow> nat \<Rightarrow> u32 \<Rightarrow> bool \<Rightarrow> vm \<Rightarrow> (nat option \<times> vm) option" where
  "allocation_of_page env t vaddr r_only vm =
     (case env_page env of
        None \<Rightarrow> Some (None, vm)
      | Some p \<Rightarrow> do {
          let va = pg_round_down vaddr;
          let pg = \<lparr>pg_frame = None, pg_thread = t, pg_file = None, pg_private = (\<not> r_only), swap_sec = NO_SECTOR,
            user_vaddr = va, ro_page = r_only, f_ofs = 0, byts_rw_f = 0\<rparr>;
          h \<leftarrow> page_tables vm t;
          (old, h) \<leftarrow> hash_insert (env_hash env) h \<lparr>pe_vaddr = va, pe_page = p\<rparr>;
          let vm = vm\<lparr>page_tables := (page_tables vm)(t := Some h)\<rparr>;
          if old \<noteq> None then Some (None, vm)
          else Some (Some p, vm\<lparr>page_heap := (page_heap vm)(p := Some pg)\<rparr>) })"

definition page_for_addr :: "vm_env \<Rightarrow> nat \<Rightarrow> u32 \<Rightarrow> vm \<Rightarrow> (nat option \<times> vm) option" where
  "page_for_addr env t vir_addr vm =
     (if vir_addr < PHYS_BASE
      then do {
        h \<leftarrow> page_tables vm t;
        case hash_find h \<lparr>pe_vaddr = pg_round_down vir_addr, pe_page = 0\<rparr> of
          None \<Rightarrow>
            if vir_addr \<ge> PHYS_BASE - MAX_STACK_SIZE \<and> vir_addr \<ge> user_stack_ptr vm t - 32
            then allocation_of_page env t vir_addr False vm
            else Some (None, vm)
        | Some e \<Rightarrow> Some (Some (pe_page e), vm) }
      else Some (None, vm))"

definition fill_frame :: "nat \<Rightarrow> u8 list \<Rightarrow> vm \<Rightarrow> vm" where
  "fill_frame i d vm = vm\<lparr>frame_mem := (frame_mem vm)(i := d)\<rparr>"

definition do_page_in :: "nat \<Rightarrow> nat \<Rightarrow> vm \<Rightarrow> (bool \<times> vm) option" where
  "do_page_in t p vm = do {
     (fr, vm) \<leftarrow> frame_allocate t p vm;
     let vm = upd_page p (\<lambda>pg. pg\<lparr>pg_frame := fr\<rparr>) vm;
     case fr of
       None \<Rightarrow> Some (False, vm)
     | Some i \<Rightarrow> do {
         pg \<leftarrow> page_heap vm p;
         case pg_file pg of
           Some f \<Rightarrow> do {
             let b = file_bytes (vm_files vm f) (byts_rw_f pg) (f_ofs pg);
             Some (True, fill_frame i (b @ replicate (4096 - length b) 0) vm) }
         | None \<Rightarrow>
             if swap_sec pg \<noteq> NO_SECTOR
             then do { vm \<leftarrow> page_swap_in t p vm; Some (True, vm) }
             else Some (True, fill_frame i (replicate 4096 0) vm) } }"

definition page_in :: "vm_env \<Rightarrow> nat \<Rightarrow> u32 \<Rightarrow> vm \<Rightarrow> (bool \<times> vm) option" where
  "page_in env t fault_address vm =
     (if page_tables vm t = None then Some (False, vm)
      else do {
        (pgo, vm) \<leftarrow> page_for_addr env t fault_address vm;
        case pgo of
          None \<Rightarrow> Some (False, vm)
        | Some p \<Rightarrow> do {
            vm \<leftarrow> lock_curr_pg_frame t p vm;
            pg \<leftarrow> page_heap vm p;
            (ok, vm) \<leftarrow> (if pg_frame pg = None then do_page_in t p vm else Some (True, vm));
            if \<not> ok then Some (False, vm)
            else do {
              pg \<leftarrow> page_heap vm p;
              i \<leftarrow> pg_frame pg;
              ASSERT (frame_held t (Some i) vm);
              (has_succeeded, vm) \<leftarrow>
                pd_set_page t (user_vaddr pg) (fkbase (s_frame vm ! i)) (\<not> ro_page pg) (env_pt env) vm;
              vm \<leftarrow> unlock_curr_pg_frame t i vm;
              Some (has_succeeded, vm) } } })"

definition unlock_this_page :: "vm_env \<Rightarrow> nat \<Rightarrow> u32 \<Rightarrow> vm \<Rightarrow> vm option" where
  "unlock_this_page env t addr vm = do {
     (pgo, vm) \<leftarrow> page_for_addr env t addr vm;
     p \<leftarrow> pgo;
     pg \<leftarrow> page_heap vm p;
     i \<leftarrow> pg_frame pg;
     unlock_curr_pg_frame t i vm }"

definition lock_this_page :: "vm_env \<Rightarrow> nat \<Rightarrow> u32 \<Rightarrow> bool \<Rightarrow> vm \<Rightarrow> (bool \<times> vm) option" where
  "lock_this_page env t addr to_write vm = do {
     (pgo, vm) \<leftarrow> page_for_addr env t addr vm;
     case pgo of
       None \<Rightarrow> Some (False, vm)
     | Some p \<Rightarrow> do {
         pg \<leftarrow> page_heap vm p;
         if ro_page pg \<and> to_write then Some (False, vm)
         else do {
           vm \<leftarrow> lock_curr_pg_frame t p vm;
           pg \<leftarrow> page_heap vm p;
           if pg_frame pg = None
           then do {
             (ok, vm) \<leftarrow> do_page_in t p vm;
             if ok
             then do {
               pg \<leftarrow> page_heap vm p;
               i \<leftarrow> pg_frame pg;
               pd_set_page t (user_vaddr pg) (fkbase (s_frame vm ! i)) (\<not> ro_page pg) (env_pt env) vm }
             else Some (False, vm) }
           else Some (True, vm) } } }"

definition deallocation_of_page :: "vm_env \<Rightarrow> nat \<Rightarrow> u32 \<Rightarrow> vm \<Rightarrow> vm option" where
  "deallocation_of_page env t vaddr vm = do {
     (pgo, vm) \<leftarrow> page_for_addr env t vaddr vm;
     p \<leftarrow> pgo;
     vm \<leftarrow> lock_curr_pg_frame t p vm;
     pg \<leftarrow> page_heap vm p;
     vm \<leftarrow> (case pg_frame pg of
         Some i \<Rightarrow> do {
           vm \<leftarrow> (if pg_file pg \<noteq> None \<and> \<not> pg_private pg
                  then do { (_, vm) \<leftarrow> page_out t p vm; Some vm } else Some vm);
           release_frame t i vm }
       | None \<Rightarrow> Some vm);
     h \<leftarrow> page_tables vm t;
     (_, h) \<leftarrow> hash_delete (env_hash env) h \<lparr>pe_vaddr = user_vaddr pg, pe_page = p\<rparr>;
     Some (vm\<lparr>page_tables := (page_tables vm)(t := Some h), page_heap := (page_heap vm)(p := None)\<rparr>) }"

definition destroy_page :: "nat \<Rightarrow> page_elem \<Rightarrow> vm \<Rightarrow> vm option" where
  "destroy_page t e vm = do {
     let p = pe_page e;
     vm \<leftarrow> lock_curr_pg_frame t p vm;
     pg \<leftarrow> page_heap vm p;
     vm \<leftarrow> (case pg_frame pg of Some i \<Rightarrow> release_frame t i vm | None \<Rightarrow> Some vm);
     Some (vm\<lparr>page_heap := (page_heap vm)(p := None)\<rparr>) }"

text \<open>The destructor is called on the elements of the table, bucket by bucket.\<close>

fun destroy_pages :: "nat \<Rightarrow> page_elem list \<Rightarrow> vm \<Rightarrow> vm option" where
  "destroy_pages t [] vm = Some vm"
| "destroy_pages t (e # es) vm = do { vm \<leftarrow> destroy_page t e vm; destroy_pages t es vm }"

definition delete_cur_page_pte :: "nat \<Rightarrow> vm \<Rightarrow> vm option" where
  "delete_cur_page_pte t vm =
     (case page_tables vm t of
        None \<Rightarrow> Some vm
      | Some h \<Rightarrow> destroy_pages t (hash_destroy h True) vm)"

interpretation page_table: hash_funcs check_hash_entries get_page_hash_value
proof -
  have l: "less_func check_hash_entries" by unfold_locales (auto simp: check_hash_entries_def)
  show "hash_funcs check_hash_entries get_page_hash_value"
  proof (intro hash_funcs.intro hash_funcs_axioms.intro l)
    fix a b
    assume "less_func.eqv check_hash_entries a b"
    then have "pe_vaddr a = pe_vaddr b"
      by (auto simp: less_func.eqv_def [OF l] check_hash_entries_def not_less intro: order.antisym)
    then show "get_page_hash_value a = get_page_hash_value b" by (simp add: get_page_hash_value_def)
  qed
qed

end
