(* ===== verification/Vm_Paging.thy ===== *)
theory Vm_Paging
  imports Vm
begin

text \<open>
  Paging is transparent: the bytes a page stands for, wherever they are kept, survive eviction and
  page-in; swap slots are never shared; and the frame table and the pages agree about who is where.
  The one way in which the code loses data, a dirty page whose eviction fails, is shown at the end.
\<close>

section \<open>The swap device\<close>

lemma PAGE_SECTORS_8 [simp]: "PAGE_SECTORS = 8" "BLOCK_SECTOR_SIZE = 512"
  by (simp_all add: PAGE_SECTORS_def BLOCK_SECTOR_SIZE_def)

lemma swap_write_append:
  "swap_write_loop vm sec i (ns @ [k]) =
    (let vm = swap_write_loop vm sec i ns
     in vm\<lparr>swap_dev := (swap_dev vm)(sec + k := take 512 (drop (k * 512) (frame_mem vm i)))\<rparr>)"
  by (induction vm sec i ns rule: swap_write_loop.induct) (simp_all add: Let_def fun_upd_def)

lemma swap_write_upt:
  "swap_write_loop vm sec i [0..<n] = vm\<lparr>swap_dev := (\<lambda>x. if sec \<le> x \<and> x < sec + n
     then take 512 (drop ((x - sec) * 512) (frame_mem vm i)) else swap_dev vm x)\<rparr>"
proof (induction n)
  case (Suc n)
  show ?case
    by (simp add: swap_write_append Suc.IH Let_def) (rule arg_cong [where f = "\<lambda>d. vm\<lparr>swap_dev := d\<rparr>"], auto simp: fun_eq_iff)
next
  case 0
  have "(\<lambda>x. if sec \<le> x \<and> x < sec + 0 then take 512 (drop ((x - sec) * 512) (frame_mem vm i)) else swap_dev vm x) =
      swap_dev vm"
    by (rule ext) (simp add: not_less [symmetric])
  then show ?case by simp
qed

lemma swap_read_append:
  "swap_read_loop vm sec i (ns @ [k]) =
    (let vm = swap_read_loop vm sec i ns
     in vm\<lparr>frame_mem := (frame_mem vm)(i := overlay (frame_mem vm i) (k * 512) (swap_dev vm (sec + k)))\<rparr>)"
  by (induction vm sec i ns rule: swap_read_loop.induct) (simp_all add: Let_def fun_upd_def)

definition sectors :: "(nat \<Rightarrow> u8 list) \<Rightarrow> nat \<Rightarrow> nat \<Rightarrow> u8 list" where
  "sectors dev sec n = concat (map (\<lambda>k. dev (sec + k)) [0..<n])"

lemma sectors_Suc: "sectors dev sec (Suc n) = sectors dev sec n @ dev (sec + n)"
  by (simp add: sectors_def)

lemma length_sectors: "(\<And>x. length (dev x) = 512) \<Longrightarrow> length (sectors dev sec n) = n * 512"
  by (induction n) (simp_all add: sectors_Suc, simp add: sectors_def)

lemma swap_read_upt:
  assumes "\<And>x. length (swap_dev vm x) = 512" and "length (frame_mem vm i) = 4096" and "n \<le> 8"
  shows "swap_read_loop vm sec i [0..<n] =
    vm\<lparr>frame_mem := (frame_mem vm)(i := sectors (swap_dev vm) sec n @ drop (n * 512) (frame_mem vm i))\<rparr>"
  using assms(3)
proof (induction n)
  case 0
  then show ?case by (simp add: sectors_def)
next
  case (Suc n)
  have "overlay (sectors (swap_dev vm) sec n @ drop (n * 512) (frame_mem vm i)) (n * 512) (swap_dev vm (sec + n)) =
      sectors (swap_dev vm) sec (Suc n) @ drop (Suc n * 512) (frame_mem vm i)"
    using length_sectors [of "swap_dev vm" sec n] assms(1) Suc.prems
    by (simp add: overlay_def sectors_Suc add.commute)
  then have "swap_read_loop vm sec i [0..<Suc n] = vm\<lparr>frame_mem :=
      ((frame_mem vm)(i := sectors (swap_dev vm) sec n @ drop (n * 512) (frame_mem vm i)))
        (i := sectors (swap_dev vm) sec (Suc n) @ drop (Suc n * 512) (frame_mem vm i))\<rparr>"
    using Suc by (simp add: swap_read_append Let_def fun_upd_def cong: if_cong)
  then show ?case by (simp only: fun_upd_upd)
qed

lemma sectors_of_content:
  assumes "\<And>k. k < n \<Longrightarrow> dev (sec + k) = take 512 (drop (k * 512) c)"
  shows "sectors dev sec n = take (n * 512) c"
  using assms
proof (induction n)
  case (Suc n)
  have "take (Suc n * 512) c = take (n * 512) c @ take 512 (drop (n * 512) c)"
    unfolding mult_Suc add.commute [of 512] by (rule take_add)
  with Suc show ?case by (simp add: sectors_Suc)
qed (simp add: sectors_def)

section \<open>What a page contains\<close>

definition pad_page :: "u8 list \<Rightarrow> u8 list" where
  "pad_page b = b @ replicate (4096 - length b) 0"

definition backing :: "vm \<Rightarrow> page \<Rightarrow> u8 list" where
  "backing vm pg =
     (case pg_file pg of
        Some f \<Rightarrow> pad_page (file_bytes (vm_files vm f) (byts_rw_f pg) (f_ofs pg))
      | None \<Rightarrow> if swap_sec pg \<noteq> NO_SECTOR then sectors (swap_dev vm) (unat (swap_sec pg)) 8
          else replicate 4096 0)"

definition content_of :: "vm \<Rightarrow> page \<Rightarrow> u8 list" where
  "content_of vm pg = (case pg_frame pg of Some i \<Rightarrow> frame_mem vm i | None \<Rightarrow> backing vm pg)"

definition contents :: "vm \<Rightarrow> nat \<Rightarrow> u8 list option" where
  "contents vm p = map_option (content_of vm) (page_heap vm p)"

definition page_dirty :: "vm \<Rightarrow> page \<Rightarrow> bool" where
  "page_dirty vm pg \<longleftrightarrow> pd_is_dirty (pg_thread pg) (user_vaddr pg) vm"

lemma backing_cong: "vm_files vm' = vm_files vm \<Longrightarrow> swap_dev vm' = swap_dev vm \<Longrightarrow> backing vm' pg = backing vm pg"
  by (simp add: backing_def cong: option.case_cong)

lemma content_of_cong:
  "frame_mem vm' = frame_mem vm \<Longrightarrow> backing vm' pg = backing vm pg \<Longrightarrow> content_of vm' pg = content_of vm pg"
  by (simp add: content_of_def split: option.split)

lemma contents_cong:
  assumes "\<And>pg. page_heap vm q = Some pg \<Longrightarrow> page_heap vm' q = Some pg \<and> content_of vm' pg = content_of vm pg"
    and "page_heap vm q = None \<Longrightarrow> page_heap vm' q = None"
  shows "contents vm' q = contents vm q"
  using assms by (cases "page_heap vm q") (auto simp: contents_def)

section \<open>Invariant\<close>

text \<open>Swap: sector sizes, a slot for each page that is swapped out, and no slot for two pages.\<close>

definition swap_ok :: "vm \<Rightarrow> bool" where
  "swap_ok vm \<longleftrightarrow> bm_inv (sw_bitmap vm) \<and> bit_cnt (sw_bitmap vm) * 8 < 4294967295 \<and> sw_lock vm = None \<and>
     (\<forall>x. length (swap_dev vm x) = 512) \<and>
     (\<forall>p pg. page_heap vm p = Some pg \<longrightarrow> swap_sec pg \<noteq> NO_SECTOR \<longrightarrow>
        pg_frame pg = None \<and> pg_file pg = None \<and> unat (swap_sec pg) mod 8 = 0 \<and>
        unat (swap_sec pg) div 8 \<in> bm_used (sw_bitmap vm)) \<and>
     (\<forall>p q pg qg. page_heap vm p = Some pg \<longrightarrow> page_heap vm q = Some qg \<longrightarrow> swap_sec pg \<noteq> NO_SECTOR \<longrightarrow>
        swap_sec pg = swap_sec qg \<longrightarrow> p = q)"

text \<open>Frames: each frame is a page long, and frame and page refer to each other.\<close>

definition frames_ok :: "vm \<Rightarrow> bool" where
  "frames_ok vm \<longleftrightarrow> (\<forall>i<length (s_frame vm). length (frame_mem vm i) = 4096) \<and>
     (\<forall>p pg i. page_heap vm p = Some pg \<longrightarrow> pg_frame pg = Some i \<longrightarrow>
        i < length (s_frame vm) \<and> fr_page (s_frame vm ! i) = Some p)"

definition owners_ok :: "vm \<Rightarrow> bool" where
  "owners_ok vm \<longleftrightarrow> (\<forall>i<length (s_frame vm). \<forall>p. fr_page (s_frame vm ! i) = Some p \<longrightarrow>
     (\<exists>pg. page_heap vm p = Some pg \<and> pg_frame pg = Some i))"

text \<open>Pages: addresses are user page addresses, and a clean page of a file agrees with the file.\<close>

definition pages_ok :: "vm \<Rightarrow> bool" where
  "pages_ok vm \<longleftrightarrow> (\<forall>p pg. page_heap vm p = Some pg \<longrightarrow>
     pg_ofs (user_vaddr pg) = 0 \<and> is_user_vaddr (user_vaddr pg) \<and>
     (\<forall>i. pg_frame pg = Some i \<longrightarrow> pg_file pg \<noteq> None \<longrightarrow> \<not> page_dirty vm pg \<longrightarrow> frame_mem vm i = backing vm pg))"

text \<open>
  A page that its eviction writes back to its file. Its part of the file is at most a page and belongs to no other page (\<open>alone\<close>), and
  lies inside the file (\<open>fits\<close>), as \<^verbatim>\<open>memory_map\<close> makes it. The bytes of the page after that part are not written.
\<close>

definition write_back :: "vm \<Rightarrow> page \<Rightarrow> bool" where
  "write_back vm pg \<longleftrightarrow> pg_file pg \<noteq> None \<and> \<not> pg_private pg \<and> page_dirty vm pg"

definition file_range :: "page \<Rightarrow> nat set" where
  "file_range pg = {f_ofs pg..<f_ofs pg + byts_rw_f pg}"

definition alone :: "vm \<Rightarrow> nat \<Rightarrow> page \<Rightarrow> bool" where
  "alone vm p pg \<longleftrightarrow> byts_rw_f pg \<le> 4096 \<and>
     (\<forall>q qg. q \<noteq> p \<longrightarrow> page_heap vm q = Some qg \<longrightarrow> pg_file qg = pg_file pg \<longrightarrow> file_range qg \<inter> file_range pg = {})"

definition fits :: "vm \<Rightarrow> page \<Rightarrow> bool" where
  "fits vm pg \<longleftrightarrow> (case pg_file pg of None \<Rightarrow> True | Some f \<Rightarrow> f_ofs pg + byts_rw_f pg \<le> length (vm_files vm f))"

definition maps_ok :: "vm \<Rightarrow> bool" where
  "maps_ok vm \<longleftrightarrow> (\<forall>p pg. page_heap vm p = Some pg \<longrightarrow> write_back vm pg \<longrightarrow> alone vm p pg \<and> fits vm pg)"

definition written_back :: "vm \<Rightarrow> page \<Rightarrow> u8 list" where
  "written_back vm pg = pad_page (take (byts_rw_f pg) (content_of vm pg))"

text \<open>The page \<open>q\<close> keeps its bytes, or, if it was resident and had to be written back, those that lie in the file.\<close>

definition kept_page :: "vm \<Rightarrow> vm \<Rightarrow> nat \<Rightarrow> bool" where
  "kept_page vm vm' q \<longleftrightarrow> contents vm' q = contents vm q \<or>
     (\<exists>qg. page_heap vm q = Some qg \<and> pg_frame qg \<noteq> None \<and> write_back vm qg \<and> contents vm' q = Some (written_back vm qg))"

lemma kept_same: "contents vm' q = contents vm q \<Longrightarrow> kept_page vm vm' q"
  by (simp add: kept_page_def)

lemma kept_absent: "kept_page vm vm' q \<Longrightarrow> page_heap vm q = Some qg \<Longrightarrow> pg_frame qg = None \<Longrightarrow> contents vm' q = contents vm q"
  by (auto simp: kept_page_def)

definition vm_ok :: "vm \<Rightarrow> bool" where
  "vm_ok vm \<longleftrightarrow> swap_ok vm \<and> frames_ok vm \<and> owners_ok vm \<and> pages_ok vm"

lemma NO_SECTOR_unat: "unat NO_SECTOR = 4294967295"
proof -
  have e: "NO_SECTOR = 4294967295" by (simp add: NO_SECTOR_def)
  show ?thesis unfolding e by simp
qed

lemma swap_slot_word:
  assumes "slot * 8 < 4294967295"
  shows "unat (of_nat (slot * 8) :: u32) = slot * 8" and "(of_nat (slot * 8) :: u32) \<noteq> NO_SECTOR"
proof -
  show u: "unat (of_nat (slot * 8) :: u32) = slot * 8" unfolding unat_of_nat using assms by simp
  show "(of_nat (slot * 8) :: u32) \<noteq> NO_SECTOR"
  proof
    assume "(of_nat (slot * 8) :: u32) = NO_SECTOR"
    then have "slot * 8 = 4294967295" using u NO_SECTOR_unat by metis
    with assms show False by simp
  qed
qed

lemma bitmap_mark_used:
  assumes "bm_inv b" and "i \<in> bm_used b"
  shows "\<exists>b'. bitmap_mark b i = Some b' \<and> bm_inv b' \<and> bit_cnt b' = bit_cnt b \<and> bm_used b' = bm_used b"
proof -
  have i: "i < bit_cnt b" using assms(2) by (simp add: bm_used_def)
  obtain b' where "bitmap_set b i True = Some b'" "bm_inv b'" "bit_cnt b' = bit_cnt b" "bm_bit b' = (bm_bit b)(i := True)"
    using bitmap_set_spec [OF assms(1) i, of True] by blast
  then show ?thesis using assms(2) i by (auto simp: bitmap_set_def bm_used_def)
qed

lemma bitmap_reset_used:
  assumes "bm_inv b" and "i < bit_cnt b"
  shows "\<exists>b'. bitmap_reset b i = Some b' \<and> bm_inv b' \<and> bit_cnt b' = bit_cnt b \<and> bm_used b' = bm_used b - {i}"
proof -
  obtain b' where "bitmap_set b i False = Some b'" "bm_inv b'" "bit_cnt b' = bit_cnt b" "bm_bit b' = (bm_bit b)(i := False)"
    using bitmap_set_spec [OF assms, of False] by blast
  then show ?thesis using assms(2) by (auto simp: bitmap_set_def bm_used_def split: if_splits)
qed

section \<open>Swapping out and in\<close>

definition swapped_page :: "nat \<Rightarrow> page \<Rightarrow> page" where
  "swapped_page slot pg =
     pg\<lparr>swap_sec := of_nat (slot * 8), pg_file := None, pg_private := False, byts_rw_f := 0, f_ofs := 0\<rparr>"

lemma page_swap_out_spec:
  assumes sw: "swap_ok vm" and pg: "page_heap vm p = Some pg" "pg_frame pg = Some i" and held: "frame_held t (Some i) vm"
  obtains (full) "page_swap_out t p vm = Some (False, vm)" "bm_used (sw_bitmap vm) = {..<bit_cnt (sw_bitmap vm)}"
  | (out) slot b where "slot \<notin> bm_used (sw_bitmap vm)" "slot < bit_cnt (sw_bitmap vm)" "bm_inv b"
      "bit_cnt b = bit_cnt (sw_bitmap vm)" "bm_used b = insert slot (bm_used (sw_bitmap vm))"
      "page_swap_out t p vm = Some (True, vm\<lparr>page_heap := (page_heap vm)(p \<mapsto> swapped_page slot pg), sw_bitmap := b,
         swap_dev := (\<lambda>x. if slot * 8 \<le> x \<and> x < slot * 8 + 8
           then take 512 (drop ((x - slot * 8) * 512) (frame_mem vm i)) else swap_dev vm x)\<rparr>)"
proof -
  have inv: "bm_inv (sw_bitmap vm)" and cap: "bit_cnt (sw_bitmap vm) * 8 < 4294967295" and lk: "sw_lock vm = None"
    using sw by (simp_all add: swap_ok_def)
  from inv show thesis
  proof (cases rule: bm_grab_cases [where n = 1])
    case none
    have "x \<in> bm_used (sw_bitmap vm)" if "x < bit_cnt (sw_bitmap vm)" for x
      using none(2) [rule_format, of x] that by auto
    then have "bm_used (sw_bitmap vm) = {..<bit_cnt (sw_bitmap vm)}" by (auto simp: bm_used_def)
    moreover have "page_swap_out t p vm = Some (False, vm)"
      using none(1) pg held lk by (simp add: page_swap_out_def)
    ultimately show thesis by (rule full [rotated])
  next
    case (some slot b)
    have s: "slot < bit_cnt (sw_bitmap vm)" "slot \<notin> bm_used (sw_bitmap vm)"
      "bm_used b = insert slot (bm_used (sw_bitmap vm))" using some by auto
    note w = swap_slot_word [of slot]
    have lt: "slot * 8 < 4294967295" using s(1) cap by linarith
    from bitmap_mark_used [OF some(3), of slot] s(3) obtain b' where
      b': "bitmap_mark b slot = Some b'" "bm_inv b'" "bit_cnt b' = bit_cnt b" "bm_used b' = bm_used b" by auto
    have "page_swap_out t p vm = Some (True, vm\<lparr>page_heap := (page_heap vm)(p \<mapsto> swapped_page slot pg), sw_bitmap := b',
         swap_dev := (\<lambda>x. if slot * 8 \<le> x \<and> x < slot * 8 + 8
           then take 512 (drop ((x - slot * 8) * 512) (frame_mem vm i)) else swap_dev vm x)\<rparr>)"
      using some(1,2) pg held lk b'(1) w(1) [OF lt]
      by (simp add: page_swap_out_def Let_def upd_page_def swap_write_upt swapped_page_def fun_upd_upd cong: if_cong del: of_nat_mult)
    then show thesis using out [of slot b'] s b' some(4) by simp
  qed
qed

lemma page_swap_in_spec:
  assumes "bm_inv (sw_bitmap vm)" and "\<And>x. length (swap_dev vm x) = 512" and "length (frame_mem vm i) = 4096"
    and pg: "page_heap vm p = Some pg" "pg_frame pg = Some i" "swap_sec pg \<noteq> NO_SECTOR"
    and held: "frame_held t (Some i) vm" and slot: "unat (swap_sec pg) div 8 < bit_cnt (sw_bitmap vm)"
  shows "\<exists>b. page_swap_in t p vm = Some (vm\<lparr>frame_mem := (frame_mem vm)(i := sectors (swap_dev vm) (unat (swap_sec pg)) 8),
      sw_bitmap := b, page_heap := (page_heap vm)(p \<mapsto> pg\<lparr>swap_sec := NO_SECTOR\<rparr>)\<rparr>) \<and>
    bm_inv b \<and> bit_cnt b = bit_cnt (sw_bitmap vm) \<and> bm_used b = bm_used (sw_bitmap vm) - {unat (swap_sec pg) div 8}"
proof -
  let ?vm = "vm\<lparr>frame_mem := (frame_mem vm)(i := sectors (swap_dev vm) (unat (swap_sec pg)) 8)\<rparr>"
  have rd: "swap_read_loop vm (unat (swap_sec pg)) i [0..<PAGE_SECTORS] = ?vm"
    using swap_read_upt [OF assms(2,3), of 8 "unat (swap_sec pg)"] assms(3) by simp
  obtain b where b: "bitmap_reset (sw_bitmap vm) (unat (swap_sec pg) div 8) = Some b" "bm_inv b"
    "bit_cnt b = bit_cnt (sw_bitmap vm)" "bm_used b = bm_used (sw_bitmap vm) - {unat (swap_sec pg) div 8}"
    using bitmap_reset_used [OF assms(1) slot] by blast
  have "page_swap_in t p vm = Some (vm\<lparr>frame_mem := (frame_mem vm)(i := sectors (swap_dev vm) (unat (swap_sec pg)) 8),
      sw_bitmap := b, page_heap := (page_heap vm)(p \<mapsto> pg\<lparr>swap_sec := NO_SECTOR\<rparr>)\<rparr>)"
    unfolding page_swap_in_def rd using pg held b(1)
    by (simp add: Let_def upd_page_def rd [simplified])
  with b show ?thesis by blast
qed

section \<open>Eviction\<close>

definition same_dirty :: "vm \<Rightarrow> vm \<Rightarrow> bool" where
  "same_dirty vm vm' \<longleftrightarrow> (\<forall>t va. ptes vm' t va AND PTE_D = ptes vm t va AND PTE_D)"

lemma clear_bit_keeps_dirty: "(w AND NOT PTE_P) AND PTE_D = w AND PTE_D" "(w AND NOT PTE_A) AND PTE_D = w AND PTE_D" for w :: u32
proof -
  have "NOT PTE_P AND PTE_D = PTE_D" "NOT PTE_A AND PTE_D = PTE_D" by (simp_all add: pte_defs)
  then show "(w AND NOT PTE_P) AND PTE_D = w AND PTE_D" "(w AND NOT PTE_A) AND PTE_D = w AND PTE_D"
    by (simp_all add: and.assoc)
qed

lemma same_dirty_refl [simp]: "same_dirty vm vm"
  by (simp add: same_dirty_def)

lemma same_dirty_trans: "same_dirty a b \<Longrightarrow> same_dirty b c \<Longrightarrow> same_dirty a c"
  by (simp add: same_dirty_def)

lemma same_dirty_page: "same_dirty vm vm' \<Longrightarrow> page_dirty vm' pg = page_dirty vm pg"
  by (simp add: same_dirty_def page_dirty_def pd_is_dirty_def)

text \<open>A state whose pages of files are those of an earlier one keeps \<open>maps_ok\<close>.\<close>

definition same_map :: "page \<Rightarrow> page \<Rightarrow> bool" where
  "same_map a b \<longleftrightarrow> pg_file a = pg_file b \<and> pg_private a = pg_private b \<and> pg_thread a = pg_thread b \<and>
     user_vaddr a = user_vaddr b \<and> f_ofs a = f_ofs b \<and> byts_rw_f a = byts_rw_f b"

lemma maps_ok_same:
  assumes "maps_ok vm" and "same_dirty vm vm'" and "\<And>f. length (vm_files vm' f) = length (vm_files vm f)"
    and h: "\<And>q qg. page_heap vm' q = Some qg \<Longrightarrow> pg_file qg \<noteq> None \<Longrightarrow> \<exists>rg. page_heap vm q = Some rg \<and> same_map rg qg"
  shows "maps_ok vm'"
  unfolding maps_ok_def
proof (intro allI impI)
  fix p pg
  assume p: "page_heap vm' p = Some pg" "write_back vm' pg"
  then obtain rg where r: "page_heap vm p = Some rg" "same_map rg pg" using h by (auto simp: write_back_def)
  then have eq: "pg_file rg = pg_file pg" "byts_rw_f rg = byts_rw_f pg" "f_ofs rg = f_ofs pg" "file_range rg = file_range pg"
    by (simp_all add: same_map_def file_range_def)
  have "page_dirty vm rg = page_dirty vm' pg"
    using same_dirty_page [OF assms(2), of pg] r(2) by (simp add: same_map_def page_dirty_def)
  then have "write_back vm rg" using p(2) r(2) by (simp add: write_back_def same_map_def)
  then have a: "alone vm p rg" "fits vm rg" using assms(1) r(1) by (simp_all add: maps_ok_def)
  have "file_range qg \<inter> file_range pg = {}" if q: "q \<noteq> p" "page_heap vm' q = Some qg" "pg_file qg = pg_file pg" for q qg
  proof -
    obtain sg where "page_heap vm q = Some sg" "same_map sg qg" using h [OF q(2)] q(3) p(2) by (auto simp: write_back_def)
    then show ?thesis using a(1) q(1,3) eq unfolding alone_def same_map_def file_range_def by metis
  qed
  moreover have "fits vm' pg" using a(2) eq assms(3) by (simp add: fits_def split: option.splits)
  ultimately show "alone vm' p pg \<and> fits vm' pg" using a(1) eq by (simp add: alone_def)
qed

text \<open>The files after a page was evicted.\<close>

definition files_after :: "vm \<Rightarrow> page \<Rightarrow> nat \<Rightarrow> u8 list" where
  "files_after vm pg = (case pg_file pg of None \<Rightarrow> vm_files vm | Some f \<Rightarrow>
     if write_back vm pg then (vm_files vm)(f := overlay (vm_files vm f) (f_ofs pg) (take (byts_rw_f pg) (content_of vm pg)))
     else vm_files vm)"

text \<open>What a successful eviction of the page \<open>p\<close>, which is \<open>pg\<close>, leaves.\<close>

definition evicted :: "nat \<Rightarrow> page \<Rightarrow> vm \<Rightarrow> vm \<Rightarrow> bool" where
  "evicted p pg vm vm' \<longleftrightarrow> (\<forall>q. q \<noteq> p \<longrightarrow> contents vm' q = contents vm q) \<and>
     contents vm' p = (if write_back vm pg then Some (written_back vm pg) else contents vm p) \<and>
     swap_ok vm' \<and> frames_ok vm' \<and> pages_ok vm' \<and>
     same_dirty vm vm' \<and> s_frame vm' = s_frame vm \<and> s_lock vm' = s_lock vm \<and> f_hand vm' = f_hand vm \<and>
     vm_files vm' = files_after vm pg \<and> (\<forall>f. length (vm_files vm' f) = length (vm_files vm f)) \<and>
     (\<exists>pg'. page_heap vm' p = Some pg' \<and> pg_frame pg' = None \<and> (pg_file pg' = None \<or> same_map pg pg')) \<and>
     (\<forall>q. q \<noteq> p \<longrightarrow> page_heap vm' q = page_heap vm q)"

lemma evicted_kept:
  assumes "evicted p pg vm vm'" and "page_heap vm p = Some pg" and "pg_frame pg \<noteq> None"
  shows "kept_page vm vm' q"
  using assms by (cases "q = p") (auto simp: evicted_def kept_page_def)

lemma evicted_maps:
  assumes ev: "evicted p pg vm vm'" and "page_heap vm p = Some pg" and "maps_ok vm"
  shows "maps_ok vm'"
proof (rule maps_ok_same [OF assms(3)])
  show "same_dirty vm vm'" "\<And>f. length (vm_files vm' f) = length (vm_files vm f)" using ev unfolding evicted_def by blast+
  fix q qg
  assume q: "page_heap vm' q = Some qg" "pg_file qg \<noteq> None"
  show "\<exists>rg. page_heap vm q = Some rg \<and> same_map rg qg"
  proof (cases "q = p")
    case True
    then show ?thesis using ev q assms(2) by (auto simp: evicted_def)
  next
    case False
    then have "page_heap vm q = Some qg" using ev q(1) by (simp add: evicted_def)
    then show ?thesis by (simp add: same_map_def)
  qed
qed

section \<open>Writing back\<close>

lemma file_write_length: "length (snd (file_write_bytes d b ofs)) = length d"
  by (cases "ofs \<le> length d") (auto simp: file_write_bytes_def Let_def)

lemma file_write_other:
  assumes "{r..<r + n} \<inter> {ofs..<ofs + k} = {}" and "length b \<le> k"
  shows "file_bytes (snd (file_write_bytes d b ofs)) n r = file_bytes d n r"
proof (rule nth_equalityI)
  show l: "length (file_bytes (snd (file_write_bytes d b ofs)) n r) = length (file_bytes d n r)"
    by (simp add: file_bytes_def file_write_length)
  fix j
  assume "j < length (file_bytes (snd (file_write_bytes d b ofs)) n r)"
  then have j: "j < n" "r + j < length d" unfolding l by (auto simp: file_bytes_def)
  have "r + j \<in> {r..<r + n}" using j(1) by simp
  then have "r + j \<notin> {ofs..<ofs + k}" using assms(1) by blast
  then have out: "\<not> (ofs \<le> r + j \<and> r + j < ofs + length b')" if "length b' \<le> length b" for b' :: "u8 list"
    using assms(2) that by auto
  have "snd (file_write_bytes d b ofs) ! (r + j) = d ! (r + j)"
  proof (cases "ofs \<le> length d")
    case True
    define b' where "b' = take (length d - ofs) b"
    have "length b' \<le> length b" "ofs + length b' \<le> length d" using True by (auto simp: b'_def)
    then have "overlay d ofs b' ! (r + j) = d ! (r + j)" using out [of b'] j(2) by (subst nth_overlay) auto
    then show ?thesis by (simp add: file_write_bytes_def b'_def Let_def)
  qed (simp add: file_write_bytes_def Let_def)
  then show "file_bytes (snd (file_write_bytes d b ofs)) n r ! j = file_bytes d n r ! j"
    using j by (simp add: file_bytes_def file_write_length)
qed

lemma file_write_all:
  assumes "fst (file_write_bytes d b ofs) = n" and "length b = n"
  shows "file_bytes (snd (file_write_bytes d b ofs)) n ofs = b"
proof (cases "n = 0")
  case False
  then have "ofs + length b \<le> length d" using assms by (simp add: file_write_bytes_def Let_def)
  then have "snd (file_write_bytes d b ofs) = overlay d ofs b" using False assms(2) by (auto simp: file_write_bytes_def Let_def)
  then show ?thesis using file_bytes_overlay [OF \<open>ofs + length b \<le> length d\<close>] assms(2) by simp
qed (use assms in \<open>simp add: file_bytes_def\<close>)

lemma file_write_overlay:
  assumes "fst (file_write_bytes d b ofs) = n" and "length b = n"
  shows "snd (file_write_bytes d b ofs) = overlay d ofs b"
  using assms by (auto simp: file_write_bytes_def Let_def overlay_def)

lemma file_write_short:
  assumes "fst (file_write_bytes d b ofs) \<noteq> n" and "length b = n"
  shows "\<not> ofs + n \<le> length d"
  using assms by (auto simp: file_write_bytes_def Let_def)

text \<open>The state after the bytes of a page were written to its file.\<close>

definition store_file :: "page \<Rightarrow> nat \<Rightarrow> vm \<Rightarrow> vm" where
  "store_file pg i vm = (case pg_file pg of None \<Rightarrow> vm | Some f \<Rightarrow>
     vm\<lparr>vm_files := (vm_files vm)(f := snd (file_write_bytes (vm_files vm f) (take (byts_rw_f pg) (frame_mem vm i)) (f_ofs pg)))\<rparr>)"

lemma store_file_sel [simp]:
  "page_heap (store_file pg i vm) = page_heap vm" "frame_mem (store_file pg i vm) = frame_mem vm" "swap_dev (store_file pg i vm) = swap_dev vm"
  "sw_bitmap (store_file pg i vm) = sw_bitmap vm" "sw_lock (store_file pg i vm) = sw_lock vm" "s_frame (store_file pg i vm) = s_frame vm"
  "s_lock (store_file pg i vm) = s_lock vm" "f_hand (store_file pg i vm) = f_hand vm" "ptes (store_file pg i vm) = ptes vm"
  "length (vm_files (store_file pg i vm) f) = length (vm_files vm f)"
  by (simp_all add: store_file_def file_write_length split: option.split)

lemma store_file_backing:
  assumes "alone vm p pg" and "page_heap vm q = Some qg" and "q \<noteq> p"
  shows "backing (store_file pg i vm) qg = backing vm qg"
proof (cases "pg_file qg = pg_file pg \<and> pg_file pg \<noteq> None")
  case True
  then obtain f where f: "pg_file pg = Some f" "pg_file qg = Some f" by auto
  then have "file_range qg \<inter> file_range pg = {}" using assms by (auto simp: alone_def)
  from file_write_other [OF this [unfolded file_range_def], of "take (byts_rw_f pg) (frame_mem vm i)" "vm_files vm f"]
  show ?thesis using f by (simp add: backing_def store_file_def)
next
  case False
  then show ?thesis by (auto simp: backing_def store_file_def split: option.split)
qed

lemma backing_swap_write:
  assumes "swap_ok vm" and "slot \<notin> bm_used (sw_bitmap vm)" and "page_heap vm q = Some qg"
    and "vm_files vm' = vm_files vm"
    and "\<And>x. \<not> (slot * 8 \<le> x \<and> x < slot * 8 + 8) \<Longrightarrow> swap_dev vm' x = swap_dev vm x"
  shows "backing vm' qg = backing vm qg"
proof -
  have "sectors (swap_dev vm') (unat (swap_sec qg)) 8 = sectors (swap_dev vm) (unat (swap_sec qg)) 8"
    if "swap_sec qg \<noteq> NO_SECTOR"
  proof -
    have "unat (swap_sec qg) mod 8 = 0" "unat (swap_sec qg) div 8 \<noteq> slot"
      using assms(1-3) that unfolding swap_ok_def by blast+
    then obtain s where s: "unat (swap_sec qg) = s * 8" "s \<noteq> slot" by (metis mod_0_imp_dvd dvd_div_mult_self)
    then have "s < slot \<or> slot < s" by linarith
    then have "\<not> (slot * 8 \<le> unat (swap_sec qg) + k \<and> unat (swap_sec qg) + k < slot * 8 + 8)" if "k < 8" for k
      using that s(1) by linarith
    then show ?thesis unfolding sectors_def by (intro arg_cong [where f = concat] map_cong) (auto simp: assms(5))
  qed
  then show ?thesis by (simp add: backing_def assms(4) split: option.splits)
qed

lemma page_out_spec:
  assumes sw: "swap_ok vm" and fr: "frames_ok vm" and pgs: "pages_ok vm"
    and pg: "page_heap vm p = Some pg" "pg_frame pg = Some i" and held: "frame_held t (Some i) vm"
    and al: "write_back vm pg \<longrightarrow> alone vm p pg"
  obtains (evict) vm' where "page_out t p vm = Some (True, vm')" "evicted p pg vm vm'"
  | (full) "page_out t p vm = Some (False, vm\<lparr>ptes := (ptes vm)(pg_thread pg := (ptes vm (pg_thread pg))
        (user_vaddr pg := ptes vm (pg_thread pg) (user_vaddr pg) AND NOT PTE_P))\<rparr>)"
      "bm_used (sw_bitmap vm) = {..<bit_cnt (sw_bitmap vm)}" "\<not> write_back vm pg"
  | (short) vm' where "page_out t p vm = Some (False, vm')" "write_back vm pg" "\<not> fits vm pg" "page_heap vm' = page_heap vm"
      "\<forall>q. contents vm' q = contents vm q" "swap_ok vm'" "frames_ok vm'" "pages_ok vm'" "s_frame vm' = s_frame vm"
proof -
  let ?vm = "vm\<lparr>ptes := (ptes vm)(pg_thread pg := (ptes vm (pg_thread pg))
        (user_vaddr pg := ptes vm (pg_thread pg) (user_vaddr pg) AND NOT PTE_P))\<rparr>"
  have va: "pg_ofs (user_vaddr pg) = 0" "is_user_vaddr (user_vaddr pg)" using pgs pg by (auto simp: pages_ok_def)
  have clr: "pd_clear_page (pg_thread pg) (user_vaddr pg) vm = Some ?vm" using va by (simp add: pd_clear_page_def)
  have sd: "same_dirty vm ?vm" by (auto simp: same_dirty_def clear_bit_keeps_dirty)
  have dirty: "pd_is_dirty (pg_thread pg) (user_vaddr pg) ?vm = page_dirty vm pg"
    using same_dirty_page [OF sd, of pg] by (simp add: page_dirty_def)
  have i: "i < length (s_frame vm)" "length (frame_mem vm i) = 4096" using fr pg by (auto simp: frames_ok_def)
  have held': "frame_held t (Some i) ?vm" using held by (simp add: frame_held_def)
  have sw': "swap_ok ?vm" using sw by (simp add: swap_ok_def)
  consider (backed) "write_back vm pg" | (clean) "pg_file pg \<noteq> None \<and> \<not> page_dirty vm pg"
    | (swap) "\<not> write_back vm pg" "\<not> (pg_file pg \<noteq> None \<and> \<not> page_dirty vm pg)" by blast
  then show thesis
  proof cases
    case backed
    let ?st = "store_file pg i ?vm"
    obtain f where f: "pg_file pg = Some f" "\<not> pg_private pg" "page_dirty vm pg" using backed by (auto simp: write_back_def)
    have al': "alone ?vm p pg" using al backed by (simp add: alone_def)
    define n where "n = fst (file_write_bytes (vm_files vm f) (take (byts_rw_f pg) (frame_mem vm i)) (f_ofs pg))"
    have run: "page_out t p vm = Some (n = byts_rw_f pg, if n = byts_rw_f pg then upd_page p (\<lambda>pg. pg\<lparr>pg_frame := None\<rparr>) ?st else ?st)"
      using f pg held clr dirty by (simp add: page_out_def Let_def n_def store_file_def case_prod_beta)
    have len: "length (take (byts_rw_f pg) (frame_mem vm i)) = byts_rw_f pg" using i(2) al' by (simp add: alone_def)
    have b: "backing ?st qg = backing vm qg" if "page_heap vm q = Some qg" "q \<noteq> p" for q qg
    proof -
      have "backing ?st qg = backing ?vm qg" using that by (intro store_file_backing [OF al']) simp_all
      also have "\<dots> = backing vm qg" by (rule backing_cong) simp_all
      finally show ?thesis .
    qed
    have nosec: "swap_sec pg = NO_SECTOR" using sw pg unfolding swap_ok_def by (metis option.distinct(1))
    show thesis
    proof (cases "n = byts_rw_f pg")
      case True
      let ?vm' = "upd_page p (\<lambda>pg. pg\<lparr>pg_frame := None\<rparr>) ?st"
      have heap: "page_heap ?vm' = (page_heap vm)(p \<mapsto> pg\<lparr>pg_frame := None\<rparr>)" using pg by (simp add: upd_page_def)
      have same: "frame_mem ?vm' = frame_mem vm" "s_frame ?vm' = s_frame vm" by (simp_all add: upd_page_def)
      have bb: "backing ?vm' qg = backing ?st qg" for qg by (rule backing_cong) (simp_all add: upd_page_def)
      have sd': "same_dirty vm ?vm'" using sd by (simp add: same_dirty_def upd_page_def)
      have "file_bytes (vm_files ?st f) (byts_rw_f pg) (f_ofs pg) = take (byts_rw_f pg) (frame_mem vm i)"
        using file_write_all [OF True [unfolded n_def] len] f by (simp add: store_file_def)
      then have "backing ?vm' (pg\<lparr>pg_frame := None\<rparr>) = pad_page (take (byts_rw_f pg) (frame_mem vm i))"
        unfolding bb using f by (simp add: backing_def)
      then have "contents ?vm' p = Some (written_back vm pg)"
        using pg by (simp add: contents_def content_of_def heap written_back_def)
      moreover have "contents ?vm' q = contents vm q" if "q \<noteq> p" for q
        using that by (intro contents_cong conjI content_of_cong) (simp_all add: heap same bb b)
      moreover have "swap_ok ?vm'"
        using sw nosec unfolding swap_ok_def heap by (auto simp: upd_page_def split: if_splits)
      moreover have "frames_ok ?vm'"
        using fr unfolding frames_ok_def heap same by (auto split: if_splits)
      moreover have "pages_ok ?vm'"
        using pgs pg b unfolding pages_ok_def heap same bb same_dirty_page [OF sd'] by (auto split: if_splits)
      moreover have "\<exists>pg'. page_heap ?vm' p = Some pg' \<and> pg_frame pg' = None \<and> (pg_file pg' = None \<or> same_map pg pg')"
        by (simp add: heap same_map_def)
      moreover have "length (vm_files ?vm' g) = length (vm_files vm g)" for g by (simp add: upd_page_def)
      moreover have "vm_files ?vm' = files_after vm pg"
        using file_write_overlay [OF True [unfolded n_def] len] f backed pg
        by (simp add: upd_page_def store_file_def files_after_def content_of_def)
      ultimately have "evicted p pg vm ?vm'"
        using sd' heap backed by (simp add: evicted_def) (simp add: upd_page_def)
      then show thesis using evict run True by simp
    next
      case False
      have sd': "same_dirty vm ?st" using sd by (simp add: same_dirty_def)
      have "contents ?st q = contents vm q" for q
      proof (cases "q = p")
        case True
        then show ?thesis using pg by (simp add: contents_def content_of_def)
      next
        case False
        then show ?thesis by (intro contents_cong conjI content_of_cong) (simp_all add: b)
      qed
      moreover have "\<not> fits vm pg" using file_write_short [OF False [unfolded n_def] len] f by (simp add: fits_def)
      moreover have "swap_ok ?st" "frames_ok ?st" using sw fr by (simp_all add: swap_ok_def frames_ok_def)
      moreover have "pages_ok ?st"
        unfolding pages_ok_def same_dirty_page [OF sd']
      proof (intro allI impI)
        fix q qg
        assume "page_heap ?st q = Some qg"
        then have q: "page_heap vm q = Some qg" by simp
        show "pg_ofs (user_vaddr qg) = 0 \<and> is_user_vaddr (user_vaddr qg) \<and>
            (\<forall>j. pg_frame qg = Some j \<longrightarrow> pg_file qg \<noteq> None \<longrightarrow> \<not> page_dirty vm qg \<longrightarrow> frame_mem ?st j = backing ?st qg)"
        proof (cases "q = p")
          case True
          then show ?thesis using q pg f va by simp
        next
          case ne: False
          then show ?thesis using pgs q b [OF q ne] unfolding pages_ok_def by simp
        qed
      qed
      ultimately show thesis using short [of ?st] run False backed by simp
    qed
  next
    case clean
    then have True: "pg_file pg \<noteq> None \<and> \<not> page_dirty vm pg" .
    let ?vm' = "upd_page p (\<lambda>pg. pg\<lparr>pg_frame := None\<rparr>) ?vm"
    have "page_out t p vm = Some (True, ?vm')"
      using True pg held clr dirty by (auto simp: page_out_def Let_def)
    moreover have "evicted p pg vm ?vm'"
    proof -
      have nwb: "\<not> write_back vm pg" using True by (simp add: write_back_def)
      have b: "backing ?vm' qg = backing vm qg" for qg by (rule backing_cong) (simp_all add: upd_page_def)
      have nosec: "swap_sec pg = NO_SECTOR" using sw pg unfolding swap_ok_def by (metis option.distinct(1))
      have heap: "page_heap ?vm' = (page_heap vm)(p \<mapsto> pg\<lparr>pg_frame := None\<rparr>)" using pg by (simp add: upd_page_def)
      have same: "frame_mem ?vm' = frame_mem vm" "s_frame ?vm' = s_frame vm" by (simp_all add: upd_page_def)
      have sd': "same_dirty vm ?vm'" using sd by (simp add: same_dirty_def upd_page_def)
      have "backing vm (pg\<lparr>pg_frame := None\<rparr>) = frame_mem vm i"
        using pgs pg True by (auto simp: pages_ok_def backing_def)
      then have "content_of ?vm' (pg\<lparr>pg_frame := None\<rparr>) = content_of vm pg"
        using pg by (simp add: content_of_def b)
      moreover have c: "content_of ?vm' qg = content_of vm qg" for qg by (rule content_of_cong) (simp_all add: same b)
      ultimately have "contents ?vm' p = contents vm p" using pg by (simp add: contents_def heap)
      moreover have "contents ?vm' q = contents vm q" if "q \<noteq> p" for q
        using that by (intro contents_cong conjI c) (simp_all add: heap)
      ultimately have "contents ?vm' q = contents vm q" for q by (cases "q = p") simp_all
      moreover have "swap_ok ?vm'"
        using sw nosec unfolding swap_ok_def heap by (auto simp: upd_page_def split: if_splits)
      moreover have "frames_ok ?vm'"
        using fr unfolding frames_ok_def heap same by (auto split: if_splits)
      moreover have "pages_ok ?vm'"
        using pgs pg unfolding pages_ok_def heap same b same_dirty_page [OF sd'] by (auto split: if_splits)
      ultimately show ?thesis using sd' heap nwb
        by (simp add: evicted_def same_map_def files_after_def) (simp add: upd_page_def split: option.split)
    qed
    ultimately show thesis by (rule evict)
  next
    case swap
    then have nwb: "pg_file pg = None \<or> pg_private pg \<or> \<not> page_dirty vm pg" and nwb': "\<not> write_back vm pg"
      by (auto simp: write_back_def)
    have run: "page_out t p vm = do { (success, vm) \<leftarrow> page_swap_out t p ?vm;
        Some (success, if success then upd_page p (\<lambda>pg. pg\<lparr>pg_frame := None\<rparr>) vm else vm) }"
      using swap(2) nwb pg held clr dirty by (auto simp: page_out_def Let_def split: option.splits)
    have pg': "page_heap ?vm p = Some pg" using pg by simp
    from sw' pg' pg(2) held' show thesis
    proof (cases rule: page_swap_out_spec)
      case full
      then show thesis using run that(2) nwb' by simp
    next
      case (out slot b)
      let ?sp = "(swapped_page slot pg)\<lparr>pg_frame := None\<rparr>"
      define dev where "dev = (\<lambda>x. if slot * 8 \<le> x \<and> x < slot * 8 + 8
           then take 512 (drop ((x - slot * 8) * 512) (frame_mem vm i)) else swap_dev vm x)"
      let ?vm' = "?vm\<lparr>page_heap := (page_heap vm)(p \<mapsto> ?sp), sw_bitmap := b, swap_dev := dev\<rparr>"
      have "page_out t p vm = Some (True, ?vm')"
        using run out(6) by (simp add: upd_page_def dev_def cong: if_cong)
      moreover have "evicted p pg vm ?vm'"
      proof -
        have cap: "slot * 8 < 4294967295" using out(2) sw unfolding swap_ok_def by simp
        note w = swap_slot_word [OF cap]
        have devlen: "length (dev x) = 512" for x
          using sw i(2) by (auto simp: dev_def swap_ok_def)
        have b: "backing ?vm' qg = backing vm qg" if "page_heap vm q = Some qg" for q qg
          using sw out(1) that by (intro backing_swap_write [of vm slot q]) (auto simp: dev_def)
        have bp: "backing ?vm' ?sp = frame_mem vm i"
        proof -
          have "sectors dev (slot * 8) 8 = take (8 * 512) (frame_mem vm i)"
            by (rule sectors_of_content) (simp add: dev_def)
          then show ?thesis using w i(2) by (simp add: backing_def swapped_page_def del: of_nat_mult)
        qed
        have sd': "same_dirty vm ?vm'" using sd by (simp add: same_dirty_def)
        have "contents ?vm' q = contents vm q" for q
        proof (cases "q = p")
          case True
          then show ?thesis using bp pg by (simp add: contents_def content_of_def)
        next
          case False
          show ?thesis
            using False by (intro contents_cong conjI content_of_cong) (simp_all add: b)
        qed
        moreover have "swap_ok ?vm'"
        proof -
          have other: "swap_sec qg \<noteq> of_nat (slot * 8)" if "page_heap vm q = Some qg" for q qg
          proof
            assume e: "swap_sec qg = of_nat (slot * 8)"
            then have "swap_sec qg \<noteq> NO_SECTOR" using w(2) by simp
            then have "unat (swap_sec qg) div 8 \<in> bm_used (sw_bitmap vm)" using sw that unfolding swap_ok_def by blast
            then show False using e w(1) out(1) by simp
          qed
          have "unat (swap_sec ?sp) = slot * 8" "swap_sec ?sp \<noteq> NO_SECTOR" "pg_frame ?sp = None" "pg_file ?sp = None"
            using w by (simp_all add: swapped_page_def)
          then show ?thesis
            using sw out(2-5) devlen other w unfolding swap_ok_def
            by (auto simp: swapped_page_def simp del: of_nat_mult split: if_splits) blast
        qed
        moreover have "frames_ok ?vm'"
          using fr unfolding frames_ok_def by (auto split: if_splits)
        moreover have "pages_ok ?vm'"
          unfolding pages_ok_def same_dirty_page [OF sd']
        proof (intro allI impI)
          fix q qg
          assume q: "page_heap ?vm' q = Some qg"
          show "pg_ofs (user_vaddr qg) = 0 \<and> is_user_vaddr (user_vaddr qg) \<and>
            (\<forall>i. pg_frame qg = Some i \<longrightarrow> pg_file qg \<noteq> None \<longrightarrow> \<not> page_dirty vm qg \<longrightarrow> frame_mem ?vm' i = backing ?vm' qg)"
          proof (cases "q = p")
            case True
            then have "qg = ?sp" using q by simp
            then show ?thesis using va by (simp add: swapped_page_def)
          next
            case False
            then have "page_heap vm q = Some qg" using q by simp
            then show ?thesis using pgs b [of q qg] unfolding pages_ok_def by simp
          qed
        qed
        ultimately show ?thesis using sd' nwb' by (simp add: evicted_def swapped_page_def files_after_def split: option.split)
      qed
      ultimately show thesis by (rule evict)
    qed
  qed
qed


section \<open>Allocating a frame\<close>

text \<open>Changes that the invariant and the contents do not see: locks, the clock hand, accessed bits.\<close>

definition quiet :: "vm \<Rightarrow> vm \<Rightarrow> bool" where
  "quiet vm vm' \<longleftrightarrow> page_heap vm' = page_heap vm \<and> frame_mem vm' = frame_mem vm \<and> swap_dev vm' = swap_dev vm \<and>
     sw_bitmap vm' = sw_bitmap vm \<and> sw_lock vm' = sw_lock vm \<and> vm_files vm' = vm_files vm \<and> same_dirty vm vm' \<and>
     length (s_frame vm') = length (s_frame vm) \<and>
     (\<forall>i<length (s_frame vm). fr_page (s_frame vm' ! i) = fr_page (s_frame vm ! i))"

lemma quiet_refl [simp]: "quiet vm vm"
  by (simp add: quiet_def)

lemma quiet_trans: "quiet a b \<Longrightarrow> quiet b c \<Longrightarrow> quiet a c"
  by (auto simp: quiet_def intro: same_dirty_trans)

lemma quiet_inv:
  assumes "quiet vm vm'"
  shows "swap_ok vm' = swap_ok vm" "frames_ok vm' = frames_ok vm" "owners_ok vm' = owners_ok vm"
    "pages_ok vm' = pages_ok vm" "maps_ok vm' = maps_ok vm" "contents vm' q = contents vm q"
proof -
  have b: "backing vm' pg = backing vm pg" for pg using assms by (intro backing_cong) (simp_all add: quiet_def)
  have d: "page_dirty vm' pg = page_dirty vm pg" for pg using assms by (intro same_dirty_page) (simp add: quiet_def)
  show "swap_ok vm' = swap_ok vm" "owners_ok vm' = owners_ok vm"
    using assms by (simp_all add: quiet_def swap_ok_def owners_ok_def)
  show "frames_ok vm' = frames_ok vm"
    using assms unfolding quiet_def frames_ok_def by metis
  show "pages_ok vm' = pages_ok vm" "maps_ok vm' = maps_ok vm"
    using assms by (simp_all add: quiet_def pages_ok_def maps_ok_def write_back_def alone_def fits_def b d cong: option.case_cong)
  show "contents vm' q = contents vm q"
    using assms by (intro contents_cong conjI content_of_cong) (simp_all add: quiet_def b)
qed

lemma kept_quiet:
  assumes "quiet vm vm1" and "kept_page vm1 vm2 q"
  shows "kept_page vm vm2 q"
proof -
  have b: "backing vm1 pg = backing vm pg" for pg using assms(1) by (intro backing_cong) (simp_all add: quiet_def)
  have "content_of vm1 pg = content_of vm pg" for pg using assms(1) by (intro content_of_cong b) (simp add: quiet_def)
  moreover have "page_dirty vm1 pg = page_dirty vm pg" for pg using assms(1) by (intro same_dirty_page) (simp add: quiet_def)
  moreover have "page_heap vm1 = page_heap vm" using assms(1) by (simp add: quiet_def)
  ultimately show ?thesis using assms(2) quiet_inv(6) [OF assms(1)] by (simp add: kept_page_def write_back_def written_back_def)
qed

definition free_locks :: "nat \<Rightarrow> vm \<Rightarrow> bool" where
  "free_locks t vm \<longleftrightarrow> (\<forall>i<length (s_frame vm). fr_lock (s_frame vm ! i) \<noteq> Some t)"

definition ready :: "vm \<Rightarrow> bool" where
  "ready vm \<longleftrightarrow> vm_ok vm \<and> maps_ok vm"

text \<open>The frame \<open>i\<close> was granted to page \<open>p\<close>; \<open>vm\<close> is the state before the allocation.\<close>

definition granted :: "nat \<Rightarrow> nat \<Rightarrow> nat \<Rightarrow> vm \<Rightarrow> vm \<Rightarrow> bool" where
  "granted t p i vm vm' \<longleftrightarrow> i < length (s_frame vm) \<and> length (s_frame vm') = length (s_frame vm) \<and>
     s_frame vm' ! i = (s_frame vm ! i)\<lparr>fr_lock := Some t, fr_page := Some p\<rparr> \<and>
     (\<forall>j. j \<noteq> i \<longrightarrow> s_frame vm' ! j = s_frame vm ! j) \<and> s_lock vm' = None \<and>
     page_heap vm' p = page_heap vm p \<and> (\<forall>q. kept_page vm vm' q) \<and>
     swap_ok vm' \<and> frames_ok vm' \<and> pages_ok vm' \<and> maps_ok vm' \<and> same_dirty vm vm' \<and>
     (\<forall>q qg. page_heap vm' q = Some qg \<longrightarrow> pg_frame qg \<noteq> Some i) \<and>
     (\<forall>j<length (s_frame vm'). \<forall>q. j \<noteq> i \<longrightarrow> fr_page (s_frame vm' ! j) = Some q \<longrightarrow>
        (\<exists>qg. page_heap vm' q = Some qg \<and> pg_frame qg = Some j))"

definition denied :: "vm \<Rightarrow> vm \<Rightarrow> bool" where
  "denied vm vm' \<longleftrightarrow> quiet vm vm' \<and> s_frame vm' = s_frame vm \<and> s_lock vm' = None \<and>
     (s_frame vm = [] \<or> f_hand vm' < length (s_frame vm))"

lemma scan_free_spec:
  assumes "free_locks t vm" and "\<forall>i\<in>set is. i < length (s_frame vm)"
  shows "scan_free t p is vm = Some (None, vm) \<or>
    (\<exists>i<length (s_frame vm). fr_page (s_frame vm ! i) = None \<and> fr_lock (s_frame vm ! i) = None \<and>
       scan_free t p is vm = Some (Some i, upd_frame i (\<lambda>f. f\<lparr>fr_lock := Some t, fr_page := Some p\<rparr>) vm))"
  using assms(2)
proof (induction "is")
  case (Cons i "is")
  have i: "i < length (s_frame vm)" "fr_lock (s_frame vm ! i) \<noteq> Some t"
    using Cons.prems assms(1) by (auto simp: free_locks_def)
  show ?case
  proof (cases "fr_lock (s_frame vm ! i) = None")
    case True
    have undo: "(s_frame vm)[i := (s_frame vm ! i)\<lparr>fr_lock := None\<rparr>] = s_frame vm"
    proof -
      have "(s_frame vm ! i)\<lparr>fr_lock := None\<rparr> = s_frame vm ! i" using True by (cases "s_frame vm ! i") simp
      then show ?thesis by simp
    qed
    show ?thesis
    proof (cases "fr_page (s_frame vm ! i) = None")
      case pn: True
      then show ?thesis
        using i True by (intro disjI2 exI [of _ i]) (simp add: frame_lock_try_acquire_def upd_frame_def)
    next
      case False
      have "frame_lock_release t i (upd_frame i (\<lambda>f. f\<lparr>fr_lock := Some t\<rparr>) vm) = Some vm"
        using i undo by (simp add: frame_lock_release_def upd_frame_def)
      then have "scan_free t p (i # is) vm = scan_free t p is vm"
        using i True False by (auto simp: frame_lock_try_acquire_def upd_frame_def)
      then show ?thesis using Cons by simp
    qed
  next
    case False
    then have "scan_free t p (i # is) vm = scan_free t p is vm"
      using i by (auto simp: frame_lock_try_acquire_def)
    then show ?thesis using Cons by simp
  qed
qed simp

text \<open>The page of a frame that no page refers to may change.\<close>

lemma frames_ok_set_page:
  assumes "frames_ok vm" and "page_heap vm' = page_heap vm" and "frame_mem vm' = frame_mem vm"
    and "s_frame vm' = (s_frame vm)[i := fr]"
    and "\<And>q qg. page_heap vm q = Some qg \<Longrightarrow> pg_frame qg \<noteq> Some i"
  shows "frames_ok vm'"
  unfolding frames_ok_def assms(2-4) length_list_update
proof (intro conjI allI impI)
  show "length (frame_mem vm j) = 4096" if "j < length (s_frame vm)" for j
    using assms(1) that by (simp add: frames_ok_def)
  fix q qg j
  assume q: "page_heap vm q = Some qg" "pg_frame qg = Some j"
  then have j: "j < length (s_frame vm)" "fr_page (s_frame vm ! j) = Some q"
    using assms(1) by (auto simp: frames_ok_def)
  moreover have "j \<noteq> i" using assms(5) q by blast
  ultimately show "j < length (s_frame vm)" "fr_page ((s_frame vm)[i := fr] ! j) = Some q" by simp_all
qed

lemma granted_free:
  assumes "ready vm" and "i < length (s_frame vm)" and "fr_page (s_frame vm ! i) = None"
    and "quiet vm vm1" and "s_frame vm1 = s_frame vm" and "s_lock vm1 = None"
  shows "granted t p i vm (upd_frame i (\<lambda>f. f\<lparr>fr_lock := Some t, fr_page := Some p\<rparr>) vm1)"
proof -
  let ?vm = "upd_frame i (\<lambda>f. f\<lparr>fr_lock := Some t, fr_page := Some p\<rparr>) vm1"
  note q = quiet_inv [OF assms(4)]
  have f: "page_heap ?vm = page_heap vm1" "frame_mem ?vm = frame_mem vm1" "swap_dev ?vm = swap_dev vm1"
    "sw_bitmap ?vm = sw_bitmap vm1" "sw_lock ?vm = sw_lock vm1" "vm_files ?vm = vm_files vm1" "ptes ?vm = ptes vm1"
    "s_lock ?vm = s_lock vm1"
    "s_frame ?vm = (s_frame vm1)[i := (s_frame vm1 ! i)\<lparr>fr_lock := Some t, fr_page := Some p\<rparr>]"
    by (simp_all add: upd_frame_def)
  have b: "backing ?vm pg = backing vm1 pg" for pg by (rule backing_cong) (simp_all add: f)
  have d: "page_dirty ?vm pg = page_dirty vm1 pg" for pg by (simp add: page_dirty_def pd_is_dirty_def f)
  have un: "pg_frame qg \<noteq> Some i" if "page_heap vm1 q = Some qg" for q qg
  proof -
    have "page_heap vm q = Some qg" using that assms(4) by (simp add: quiet_def)
    then show ?thesis using assms(1,3) by (auto simp: ready_def vm_ok_def frames_ok_def)
  qed
  have "swap_ok ?vm" using q(1) assms(1) by (simp add: ready_def vm_ok_def swap_ok_def f)
  moreover have "frames_ok ?vm"
  proof -
    have "frames_ok vm1" using q(2) assms(1) by (simp add: ready_def vm_ok_def)
    then show ?thesis by (rule frames_ok_set_page) (use un in \<open>simp_all add: f\<close>)
  qed
  moreover have "pages_ok ?vm" "maps_ok ?vm"
    using q(4,5) assms(1) by (simp_all add: ready_def vm_ok_def pages_ok_def maps_ok_def write_back_def alone_def fits_def f b d cong: option.case_cong)
  moreover have "contents ?vm x = contents vm x" for x
  proof -
    have "content_of ?vm xg = content_of vm1 xg" for xg by (rule content_of_cong) (simp_all add: f b)
    then have "contents ?vm x = contents vm1 x" by (intro contents_cong) (simp_all add: f)
    then show ?thesis using q(6) by simp
  qed
  moreover have "\<exists>qg. page_heap ?vm x = Some qg \<and> pg_frame qg = Some j"
    if "j < length (s_frame ?vm)" "j \<noteq> i" "fr_page (s_frame ?vm ! j) = Some x" for j x
    using that q(3) assms(1,5) by (auto simp: ready_def vm_ok_def owners_ok_def f)
  moreover have "same_dirty vm ?vm" using assms(4) by (simp add: quiet_def same_dirty_def f)
  moreover have "page_heap ?vm p = page_heap vm p" using assms(4) by (simp add: f quiet_def)
  ultimately show ?thesis using assms(2,5,6) un by (simp add: granted_def f kept_same)
qed

lemma granted_evict:
  assumes "ready vm" and "i < length (s_frame vm)" and "fr_page (s_frame vm ! i) = Some q"
    and vm1: "quiet vm vm1" "s_frame vm1 = (s_frame vm)[i := (s_frame vm ! i)\<lparr>fr_lock := Some t\<rparr>]" "s_lock vm1 = None"
    and qg: "page_heap vm q = Some qg" "pg_frame qg = Some i"
    and ev: "evicted q qg vm1 vm2" and p: "page_heap vm p = Some pg" "pg_frame pg = None"
  shows "granted t p i vm (upd_frame i (\<lambda>f. f\<lparr>fr_page := Some p\<rparr>) vm2)"
proof -
  let ?vm = "upd_frame i (\<lambda>f. f\<lparr>fr_page := Some p\<rparr>) vm2"
  note q = quiet_inv [OF vm1(1)]
  have heap1: "page_heap vm1 = page_heap vm" using vm1(1) by (simp add: quiet_def)
  have qp: "q \<noteq> p" using p qg by auto
  have qg1: "page_heap vm1 q = Some qg" "pg_frame qg \<noteq> None" using qg heap1 by simp_all
  have kp: "kept_page vm vm2 x" for x using kept_quiet [OF vm1(1) evicted_kept [OF ev qg1]] .
  have "maps_ok vm1" using q(5) assms(1) by (simp add: ready_def)
  then have mo: "maps_ok vm2" by (rule evicted_maps [OF ev qg1(1)])
  obtain qg' where ev': "swap_ok vm2" "swap_ok vm2" "frames_ok vm2" "pages_ok vm2"
    "same_dirty vm1 vm2" "s_frame vm2 = s_frame vm1" "s_lock vm2 = s_lock vm1"
    "page_heap vm2 q = Some qg'" "pg_frame qg' = None" "\<And>x. x \<noteq> q \<Longrightarrow> page_heap vm2 x = page_heap vm1 x"
    using ev unfolding evicted_def by blast
  have f: "page_heap ?vm = page_heap vm2" "frame_mem ?vm = frame_mem vm2" "swap_dev ?vm = swap_dev vm2"
    "sw_bitmap ?vm = sw_bitmap vm2" "sw_lock ?vm = sw_lock vm2" "vm_files ?vm = vm_files vm2" "ptes ?vm = ptes vm2"
    "s_lock ?vm = s_lock vm2" "s_frame ?vm = (s_frame vm2)[i := (s_frame vm2 ! i)\<lparr>fr_page := Some p\<rparr>]"
    by (simp_all add: upd_frame_def)
  have b: "backing ?vm pg = backing vm2 pg" for pg by (rule backing_cong) (simp_all add: f)
  have d: "page_dirty ?vm pg = page_dirty vm2 pg" for pg by (simp add: page_dirty_def pd_is_dirty_def f)
  have un: "pg_frame xg \<noteq> Some i" if x: "page_heap vm2 x = Some xg" for x xg
  proof (cases "x = q")
    case True
    then show ?thesis using ev' x by simp
  next
    case False
    then have "page_heap vm x = Some xg" using ev'(10) heap1 x by simp
    then show ?thesis using assms(1,3) False by (auto simp: ready_def vm_ok_def frames_ok_def)
  qed
  have sd: "same_dirty vm vm2" using vm1(1) ev'(5) by (auto simp: quiet_def intro: same_dirty_trans)
  have "swap_ok ?vm" using ev'(2) by (simp add: swap_ok_def f)
  moreover have "frames_ok ?vm"
    using ev'(3) by (rule frames_ok_set_page) (use un in \<open>simp_all add: f\<close>)
  moreover have "pages_ok ?vm" using ev'(4) by (simp add: pages_ok_def f b d)
  moreover have "maps_ok ?vm" using mo by (rule maps_ok_same) (auto simp: f same_dirty_def same_map_def)
  moreover have "kept_page vm ?vm x" for x
  proof -
    have "content_of ?vm xg = content_of vm2 xg" for xg by (rule content_of_cong) (simp_all add: f b)
    then have "contents ?vm x = contents vm2 x" by (intro contents_cong) (simp_all add: f)
    then show ?thesis using kp [of x] by (simp add: kept_page_def)
  qed
  moreover have "\<exists>xg. page_heap ?vm x = Some xg \<and> pg_frame xg = Some j"
    if j: "j < length (s_frame ?vm)" "j \<noteq> i" "fr_page (s_frame ?vm ! j) = Some x" for j x
  proof -
    have "j < length (s_frame vm)" "fr_page (s_frame vm ! j) = Some x" using j ev'(6) vm1(2) by (simp_all add: f)
    then obtain xg where xg: "page_heap vm x = Some xg" "pg_frame xg = Some j"
      using assms(1) by (auto simp: ready_def vm_ok_def owners_ok_def)
    then have "x \<noteq> q" using qg j(2) by auto
    then show ?thesis using xg ev'(10) heap1 by (simp add: f)
  qed
  moreover have "page_heap ?vm p = page_heap vm p" using ev'(10) [of p] qp heap1 by (simp add: f)
  moreover have "same_dirty vm ?vm" using sd by (simp add: same_dirty_def f)
  ultimately show ?thesis using assms(2) ev'(6,7) vm1(2,3) un by (simp add: granted_def f)
qed


lemma quiet_denied: "quiet vm vm1 \<Longrightarrow> s_frame vm1 = s_frame vm \<Longrightarrow> s_lock vm1 = None \<Longrightarrow>
    s_frame vm = [] \<or> f_hand vm1 < length (s_frame vm) \<Longrightarrow> denied vm vm1"
  by (simp add: denied_def)

lemma frame_unlock_id:
  "fr_lock f = None \<Longrightarrow> f\<lparr>fr_lock := Some t, fr_lock := None\<rparr> = f" "fr_lock f = None \<Longrightarrow> f\<lparr>fr_lock := None\<rparr> = f"
  by (cases f; simp)+

lemma relock_id: "fr_lock (xs ! i) = None \<Longrightarrow> xs[i := (xs ! i)\<lparr>fr_lock := None\<rparr>] = xs"
proof -
  assume "fr_lock (xs ! i) = None"
  then have "(xs ! i)\<lparr>fr_lock := None\<rparr> = xs ! i" by (rule frame_unlock_id)
  then show ?thesis by (simp only: list_update_id)
qed

text \<open>The page in frame \<open>j\<close> was used since the clock hand last passed. A step of the clock that takes nothing
  has passed a frame whose lock is taken, or one that was used and now counts as unused.\<close>

definition used :: "vm \<Rightarrow> nat \<Rightarrow> bool" where
  "used vm j \<longleftrightarrow> (\<exists>q qg. fr_page (s_frame vm ! j) = Some q \<and> page_heap vm q = Some qg \<and>
     pd_is_accessed (pg_thread qg) (user_vaddr qg) vm)"

definition passed :: "vm \<Rightarrow> vm \<Rightarrow> vm \<Rightarrow> bool" where
  "passed vm0 vm vm' \<longleftrightarrow> quiet vm0 vm' \<and> s_frame vm' = s_frame vm0 \<and> s_lock vm' = s_lock vm \<and>
     f_hand vm' = (if f_hand vm + 1 \<ge> length (s_frame vm0) then 0 else f_hand vm + 1) \<and>
     (\<forall>j. used vm' j \<longrightarrow> used vm j) \<and>
     (fr_lock (s_frame vm0 ! f_hand vm) \<noteq> None \<or> used vm (f_hand vm) \<and> \<not> used vm' (f_hand vm))"

lemma accessed_cleared: "(w AND NOT PTE_A) AND PTE_A = 0" for w :: u32
proof -
  have "NOT PTE_A AND PTE_A = 0" by (simp add: pte_defs)
  then show ?thesis by (simp add: and.assoc)
qed

lemma clock_step:
  assumes "ready vm0" and "free_locks t vm0" and p: "page_heap vm0 p = Some pg" "pg_frame pg = None"
    and "quiet vm0 vm" and "s_frame vm = s_frame vm0" and "s_lock vm = Some t" and "f_hand vm < length (s_frame vm0)"
  shows "(\<exists>vm'. clock t p (Suc n) vm = clock t p n vm' \<and> passed vm0 vm vm') \<or>
    (\<exists>i vm'. clock t p (Suc n) vm = Some (Some i, vm') \<and> granted t p i vm0 vm') \<or>
    (\<exists>vm'. clock t p (Suc n) vm = Some (None, vm') \<and> denied vm0 vm' \<and>
       bm_used (sw_bitmap vm0) = {..<bit_cnt (sw_bitmap vm0)})"
proof -
  let ?i = "f_hand vm" and ?N = "length (s_frame vm0)"
  let ?v1 = "vm\<lparr>f_hand := if f_hand vm + 1 \<ge> length (s_frame vm) then 0 else f_hand vm + 1\<rparr>"
  have i: "?i < ?N" using assms(8) by simp
  have fr: "s_frame vm = s_frame vm0" by (rule assms(6))
  have lk: "fr_lock (s_frame vm0 ! ?i) \<noteq> Some t" using assms(2) i by (simp add: free_locks_def)
  have hand: "f_hand ?v1 < ?N" using i fr by auto
  have q1: "quiet vm0 ?v1" using assms(5) by (simp add: quiet_def same_dirty_def)
  show ?thesis
  proof (cases "fr_lock (s_frame vm0 ! ?i)")
    case (Some u)
    then have "clock t p (Suc n) vm = clock t p n ?v1"
      using i lk fr by (simp add: Let_def frame_lock_try_acquire_def)
    moreover have "used ?v1 j = used vm j" for j by (simp add: used_def pd_is_accessed_def)
    ultimately show ?thesis using q1 fr Some by (auto simp: passed_def)
  next
    case free: None
    let ?v2 = "upd_frame ?i (\<lambda>f. f\<lparr>fr_lock := Some t\<rparr>) ?v1"
    have got: "frame_lock_try_acquire t ?i ?v1 = Some (True, ?v2)"
      using i free fr by (simp add: frame_lock_try_acquire_def)
    have fr2: "s_frame ?v2 = (s_frame vm0)[?i := (s_frame vm0 ! ?i)\<lparr>fr_lock := Some t\<rparr>]"
      by (simp add: upd_frame_def fr)
    have q2: "quiet vm0 ?v2"
      using q1 i fr by (auto simp: quiet_def upd_frame_def same_dirty_def nth_list_update)
    show ?thesis
    proof (cases "fr_page (s_frame vm0 ! ?i)")
      case None
      let ?v3 = "(upd_frame ?i (\<lambda>f. f\<lparr>fr_page := Some p\<rparr>) ?v2)\<lparr>s_lock := None\<rparr>"
      have "clock t p (Suc n) vm = Some (Some ?i, ?v3)"
        using got None i fr2 assms(7) by (simp add: Let_def s_lock_release_def) (simp add: upd_frame_def)
      moreover have "?v3 = upd_frame ?i (\<lambda>f. f\<lparr>fr_lock := Some t, fr_page := Some p\<rparr>) (?v1\<lparr>s_lock := None\<rparr>)"
        using i fr by (simp add: upd_frame_def)
      moreover have "granted t p ?i vm0 (upd_frame ?i (\<lambda>f. f\<lparr>fr_lock := Some t, fr_page := Some p\<rparr>) (?v1\<lparr>s_lock := None\<rparr>))"
        using assms(1) i None q1 fr by (intro granted_free) (auto simp: quiet_def same_dirty_def)
      ultimately show ?thesis by auto
    next
      case (Some x)
      obtain xg where xg: "page_heap vm0 x = Some xg" "pg_frame xg = Some ?i"
        using assms(1) i Some by (auto simp: ready_def vm_ok_def owners_ok_def)
      have heap2: "page_heap ?v2 = page_heap vm0" using q2 by (simp add: quiet_def)
      have heap: "page_heap vm = page_heap vm0" using assms(5) by (simp add: quiet_def)
      have held: "frame_held t (Some ?i) ?v2" using i fr2 by (simp add: frame_held_def)
      let ?acc = "pd_is_accessed (pg_thread xg) (user_vaddr xg) ?v2"
      have acc: "is_page_recently_accessed t x ?v2 =
          Some (?acc, if ?acc then pd_clear_accessed (pg_thread xg) (user_vaddr xg) ?v2 else ?v2)"
        using xg heap2 held by (simp add: is_page_recently_accessed_def Let_def)
      show ?thesis
      proof (cases ?acc)
        case True
        let ?v3 = "pd_clear_accessed (pg_thread xg) (user_vaddr xg) ?v2"
        let ?v4 = "upd_frame ?i (\<lambda>f. f\<lparr>fr_lock := None\<rparr>) ?v3"
        have fr3: "s_frame ?v3 = s_frame ?v2" by (simp add: pd_clear_accessed_def)
        have fr4: "s_frame ?v4 = s_frame vm0"
          using i fr3 fr2 free by (simp add: upd_frame_def relock_id)
        have "same_dirty ?v2 ?v3" by (auto simp: same_dirty_def pd_clear_accessed_def clear_bit_keeps_dirty)
        then have q4: "quiet vm0 ?v4"
          using q2 fr4 by (auto simp: quiet_def upd_frame_def pd_clear_accessed_def same_dirty_def)
        have "frame_lock_release t ?i ?v3 = Some ?v4"
          using i fr2 fr3 by (simp add: frame_lock_release_def)
        then have stp: "clock t p (Suc n) vm = clock t p n ?v4"
          using got Some i fr2 acc True by (simp add: Let_def)
        have "f_hand ?v4 = f_hand ?v1" "s_lock ?v4 = s_lock vm"
          by (simp_all add: upd_frame_def pd_clear_accessed_def)
        moreover have "used ?v4 j \<Longrightarrow> used vm j" for j
          using fr4 fr by (auto simp: used_def pd_is_accessed_def pd_clear_accessed_def upd_frame_def and.assoc split: if_splits)
        moreover have "used vm ?i" "\<not> used ?v4 ?i"
          using True Some xg heap fr fr4
          by (auto simp: used_def pd_is_accessed_def pd_clear_accessed_def upd_frame_def accessed_cleared)
        ultimately have "passed vm0 vm ?v4" using q4 fr4 fr unfolding passed_def by simp
        then show ?thesis using stp by blast
      next
        case False
        let ?v3 = "?v2\<lparr>s_lock := None\<rparr>"
        have rel: "s_lock_release t ?v2 = Some ?v3"
          using assms(7) by (simp add: s_lock_release_def upd_frame_def)
        have q3: "quiet vm0 ?v3" using q2 by (simp add: quiet_def same_dirty_def)
        have fr3: "s_frame ?v3 = (s_frame vm0)[?i := (s_frame vm0 ! ?i)\<lparr>fr_lock := Some t\<rparr>]" using fr2 by simp
        have ok3: "swap_ok ?v3" "frames_ok ?v3" "pages_ok ?v3" "maps_ok ?v3"
          using quiet_inv [OF q3] assms(1) by (simp_all add: ready_def vm_ok_def)
        have pg3: "page_heap ?v3 x = Some xg" using xg q3 by (simp add: quiet_def)
        have held3: "frame_held t (Some ?i) ?v3" using held by (simp add: frame_held_def)
        have al3: "write_back ?v3 xg \<longrightarrow> alone ?v3 x xg" "write_back ?v3 xg \<longrightarrow> fits ?v3 xg"
          using ok3(4) pg3 by (simp_all add: maps_ok_def)
        from ok3(1-3) pg3 xg(2) held3 al3(1) show ?thesis
        proof (cases rule: page_out_spec)
          case (evict vm')
          have "clock t p (Suc n) vm = Some (Some ?i, upd_frame ?i (\<lambda>f. f\<lparr>fr_page := Some p\<rparr>) vm')"
            using got Some i fr2 acc False rel evict(1) by (simp add: Let_def)
          moreover have "granted t p ?i vm0 (upd_frame ?i (\<lambda>f. f\<lparr>fr_page := Some p\<rparr>) vm')"
            using granted_evict [OF assms(1) i Some q3 fr3 _ xg evict(2) p] by simp
          ultimately show ?thesis by auto
        next
          case full
          let ?v4 = "?v3\<lparr>ptes := (ptes ?v3)(pg_thread xg := (ptes ?v3 (pg_thread xg))
            (user_vaddr xg := ptes ?v3 (pg_thread xg) (user_vaddr xg) AND NOT PTE_P))\<rparr>"
          let ?v5 = "upd_frame ?i (\<lambda>f. f\<lparr>fr_lock := None\<rparr>) ?v4"
          have "s_frame ?v4 = s_frame ?v2" by simp
          then have fr5: "s_frame ?v5 = s_frame vm0"
            unfolding upd_frame_def using i fr free by (simp add: relock_id)
          have "same_dirty ?v3 ?v4" by (auto simp: same_dirty_def clear_bit_keeps_dirty)
          then have "quiet vm0 ?v5" using q3 fr5 by (auto simp: quiet_def upd_frame_def same_dirty_def)
          then have "denied vm0 ?v5" using fr5 hand by (intro quiet_denied) (simp_all add: upd_frame_def)
          moreover have "frame_lock_release t ?i ?v4 = Some ?v5"
            using i fr2 by (simp add: frame_lock_release_def)
          then have "clock t p (Suc n) vm = Some (None, ?v5)"
            using got Some i fr2 acc False rel full(1) by (simp add: Let_def)
          moreover have "bm_used (sw_bitmap vm0) = {..<bit_cnt (sw_bitmap vm0)}"
            using full(2) q3 by (simp add: quiet_def)
          ultimately show ?thesis by auto
        next
          case (short vm')
          then show ?thesis using al3(2) by simp
        qed
      qed
    qed
  qed
qed

lemma clock_spec:
  assumes "ready vm0" and "free_locks t vm0" and p: "page_heap vm0 p = Some pg" "pg_frame pg = None"
    and "quiet vm0 vm" and "s_frame vm = s_frame vm0" and "s_lock vm = Some t"
    and "s_frame vm0 = [] \<and> n = 0 \<or> f_hand vm < length (s_frame vm0)"
  shows "\<exists>r vm'. clock t p n vm = Some (r, vm') \<and>
    (case r of None \<Rightarrow> denied vm0 vm' | Some i \<Rightarrow> granted t p i vm0 vm')"
  using assms(5-)
proof (induction n arbitrary: vm)
  case 0
  have "quiet vm (vm\<lparr>s_lock := None\<rparr>)" by (simp add: quiet_def same_dirty_def)
  then have "denied vm0 (vm\<lparr>s_lock := None\<rparr>)"
    using 0 quiet_trans by (intro quiet_denied) auto
  then show ?case using 0 by (simp add: s_lock_release_def)
next
  case (Suc n)
  then have h: "f_hand vm < length (s_frame vm0)" by simp
  from clock_step [OF assms(1-4) Suc.prems(1-3) h, of n] show ?case
  proof (elim disjE exE conjE)
    fix vm' assume e: "clock t p (Suc n) vm = clock t p n vm'" and "passed vm0 vm vm'"
    then have "quiet vm0 vm'" "s_frame vm' = s_frame vm0" "s_lock vm' = Some t" "f_hand vm' < length (s_frame vm0)"
      using Suc.prems(3) h by (auto simp: passed_def)
    then show ?thesis using Suc.IH [of vm'] e by simp
  qed auto
qed

text \<open>The clock reaches an unlocked frame whose page was not used, unless it finds another victim or swap is full.\<close>

definition hand_after :: "nat \<Rightarrow> nat \<Rightarrow> nat \<Rightarrow> nat" where
  "hand_after N h j = (if h \<le> j then j - h else N - h + j)"

lemma clock_finds_unused:
  assumes "ready vm0" and "free_locks t vm0" and p: "page_heap vm0 p = Some pg" "pg_frame pg = None"
    and "quiet vm0 vm" and "s_frame vm = s_frame vm0" and "s_lock vm = Some t" and "f_hand vm < length (s_frame vm0)"
    and j: "j < length (s_frame vm0)" "fr_lock (s_frame vm0 ! j) = None"
    and n: "hand_after (length (s_frame vm0)) (f_hand vm) j +
      (if used vm j then length (s_frame vm0) else 0) < n"
    and refused: "clock t p n vm = Some (None, vm')"
  shows "bm_used (sw_bitmap vm0) = {..<bit_cnt (sw_bitmap vm0)}"
  using assms(5-8) n refused
proof (induction n arbitrary: vm)
  case (Suc n)
  from clock_step [OF assms(1-4) Suc.prems(1-4), of n] show ?case
  proof (elim disjE exE conjE)
    fix v assume e: "clock t p (Suc n) vm = clock t p n v" and ps: "passed vm0 vm v"
    then have v: "quiet vm0 v" "s_frame v = s_frame vm0" "s_lock v = Some t" "f_hand v < length (s_frame vm0)"
      using Suc.prems(3,4) by (auto simp: passed_def)
    have "hand_after (length (s_frame vm0)) (f_hand v) j + (if used v j then length (s_frame vm0) else 0) < n"
    proof (cases "f_hand vm = j")
      case True
      then have "used vm j" "\<not> used v j" using ps j(2) by (auto simp: passed_def)
      then show ?thesis using Suc.prems(5) ps j(1) True by (auto simp: hand_after_def passed_def split: if_splits)
    next
      case False
      have "used v j \<Longrightarrow> used vm j" using ps by (simp add: passed_def)
      then show ?thesis using Suc.prems(4,5) ps j(1) False by (auto simp: hand_after_def passed_def split: if_splits)
    qed
    then show ?thesis using Suc.IH [OF v] e Suc.prems(6) by simp
  qed (use Suc.prems(6) in auto)
qed simp

lemma try_frame_alloc_spec:
  assumes "ready vm" and "free_locks t vm" and "s_lock vm = None" and "page_heap vm p = Some pg" "pg_frame pg = None"
    and "s_frame vm = [] \<or> f_hand vm < length (s_frame vm)"
  shows "\<exists>r vm'. try_frame_alloc_and_lock t p vm = Some (r, vm') \<and>
    (case r of None \<Rightarrow> denied vm vm' | Some i \<Rightarrow> granted t p i vm vm')"
proof -
  let ?v = "vm\<lparr>s_lock := Some t\<rparr>"
  have q: "quiet vm ?v" by (simp add: quiet_def same_dirty_def)
  have fl: "free_locks t ?v" using assms(2) by (simp add: free_locks_def)
  from scan_free_spec [OF fl, of "[0..<length (s_frame vm)]" p]
  consider (none) "scan_free t p [0..<length (s_frame vm)] ?v = Some (None, ?v)"
    | (some) i where "i < length (s_frame vm)" "fr_page (s_frame vm ! i) = None"
      "scan_free t p [0..<length (s_frame vm)] ?v =
        Some (Some i, upd_frame i (\<lambda>f. f\<lparr>fr_lock := Some t, fr_page := Some p\<rparr>) ?v)"
    by auto
  then show ?thesis
  proof cases
    case none
    then have "try_frame_alloc_and_lock t p vm = clock t p (length (s_frame vm) * 2) ?v"
      using assms(3) by (simp add: try_frame_alloc_and_lock_def s_lock_acquire_def)
    then show ?thesis using clock_spec [OF assms(1,2,4,5) q, of "length (s_frame vm) * 2"] assms(6) by auto
  next
    case (some i)
    let ?u = "upd_frame i (\<lambda>f. f\<lparr>fr_lock := Some t, fr_page := Some p\<rparr>) (?v\<lparr>s_lock := None\<rparr>)"
    have "granted t p i vm ?u"
      using assms(1) some by (intro granted_free) (auto simp: quiet_def same_dirty_def)
    moreover have "try_frame_alloc_and_lock t p vm = Some (Some i, ?u)"
      using assms(3) some by (simp add: try_frame_alloc_and_lock_def s_lock_acquire_def s_lock_release_def upd_frame_def)
    ultimately show ?thesis by auto
  qed
qed

lemma granted_after_denied:
  assumes "denied vm vm1" and "granted t p i vm1 vm2"
  shows "granted t p i vm vm2"
proof -
  have q: "quiet vm vm1" "s_frame vm1 = s_frame vm" using assms(1) by (simp_all add: denied_def)
  have "kept_page vm vm2 q" for q using assms(2) kept_quiet [OF q(1)] by (simp add: granted_def)
  moreover have "same_dirty vm vm2" using assms(2) q(1) by (auto simp: granted_def quiet_def intro: same_dirty_trans)
  ultimately show ?thesis using assms(2) q by (simp add: granted_def quiet_def)
qed


lemma alloc_tries_spec:
  assumes "ready vm" and "free_locks t vm" and "s_lock vm = None" and "page_heap vm p = Some pg" "pg_frame pg = None"
    and "s_frame vm = [] \<or> f_hand vm < length (s_frame vm)"
  shows "\<exists>r vm'. alloc_tries n t p vm = Some (r, vm') \<and>
    (case r of None \<Rightarrow> denied vm vm' | Some i \<Rightarrow> granted t p i vm vm')"
  using assms
proof (induction n arbitrary: vm)
  case 0
  then show ?case by (simp add: denied_def)
next
  case (Suc n)
  from try_frame_alloc_spec [OF Suc.prems] obtain r vm1 where
    r: "try_frame_alloc_and_lock t p vm = Some (r, vm1)"
    "case r of None \<Rightarrow> denied vm vm1 | Some i \<Rightarrow> granted t p i vm vm1"
    by blast
  show ?case
  proof (cases r)
    case (Some i)
    then have g: "granted t p i vm vm1" using r by simp
    then have "frame_held t (Some i) vm1" by (simp add: granted_def frame_held_def)
    then show ?thesis using r Some g by simp
  next
    case None
    then have d: "denied vm vm1" using r by simp
    then have q: "quiet vm vm1" "s_frame vm1 = s_frame vm" by (simp_all add: denied_def)
    have "ready vm1" using quiet_inv [OF q(1)] Suc.prems(1) by (simp add: ready_def vm_ok_def)
    moreover have "free_locks t vm1" using Suc.prems(2) q by (simp add: free_locks_def)
    moreover have "page_heap vm1 p = Some pg" using Suc.prems(4) q by (simp add: quiet_def)
    ultimately obtain r2 vm2 where r2: "alloc_tries n t p vm1 = Some (r2, vm2)"
      "case r2 of None \<Rightarrow> denied vm1 vm2 | Some i \<Rightarrow> granted t p i vm1 vm2"
      using Suc.IH [of vm1] d q Suc.prems(5) by (auto simp: denied_def)
    have "alloc_tries (Suc n) t p vm = Some (r2, vm2)" using r(1) None r2(1) by simp
    moreover have "case r2 of None \<Rightarrow> denied vm vm2 | Some i \<Rightarrow> granted t p i vm vm2"
    proof (cases r2)
      case None
      then show ?thesis using r2(2) d q quiet_trans [of vm vm1 vm2] by (auto simp: denied_def)
    next
      case (Some i)
      then show ?thesis using granted_after_denied [OF d] r2(2) by simp
    qed
    ultimately show ?thesis by blast
  qed
qed

section \<open>Bringing a page in\<close>

definition set_frame :: "nat option \<Rightarrow> page \<Rightarrow> page" where
  "set_frame fr pg = pg\<lparr>pg_frame := fr\<rparr>"

text \<open>After a successful page-in the page is resident in a frame that the thread holds, and every page
  contains what it contained before, up to the bytes past its file of a page that was written back.\<close>

definition paged_in :: "nat \<Rightarrow> nat \<Rightarrow> vm \<Rightarrow> vm \<Rightarrow> bool" where
  "paged_in t p vm vm' \<longleftrightarrow> (\<forall>q. kept_page vm vm' q) \<and> contents vm' p = contents vm p \<and> ready vm' \<and>
     (\<exists>i pg. page_heap vm' p = Some pg \<and> pg_frame pg = Some i \<and> frame_held t (Some i) vm')"

lemma do_page_in_denied:
  assumes "page_heap vm p = Some pg" and "pg_frame pg = None" and "frame_allocate t p vm = Some (None, vm1)"
    and "denied vm vm1"
  shows "do_page_in t p vm = Some (False, vm1)"
proof -
  have p: "page_heap vm1 p = Some pg" using assms(1,4) by (simp add: denied_def quiet_def)
  have "pg\<lparr>pg_frame := None\<rparr> = pg" using assms(2) by simp
  then have "(page_heap vm1)(p \<mapsto> pg\<lparr>pg_frame := None\<rparr>) = page_heap vm1" using p by (simp add: fun_upd_idem)
  then have "upd_page p (\<lambda>pg. pg\<lparr>pg_frame := None\<rparr>) vm1 = vm1"
    using p by (simp add: upd_page_def)
  then show ?thesis using assms(3) by (simp add: do_page_in_def)
qed

text \<open>Filling the granted frame \<open>i\<close> with the page's bytes \<open>d\<close> gives a good state.\<close>

lemma granted_fill:
  assumes g: "granted t p i vm vm1" and pg: "page_heap vm1 p = Some pg" "pg_frame pg = None"
    and d: "contents vm p = Some d" "length d = 4096"
    and vm2: "page_heap vm2 = (page_heap vm1)(p \<mapsto> pg\<lparr>pg_frame := Some i, swap_sec := NO_SECTOR\<rparr>)"
      "frame_mem vm2 = (frame_mem vm1)(i := d)" "swap_dev vm2 = swap_dev vm1" "vm_files vm2 = vm_files vm1"
      "ptes vm2 = ptes vm1" "s_frame vm2 = s_frame vm1" "sw_lock vm2 = sw_lock vm1"
    and bm: "bm_inv (sw_bitmap vm2)" "bit_cnt (sw_bitmap vm2) = bit_cnt (sw_bitmap vm1)"
      "bm_used (sw_bitmap vm2) = (if swap_sec pg = NO_SECTOR then bm_used (sw_bitmap vm1)
         else bm_used (sw_bitmap vm1) - {unat (swap_sec pg) div 8})"
  shows "paged_in t p vm vm2"
proof -
  have g': "i < length (s_frame vm)" "length (s_frame vm1) = length (s_frame vm)"
    "s_frame vm1 ! i = (s_frame vm ! i)\<lparr>fr_lock := Some t, fr_page := Some p\<rparr>"
    "\<And>q. kept_page vm vm1 q" "swap_ok vm1" "frames_ok vm1" "pages_ok vm1"
    "\<And>q qg. page_heap vm1 q = Some qg \<Longrightarrow> pg_frame qg \<noteq> Some i"
    "\<And>j q. j < length (s_frame vm1) \<Longrightarrow> j \<noteq> i \<Longrightarrow> fr_page (s_frame vm1 ! j) = Some q \<Longrightarrow>
        \<exists>qg. page_heap vm1 q = Some qg \<and> pg_frame qg = Some j"
    using g unfolding granted_def by auto
  let ?pg = "pg\<lparr>pg_frame := Some i, swap_sec := NO_SECTOR\<rparr>"
  have b: "backing vm2 qg = backing vm1 qg" for qg by (rule backing_cong) (simp_all add: vm2)
  have dt: "page_dirty vm2 qg = page_dirty vm1 qg" for qg by (simp add: page_dirty_def pd_is_dirty_def vm2)
  have ph: "page_heap vm p = Some pg" and mo: "maps_ok vm1" using g pg(1) by (simp_all add: granted_def)
  have "contents vm1 p = Some d" using kept_absent [OF g'(4) ph pg(2)] d(1) by simp
  then have "backing vm1 pg = d" using pg by (simp add: contents_def content_of_def)
  then have fileb: "pg_file pg \<noteq> None \<Longrightarrow> backing vm1 ?pg = d" by (auto simp: backing_def)
  have cp: "contents vm2 p = contents vm p" unfolding d(1) by (simp add: contents_def content_of_def vm2)
  have "kept_page vm vm2 q" for q
  proof (cases "q = p")
    case True
    then show ?thesis using cp by (simp add: kept_same)
  next
    case False
    have "content_of vm2 qg = content_of vm1 qg" if "page_heap vm1 q = Some qg" for qg
      using g'(8) [OF that] b by (auto simp: content_of_def vm2 split: option.split)
    then have "contents vm2 q = contents vm1 q" using False by (intro contents_cong) (simp_all add: vm2)
    then show ?thesis using g'(4) [of q] by (simp add: kept_page_def)
  qed
  moreover have "maps_ok vm2"
    using mo by (rule maps_ok_same) (use pg(1) in \<open>auto simp: vm2 same_dirty_def same_map_def split: if_splits\<close>)
  moreover have "swap_ok vm2"
    unfolding swap_ok_def
  proof (intro conjI allI impI)
    show "bm_inv (sw_bitmap vm2)" by (rule bm)
    show "bit_cnt (sw_bitmap vm2) * 8 < 4294967295" "sw_lock vm2 = None" "length (swap_dev vm2 x) = 512" for x
      using g'(5) bm by (simp_all add: swap_ok_def vm2)
    fix q qg
    assume q: "page_heap vm2 q = Some qg" "swap_sec qg \<noteq> NO_SECTOR"
    then have "q \<noteq> p" by (auto simp: vm2)
    then have q1: "page_heap vm1 q = Some qg" using q by (simp add: vm2)
    then have o: "pg_frame qg = None" "pg_file qg = None" "unat (swap_sec qg) mod 8 = 0"
      "unat (swap_sec qg) div 8 \<in> bm_used (sw_bitmap vm1)"
      using g'(5) q(2) unfolding swap_ok_def by blast+
    then show "pg_frame qg = None" "pg_file qg = None" "unat (swap_sec qg) mod 8 = 0" by simp_all
    have "unat (swap_sec qg) div 8 \<noteq> unat (swap_sec pg) div 8" if "swap_sec pg \<noteq> NO_SECTOR"
    proof
      assume e: "unat (swap_sec qg) div 8 = unat (swap_sec pg) div 8"
      have "unat (swap_sec pg) mod 8 = 0" using g'(5) pg that unfolding swap_ok_def by blast
      with e o(3) have "unat (swap_sec qg) = unat (swap_sec pg)" by (metis div_mult_mod_eq)
      then have "swap_sec qg = swap_sec pg" by (simp add: word_unat_eq_iff)
      then have "q = p" using g'(5) q1 pg(1) q(2) unfolding swap_ok_def by blast
      with \<open>q \<noteq> p\<close> show False ..
    qed
    then show "unat (swap_sec qg) div 8 \<in> bm_used (sw_bitmap vm2)" using o(4) bm(3) by auto
  next
    fix q r qg rg
    assume q: "page_heap vm2 q = Some qg" "page_heap vm2 r = Some rg" "swap_sec qg \<noteq> NO_SECTOR" "swap_sec qg = swap_sec rg"
    then have "q \<noteq> p" "r \<noteq> p" by (auto simp: vm2)
    then show "q = r" using q g'(5) unfolding swap_ok_def vm2 by (metis fun_upd_apply)
  qed
  moreover have "frames_ok vm2"
    using g'(1-3,6) d(2) by (auto simp: frames_ok_def vm2 split: if_splits)
  moreover have "owners_ok vm2"
    unfolding owners_ok_def
  proof (intro allI impI)
    fix j q
    assume j: "j < length (s_frame vm2)" "fr_page (s_frame vm2 ! j) = Some q"
    show "\<exists>qg. page_heap vm2 q = Some qg \<and> pg_frame qg = Some j"
    proof (cases "j = i")
      case True
      then show ?thesis using j g'(3) by (simp add: vm2)
    next
      case False
      then obtain qg where "page_heap vm1 q = Some qg" "pg_frame qg = Some j" using g'(9) j by (auto simp: vm2)
      then show ?thesis using pg by (auto simp: vm2)
    qed
  qed
  moreover have "pages_ok vm2"
    unfolding pages_ok_def b dt
  proof (intro allI impI)
    fix q qg
    assume q: "page_heap vm2 q = Some qg"
    show "pg_ofs (user_vaddr qg) = 0 \<and> is_user_vaddr (user_vaddr qg) \<and>
        (\<forall>j. pg_frame qg = Some j \<longrightarrow> pg_file qg \<noteq> None \<longrightarrow> \<not> page_dirty vm1 qg \<longrightarrow> frame_mem vm2 j = backing vm1 qg)"
    proof (cases "q = p")
      case True
      then have "qg = ?pg" using q by (simp add: vm2)
      then show ?thesis using g'(7) pg(1) fileb by (auto simp: pages_ok_def vm2)
    next
      case False
      then have q1: "page_heap vm1 q = Some qg" using q by (simp add: vm2)
      then show ?thesis using g'(7) g'(8) [OF q1] by (auto simp: pages_ok_def vm2)
    qed
  qed
  moreover have "frame_held t (Some i) vm2" using g'(1-3) by (simp add: frame_held_def vm2)
  ultimately show ?thesis using cp by (auto simp: paged_in_def ready_def vm_ok_def vm2)
qed

lemma length_backing:
  assumes "swap_ok vm" and "byts_rw_f pg \<le> 4096"
  shows "length (backing vm pg) = 4096"
proof -
  have "length (sectors (swap_dev vm) (unat (swap_sec pg)) 8) = 4096"
    using length_sectors [of "swap_dev vm" _ 8] assms(1) by (simp add: swap_ok_def)
  moreover have "length (pad_page b) = 4096" if "length b \<le> 4096" for b
    using that by (simp add: pad_page_def)
  ultimately show ?thesis using assms(2) by (auto simp: backing_def file_bytes_def split: option.splits)
qed


lemma do_page_in_spec:
  assumes rd: "ready vm" and fl: "free_locks t vm" and sl: "s_lock vm = None"
    and pg: "page_heap vm p = Some pg" "pg_frame pg = None" and n: "byts_rw_f pg \<le> 4096"
    and hand: "s_frame vm = [] \<or> f_hand vm < length (s_frame vm)"
  shows "\<exists>ok vm'. do_page_in t p vm = Some (ok, vm') \<and> (if ok then paged_in t p vm vm' else denied vm vm')"
proof -
  obtain r vm1 where fa: "frame_allocate t p vm = Some (r, vm1)"
    and r: "case r of None \<Rightarrow> denied vm vm1 | Some i \<Rightarrow> granted t p i vm vm1"
    using alloc_tries_spec [OF rd fl sl pg hand, of 3] unfolding frame_allocate_def by blast
  show ?thesis
  proof (cases r)
    case None
    then have "do_page_in t p vm = Some (False, vm1)" using do_page_in_denied [OF pg] fa r by simp
    then show ?thesis using r None by auto
  next
    case (Some i)
    then have g: "granted t p i vm vm1" using r by simp
    then have p1: "page_heap vm1 p = Some pg" and sw: "swap_ok vm1" and i: "i < length (s_frame vm1)"
      and kp: "kept_page vm vm1 p" and fo: "frames_ok vm1"
      and lk: "fr_lock (s_frame vm1 ! i) = Some t"
      using pg by (auto simp: granted_def)
    have c: "contents vm p = contents vm1 p" using kept_absent [OF kp pg] by simp
    let ?d = "backing vm1 pg"
    have d: "contents vm p = Some ?d" using c p1 pg(2) by (simp add: contents_def content_of_def)
    have len: "length ?d = 4096" by (rule length_backing [OF sw n])
    note fill = granted_fill [OF g p1 pg(2) d len]
    let ?vm1 = "vm1\<lparr>page_heap := (page_heap vm1)(p \<mapsto> pg\<lparr>pg_frame := Some i\<rparr>)\<rparr>"
    have up: "upd_page p (\<lambda>pg. pg\<lparr>pg_frame := Some i\<rparr>) vm1 = ?vm1" using p1 by (simp add: upd_page_def)
    show ?thesis
    proof (cases "swap_sec pg = NO_SECTOR")
      case True
      then have e: "pg\<lparr>pg_frame := Some i, swap_sec := NO_SECTOR\<rparr> = pg\<lparr>pg_frame := Some i\<rparr>" by (cases pg) simp
      have "do_page_in t p vm = Some (True, fill_frame i ?d ?vm1)"
        using fa Some up True by (simp add: do_page_in_def backing_def pad_page_def Let_def split: option.split)
      moreover have "paged_in t p vm (fill_frame i ?d ?vm1)"
        using sw True by (intro fill) (simp_all add: fill_frame_def e swap_ok_def)
      ultimately show ?thesis by auto
    next
      case False
      then have nf: "pg_file pg = None" and slot: "unat (swap_sec pg) div 8 < bit_cnt (sw_bitmap vm1)"
        using sw p1 by (auto simp: swap_ok_def bm_used_def)
      have "\<exists>b. page_swap_in t p ?vm1 = Some (?vm1\<lparr>frame_mem := (frame_mem vm1)(i := ?d),
          sw_bitmap := b, page_heap := (page_heap vm1)(p \<mapsto> pg\<lparr>pg_frame := Some i, swap_sec := NO_SECTOR\<rparr>)\<rparr>) \<and>
        bm_inv b \<and> bit_cnt b = bit_cnt (sw_bitmap vm1) \<and> bm_used b = bm_used (sw_bitmap vm1) - {unat (swap_sec pg) div 8}"
        using page_swap_in_spec [where vm = ?vm1 and p = p and i = i and t = t and pg = "pg\<lparr>pg_frame := Some i\<rparr>"]
          sw fo i lk slot False nf by (simp add: swap_ok_def frames_ok_def frame_held_def backing_def)
      then obtain b where b: "page_swap_in t p ?vm1 = Some (?vm1\<lparr>frame_mem := (frame_mem vm1)(i := ?d),
          sw_bitmap := b, page_heap := (page_heap vm1)(p \<mapsto> pg\<lparr>pg_frame := Some i, swap_sec := NO_SECTOR\<rparr>)\<rparr>)"
        "bm_inv b" "bit_cnt b = bit_cnt (sw_bitmap vm1)" "bm_used b = bm_used (sw_bitmap vm1) - {unat (swap_sec pg) div 8}"
        by blast
      let ?vm2 = "?vm1\<lparr>frame_mem := (frame_mem vm1)(i := ?d),
          sw_bitmap := b, page_heap := (page_heap vm1)(p \<mapsto> pg\<lparr>pg_frame := Some i, swap_sec := NO_SECTOR\<rparr>)\<rparr>"
      have "do_page_in t p vm = Some (True, ?vm2)"
        using fa Some up False nf b(1) by (simp add: do_page_in_def)
      moreover have "paged_in t p vm ?vm2" using b False by (intro fill) simp_all
      ultimately show ?thesis by auto
    qed
  qed
qed

end
