(* ===== verification/Vm_Props.thy ===== *)
theory Vm_Props
  imports Vm_Paging
begin

text \<open>
  The properties of virtual memory: swap keeps bytes and slots apart, eviction and page-in do not change
  what pages contain, a frame is found whenever one can be freed, the stack grows within its limits. Two
  theorems at the end show what the code gets wrong: a failed eviction can lose a modified page, and a
  process that dies leaves the swap slots of its pages allocated.
\<close>

section \<open>A small machine\<close>

text \<open>One frame that holds page 0, an anonymous page of thread 1; page 1 is its second page; two swap slots.\<close>

definition anon_page :: "nat option \<Rightarrow> u32 \<Rightarrow> page" where
  "anon_page fr va = \<lparr>pg_frame = fr, pg_thread = 1, pg_file = None, pg_private = True, swap_sec = NO_SECTOR,
     user_vaddr = va, ro_page = False, f_ofs = 0, byts_rw_f = 0\<rparr>"

definition small_vm :: "nat \<Rightarrow> vm" where
  "small_vm slots = \<lparr>s_frame = [\<lparr>fkbase = 0xC0100000, fr_page = Some 0, fr_lock = None\<rparr>], f_hand = 0, s_lock = None,
     page_heap = [0 \<mapsto> anon_page (Some 0) 0x08048000, 1 \<mapsto> anon_page None 0x08049000],
     page_tables = [1 \<mapsto> \<lparr>hash_table.elem_cnt = 2, bucket_cnt = 4,
        buckets = [[\<lparr>pe_vaddr = 0x08048000, pe_page = 0\<rparr>], [\<lparr>pe_vaddr = 0x08049000, pe_page = 1\<rparr>], [], []],
        hash_fn = get_page_hash_value, less_fn = check_hash_entries\<rparr>],
     ptes = (\<lambda>_ _. 0), user_stack_ptr = (\<lambda>_. 0xBFFFF000),
     frame_mem = (\<lambda>_. replicate 4096 7), swap_dev = (\<lambda>_. replicate 512 0), sw_lock = None,
     sw_bitmap = \<lparr>bit_cnt = slots, bits = [0]\<rparr>, vm_files = (\<lambda>_. [])\<rparr>"

lemma small_bitmap: "slots \<le> 32 \<Longrightarrow> bm_inv (sw_bitmap (small_vm slots))" "slots \<le> 32 \<Longrightarrow> bm_used (sw_bitmap (small_vm slots)) = {}"
  by (simp_all add: small_vm_def bm_inv_def BITMAP_ERROR_def bm_used_def bm_bit_def)

lemma small_swap_ok: "slots \<le> 32 \<Longrightarrow> swap_ok (small_vm slots)"
  using small_bitmap [of slots] by (simp add: swap_ok_def) (simp add: small_vm_def anon_page_def)

lemma small_ready: "slots \<le> 32 \<Longrightarrow> ready (small_vm slots)"
  using small_swap_ok [of slots]
  by (simp add: ready_def vm_ok_def)
    (simp add: small_vm_def anon_page_def frames_ok_def owners_ok_def pages_ok_def maps_ok_def write_back_def
      page_dirty_def pd_is_dirty_def pg_ofs_def PGMASK_def PGBITS_def is_user_vaddr_def PHYS_BASE_def)

text \<open>
  The same machine when page 0 is a modified page of the three bytes of file 5, which its eviction has to write back, with the lock of the frame.
\<close>

definition file_page :: page where
  "file_page = (anon_page (Some 0) 0x08048000)\<lparr>pg_file := Some 5, byts_rw_f := 3\<rparr>"

definition shared_vm :: "nat option \<Rightarrow> vm" where
  "shared_vm l = (small_vm 2)\<lparr>s_frame := [\<lparr>fkbase = 0xC0100000, fr_page = Some 0, fr_lock = l\<rparr>],
     page_heap := [0 \<mapsto> file_page\<lparr>pg_private := False\<rparr>, 1 \<mapsto> anon_page None 0x08049000],
     vm_files := (\<lambda>_. [1, 2, 3]), ptes := (\<lambda>_ _. PTE_D)\<rparr>"

lemma shared_facts:
  "page_heap (shared_vm l) = [0 \<mapsto> file_page\<lparr>pg_private := False\<rparr>, 1 \<mapsto> anon_page None 0x08049000]"
  "write_back (shared_vm l) (file_page\<lparr>pg_private := False\<rparr>)" "\<not> write_back (shared_vm l) (anon_page None 0x08049000)"
  "written_back (shared_vm l) (file_page\<lparr>pg_private := False\<rparr>) = [7, 7, 7] @ replicate 4093 0"
  "contents (shared_vm l) 0 = Some (replicate 4096 7)"
proof -
  show h: "page_heap (shared_vm l) = [0 \<mapsto> file_page\<lparr>pg_private := False\<rparr>, 1 \<mapsto> anon_page None 0x08049000]" by (simp add: shared_vm_def)
  show "write_back (shared_vm l) (file_page\<lparr>pg_private := False\<rparr>)" "\<not> write_back (shared_vm l) (anon_page None 0x08049000)"
    by (simp_all add: write_back_def page_dirty_def pd_is_dirty_def) (simp_all add: shared_vm_def file_page_def anon_page_def pte_defs)
  have c: "content_of (shared_vm l) (file_page\<lparr>pg_private := False\<rparr>) = replicate 4096 7"
    by (simp add: content_of_def) (simp add: shared_vm_def small_vm_def file_page_def anon_page_def)
  have "take 3 (replicate 4096 7) = [7, 7, 7 :: u8]" by (simp add: numeral_eq_Suc)
  then show "written_back (shared_vm l) (file_page\<lparr>pg_private := False\<rparr>) = [7, 7, 7] @ replicate 4093 0"
    unfolding written_back_def c by (simp add: file_page_def pad_page_def)
  show "contents (shared_vm l) 0 = Some (replicate 4096 7)" by (simp add: contents_def h c)
qed

lemma shared_alone: "alone (shared_vm l) 0 (file_page\<lparr>pg_private := False\<rparr>)" "fits (shared_vm l) (file_page\<lparr>pg_private := False\<rparr>)"
  unfolding alone_def shared_facts(1) by (simp_all add: file_page_def anon_page_def fits_def shared_vm_def)

lemma shared_ready: "ready (shared_vm l)"
proof -
  have m: "bm_inv (sw_bitmap (shared_vm l))" using small_bitmap(1) [of 2] by (simp add: shared_vm_def)
  have "swap_ok (shared_vm l)"
    unfolding swap_ok_def shared_facts(1) using m by (simp add: file_page_def anon_page_def) (simp add: shared_vm_def small_vm_def)
  moreover have "frames_ok (shared_vm l)" "owners_ok (shared_vm l)"
    unfolding frames_ok_def owners_ok_def shared_facts(1)
    by (simp_all add: file_page_def anon_page_def) (simp_all add: shared_vm_def small_vm_def)
  moreover have "page_dirty (shared_vm l) (file_page\<lparr>pg_private := False\<rparr>)" using shared_facts(2) [of l] by (simp add: write_back_def)
  then have "pages_ok (shared_vm l)"
    unfolding pages_ok_def shared_facts(1)
    by (auto simp: file_page_def anon_page_def pg_ofs_def PGMASK_def is_user_vaddr_def PHYS_BASE_def split: if_splits)
  moreover have "maps_ok (shared_vm l)"
    unfolding maps_ok_def using shared_facts [of l] shared_alone [of l] by (auto split: if_splits)
  ultimately show ?thesis by (simp add: ready_def vm_ok_def)
qed

section \<open>Swap\<close>

text \<open>
  C19. \<^verbatim>\<open>page_swap_out\<close> puts a page in a slot that no other page has, and \<^verbatim>\<open>page_swap_in\<close> into any
  frame gives the bytes of the page back and frees exactly that slot.
\<close>

theorem swap_round_trip:
  assumes "swap_ok vm" and "page_heap vm p = Some pg" "pg_frame pg = Some i" "length (frame_mem vm i) = 4096"
    and "frame_held t (Some i) vm" and "page_swap_out t p vm = Some (True, vm1)"
    and "frame_held t (Some j) vm" and "length (frame_mem vm j) = 4096"
  shows "(\<exists>pg1. page_heap vm1 p = Some pg1 \<and> swap_sec pg1 \<noteq> NO_SECTOR \<and>
      (\<forall>q qg. page_heap vm q = Some qg \<longrightarrow> swap_sec qg \<noteq> swap_sec pg1)) \<and>
    (\<exists>vm2. page_swap_in t p (upd_page p (\<lambda>pg. pg\<lparr>pg_frame := Some j\<rparr>) vm1) = Some vm2 \<and>
      frame_mem vm2 j = frame_mem vm i \<and> bm_used (sw_bitmap vm2) = bm_used (sw_bitmap vm))"
proof -
  obtain slot b where o: "slot \<notin> bm_used (sw_bitmap vm)"
    "slot < bit_cnt (sw_bitmap vm)" "bm_inv b" "bit_cnt b = bit_cnt (sw_bitmap vm)"
    "bm_used b = insert slot (bm_used (sw_bitmap vm))"
    and vm1: "vm1 = vm\<lparr>page_heap := (page_heap vm)(p \<mapsto> swapped_page slot pg), sw_bitmap := b,
         swap_dev := (\<lambda>x. if slot * 8 \<le> x \<and> x < slot * 8 + 8
           then take 512 (drop ((x - slot * 8) * 512) (frame_mem vm i)) else swap_dev vm x)\<rparr>"
    using assms(1-3,5)
  proof (cases rule: page_swap_out_spec)
    case full
    then show ?thesis using assms(6) by simp
  next
    case (out slot b)
    then show ?thesis using assms(6) that [of slot b] by simp
  qed
  have dev: "length (swap_dev vm x) = 512" for x using assms(1) by (simp add: swap_ok_def)
  have cap: "slot * 8 < 4294967295" using assms(1) o(2) by (simp add: swap_ok_def)
  note w = swap_slot_word [OF cap]
  let ?vm = "upd_page p (\<lambda>pg. pg\<lparr>pg_frame := Some j\<rparr>) vm1"
  let ?pg = "(swapped_page slot pg)\<lparr>pg_frame := Some j\<rparr>"
  have vm: "page_heap ?vm p = Some ?pg" "sw_bitmap ?vm = b" "swap_dev ?vm = swap_dev vm1" "frame_mem ?vm = frame_mem vm"
    "s_frame ?vm = s_frame vm"
    by (simp_all add: upd_page_def vm1)
  have sec: "swap_sec ?pg = of_nat (slot * 8)" by (simp add: swapped_page_def)
  have len1: "length (swap_dev vm1 x) = 512" for x
    using dev assms(4) by (auto simp: vm1 min_def)
  have "\<exists>b'. page_swap_in t p ?vm = Some (?vm\<lparr>frame_mem := (frame_mem ?vm)(j := sectors (swap_dev ?vm) (unat (swap_sec ?pg)) 8),
      sw_bitmap := b', page_heap := (page_heap ?vm)(p \<mapsto> ?pg\<lparr>swap_sec := NO_SECTOR\<rparr>)\<rparr>) \<and>
    bm_inv b' \<and> bit_cnt b' = bit_cnt (sw_bitmap ?vm) \<and> bm_used b' = bm_used (sw_bitmap ?vm) - {unat (swap_sec ?pg) div 8}"
    using assms(7,8) o(2-4) w sec vm len1
    by (intro page_swap_in_spec) (simp_all add: frame_held_def del: of_nat_mult)
  then obtain b' where b': "page_swap_in t p ?vm = Some (?vm\<lparr>frame_mem := (frame_mem ?vm)(j := sectors (swap_dev ?vm) (unat (swap_sec ?pg)) 8),
      sw_bitmap := b', page_heap := (page_heap ?vm)(p \<mapsto> ?pg\<lparr>swap_sec := NO_SECTOR\<rparr>)\<rparr>)"
    "bm_used b' = insert slot (bm_used (sw_bitmap vm)) - {slot}"
    using w sec vm(2) o(5) by (auto simp del: of_nat_mult)
  have "sectors (swap_dev ?vm) (unat (swap_sec ?pg)) 8 = take (8 * 512) (frame_mem vm i)"
    unfolding sec w(1) by (rule sectors_of_content) (simp only: vm(3), simp add: vm1)
  then have "sectors (swap_dev ?vm) (unat (swap_sec ?pg)) 8 = frame_mem vm i" using assms(4) by simp
  moreover have "bm_used b' = bm_used (sw_bitmap vm)" using b'(2) o(1) by simp
  moreover have "swap_sec qg \<noteq> of_nat (slot * 8)" if "page_heap vm q = Some qg" for q qg
  proof
    assume e: "swap_sec qg = of_nat (slot * 8)"
    then have "unat (swap_sec qg) div 8 \<in> bm_used (sw_bitmap vm)"
      using assms(1) that w(2) unfolding swap_ok_def by metis
    then show False using e w(1) o(1) by (simp del: of_nat_mult)
  qed
  ultimately show ?thesis using b'(1) w(2) by (simp add: vm1 swapped_page_def del: of_nat_mult)
qed

text \<open>The small machine with its frame held by thread 1.\<close>

definition held_vm :: "nat \<Rightarrow> vm" where
  "held_vm slots = (small_vm slots)\<lparr>s_frame := [\<lparr>fkbase = 0xC0100000, fr_page = Some 0, fr_lock = Some 1\<rparr>]\<rparr>"

lemma anon_page_frame [simp]: "pg_frame (anon_page fr va) = fr"
  by (simp add: anon_page_def)

lemma held_vm_page: "page_heap (held_vm slots) 0 = Some (anon_page (Some 0) 0x08048000)"
  "frame_held 1 (Some 0) (held_vm slots)" "length (frame_mem (held_vm slots) 0) = 4096"
  by (simp_all add: held_vm_def small_vm_def frame_held_def)

lemma held_vm_ok: "slots \<le> 32 \<Longrightarrow> vm_ok (held_vm slots)"
proof -
  assume s: "slots \<le> 32"
  have "quiet (small_vm slots) (held_vm slots)" by (simp add: quiet_def held_vm_def same_dirty_def) (simp add: small_vm_def)
  from quiet_inv [OF this] show "vm_ok (held_vm slots)" using small_ready [OF s] by (simp add: ready_def vm_ok_def)
qed

lemma held_vm_swap_out: "\<exists>vm1. page_swap_out 1 0 (held_vm 2) = Some (True, vm1)"
proof -
  have "swap_ok (held_vm 2)" using held_vm_ok [of 2] by (simp add: vm_ok_def)
  then show ?thesis using held_vm_page(1) anon_page_frame held_vm_page(2)
  proof (cases rule: page_swap_out_spec)
    case full
    have "sw_bitmap (held_vm 2) = sw_bitmap (small_vm 2)" "bit_cnt (sw_bitmap (small_vm 2)) = 2"
      by (simp_all add: held_vm_def small_vm_def)
    then have "0 \<in> bm_used (sw_bitmap (small_vm 2))" using full(2) by simp
    then show ?thesis using small_bitmap(2) [of 2] by simp
  qed auto
qed

lemma swap_round_trip_witness:
  "\<exists>vm1 vm2. page_swap_out 1 0 (held_vm 2) = Some (True, vm1) \<and>
    page_swap_in 1 0 (upd_page 0 (\<lambda>pg. pg\<lparr>pg_frame := Some 0\<rparr>) vm1) = Some vm2 \<and> frame_mem vm2 0 = replicate 4096 7"
proof -
  obtain vm1 where v: "page_swap_out 1 0 (held_vm 2) = Some (True, vm1)" using held_vm_swap_out by blast
  have "swap_ok (held_vm 2)" using held_vm_ok [of 2] by (simp add: vm_ok_def)
  from swap_round_trip [OF this held_vm_page(1) _ held_vm_page(3) held_vm_page(2) v held_vm_page(2) held_vm_page(3)]
  show ?thesis using v by (auto simp: anon_page_def held_vm_def small_vm_def)
qed

section \<open>Eviction\<close>



section \<open>Page faults\<close>

text \<open>
  C18. Bringing a page in, with whatever page has to be evicted for it, changes the bytes of no page and
  keeps the frame table, the swap device, the pages and their files consistent; on success the page is in a frame that
  the thread has locked, on failure no page and no frame has changed. The pages of files that have been modified lie in parts of
  their files that do not overlap (\<open>maps_ok\<close>); one that is evicted keeps the bytes that lie in the file.
\<close>

theorem do_page_in_transparent:
  assumes "ready vm" and "free_locks t vm" and "s_lock vm = None"
    and "page_heap vm p = Some pg" "pg_frame pg = None" and "byts_rw_f pg \<le> 4096"
    and "s_frame vm = [] \<or> f_hand vm < length (s_frame vm)"
  shows "\<exists>ok vm'. do_page_in t p vm = Some (ok, vm') \<and> ready vm' \<and> (\<forall>q. kept_page vm vm' q) \<and> contents vm' p = contents vm p \<and>
    (if ok then \<exists>i pg'. page_heap vm' p = Some pg' \<and> pg_frame pg' = Some i \<and> frame_held t (Some i) vm'
     else page_heap vm' = page_heap vm \<and> s_frame vm' = s_frame vm \<and> (\<forall>q. contents vm' q = contents vm q))"
proof -
  obtain ok vm' where r: "do_page_in t p vm = Some (ok, vm')" "if ok then paged_in t p vm vm' else denied vm vm'"
    using do_page_in_spec [OF assms] by blast
  show ?thesis
  proof (cases ok)
    case True
    then show ?thesis using r by (intro exI [of _ ok] exI [of _ vm']) (auto simp: paged_in_def)
  next
    case False
    then have "quiet vm vm'" "s_frame vm' = s_frame vm" using r(2) by (simp_all add: denied_def)
    then show ?thesis using r(1) False quiet_inv [of vm vm'] assms(1)
      by (intro exI [of _ ok] exI [of _ vm']) (simp add: quiet_def ready_def vm_ok_def kept_same)
  qed
qed



lemma do_page_in_transparent_witness:
  "\<exists>ok vm'. do_page_in 1 1 (shared_vm None) = Some (ok, vm') \<and> contents vm' 1 = Some (replicate 4096 0) \<and>
    (contents vm' 0 = Some (replicate 4096 7) \<or> contents vm' 0 = Some ([7, 7, 7] @ replicate 4093 0))"
proof -
  let ?vm = "shared_vm None"
  have f: "free_locks 1 ?vm" "s_lock ?vm = None" "s_frame ?vm = [] \<or> f_hand ?vm < length (s_frame ?vm)"
    by (simp_all add: shared_vm_def small_vm_def free_locks_def)
  have p: "page_heap ?vm 1 = Some (anon_page None 0x08049000)" by (simp add: shared_facts)
  have "byts_rw_f (anon_page None 0x08049000) \<le> 4096" by (simp add: anon_page_def)
  from do_page_in_transparent [OF shared_ready f(1,2) p anon_page_frame this f(3)]
  obtain ok vm' where r: "do_page_in 1 1 ?vm = Some (ok, vm')" "kept_page ?vm vm' 0" "contents vm' 1 = contents ?vm 1" by auto
  have "contents ?vm 1 = Some (replicate 4096 0)" using p by (simp add: contents_def content_of_def backing_def anon_page_def)
  moreover have "page_heap ?vm 0 = Some (file_page\<lparr>pg_private := False\<rparr>)" by (simp add: shared_facts)
  then have "contents vm' 0 = Some (replicate 4096 7) \<or> contents vm' 0 = Some ([7, 7, 7] @ replicate 4093 0)"
    using r(2) shared_facts(4,5) [of None] by (auto simp: kept_page_def)
  ultimately show ?thesis using r by auto
qed





section \<open>The page table\<close>

lemma page_eqv: "less_func.eqv check_hash_entries a b \<longleftrightarrow> pe_vaddr a = pe_vaddr b"
  by (auto simp: page_table.eqv_def check_hash_entries_def not_less intro: order.antisym)

lemma page_client: "page_table.client h \<longleftrightarrow> less_fn h = check_hash_entries \<and> hash_fn h = get_page_hash_value"
  by (simp add: page_table.client_def)

definition with_zero_page :: "nat \<Rightarrow> nat \<Rightarrow> u32 \<Rightarrow> page_elem hash_table \<Rightarrow> vm \<Rightarrow> vm" where
  "with_zero_page t p va h vm = vm\<lparr>page_tables := (page_tables vm)(t \<mapsto> h),
     page_heap := (page_heap vm)(p \<mapsto> \<lparr>pg_frame = None, pg_thread = t, pg_file = None, pg_private = True,
       swap_sec = NO_SECTOR, user_vaddr = va, ro_page = False, f_ofs = 0, byts_rw_f = 0\<rparr>)\<rparr>"

text \<open>
  C36. \<^verbatim>\<open>page_for_addr\<close> returns the page that is mapped at the address. An address with no page gets a
  new zero page if it lies within the largest stack and at most 32 bytes below the stack pointer, and
  that page is then found at every address of it and all other lookups are as before; any other address
  has no page.
\<close>

theorem page_for_addr_stack_growth:
  assumes "page_tables vm t = Some h" and "hash_ok h" and "less_fn h = check_hash_entries"
    and "hash_fn h = get_page_hash_value" and "length (hash_elems h) < 4294967295" and "env_page env = Some p"
    and "base = pg_round_down va"
  shows "(if PHYS_BASE \<le> va then page_for_addr env t va vm = Some (None, vm)
    else if \<exists>e\<in>set (hash_elems h). pe_vaddr e = base
    then \<exists>e\<in>set (hash_elems h). pe_vaddr e = base \<and> page_for_addr env t va vm = Some (Some (pe_page e), vm)
    else if PHYS_BASE - MAX_STACK_SIZE \<le> va \<and> user_stack_ptr vm t - 32 \<le> va
    then \<exists>h'. page_for_addr env t va vm = Some (Some p, with_zero_page t p base h' vm) \<and> hash_ok h' \<and>
      (\<forall>e. hash_find h' e = (if pe_vaddr e = base then Some \<lparr>pe_vaddr = base, pe_page = p\<rparr> else hash_find h e))
    else page_for_addr env t va vm = Some (None, vm))"
proof -
  let ?k = "\<lambda>n. \<lparr>pe_vaddr = base, pe_page = n\<rparr>"
  have cl: "page_table.client h" using assms(3,4) by (simp add: page_client)
  note find = page_table.hash_find_Some [OF assms(2) cl]
  note nofind = page_table.hash_find_None [OF assms(2) cl]
  consider (kernel) "PHYS_BASE \<le> va" | (present) e where "va < PHYS_BASE" "e \<in> set (hash_elems h)" "pe_vaddr e = base"
    | (absent) "va < PHYS_BASE" "\<forall>e\<in>set (hash_elems h). pe_vaddr e \<noteq> base"
    by fastforce
  then show ?thesis
  proof cases
    case kernel
    then have "page_for_addr env t va vm = Some (None, vm)" by (auto simp: page_for_addr_def)
    then show ?thesis using kernel by simp
  next
    case (present e)
    then have "hash_find h (?k 0) = Some e" by (simp add: find page_eqv)
    then have "page_for_addr env t va vm = Some (Some (pe_page e), vm)"
      using present assms(1,7) by (simp add: page_for_addr_def)
    then show ?thesis using present by auto
  next
    case absent
    then have n: "hash_find h (?k x) = None" for x by (simp add: nofind page_eqv)
    obtain h' where h': "hash_insert (env_hash env) h (?k p) = Some (None, h')" "hash_ok h'"
      "\<forall>e. hash_find h' e = (if less_func.eqv check_hash_entries (?k p) e then Some (?k p) else hash_find h e)"
      using page_table.hash_insert_map [OF assms(2) cl assms(5), of "env_hash env" "?k p"] n by auto
    have f: "hash_find h' e = (if pe_vaddr e = base then Some (?k p) else hash_find h e)" for e
      using h'(3) by (auto simp: page_eqv)
    have "allocation_of_page env t va False vm = Some (Some p, with_zero_page t p base h' vm)"
      using h'(1) assms(1,6,7) by (simp add: allocation_of_page_def with_zero_page_def Let_def)
    then have "page_for_addr env t va vm =
        (if PHYS_BASE - MAX_STACK_SIZE \<le> va \<and> user_stack_ptr vm t - 32 \<le> va
         then Some (Some p, with_zero_page t p base h' vm) else Some (None, vm))"
      using n [of 0] absent(1) assms(1,7) by (simp add: page_for_addr_def)
    then show ?thesis using absent h'(2) f by auto
  qed
qed

definition small_table :: "page_elem hash_table" where
  "small_table = the (page_tables (small_vm 2) 1)"

lemma small_table_ok: "page_tables (small_vm 2) 1 = Some small_table" "hash_ok small_table"
  "less_fn small_table = check_hash_entries" "hash_fn small_table = get_page_hash_value"
  "hash_elems small_table = [\<lparr>pe_vaddr = 0x08048000, pe_page = 0\<rparr>, \<lparr>pe_vaddr = 0x08049000, pe_page = 1\<rparr>]"
proof -
  show e: "hash_elems small_table = [\<lparr>pe_vaddr = 0x08048000, pe_page = 0\<rparr>, \<lparr>pe_vaddr = 0x08049000, pe_page = 1\<rparr>]"
    "page_tables (small_vm 2) 1 = Some small_table"
    "less_fn small_table = check_hash_entries" "hash_fn small_table = get_page_hash_value"
    by (simp_all add: small_table_def small_vm_def hash_elems_def)
  have b: "bucket_cnt small_table = 4" "hash_table.elem_cnt small_table = 2"
    "buckets small_table = [[\<lparr>pe_vaddr = 0x08048000, pe_page = 0\<rparr>], [\<lparr>pe_vaddr = 0x08049000, pe_page = 1\<rparr>], [], []]"
    by (simp_all add: small_table_def small_vm_def)
  have "hash_shape small_table"
    unfolding hash_shape_def b
  proof (intro conjI)
    show "\<exists>k. unat (4 :: u32) = 2 ^ k \<and> 2 \<le> k" by (intro exI [of _ 2]) simp
    have i: "bucket_idx small_table \<lparr>pe_vaddr = 0x08048000, pe_page = 0\<rparr> = 0"
      "bucket_idx small_table \<lparr>pe_vaddr = 0x08049000, pe_page = 1\<rparr> = 1"
      by (simp_all add: bucket_idx_def get_page_hash_value_def PGBITS_def e b)
    show "\<forall>i<length [[\<lparr>pe_vaddr = 0x08048000, pe_page = 0\<rparr>], [\<lparr>pe_vaddr = 0x08049000, pe_page = 1\<rparr>], [], []].
      \<forall>x\<in>set ([[\<lparr>pe_vaddr = 0x08048000, pe_page = 0\<rparr>], [\<lparr>pe_vaddr = 0x08049000, pe_page = 1\<rparr>], [], []] ! i).
        bucket_idx small_table x = i"
      using i by (auto simp: nth_Cons split: nat.split)
  qed simp
  then show "hash_ok small_table"
    unfolding hash_ok_def e b using e(3) by (simp add: equal_elems_def check_hash_entries_def)
qed

lemma page_for_addr_stack_growth_witness:
  "\<exists>h'. page_for_addr \<lparr>env_page = Some 2, env_hash = True, env_pt = True\<rparr> 1 0xBFFFEFFC (small_vm 2) =
      Some (Some 2, with_zero_page 1 2 0xBFFFE000 h' (small_vm 2)) \<and>
    hash_find h' \<lparr>pe_vaddr = 0xBFFFE000, pe_page = 0\<rparr> = Some \<lparr>pe_vaddr = 0xBFFFE000, pe_page = 2\<rparr>"
proof -
  have n: "length (hash_elems small_table) < 4294967295" by (simp add: small_table_ok)
  have b: "0xBFFFE000 = pg_round_down 0xBFFFEFFC" by (simp add: pg_round_down_def PGMASK_def)
  have c: "\<not> PHYS_BASE \<le> 0xBFFFEFFC" "PHYS_BASE - MAX_STACK_SIZE \<le> 0xBFFFEFFC" "user_stack_ptr (small_vm 2) 1 - 32 \<le> 0xBFFFEFFC"
    by (simp_all add: PHYS_BASE_def MAX_STACK_SIZE_def small_vm_def)
  from page_for_addr_stack_growth [OF small_table_ok(1-4) n _ b, where p = 2 and env = "\<lparr>env_page = Some 2, env_hash = True, env_pt = True\<rparr>"]
  show ?thesis using c by (auto simp: small_table_ok)
qed

section \<open>What the code loses\<close>

text \<open>
  C37. When a page that is in swap is destroyed, its slot stays allocated although no page refers to it.
\<close>

theorem destroy_page_leaks_slot:
  assumes "swap_ok vm" and "page_heap vm (pe_page e) = Some pg" and "swap_sec pg \<noteq> NO_SECTOR"
  shows "\<exists>vm'. destroy_page t e vm = Some vm' \<and> page_heap vm' (pe_page e) = None \<and>
    unat (swap_sec pg) div PAGE_SECTORS \<in> bm_used (sw_bitmap vm') \<and>
    (\<forall>q qg. page_heap vm' q = Some qg \<longrightarrow> swap_sec qg \<noteq> swap_sec pg)"
proof -
  have s: "pg_frame pg = None" "unat (swap_sec pg) div 8 \<in> bm_used (sw_bitmap vm)"
    using assms unfolding swap_ok_def by blast+
  have "destroy_page t e vm = Some (vm\<lparr>page_heap := (page_heap vm)(pe_page e := None)\<rparr>)"
    using assms(2) s(1) by (simp add: destroy_page_def lock_curr_pg_frame_def Let_def)
  moreover have "swap_sec qg \<noteq> swap_sec pg" if "page_heap vm q = Some qg" "q \<noteq> pe_page e" for q qg
    using assms that unfolding swap_ok_def by metis
  ultimately show ?thesis using s(2) by auto
qed

definition swapped_vm :: vm where
  "swapped_vm = (small_vm 2)\<lparr>page_heap := [0 \<mapsto> (anon_page None 0x08048000)\<lparr>swap_sec := 8\<rparr>], sw_bitmap := \<lparr>bit_cnt = 2, bits = [2]\<rparr>\<rparr>"

lemma destroy_page_leaks_slot_witness:
  "\<exists>vm'. destroy_page 1 \<lparr>pe_vaddr = 0x08048000, pe_page = 0\<rparr> swapped_vm = Some vm' \<and> 1 \<in> bm_used (sw_bitmap vm') \<and>
    page_heap vm' 0 = None"
proof -
  have "bm_inv (sw_bitmap swapped_vm)" by (simp add: swapped_vm_def bm_inv_def BITMAP_ERROR_def)
  moreover have "1 \<in> bm_used (sw_bitmap swapped_vm)" by (simp add: swapped_vm_def bm_used_def bm_bit_def)
  ultimately have "swap_ok swapped_vm"
    by (simp add: swap_ok_def) (simp add: swapped_vm_def small_vm_def anon_page_def)
  moreover have "page_heap swapped_vm (pe_page \<lparr>pe_vaddr = 0x08048000, pe_page = 0\<rparr>) =
      Some ((anon_page None 0x08048000)\<lparr>swap_sec := 8\<rparr>)" by (simp add: swapped_vm_def)
  moreover have "swap_sec ((anon_page None 0x08048000)\<lparr>swap_sec := 8\<rparr>) \<noteq> NO_SECTOR" by (simp add: NO_SECTOR_def)
  ultimately have "\<exists>vm'. destroy_page 1 \<lparr>pe_vaddr = 0x08048000, pe_page = 0\<rparr> swapped_vm = Some vm' \<and>
      page_heap vm' (pe_page \<lparr>pe_vaddr = 0x08048000, pe_page = 0\<rparr>) = None \<and>
      unat (swap_sec ((anon_page None 0x08048000)\<lparr>swap_sec := 8\<rparr>)) div PAGE_SECTORS \<in> bm_used (sw_bitmap vm')"
    using destroy_page_leaks_slot [of swapped_vm "\<lparr>pe_vaddr = 0x08048000, pe_page = 0\<rparr>" "(anon_page None 0x08048000)\<lparr>swap_sec := 8\<rparr>" 1]
    by blast
  then show ?thesis by auto
qed

text \<open>Locking the frame of a page, evicting it, and unlocking, as the clock does.\<close>

definition evict_step :: "nat \<Rightarrow> nat \<Rightarrow> nat \<Rightarrow> vm \<Rightarrow> (bool \<times> vm) option" where
  "evict_step u p i vm = do {
     vm \<leftarrow> frame_lock_acquire u i vm;
     (ok, vm) \<leftarrow> page_out u p vm;
     vm \<leftarrow> frame_lock_release u i vm;
     Some (ok, vm) }"

lemma page_out_clean_file:
  assumes "page_heap vm p = Some pg" and "pg_frame pg = Some i" and "frame_held t (Some i) vm" and "pg_file pg = Some f"
    and "pg_ofs (user_vaddr pg) = 0" "is_user_vaddr (user_vaddr pg)"
    and "\<not> page_dirty vm pg"
  shows "\<exists>vm'. page_out t p vm = Some (True, vm') \<and> page_heap vm' p = Some (pg\<lparr>pg_frame := None\<rparr>) \<and>
    vm_files vm' = vm_files vm \<and> swap_dev vm' = swap_dev vm \<and> s_frame vm' = s_frame vm"
  using assms clear_bit_keeps_dirty(1) [of "ptes vm (pg_thread pg) (user_vaddr pg)"]
  by (simp add: page_out_def pd_clear_page_def pd_is_dirty_def page_dirty_def Let_def upd_page_def frame_held_def)

lemma page_out_full:
  assumes "page_heap vm p = Some pg" and "pg_frame pg = Some i" and "frame_held t (Some i) vm" and "pg_file pg = Some f"
    and "pg_ofs (user_vaddr pg) = 0" "is_user_vaddr (user_vaddr pg)" and "page_dirty vm pg" "pg_private pg"
    and "swap_ok vm" and full: "bm_used (sw_bitmap vm) = {..<bit_cnt (sw_bitmap vm)}"
  shows "page_out t p vm = Some (False, vm\<lparr>ptes := (ptes vm)(pg_thread pg := (ptes vm (pg_thread pg))
        (user_vaddr pg := ptes vm (pg_thread pg) (user_vaddr pg) AND NOT PTE_P))\<rparr>)"
proof -
  let ?vm = "vm\<lparr>ptes := (ptes vm)(pg_thread pg := (ptes vm (pg_thread pg))
        (user_vaddr pg := ptes vm (pg_thread pg) (user_vaddr pg) AND NOT PTE_P))\<rparr>"
  have p: "page_heap ?vm p = Some pg" "frame_held t (Some i) ?vm" using assms by (simp_all add: frame_held_def)
  have sw: "swap_ok ?vm" using assms(9) by (simp add: swap_ok_def)
  have "page_swap_out t p ?vm = Some (False, ?vm)"
    using sw p(1) assms(2) p(2)
  proof (cases rule: page_swap_out_spec)
    case (out slot b)
    then show ?thesis using full by simp
  qed simp
  then show ?thesis
    using assms clear_bit_keeps_dirty(1) [of "ptes vm (pg_thread pg) (user_vaddr pg)"]
    by (simp add: page_out_def pd_clear_page_def pd_is_dirty_def page_dirty_def Let_def frame_held_def)
qed



lemma fresh_pte_clean:
  assumes "kpage_ok k"
  shows "((k - PHYS_BASE) OR pte_flags w) AND PTE_D = 0"
proof -
  have z: "(k - PHYS_BASE) AND PGMASK = 0" using assms pg_ofs_diff_base [of k] by (simp add: kpage_ok_def pg_ofs_def)
  have "PGMASK AND PTE_D = PTE_D" by (simp add: PGMASK_def pte_defs)
  then have "(k - PHYS_BASE) AND PTE_D = ((k - PHYS_BASE) AND PGMASK) AND PTE_D" by (simp only: and.assoc)
  then have "(k - PHYS_BASE) AND PTE_D = 0" unfolding z by simp
  moreover have "pte_flags w AND PTE_D = 0" by (simp add: pte_flags_def pte_defs)
  ultimately show ?thesis by (simp add: bit.conj_disj_distrib2)
qed

lemma page_in_resident:
  assumes "page_tables vm t = Some h" and "addr < PHYS_BASE"
    and "hash_find h \<lparr>pe_vaddr = pg_round_down addr, pe_page = 0\<rparr> = Some e" and "pe_page e = p"
    and pg: "page_heap vm p = Some pg" "pg_frame pg = Some i"
    and i: "i < length (s_frame vm)" "fr_lock (s_frame vm ! i) = None" "kpage_ok (fkbase (s_frame vm ! i))"
    and va: "pg_ofs (user_vaddr pg) = 0" "is_user_vaddr (user_vaddr pg)" and "env_pt env"
    and np: "ptes vm t (user_vaddr pg) AND PTE_P = 0"
  shows "\<exists>w. page_in env t addr vm = Some (True, vm\<lparr>ptes := (ptes vm)(t := (ptes vm t)(user_vaddr pg := w))\<rparr>) \<and>
    w AND PTE_D = 0"
proof -
  let ?f = "s_frame vm ! i" and ?w = "(fkbase (s_frame vm ! i) - PHYS_BASE) OR pte_flags (\<not> ro_page pg)"
  let ?v1 = "upd_frame i (\<lambda>f. f\<lparr>fr_lock := Some t\<rparr>) vm"
  let ?v2 = "?v1\<lparr>ptes := (ptes vm)(t := (ptes vm t)(user_vaddr pg := ?w))\<rparr>"
  have fa: "page_for_addr env t addr vm = Some (Some p, vm)"
    using assms(1-4) by (simp add: page_for_addr_def)
  have lk: "lock_curr_pg_frame t p vm = Some ?v1"
    using pg i by (simp add: lock_curr_pg_frame_def frame_lock_acquire_def upd_frame_def)
  have v1: "page_heap ?v1 = page_heap vm" "s_frame ?v1 = (s_frame vm)[i := ?f\<lparr>fr_lock := Some t\<rparr>]" "ptes ?v1 = ptes vm"
    by (simp_all add: upd_frame_def)
  have set: "pd_set_page t (user_vaddr pg) (fkbase (s_frame ?v1 ! i)) (\<not> ro_page pg) (env_pt env) ?v1 = Some (True, ?v2)"
    using i va np assms(12) pte_create_user_kpage [OF i(3)] by (simp add: pd_set_page_def v1 kpage_ok_def)
  have un: "unlock_curr_pg_frame t i ?v2 = Some (vm\<lparr>ptes := (ptes vm)(t := (ptes vm t)(user_vaddr pg := ?w))\<rparr>)"
    using i by (simp add: unlock_curr_pg_frame_def frame_held_def frame_lock_release_def v1)
      (simp add: upd_frame_def relock_id)
  have "page_in env t addr vm = Some (True, vm\<lparr>ptes := (ptes vm)(t := (ptes vm t)(user_vaddr pg := ?w))\<rparr>)"
    using assms(1) fa lk pg i v1 set un by (simp add: page_in_def frame_held_def)
  then show ?thesis using fresh_pte_clean [OF i(3)] by blast
qed

text \<open>
  C38. A modified private page of a file is lost when its eviction fails once: \<^verbatim>\<open>page_out\<close> has unmapped
  it, the next access maps it again with a new entry that is not marked dirty, and the next eviction then
  takes the page for clean and drops its bytes, so that the page reads as the file again.
\<close>

theorem failed_eviction_loses_write:
  assumes ok: "vm_ok vm" and pg: "page_heap vm p = Some pg" "pg_frame pg = Some i" "pg_file pg = Some f" "pg_private pg"
    and d: "page_dirty vm pg" and full: "bm_used (sw_bitmap vm) = {..<bit_cnt (sw_bitmap vm)}"
    and fr: "fr_lock (s_frame vm ! i) = None" "kpage_ok (fkbase (s_frame vm ! i))"
    and tab: "page_tables vm (pg_thread pg) = Some h" "addr < PHYS_BASE"
      "hash_find h \<lparr>pe_vaddr = pg_round_down addr, pe_page = 0\<rparr> = Some e" "pe_page e = p" and "env_pt env"
  shows "\<exists>vm1 vm2 vm3. evict_step u p i vm = Some (False, vm1) \<and>
    page_in env (pg_thread pg) addr vm1 = Some (True, vm2) \<and> contents vm2 p = contents vm p \<and>
    evict_step u p i vm2 = Some (True, vm3) \<and> contents vm3 p = Some (backing vm pg)"
proof -
  let ?t = "pg_thread pg" and ?va = "user_vaddr pg" and ?l = "\<lambda>vm. upd_frame i (\<lambda>f. f\<lparr>fr_lock := Some u\<rparr>) vm"
  have va: "pg_ofs ?va = 0" "is_user_vaddr ?va" using ok pg by (auto simp: vm_ok_def pages_ok_def)
  have i: "i < length (s_frame vm)" using ok pg by (auto simp: vm_ok_def frames_ok_def)
  have sw: "swap_ok (?l vm)" using ok by (simp add: vm_ok_def swap_ok_def upd_frame_def)
  let ?v1 = "vm\<lparr>ptes := (ptes vm)(?t := (ptes vm ?t)(?va := ptes vm ?t ?va AND NOT PTE_P))\<rparr>"
  have "page_out u p (?l vm) = Some (False, ?l ?v1)"
    using page_out_full [of "?l vm" p pg i u f] pg va d full sw i
    by (simp add: frame_held_def upd_frame_def page_dirty_def pd_is_dirty_def)
  then have e1: "evict_step u p i vm = Some (False, ?v1)"
    using i fr by (simp add: evict_step_def frame_lock_acquire_def frame_lock_release_def)
      (simp add: upd_frame_def relock_id)
  have np: "(ptes vm ?t ?va AND NOT PTE_P) AND PTE_P = 0"
  proof -
    have "NOT PTE_P AND PTE_P = 0" by (simp add: pte_defs)
    then show ?thesis by (simp add: and.assoc)
  qed
  obtain w where w: "page_in env ?t addr ?v1 = Some (True, ?v1\<lparr>ptes := (ptes ?v1)(?t := (ptes ?v1 ?t)(?va := w))\<rparr>)"
    "w AND PTE_D = 0"
    using page_in_resident [of ?v1 ?t h addr e p pg i env] tab pg i fr va assms(14) np by auto
  let ?v2 = "?v1\<lparr>ptes := (ptes ?v1)(?t := (ptes ?v1 ?t)(?va := w))\<rparr>"
  have "contents ?v2 p = contents vm p" by (intro contents_cong conjI content_of_cong backing_cong) simp_all
  moreover have "\<exists>v3. page_out u p (?l ?v2) = Some (True, v3) \<and> page_heap v3 p = Some (pg\<lparr>pg_frame := None\<rparr>) \<and>
      vm_files v3 = vm_files (?l ?v2) \<and> swap_dev v3 = swap_dev (?l ?v2) \<and> s_frame v3 = s_frame (?l ?v2)"
    using page_out_clean_file [of "?l ?v2" p pg i u f] pg va i w(2)
    by (simp add: upd_frame_def frame_held_def page_dirty_def pd_is_dirty_def)
  then obtain v3 where v3: "page_out u p (?l ?v2) = Some (True, v3)" "page_heap v3 p = Some (pg\<lparr>pg_frame := None\<rparr>)"
      "vm_files v3 = vm_files vm" "swap_dev v3 = swap_dev vm" "s_frame v3 = (s_frame vm)[i := (s_frame vm ! i)\<lparr>fr_lock := Some u\<rparr>]"
    by (auto simp: upd_frame_def)
  let ?v4 = "upd_frame i (\<lambda>f. f\<lparr>fr_lock := None\<rparr>) v3"
  have "evict_step u p i ?v2 = Some (True, ?v4)"
    using v3 i fr by (simp add: evict_step_def frame_lock_acquire_def frame_lock_release_def)
  moreover have "contents ?v4 p = Some (backing vm pg)"
    using v3 by (simp add: contents_def content_of_def upd_frame_def backing_def pg)
  ultimately show ?thesis using e1 w(1) by blast
qed


text \<open>Thread 1 has modified page 0, a private page of file 5; there is no swap.\<close>

definition dirty_vm :: vm where
  "dirty_vm = (small_vm 0)\<lparr>page_heap := [0 \<mapsto> file_page], vm_files := (\<lambda>_. [1, 2, 3]), ptes := (\<lambda>_ _. PTE_D)\<rparr>"

lemma failed_eviction_loses_write_witness:
  "\<exists>vm1 vm2 vm3. evict_step 2 0 0 dirty_vm = Some (False, vm1) \<and>
    page_in \<lparr>env_page = None, env_hash = True, env_pt = True\<rparr> 1 0x08048010 vm1 = Some (True, vm2) \<and>
    contents vm2 0 = Some (replicate 4096 7) \<and>
    evict_step 2 0 0 vm2 = Some (True, vm3) \<and> contents vm3 0 = Some ([1, 2, 3] @ replicate 4093 0)"
proof -
  have sb: "bm_inv (sw_bitmap dirty_vm)" "bm_used (sw_bitmap dirty_vm) = {..<bit_cnt (sw_bitmap dirty_vm)}"
    by (simp_all add: dirty_vm_def small_vm_def bm_inv_def BITMAP_ERROR_def bm_used_def)
  have dirty: "page_dirty dirty_vm file_page"
    by (simp add: page_dirty_def pd_is_dirty_def dirty_vm_def pte_defs)
  have heap: "page_heap dirty_vm = [0 \<mapsto> file_page]" by (simp add: dirty_vm_def)
  have fp: "pg_frame file_page = Some 0" "pg_file file_page = Some 5" "pg_private file_page" "pg_thread file_page = 1"
    "swap_sec file_page = NO_SECTOR" "user_vaddr file_page = 0x08048000"
    by (simp_all add: file_page_def anon_page_def)
  have "swap_ok dirty_vm" using sb(1) heap fp by (simp add: swap_ok_def) (simp add: dirty_vm_def small_vm_def)
  moreover have "frames_ok dirty_vm" "owners_ok dirty_vm"
    using heap fp by (simp_all add: frames_ok_def owners_ok_def) (simp_all add: dirty_vm_def small_vm_def)
  moreover have "pages_ok dirty_vm"
    using heap fp dirty by (simp add: pages_ok_def pg_ofs_def PGMASK_def is_user_vaddr_def PHYS_BASE_def)
  ultimately have ok: "vm_ok dirty_vm" by (simp add: vm_ok_def)
  have fr: "fr_lock (s_frame dirty_vm ! 0) = None" "kpage_ok (fkbase (s_frame dirty_vm ! 0))"
    by (simp_all add: dirty_vm_def small_vm_def kpage_ok_def pg_ofs_def PGMASK_def is_kernel_vaddr_def PHYS_BASE_def)
  have tab: "page_tables dirty_vm (pg_thread file_page) = Some small_table"
    using small_table_ok(1) fp by (simp add: dirty_vm_def small_vm_def)
  have rd: "pg_round_down 0x08048010 = 0x08048000" by (simp add: pg_round_down_def PGMASK_def)
  have find: "hash_find small_table \<lparr>pe_vaddr = pg_round_down 0x08048010, pe_page = 0\<rparr> =
      Some \<lparr>pe_vaddr = 0x08048000, pe_page = 0\<rparr>"
    using small_table_ok by (simp add: rd page_table.hash_find_Some page_client page_eqv)
  have lt: "(0x08048010 :: u32) < PHYS_BASE" by (simp add: PHYS_BASE_def)
  have "backing dirty_vm file_page = [1, 2, 3] @ replicate 4093 0"
    by (simp add: backing_def fp pad_page_def file_bytes_def) (simp add: file_page_def dirty_vm_def anon_page_def)
  moreover have "contents dirty_vm 0 = Some (replicate 4096 7)"
    by (simp add: contents_def content_of_def heap fp) (simp add: dirty_vm_def small_vm_def)
  ultimately show ?thesis
    using failed_eviction_loses_write [OF ok _ fp(1-3) dirty sb(2) fr tab lt find, of 0
      "\<lparr>env_page = None, env_hash = True, env_pt = True\<rparr>" 2] heap fp(4)
    by simp
qed

end
