(* ===== verification/Inode.thy ===== *)
theory Inode
  imports Bitmap
begin

text \<open>
  Files on disk: the block device as the file system uses it (\<^verbatim>\<open>devices/block.c\<close>), in-memory inodes
  (\<^verbatim>\<open>filesys/inode.c\<close>), open files (\<^verbatim>\<open>filesys/file.c\<close>) and the free map (\<^verbatim>\<open>filesys/free-map.c\<close>,
  \<^verbatim>\<open>bitmap_read\<close> and \<^verbatim>\<open>bitmap_write\<close>).

  The state has the sectors of the file system device, the in-memory inodes with the list of open
  ones, the open files and the free map. An object is named by the number of the allocation that made
  it; the field \<open>mem_ok\<close> says which allocations succeed. \<open>None\<close> is a panic, a failed assertion or the
  use of a null or freed object. Offsets are natural numbers, as \<^verbatim>\<open>file_seek\<close> asserts and all callers
  ensure; sizes are signed. The device of the file system is taken not to be of the type
  \<^verbatim>\<open>BLOCK_FOREIGN\<close>, which \<^verbatim>\<open>block_write\<close> asserts.
\<close>

section \<open>State\<close>

definition SECTOR_SIZE :: nat where "SECTOR_SIZE = 512"
definition INODE_MAGIC :: u32 where "INODE_MAGIC = 0x494e4f44"

record inode_disk =
  id_start :: nat
  id_length :: int
  id_magic :: u32

record inode =
  in_sector :: nat
  open_cnt :: int
  removed :: bool
  deny_write_cnt :: int
  in_data :: inode_disk

record ofile =
  f_inode :: nat
  f_pos :: nat
  f_deny_write :: bool

record fs =
  disk :: "nat \<Rightarrow> u8 list"
  disk_size :: nat
  mem_ok :: "nat \<Rightarrow> bool"
  mem_next :: nat
  open_inodes :: "nat list"
  inodes :: "nat \<Rightarrow> inode option"
  ofiles :: "nat \<Rightarrow> ofile option"
  free_map :: bitmap
  free_map_file :: "nat option"

text \<open>\<^verbatim>\<open>malloc\<close> and \<^verbatim>\<open>calloc\<close>: each call has a number, which names the object it returns.\<close>

definition fs_malloc :: "fs \<Rightarrow> nat option \<times> fs" where
  "fs_malloc s = (if mem_ok s (mem_next s) then Some (mem_next s) else None, s\<lparr>mem_next := mem_next s + 1\<rparr>)"

definition block_read :: "fs \<Rightarrow> nat \<Rightarrow> u8 list option" where
  "block_read s sector = do { ASSERT (sector < disk_size s); Some (disk s sector) }"

definition block_write :: "fs \<Rightarrow> nat \<Rightarrow> u8 list \<Rightarrow> fs option" where
  "block_write s sector b = do { ASSERT (sector < disk_size s); Some (s\<lparr>disk := (disk s)(sector := b)\<rparr>) }"

text \<open>The on-disk inode: three words and 500 unused bytes.\<close>

definition inode_disk_bytes :: "inode_disk \<Rightarrow> u8 list" where
  "inode_disk_bytes d = le32 (of_nat (id_start d)) @ le32 (of_int (id_length d)) @ le32 (id_magic d) @ replicate 500 0"

definition inode_disk_of :: "u8 list \<Rightarrow> inode_disk" where
  "inode_disk_of b = \<lparr>id_start = unat (of_le32 b), id_length = sint (of_le32 (drop 4 b)), id_magic = of_le32 (drop 8 b)\<rparr>"

text \<open>
  \<open>DIV_ROUND_UP (size, 512)\<close> on signed operands, converted to unsigned. The sum overflows for the last
  511 sizes; the two's complement result is negative and becomes a count that no disk has.
\<close>

definition bytes_to_sectors :: "int \<Rightarrow> nat" where
  "bytes_to_sectors n =
     (let x = signed_take_bit 31 (n + 511)
      in if x \<ge> 0 then nat (x div 512) else nat ((- ((- x) div 512)) mod 4294967296))"

definition byte_to_sector :: "inode_disk \<Rightarrow> nat \<Rightarrow> nat" where
  "byte_to_sector d pos =
     (if int pos < id_length d then wrap32 (id_start d + pos div SECTOR_SIZE) else 4294967295)"

definition inode_length :: "inode \<Rightarrow> int" where
  "inode_length i = id_length (in_data i)"

definition inode_get_inumber :: "inode \<Rightarrow> nat" where
  "inode_get_inumber i = in_sector i"

definition inode_init :: "fs \<Rightarrow> fs" where
  "inode_init s = s\<lparr>open_inodes := []\<rparr>"

section \<open>Reading and writing an inode\<close>

text \<open>The number of bytes the next step copies.\<close>

definition chunk :: "inode_disk \<Rightarrow> int \<Rightarrow> nat \<Rightarrow> int" where
  "chunk d sz ofs =
     (let inode_left = id_length d - int ofs;
          sector_left = int SECTOR_SIZE - int (ofs mod SECTOR_SIZE);
          min_left = (if inode_left < sector_left then inode_left else sector_left)
      in if sz < min_left then sz else min_left)"

text \<open>\<open>bounce\<close> says that the bounce buffer has been allocated.\<close>

definition get_bounce :: "bool \<Rightarrow> fs \<Rightarrow> bool \<times> fs" where
  "get_bounce bounce s = (if bounce then (True, s) else let (p, s) = fs_malloc s in (p \<noteq> None, s))"

function read_loop :: "inode_disk \<Rightarrow> bool \<Rightarrow> int \<Rightarrow> nat \<Rightarrow> u8 list \<Rightarrow> fs \<Rightarrow> (u8 list \<times> fs) option" where
  "read_loop d bounce sz ofs got s =
     (if sz > 0 \<and> chunk d sz ofs > 0
      then let sector_idx = byte_to_sector d ofs; sector_ofs = ofs mod SECTOR_SIZE; n = nat (chunk d sz ofs)
        in if sector_ofs = 0 \<and> n = SECTOR_SIZE
           then do {
             b \<leftarrow> block_read s sector_idx;
             read_loop d bounce (sz - chunk d sz ofs) (ofs + n) (got @ b) s }
           else (case get_bounce bounce s of
               (False, s) \<Rightarrow> Some (got, s)
             | (True, s) \<Rightarrow> do {
                 b \<leftarrow> block_read s sector_idx;
                 read_loop d True (sz - chunk d sz ofs) (ofs + n) (got @ take n (drop sector_ofs b)) s })
      else Some (got, s))"
  by pat_completeness auto
termination
  by (relation "measure (\<lambda>(d, bounce, sz, ofs, got, s). nat sz)") (auto simp: Let_def)

definition inode_read_at :: "nat \<Rightarrow> int \<Rightarrow> nat \<Rightarrow> fs \<Rightarrow> (u8 list \<times> fs) option" where
  "inode_read_at i sz ofs s = do {
     nd \<leftarrow> inodes s i;
     read_loop (in_data nd) False sz ofs [] s }"

function write_loop :: "inode_disk \<Rightarrow> bool \<Rightarrow> int \<Rightarrow> nat \<Rightarrow> u8 list \<Rightarrow> nat \<Rightarrow> fs \<Rightarrow> (nat \<times> fs) option" where
  "write_loop d bounce sz ofs buffer written s =
     (if sz > 0 \<and> chunk d sz ofs > 0
      then let sector_idx = byte_to_sector d ofs; sector_ofs = ofs mod SECTOR_SIZE; n = nat (chunk d sz ofs);
               sector_left = SECTOR_SIZE - sector_ofs
        in if sector_ofs = 0 \<and> n = SECTOR_SIZE
           then do {
             s \<leftarrow> block_write s sector_idx (take n (drop written buffer));
             write_loop d bounce (sz - chunk d sz ofs) (ofs + n) buffer (written + n) s }
           else (case get_bounce bounce s of
               (False, s) \<Rightarrow> Some (written, s)
             | (True, s) \<Rightarrow> do {
                 b \<leftarrow> (if sector_ofs > 0 \<or> n < sector_left then block_read s sector_idx else Some (replicate SECTOR_SIZE 0));
                 s \<leftarrow> block_write s sector_idx (overlay b sector_ofs (take n (drop written buffer)));
                 write_loop d True (sz - chunk d sz ofs) (ofs + n) buffer (written + n) s })
      else Some (written, s))"
  by pat_completeness auto
termination
  by (relation "measure (\<lambda>(d, bounce, sz, ofs, buffer, written, s). nat sz)") (auto simp: Let_def)

definition inode_write_at :: "nat \<Rightarrow> u8 list \<Rightarrow> int \<Rightarrow> nat \<Rightarrow> fs \<Rightarrow> (nat \<times> fs) option" where
  "inode_write_at i buffer sz ofs s = do {
     nd \<leftarrow> inodes s i;
     if deny_write_cnt nd \<noteq> 0 then Some (0, s)
     else write_loop (in_data nd) False sz ofs buffer 0 s }"

declare read_loop.simps [simp del] write_loop.simps [simp del]

section \<open>Counting openers and writers\<close>

definition upd_inode :: "nat \<Rightarrow> (inode \<Rightarrow> inode) \<Rightarrow> fs \<Rightarrow> fs" where
  "upd_inode i f s = s\<lparr>inodes := (inodes s)(i := map_option f (inodes s i))\<rparr>"

definition upd_ofile :: "nat \<Rightarrow> (ofile \<Rightarrow> ofile) \<Rightarrow> fs \<Rightarrow> fs" where
  "upd_ofile k f s = s\<lparr>ofiles := (ofiles s)(k := map_option f (ofiles s k))\<rparr>"

definition inode_reopen :: "nat option \<Rightarrow> fs \<Rightarrow> (nat option \<times> fs) option" where
  "inode_reopen io s =
     (case io of
        None \<Rightarrow> Some (None, s)
      | Some i \<Rightarrow> do { nd \<leftarrow> inodes s i; Some (Some i, upd_inode i (\<lambda>nd. nd\<lparr>open_cnt := open_cnt nd + 1\<rparr>) s) })"

definition inode_remove :: "nat \<Rightarrow> fs \<Rightarrow> fs option" where
  "inode_remove i s = do { nd \<leftarrow> inodes s i; Some (upd_inode i (\<lambda>nd. nd\<lparr>removed := True\<rparr>) s) }"

definition inode_deny_write :: "nat \<Rightarrow> fs \<Rightarrow> fs option" where
  "inode_deny_write i s = do {
     nd \<leftarrow> inodes s i;
     ASSERT (deny_write_cnt nd + 1 \<le> open_cnt nd);
     Some (upd_inode i (\<lambda>nd. nd\<lparr>deny_write_cnt := deny_write_cnt nd + 1\<rparr>) s) }"

definition inode_allow_write :: "nat \<Rightarrow> fs \<Rightarrow> fs option" where
  "inode_allow_write i s = do {
     nd \<leftarrow> inodes s i;
     ASSERT (deny_write_cnt nd > 0);
     ASSERT (deny_write_cnt nd \<le> open_cnt nd);
     Some (upd_inode i (\<lambda>nd. nd\<lparr>deny_write_cnt := deny_write_cnt nd - 1\<rparr>) s) }"

section \<open>Open files\<close>

definition file_get_inode :: "nat \<Rightarrow> fs \<Rightarrow> nat option" where
  "file_get_inode k s = map_option f_inode (ofiles s k)"

definition file_read :: "nat \<Rightarrow> int \<Rightarrow> fs \<Rightarrow> (u8 list \<times> fs) option" where
  "file_read k sz s = do {
     f \<leftarrow> ofiles s k;
     (b, s) \<leftarrow> inode_read_at (f_inode f) sz (f_pos f) s;
     Some (b, upd_ofile k (\<lambda>f. f\<lparr>f_pos := f_pos f + length b\<rparr>) s) }"

definition file_read_at :: "nat \<Rightarrow> int \<Rightarrow> nat \<Rightarrow> fs \<Rightarrow> (u8 list \<times> fs) option" where
  "file_read_at k sz file_ofs s = do { f \<leftarrow> ofiles s k; inode_read_at (f_inode f) sz file_ofs s }"

definition file_write :: "nat \<Rightarrow> u8 list \<Rightarrow> int \<Rightarrow> fs \<Rightarrow> (nat \<times> fs) option" where
  "file_write k buffer sz s = do {
     f \<leftarrow> ofiles s k;
     (n, s) \<leftarrow> inode_write_at (f_inode f) buffer sz (f_pos f) s;
     Some (n, upd_ofile k (\<lambda>f. f\<lparr>f_pos := f_pos f + n\<rparr>) s) }"

definition file_write_at :: "nat \<Rightarrow> u8 list \<Rightarrow> int \<Rightarrow> nat \<Rightarrow> fs \<Rightarrow> (nat \<times> fs) option" where
  "file_write_at k buffer sz file_ofs s = do { f \<leftarrow> ofiles s k; inode_write_at (f_inode f) buffer sz file_ofs s }"

definition file_deny_write :: "nat \<Rightarrow> fs \<Rightarrow> fs option" where
  "file_deny_write k s = do {
     f \<leftarrow> ofiles s k;
     if \<not> f_deny_write f then inode_deny_write (f_inode f) (upd_ofile k (\<lambda>f. f\<lparr>f_deny_write := True\<rparr>) s)
     else Some s }"

definition file_allow_write :: "nat \<Rightarrow> fs \<Rightarrow> fs option" where
  "file_allow_write k s = do {
     f \<leftarrow> ofiles s k;
     if f_deny_write f then inode_allow_write (f_inode f) (upd_ofile k (\<lambda>f. f\<lparr>f_deny_write := False\<rparr>) s)
     else Some s }"

definition file_length :: "nat \<Rightarrow> fs \<Rightarrow> int option" where
  "file_length k s = do { f \<leftarrow> ofiles s k; nd \<leftarrow> inodes s (f_inode f); Some (inode_length nd) }"

definition file_seek :: "nat \<Rightarrow> int \<Rightarrow> fs \<Rightarrow> fs option" where
  "file_seek k new_pos s = do {
     f \<leftarrow> ofiles s k;
     ASSERT (new_pos \<ge> 0);
     Some (upd_ofile k (\<lambda>f. f\<lparr>f_pos := nat new_pos\<rparr>) s) }"

definition file_tell :: "nat \<Rightarrow> fs \<Rightarrow> nat option" where
  "file_tell k s = map_option f_pos (ofiles s k)"

section \<open>The free map\<close>

definition FREE_MAP_SECTOR :: nat where "FREE_MAP_SECTOR = 0"
definition ROOT_DIR_SECTOR :: nat where "ROOT_DIR_SECTOR = 1"

text \<open>The elements of a bitmap as bytes in memory, and back.\<close>

definition bitmap_bytes :: "bitmap \<Rightarrow> u8 list" where
  "bitmap_bytes b = concat (map le32 (bits b))"

fun words_of :: "u8 list \<Rightarrow> nat \<Rightarrow> u32 list" where
  "words_of b 0 = []"
| "words_of b (Suc n) = of_le32 b # words_of (drop 4 b) n"

definition bitmap_write :: "bitmap \<Rightarrow> nat \<Rightarrow> fs \<Rightarrow> (bool \<times> fs) option" where
  "bitmap_write b k s = do {
     let sz = byte_cnt (bit_cnt b);
     (n, s) \<leftarrow> file_write_at k (bitmap_bytes b) (int sz) 0 s;
     Some (n = sz, s) }"

definition bitmap_read :: "bitmap \<Rightarrow> nat \<Rightarrow> fs \<Rightarrow> (bool \<times> bitmap \<times> fs) option" where
  "bitmap_read b k s =
     (if bit_cnt b > 0
      then do {
        let sz = byte_cnt (bit_cnt b);
        (d, s) \<leftarrow> file_read_at k (int sz) 0 s;
        let ws = words_of (overlay (bitmap_bytes b) 0 d) (length (bits b));
        let j = elem_cnt (bit_cnt b) - 1;
        ASSERT (j < length ws);
        Some (length d = sz, b\<lparr>bits := ws[j := ws ! j AND last_mask b]\<rparr>, s) }
      else Some (True, b, s))"

definition free_map_init :: "bool \<Rightarrow> u32 list option \<Rightarrow> fs \<Rightarrow> fs option" where
  "free_map_init ok mem s = do {
     bo \<leftarrow> bitmap_create ok mem (disk_size s);
     b \<leftarrow> bo;
     b \<leftarrow> bitmap_mark b FREE_MAP_SECTOR;
     b \<leftarrow> bitmap_mark b ROOT_DIR_SECTOR;
     Some (s\<lparr>free_map := b\<rparr>) }"

definition free_map_allocate :: "nat \<Rightarrow> fs \<Rightarrow> (nat option \<times> fs) option" where
  "free_map_allocate cnt s = do {
     (sector, b) \<leftarrow> bitmap_scan_and_flip (free_map s) 0 cnt False;
     let s = s\<lparr>free_map := b\<rparr>;
     (sector, s) \<leftarrow>
       (if sector \<noteq> BITMAP_ERROR
        then case free_map_file s of
            None \<Rightarrow> Some (sector, s)
          | Some k \<Rightarrow> do {
              (ok, s) \<leftarrow> bitmap_write (free_map s) k s;
              if \<not> ok
              then do { b \<leftarrow> bitmap_set_multiple (free_map s) sector cnt False; Some (BITMAP_ERROR, s\<lparr>free_map := b\<rparr>) }
              else Some (sector, s) }
        else Some (sector, s));
     Some (if sector \<noteq> BITMAP_ERROR then Some sector else None, s) }"

definition free_map_release :: "nat \<Rightarrow> nat \<Rightarrow> fs \<Rightarrow> fs option" where
  "free_map_release sector cnt s = do {
     a \<leftarrow> bitmap_all (free_map s) sector cnt;
     ASSERT a;
     b \<leftarrow> bitmap_set_multiple (free_map s) sector cnt False;
     let s = s\<lparr>free_map := b\<rparr>;
     k \<leftarrow> free_map_file s;
     (_, s) \<leftarrow> bitmap_write (free_map s) k s;
     Some s }"

section \<open>Creating, opening and closing inodes\<close>

fun zero_sectors :: "nat \<Rightarrow> nat list \<Rightarrow> fs \<Rightarrow> fs option" where
  "zero_sectors start [] s = Some s"
| "zero_sectors start (i # is) s = do {
     s \<leftarrow> block_write s (start + i) (replicate SECTOR_SIZE 0);
     zero_sectors start is s }"

definition inode_create :: "nat \<Rightarrow> int \<Rightarrow> fs \<Rightarrow> (bool \<times> fs) option" where
  "inode_create sector len s = do {
     ASSERT (len \<ge> 0);
     let (p, s) = fs_malloc s;
     if p = None then Some (False, s)
     else do {
       let sectors = bytes_to_sectors len;
       (start, s) \<leftarrow> free_map_allocate sectors s;
       case start of
         None \<Rightarrow> Some (False, s)
       | Some st \<Rightarrow> do {
           s \<leftarrow> block_write s sector (inode_disk_bytes \<lparr>id_start = st, id_length = len, id_magic = INODE_MAGIC\<rparr>);
           s \<leftarrow> zero_sectors st [0..<sectors] s;
           Some (True, s) } } }"

fun find_open :: "nat \<Rightarrow> nat list \<Rightarrow> fs \<Rightarrow> nat option option" where
  "find_open sector [] s = Some None"
| "find_open sector (i # is) s = do {
     nd \<leftarrow> inodes s i;
     if in_sector nd = sector then Some (Some i) else find_open sector is s }"

definition inode_open :: "nat \<Rightarrow> fs \<Rightarrow> (nat option \<times> fs) option" where
  "inode_open sector s = do {
     r \<leftarrow> find_open sector (open_inodes s) s;
     case r of
       Some i \<Rightarrow> inode_reopen (Some i) s
     | None \<Rightarrow> do {
         let (p, s) = fs_malloc s;
         case p of
           None \<Rightarrow> Some (None, s)
         | Some i \<Rightarrow> do {
             b \<leftarrow> block_read s sector;
             Some (Some i, s\<lparr>open_inodes := i # open_inodes s, inodes := (inodes s)(i \<mapsto>
               \<lparr>in_sector = sector, open_cnt = 1, removed = False, deny_write_cnt = 0, in_data = inode_disk_of b\<rparr>)\<rparr>) } } }"

definition inode_close :: "nat option \<Rightarrow> fs \<Rightarrow> fs option" where
  "inode_close io s =
     (case io of
        None \<Rightarrow> Some s
      | Some i \<Rightarrow> do {
          nd \<leftarrow> inodes s i;
          let s = upd_inode i (\<lambda>nd. nd\<lparr>open_cnt := open_cnt nd - 1\<rparr>) s;
          if open_cnt nd - 1 = 0
          then do {
            let s = s\<lparr>open_inodes := remove1 i (open_inodes s)\<rparr>;
            s \<leftarrow> (if removed nd
                then do {
                  s \<leftarrow> free_map_release (in_sector nd) 1 s;
                  free_map_release (id_start (in_data nd)) (bytes_to_sectors (id_length (in_data nd))) s }
                else Some s);
            Some (s\<lparr>inodes := (inodes s)(i := None)\<rparr>) }
          else Some s })"

text \<open>\<open>file_open\<close> closes the inode if it cannot make the file.\<close>

definition file_open :: "nat option \<Rightarrow> fs \<Rightarrow> (nat option \<times> fs) option" where
  "file_open io s = do {
     let (p, s) = fs_malloc s;
     case (io, p) of
       (Some i, Some k) \<Rightarrow> Some (Some k, s\<lparr>ofiles := (ofiles s)(k \<mapsto> \<lparr>f_inode = i, f_pos = 0, f_deny_write = False\<rparr>)\<rparr>)
     | _ \<Rightarrow> do { s \<leftarrow> inode_close io s; Some (None, s) } }"

definition file_reopen :: "nat \<Rightarrow> fs \<Rightarrow> (nat option \<times> fs) option" where
  "file_reopen k s = do {
     f \<leftarrow> ofiles s k;
     (io, s) \<leftarrow> inode_reopen (Some (f_inode f)) s;
     file_open io s }"

definition file_close :: "nat option \<Rightarrow> fs \<Rightarrow> fs option" where
  "file_close ko s =
     (case ko of
        None \<Rightarrow> Some s
      | Some k \<Rightarrow> do {
          s \<leftarrow> file_allow_write k s;
          f \<leftarrow> ofiles s k;
          s \<leftarrow> inode_close (Some (f_inode f)) s;
          Some (s\<lparr>ofiles := (ofiles s)(k := None)\<rparr>) })"

definition free_map_open :: "fs \<Rightarrow> fs option" where
  "free_map_open s = do {
     (i, s) \<leftarrow> inode_open FREE_MAP_SECTOR s;
     (ko, s) \<leftarrow> file_open i s;
     k \<leftarrow> ko;
     (ok, b, s) \<leftarrow> bitmap_read (free_map s) k (s\<lparr>free_map_file := ko\<rparr>);
     ASSERT ok;
     Some (s\<lparr>free_map := b\<rparr>) }"

definition free_map_close :: "fs \<Rightarrow> fs option" where
  "free_map_close s = file_close (free_map_file s) s"

definition free_map_create :: "fs \<Rightarrow> fs option" where
  "free_map_create s = do {
     (ok, s) \<leftarrow> inode_create FREE_MAP_SECTOR (int (bitmap_file_size (free_map s))) s;
     ASSERT ok;
     (i, s) \<leftarrow> inode_open FREE_MAP_SECTOR s;
     (ko, s) \<leftarrow> file_open i s;
     k \<leftarrow> ko;
     (ok, s) \<leftarrow> bitmap_write (free_map s) k (s\<lparr>free_map_file := ko\<rparr>);
     ASSERT ok;
     Some s }"

end
