(* ===== verification/Inode_Props.thy ===== *)
theory Inode_Props
  imports Inode
begin

text \<open>
  Reading and writing an inode are slicing and overlaying the bytes of the file, whatever sectors they
  lie in; a write touches no other sector. The free map never gives a sector out twice.
\<close>

section \<open>The bytes of an inode\<close>

definition sector_count :: "inode_disk \<Rightarrow> nat" where
  "sector_count d = (nat (id_length d) + 511) div 512"

definition content :: "fs \<Rightarrow> inode_disk \<Rightarrow> u8 list" where
  "content s d = map (\<lambda>k. disk s (id_start d + k div 512) ! (k mod 512)) [0..<nat (id_length d)]"

definition data_ok :: "fs \<Rightarrow> inode_disk \<Rightarrow> bool" where
  "data_ok s d \<longleftrightarrow> 0 \<le> id_length d \<and> id_start d + sector_count d \<le> disk_size s \<and> disk_size s \<le> 4294967296 \<and>
     (\<forall>x. length (disk s x) = 512)"

lemma SECTOR_SIZE_512 [simp]: "SECTOR_SIZE = 512"
  by (simp add: SECTOR_SIZE_def)

lemma length_content [simp]: "length (content s d) = nat (id_length d)"
  by (simp add: content_def)

lemma nth_content: "k < nat (id_length d) \<Longrightarrow> content s d ! k = disk s (id_start d + k div 512) ! (k mod 512)"
  by (simp add: content_def)

lemma sector_in_range:
  "data_ok s d \<Longrightarrow> ofs < nat (id_length d) \<Longrightarrow> byte_to_sector d ofs = id_start d + ofs div 512 \<and>
    id_start d + ofs div 512 < disk_size s \<and> ofs div 512 < sector_count d"
  by (auto simp: data_ok_def byte_to_sector_def sector_count_def)

lemma chunk_pos:
  assumes "chunk d sz ofs > 0"
  shows "ofs + nat (chunk d sz ofs) \<le> nat (id_length d)" "ofs mod 512 + nat (chunk d sz ofs) \<le> 512"
    "chunk d sz ofs \<le> sz" "ofs < nat (id_length d)"
  using assms by (auto simp: chunk_def Let_def split: if_splits)

lemma chunk_nonpos: "\<not> (sz > 0 \<and> chunk d sz ofs > 0) \<Longrightarrow> sz \<le> 0 \<or> nat (id_length d) \<le> ofs"
  using mod_less_divisor [of 512 ofs] by (auto simp: chunk_def Let_def split: if_splits)

lemma sector_step:
  fixes ofs :: nat
  assumes "ofs mod 512 + j < 512"
  shows "(ofs + j) div 512 = ofs div 512 \<and> (ofs + j) mod 512 = ofs mod 512 + j"
proof -
  have e: "ofs + j = (ofs mod 512 + j) + ofs div 512 * 512" using div_mult_mod_eq [of ofs 512] by linarith
  show ?thesis unfolding e using assms by (simp only: div_mult_self1 mod_mult_self1) simp
qed

lemma piece:
  assumes "data_ok s d" and "ofs + n \<le> nat (id_length d)" and "ofs mod 512 + n \<le> 512"
  shows "take n (drop (ofs mod 512) (disk s (id_start d + ofs div 512))) = file_bytes (content s d) n ofs"
proof (rule nth_equalityI)
  have l: "length (disk s x) = 512" for x using assms(1) by (simp add: data_ok_def)
  show "length (take n (drop (ofs mod 512) (disk s (id_start d + ofs div 512)))) = length (file_bytes (content s d) n ofs)"
    using assms(2,3) by (simp add: file_bytes_def l)
  fix j assume "j < length (take n (drop (ofs mod 512) (disk s (id_start d + ofs div 512))))"
  then have j: "j < n" "ofs mod 512 + j < 512" using assms(3) by (simp_all add: l)
  then have "ofs + j < nat (id_length d)" using assms(2) by simp
  then show "take n (drop (ofs mod 512) (disk s (id_start d + ofs div 512))) ! j = file_bytes (content s d) n ofs ! j"
    using j sector_step [OF j(2)] by (simp add: file_bytes_def nth_content l)
qed

lemma file_bytes_add: "file_bytes d n ofs @ file_bytes d m (ofs + n) = file_bytes d (n + m) ofs"
  by (simp add: file_bytes_def take_add add.commute [of n ofs])

lemma file_bytes_end: "length d \<le> ofs \<Longrightarrow> file_bytes d n ofs = []"
  by (simp add: file_bytes_def)

lemma content_mem [simp]: "content (s\<lparr>mem_next := n\<rparr>) d = content s d" "data_ok (s\<lparr>mem_next := n\<rparr>) d = data_ok s d"
  by (simp_all add: content_def data_ok_def)

definition bounce_ok :: "bool \<Rightarrow> fs \<Rightarrow> bool" where
  "bounce_ok bounce s \<longleftrightarrow> bounce \<or> mem_ok s (mem_next s)"

lemma get_bounce_cases:
  obtains (got) s' where "get_bounce bounce s = (True, s')" "bounce_ok bounce s" "s' = s \<or> \<not> bounce \<and> s' = s\<lparr>mem_next := mem_next s + 1\<rparr>"
  | (failed) "get_bounce bounce s = (False, s\<lparr>mem_next := mem_next s + 1\<rparr>)" "\<not> bounce_ok bounce s"
proof (cases "bounce \<or> mem_ok s (mem_next s)")
  case True
  then show thesis
    by (intro got [of "if bounce then s else s\<lparr>mem_next := mem_next s + 1\<rparr>"])
      (auto simp: get_bounce_def fs_malloc_def bounce_ok_def)
next
  case False
  then show thesis by (intro failed) (auto simp: get_bounce_def fs_malloc_def bounce_ok_def)
qed

lemma read_loop_spec:
  "data_ok s d \<Longrightarrow> \<exists>m s'. read_loop d bounce sz ofs got s = Some (got @ file_bytes (content s d) m ofs, s') \<and>
    m \<le> nat sz \<and> (bounce_ok bounce s \<longrightarrow> m = nat sz) \<and> (s' = s \<or> \<not> bounce \<and> s' = s\<lparr>mem_next := mem_next s + 1\<rparr>)"
proof (induction "nat sz" arbitrary: bounce sz ofs got s rule: less_induct)
  case less
  show ?case
  proof (cases "sz > 0 \<and> chunk d sz ofs > 0")
    case False
    then have "read_loop d bounce sz ofs got s = Some (got, s)" by (subst read_loop.simps) auto
    moreover have "file_bytes (content s d) (nat sz) ofs = []"
      using chunk_nonpos [OF False] by (auto simp: file_bytes_def)
    ultimately show ?thesis by (intro exI [of _ "nat sz"] exI [of _ s]) simp
  next
    case True
    let ?n = "nat (chunk d sz ofs)"
    note c = chunk_pos [of d sz ofs]
    have sec: "byte_to_sector d ofs = id_start d + ofs div 512" "id_start d + ofs div 512 < disk_size s"
      using sector_in_range [OF less.prems, of ofs] c(4) True by simp_all
    have pc: "take ?n (drop (ofs mod 512) (disk s (id_start d + ofs div 512))) = file_bytes (content s d) ?n ofs"
      using piece [OF less.prems] c True by simp
    have sum: "nat sz = ?n + nat (sz - chunk d sz ofs)" using c(3) True by (simp add: nat_add_distrib [symmetric])
    have smaller: "nat (sz - chunk d sz ofs) < nat sz" using sum True by simp
    let ?c = "content s d" and ?sec = "id_start d + ofs div 512"
    have len: "length (disk s x) = 512" for x using less.prems by (simp add: data_ok_def)
    show ?thesis
    proof (cases "ofs mod 512 = 0 \<and> ?n = 512")
      case full: True
      then have b: "disk s ?sec = file_bytes ?c ?n ofs" using pc len by simp
      have e: "read_loop d bounce sz ofs got s = read_loop d bounce (sz - chunk d sz ofs) (ofs + ?n) (got @ disk s ?sec) s"
        using True full sec by (subst read_loop.simps) (simp add: block_read_def)
      have "\<exists>m s'. read_loop d bounce (sz - chunk d sz ofs) (ofs + ?n) (got @ disk s ?sec) s =
          Some ((got @ disk s ?sec) @ file_bytes ?c m (ofs + ?n), s') \<and> m \<le> nat (sz - chunk d sz ofs) \<and>
          (bounce_ok bounce s \<longrightarrow> m = nat (sz - chunk d sz ofs)) \<and>
          (s' = s \<or> \<not> bounce \<and> s' = s\<lparr>mem_next := mem_next s + 1\<rparr>)"
        using less.hyps [OF smaller, of s bounce "ofs + ?n" "got @ disk s ?sec"] less.prems by simp
      then obtain m s' where m: "read_loop d bounce (sz - chunk d sz ofs) (ofs + ?n) (got @ disk s ?sec) s =
          Some ((got @ disk s ?sec) @ file_bytes ?c m (ofs + ?n), s')" "m \<le> nat (sz - chunk d sz ofs)"
          "bounce_ok bounce s \<longrightarrow> m = nat (sz - chunk d sz ofs)"
          "s' = s \<or> \<not> bounce \<and> s' = s\<lparr>mem_next := mem_next s + 1\<rparr>" by blast
      show ?thesis
        using e m b sum file_bytes_add [of ?c ?n ofs m] by (intro exI [of _ "?n + m"] exI [of _ s']) simp
    next
      case part: False
      show ?thesis
      proof (cases rule: get_bounce_cases [of bounce s])
        case (got s1)
        let ?p = "take ?n (drop (ofs mod 512) (disk s ?sec))"
        have s1: "disk s1 = disk s" "disk_size s1 = disk_size s" "data_ok s1 d" "content s1 d = ?c" "bounce_ok True s1"
          using got(3) less.prems by (auto simp: bounce_ok_def)
        have e: "read_loop d bounce sz ofs got s = read_loop d True (sz - chunk d sz ofs) (ofs + ?n) (got @ ?p) s1"
          using True part sec s1 got(1) by (subst read_loop.simps) (auto simp: block_read_def Let_def)
        obtain m s' where m: "read_loop d True (sz - chunk d sz ofs) (ofs + ?n) (got @ ?p) s1 =
            Some ((got @ ?p) @ file_bytes ?c m (ofs + ?n), s')" "m = nat (sz - chunk d sz ofs)" "s' = s1"
          using less.hyps [OF smaller s1(3), of True "ofs + ?n" "got @ ?p"] s1(4,5) by auto
        show ?thesis
          using e m pc sum file_bytes_add [of ?c ?n ofs m] got(3)
          by (intro exI [of _ "?n + m"] exI [of _ s1]) auto
      next
        case failed
        then have "read_loop d bounce sz ofs got s = Some (got, s\<lparr>mem_next := mem_next s + 1\<rparr>)"
          using True part by (subst read_loop.simps) (auto simp: Let_def)
        moreover have "\<not> bounce" using failed by (simp add: bounce_ok_def)
        ultimately show ?thesis
          using failed by (intro exI [of _ 0] exI [of _ "s\<lparr>mem_next := mem_next s + 1\<rparr>"]) (simp add: file_bytes_def)
      qed
    qed
  qed
qed

section \<open>Writing\<close>

definition written :: "inode_disk \<Rightarrow> fs \<Rightarrow> fs \<Rightarrow> bool" where
  "written d s s' \<longleftrightarrow> s' = s\<lparr>disk := disk s', mem_next := mem_next s'\<rparr> \<and> data_ok s' d \<and>
     (\<forall>x. x \<notin> {id_start d..<id_start d + sector_count d} \<longrightarrow> disk s' x = disk s x)"

lemma written_trans: "written d s s1 \<Longrightarrow> written d s1 s2 \<Longrightarrow> written d s s2"
proof -
  assume a: "written d s s1" and b: "written d s1 s2"
  have "s2 = s1\<lparr>disk := disk s2, mem_next := mem_next s2\<rparr>" using b by (simp add: written_def)
  also have "\<dots> = (s\<lparr>disk := disk s1, mem_next := mem_next s1\<rparr>)\<lparr>disk := disk s2, mem_next := mem_next s2\<rparr>"
    using a unfolding written_def by metis
  finally have "s2 = s\<lparr>disk := disk s2, mem_next := mem_next s2\<rparr>" by simp
  with a b show ?thesis by (simp add: written_def)
qed

lemma overlay_nil [simp]: "overlay c ofs [] = c"
  by (simp add: overlay_def)

lemma overlay_overlay:
  assumes "ofs + length a \<le> length c"
  shows "overlay (overlay c ofs a) (ofs + length a) b = overlay c ofs (a @ b)"
  using assms by (simp add: overlay_def ac_simps)

lemma write_chunk:
  assumes ok: "data_ok s d" and n: "ofs + length a \<le> nat (id_length d)" "ofs mod 512 + length a \<le> 512" "a \<noteq> []"
    and b: "length b = 512"
      "\<And>j. j < 512 \<Longrightarrow> \<not> (ofs mod 512 \<le> j \<and> j < ofs mod 512 + length a) \<Longrightarrow> b ! j = disk s (id_start d + ofs div 512) ! j"
    and upd: "t = s\<lparr>disk := (disk s)(id_start d + ofs div 512 := overlay b (ofs mod 512) a)\<rparr>"
  shows "content t d = overlay (content s d) ofs a" and "written d s t"
proof -
  have lt: "ofs < nat (id_length d)" using n by (cases a) auto
  show "content t d = overlay (content s d) ofs a"
  proof (rule nth_equalityI)
    show "length (content t d) = length (overlay (content s d) ofs a)" using n(1) by simp
    fix k assume "k < length (content t d)"
    then have k: "k < nat (id_length d)" by simp
    show "content t d ! k = overlay (content s d) ofs a ! k"
    proof (cases "k div 512 = ofs div 512")
      case True
      have m: "k mod 512 < 512" by simp
      have iff: "ofs \<le> k \<and> k < ofs + length a \<longleftrightarrow> ofs mod 512 \<le> k mod 512 \<and> k mod 512 < ofs mod 512 + length a"
        using True div_mult_mod_eq [of k 512] div_mult_mod_eq [of ofs 512] by linarith
      have sub: "ofs mod 512 \<le> k mod 512 \<Longrightarrow> k mod 512 - ofs mod 512 = k - ofs"
        using True div_mult_mod_eq [of k 512] div_mult_mod_eq [of ofs 512] by linarith
      show ?thesis
        using k n b m iff sub True by (simp add: nth_content upd nth_overlay)
    next
      case False
      have "\<not> (ofs \<le> k \<and> k < ofs + length a)"
      proof
        assume "ofs \<le> k \<and> k < ofs + length a"
        then obtain j where "k = ofs + j" "ofs mod 512 + j < 512" using n(2) by (metis le_add_diff_inverse add_less_cancel_left
            nat_add_left_cancel_less order_less_le_trans)
        then show False using sector_step False by blast
      qed
      then show ?thesis using k n False by (auto simp: nth_content upd nth_overlay)
    qed
  qed
  have "length (disk t x) = 512" for x using ok n(2) b(1) by (simp add: upd data_ok_def)
  then have "data_ok t d" using ok by (simp add: data_ok_def upd)
  moreover have "ofs div 512 < sector_count d" using sector_in_range [OF ok lt] by simp
  ultimately show "written d s t" by (auto simp: written_def upd)
qed


lemma written_mem: "data_ok s d \<Longrightarrow> written d s (s\<lparr>mem_next := n\<rparr>)" "data_ok s d \<Longrightarrow> written d s s"
  by (simp_all add: written_def)

lemma written_mem_ok: "written d s s' \<Longrightarrow> mem_ok s' = mem_ok s"
  unfolding written_def by (metis fs.select_convs(3) fs.surjective fs.update_convs(1,4))

lemma min_add_left: "ofs + n \<le> L \<Longrightarrow> n + min x (L - (ofs + n)) = min (n + x) (L - ofs)" for L n ofs x :: nat
  by linarith

lemma write_loop_spec:
  assumes "data_ok s d" and "w + nat sz \<le> length buffer"
  shows "\<exists>k s'. write_loop d bounce sz ofs buffer w s = Some (w + k, s') \<and> k \<le> nat sz \<and> (k = 0 \<or> ofs + k \<le> nat (id_length d)) \<and>
    (bounce_ok bounce s \<longrightarrow> k = min (nat sz) (nat (id_length d) - ofs)) \<and>
    content s' d = overlay (content s d) ofs (take k (drop w buffer)) \<and> written d s s'"
  using assms
proof (induction "nat sz" arbitrary: bounce sz ofs w s rule: less_induct)
  case less
  show ?case
  proof (cases "sz > 0 \<and> chunk d sz ofs > 0")
    case False
    then have "write_loop d bounce sz ofs buffer w s = Some (w, s)" by (subst write_loop.simps) auto
    moreover have "min (nat sz) (nat (id_length d) - ofs) = 0" using chunk_nonpos [OF False] by auto
    ultimately show ?thesis using written_mem(2) [OF less.prems(1)] by (intro exI [of _ 0] exI [of _ s]) simp
  next
    case True
    let ?n = "nat (chunk d sz ofs)" and ?c = "content s d" and ?sec = "id_start d + ofs div 512"
    let ?a = "take ?n (drop w buffer)"
    have c: "ofs + ?n \<le> nat (id_length d)" "ofs mod 512 + ?n \<le> 512" "chunk d sz ofs \<le> sz" "ofs < nat (id_length d)"
      using chunk_pos [of d sz ofs] True by simp_all
    have n0: "0 < ?n" using True by simp
    have sec: "byte_to_sector d ofs = ?sec" "?sec < disk_size s"
      using sector_in_range [OF less.prems(1) c(4)] by simp_all
    have sum: "nat sz = ?n + nat (sz - chunk d sz ofs)" using c(3) True by (simp add: nat_add_distrib [symmetric])
    have smaller: "nat (sz - chunk d sz ofs) < nat sz" using sum n0 by linarith
    have la: "length ?a = ?n" using less.prems(2) sum by simp
    have a: "ofs + length ?a \<le> nat (id_length d)" "ofs mod 512 + length ?a \<le> 512" "?a \<noteq> []"
      using c(1,2) la n0 by (simp_all del: length_take) auto
    have lens: "length (disk s x) = 512" for x using less.prems(1) by (simp add: data_ok_def)
    have step: "\<exists>k s'. write_loop d bounce sz ofs buffer w s = Some (w + k, s') \<and> k \<le> nat sz \<and> (k = 0 \<or> ofs + k \<le> nat (id_length d)) \<and>
        (bounce_ok bounce s \<longrightarrow> k = min (nat sz) (nat (id_length d) - ofs)) \<and>
        content s' d = overlay ?c ofs (take k (drop w buffer)) \<and> written d s s'"
      if e: "write_loop d bounce sz ofs buffer w s = write_loop d b2 (sz - chunk d sz ofs) (ofs + ?n) buffer (w + ?n) s1"
        and s1: "content s1 d = overlay ?c ofs ?a" "written d s s1" and bk: "bounce_ok bounce s \<longrightarrow> bounce_ok b2 s1" for b2 s1
    proof -
      have ok1: "data_ok s1 d" using s1(2) by (simp add: written_def)
      have "w + ?n + nat (sz - chunk d sz ofs) \<le> length buffer" using less.prems(2) sum by simp
      from less.hyps [OF smaller ok1 this, of b2 "ofs + ?n"] obtain k s' where
        k: "write_loop d b2 (sz - chunk d sz ofs) (ofs + ?n) buffer (w + ?n) s1 = Some (w + ?n + k, s')"
          "k \<le> nat (sz - chunk d sz ofs)" "k = 0 \<or> ofs + ?n + k \<le> nat (id_length d)"
          "bounce_ok b2 s1 \<longrightarrow> k = min (nat (sz - chunk d sz ofs)) (nat (id_length d) - (ofs + ?n))"
          "content s' d = overlay (content s1 d) (ofs + ?n) (take k (drop (w + ?n) buffer))" "written d s1 s'"
        by blast
      have "?a @ take k (drop (w + ?n) buffer) = take (?n + k) (drop w buffer)"
        by (simp add: take_add add.commute [of w ?n])
      then have "content s' d = overlay ?c ofs (take (?n + k) (drop w buffer))"
        using k(5) s1(1) overlay_overlay [of ofs ?a ?c] la c(1) by simp
      moreover have "bounce_ok bounce s \<longrightarrow> ?n + k = min (nat sz) (nat (id_length d) - ofs)"
        using bk k(4) sum c(1) min_add_left by auto
      ultimately show ?thesis
        using e k written_trans [OF s1(2) k(6)] sum c(1) by (intro exI [of _ "?n + k"] exI [of _ s']) auto
    qed
    show ?thesis
    proof (cases "ofs mod 512 = 0 \<and> ?n = 512")
      case full: True
      let ?s1 = "s\<lparr>disk := (disk s)(?sec := ?a)\<rparr>"
      have o: "overlay (disk s ?sec) (ofs mod 512) ?a = ?a" using full la lens by (simp add: overlay_def)
      have "write_loop d bounce sz ofs buffer w s = write_loop d bounce (sz - chunk d sz ofs) (ofs + ?n) buffer (w + ?n) ?s1"
        using True full sec by (subst write_loop.simps) (simp add: block_write_def)
      moreover have "content ?s1 d = overlay ?c ofs ?a" "written d s ?s1"
        using write_chunk [OF less.prems(1) a, of "disk s ?sec" ?s1] lens o by simp_all
      ultimately show ?thesis by (rule step) (simp add: bounce_ok_def)
    next
      case part: False
      show ?thesis
      proof (cases rule: get_bounce_cases [of bounce s])
        case (got s2)
        let ?b = "disk s ?sec"
        let ?s1 = "s2\<lparr>disk := (disk s2)(?sec := overlay ?b (ofs mod 512) ?a)\<rparr>"
        have s2: "disk s2 = disk s" "disk_size s2 = disk_size s" "data_ok s2 d" "content s2 d = ?c" "written d s s2"
          using got(3) less.prems(1) written_mem [OF less.prems(1)] by (auto simp: written_def)
        have rd: "ofs mod 512 > 0 \<or> ?n < 512 - ofs mod 512" using part c(2) by linarith
        have "write_loop d bounce sz ofs buffer w s = write_loop d True (sz - chunk d sz ofs) (ofs + ?n) buffer (w + ?n) ?s1"
          using True part sec s2 got(1) rd by (subst write_loop.simps) (auto simp: block_read_def block_write_def Let_def)
        moreover have "content ?s1 d = overlay ?c ofs ?a" "written d s2 ?s1"
          using write_chunk [OF s2(3) a, of ?b ?s1] lens s2(1,4) by simp_all
        ultimately show ?thesis
          using written_trans [OF s2(5)] by (intro step) (auto simp: bounce_ok_def)
      next
        case failed
        then have "write_loop d bounce sz ofs buffer w s = Some (w, s\<lparr>mem_next := mem_next s + 1\<rparr>)"
          using True part by (subst write_loop.simps) (auto simp: Let_def)
        then show ?thesis
          using failed written_mem [OF less.prems(1)] by (intro exI [of _ 0] exI [of _ "s\<lparr>mem_next := mem_next s + 1\<rparr>"]) simp
      qed
    qed
  qed
qed


section \<open>Files\<close>

lemma inode_read_at_spec:
  assumes "inodes s i = Some nd" and "data_ok s (in_data nd)"
  shows "\<exists>m s'. inode_read_at i sz ofs s = Some (file_bytes (content s (in_data nd)) m ofs, s') \<and> m \<le> nat sz \<and>
    (mem_ok s (mem_next s) \<longrightarrow> m = nat sz) \<and> (s' = s \<or> s' = s\<lparr>mem_next := mem_next s + 1\<rparr>)"
  using read_loop_spec [OF assms(2), of False sz ofs "[]"] assms(1)
  by (auto simp: inode_read_at_def bounce_ok_def)

lemma inode_write_at_spec:
  assumes "inodes s i = Some nd" and "data_ok s (in_data nd)" and "deny_write_cnt nd = 0" and "nat sz \<le> length buffer"
  shows "\<exists>k s'. inode_write_at i buffer sz ofs s = Some (k, s') \<and> k \<le> nat sz \<and> (k = 0 \<or> ofs + k \<le> nat (inode_length nd)) \<and>
    (mem_ok s (mem_next s) \<longrightarrow> k = min (nat sz) (nat (inode_length nd) - ofs)) \<and>
    content s' (in_data nd) = overlay (content s (in_data nd)) ofs (take k buffer) \<and> written (in_data nd) s s'"
  using write_loop_spec [OF assms(2), of 0 sz buffer False ofs] assms(1,3,4)
  by (simp add: inode_write_at_def bounce_ok_def inode_length_def)

lemma written_fields:
  assumes "written d s s'"
  shows "inodes s' = inodes s" "ofiles s' = ofiles s" "free_map s' = free_map s" "free_map_file s' = free_map_file s"
    "open_inodes s' = open_inodes s" "mem_ok s' = mem_ok s" "disk_size s' = disk_size s"
proof -
  have e: "s' = s\<lparr>disk := disk s', mem_next := mem_next s'\<rparr>" using assms by (simp add: written_def)
  show "inodes s' = inodes s" "ofiles s' = ofiles s" "free_map s' = free_map s" "free_map_file s' = free_map_file s"
    "open_inodes s' = open_inodes s" "mem_ok s' = mem_ok s" "disk_size s' = disk_size s"
    by (subst e, simp)+
qed

text \<open>
  C9. What is written to an inode is what is read from it, cut at the end of the file, which does not
  grow; the bytes around it and all sectors of other files stay as they were.
\<close>

theorem inode_write_read:
  assumes "inodes s i = Some nd" and "data_ok s (in_data nd)" and "deny_write_cnt nd = 0" and "\<forall>n. mem_ok s n"
    and "n = min (length b) (nat (inode_length nd) - ofs)"
  shows "\<exists>s1 s2. inode_write_at i b (int (length b)) ofs s = Some (n, s1) \<and>
    inode_read_at i (int n) ofs s1 = Some (take n b, s2) \<and>
    content s2 (in_data nd) = overlay (content s (in_data nd)) ofs (take n b) \<and>
    (\<forall>x. x \<notin> {id_start (in_data nd)..<id_start (in_data nd) + sector_count (in_data nd)} \<longrightarrow> disk s2 x = disk s x)"
proof -
  obtain s1 where w: "inode_write_at i b (int (length b)) ofs s = Some (n, s1)" "n = 0 \<or> ofs + n \<le> nat (inode_length nd)"
    "content s1 (in_data nd) = overlay (content s (in_data nd)) ofs (take n b)" "written (in_data nd) s s1"
    using inode_write_at_spec [OF assms(1-3), of "int (length b)" b ofs] assms(4,5) by auto
  have i1: "inodes s1 i = Some nd" "data_ok s1 (in_data nd)" "mem_ok s1 = mem_ok s"
    using w(4) assms(1) written_fields [OF w(4)] by (simp_all add: written_def)
  obtain s2 where r: "inode_read_at i (int n) ofs s1 = Some (file_bytes (content s1 (in_data nd)) n ofs, s2)"
    "s2 = s1 \<or> s2 = s1\<lparr>mem_next := mem_next s1 + 1\<rparr>"
    using inode_read_at_spec [OF i1(1,2), of "int n" ofs] i1(3) assms(4) by auto
  have "file_bytes (content s1 (in_data nd)) n ofs = take n b"
  proof (cases "n = 0")
    case False
    have l: "length (take n b) = n" using assms(5) by simp
    then have "ofs + length (take n b) \<le> length (content s (in_data nd))"
      using w(2) False by (simp add: inode_length_def)
    from file_bytes_overlay [OF this] show ?thesis by (simp only: w(3) l)
  qed (simp add: file_bytes_def)
  moreover have "disk s2 = disk s1" "content s2 (in_data nd) = content s1 (in_data nd)" using r(2) by auto
  ultimately show ?thesis using w r(1) by (auto simp: written_def)
qed

text \<open>A disk with one file of 1000 bytes in the sectors 2 and 3, open as object 7.\<close>

definition small_inode :: inode where
  "small_inode = \<lparr>in_sector = 5, open_cnt = 1, removed = False, deny_write_cnt = 0,
     in_data = \<lparr>id_start = 2, id_length = 1000, id_magic = INODE_MAGIC\<rparr>\<rparr>"

definition small_fs :: fs where
  "small_fs = \<lparr>disk = (\<lambda>_. replicate 512 0), disk_size = 8, mem_ok = (\<lambda>_. True), mem_next = 10, open_inodes = [7],
     inodes = [7 \<mapsto> small_inode], ofiles = [8 \<mapsto> \<lparr>f_inode = 7, f_pos = 0, f_deny_write = False\<rparr>],
     free_map = \<lparr>bit_cnt = 8, bits = [0x2F]\<rparr>, free_map_file = None\<rparr>"

lemma inode_write_read_witness:
  "\<exists>s1 s2. inode_write_at 7 [1, 2, 3, 4] 4 511 small_fs = Some (4, s1) \<and> inode_read_at 7 4 511 s1 = Some ([1, 2, 3, 4], s2)"
proof -
  have "inodes small_fs 7 = Some small_inode" "data_ok small_fs (in_data small_inode)" "deny_write_cnt small_inode = 0"
    "\<forall>n. mem_ok small_fs n" "4 = min (length [1, 2, 3, 4 :: u8]) (nat (inode_length small_inode) - 511)"
    by (simp_all add: small_fs_def small_inode_def data_ok_def sector_count_def inode_length_def)
  from inode_write_read [OF this] show ?thesis by auto
qed

section \<open>The free map on disk\<close>

lemma elem_cnt_bound: "elem_cnt n \<le> 134217728"
proof -
  have "wrap32 (n + 32 - 1) < 4294967296" by (rule wrap32_bound)
  then have "wrap32 (n + 32 - 1) div 32 \<le> 134217728" by linarith
  then show ?thesis unfolding elem_cnt_def DIV_ROUND_UP_def ELEM_BITS_def .
qed

lemma byte_cnt_eq: "byte_cnt n = 4 * elem_cnt n"
  using elem_cnt_bound [of n] by (simp add: byte_cnt_def)

lemma length_bitmap_bytes: "length (bitmap_bytes b) = 4 * length (bits b)"
  by (simp add: bitmap_bytes_def length_concat comp_def sum_list_triv)

lemma words_of_bytes: "words_of (concat (map le32 ws) @ rest) (length ws) = ws"
  by (induction ws) auto

definition map_file :: "fs \<Rightarrow> nat \<Rightarrow> inode \<Rightarrow> nat \<Rightarrow> bool" where
  "map_file s k nd n \<longleftrightarrow> (\<exists>f. ofiles s k = Some f \<and> inodes s (f_inode f) = Some nd) \<and> deny_write_cnt nd = 0 \<and>
     data_ok s (in_data nd) \<and> inode_length nd = int (byte_cnt n)"

lemma bitmap_write_spec:
  assumes "map_file s k nd (bit_cnt b)" and "length (bits b) = elem_cnt (bit_cnt b)" and "mem_ok s (mem_next s)"
  shows "\<exists>s'. bitmap_write b k s = Some (True, s') \<and> content s' (in_data nd) = bitmap_bytes b \<and> written (in_data nd) s s'"
proof -
  obtain f where f: "ofiles s k = Some f" "inodes s (f_inode f) = Some nd" using assms(1) by (auto simp: map_file_def)
  let ?n = "byte_cnt (bit_cnt b)"
  have len: "length (bitmap_bytes b) = ?n" using assms(2) by (simp add: length_bitmap_bytes byte_cnt_eq)
  obtain m s' where w: "inode_write_at (f_inode f) (bitmap_bytes b) (int ?n) 0 s = Some (m, s')"
    "mem_ok s (mem_next s) \<longrightarrow> m = min ?n (nat (inode_length nd))"
    "content s' (in_data nd) = overlay (content s (in_data nd)) 0 (take m (bitmap_bytes b))" "written (in_data nd) s s'"
    using inode_write_at_spec [OF f(2), of "int ?n" "bitmap_bytes b" 0] assms(1) len by (auto simp: map_file_def)
  have m: "m = ?n" using w(2) assms(1,3) by (simp add: map_file_def)
  have "length (content s (in_data nd)) = ?n" using assms(1) by (simp add: map_file_def inode_length_def)
  then have "content s' (in_data nd) = bitmap_bytes b" using w(3) m len by (simp add: overlay_def)
  then show ?thesis using w(1,4) m f(1) by (simp add: bitmap_write_def file_write_at_def)
qed

lemma div_round_up_gt: "(n :: nat) mod 32 \<noteq> 0 \<Longrightarrow> n div 32 < (n + 31) div 32"
proof -
  assume "n mod 32 \<noteq> 0"
  then have "n div 32 * 32 + 32 \<le> n + 31" using div_mult_mod_eq [of n 32] by linarith
  then have "(n div 32 * 32 + 32) div 32 \<le> (n + 31) div 32" by (rule div_le_mono)
  then show ?thesis by simp
qed

lemma elem_cnt_exact:
  assumes "bm_inv b" and "length (bits b) = elem_cnt (bit_cnt b)"
  shows "elem_cnt (bit_cnt b) = (bit_cnt b + 31) div 32"
proof (cases "bit_cnt b + 31 < 4294967296")
  case True
  then show ?thesis by (simp add: elem_cnt_def DIV_ROUND_UP_def ELEM_BITS_def add.commute)
next
  case False
  have "bit_cnt b < 4294967295" using assms(1) by (rule bm_inv_bound)
  then have "(bit_cnt b + 31) mod 4294967296 = bit_cnt b + 31 - 4294967296" using False by (simp add: le_mod_geq)
  then have "wrap32 (bit_cnt b + 31) \<le> 30" using \<open>bit_cnt b < 4294967295\<close> unfolding wrap32_def by simp
  then have "elem_cnt (bit_cnt b) = 0" by (simp add: elem_cnt_def DIV_ROUND_UP_def ELEM_BITS_def add.commute)
  then have "bit_cnt b = 0" using assms by (simp add: bm_inv_def)
  with False show ?thesis by simp
qed

lemma last_mask_used:
  assumes "bm_inv b" and "length (bits b) = elem_cnt (bit_cnt b)" and "j = elem_cnt (bit_cnt b) - 1"
  shows "bm_used (b\<lparr>bits := (bits b)[j := bits b ! j AND last_mask b]\<rparr>) = bm_used b"
proof -
  have lt: "i div 32 < length (bits b)" if "i < bit_cnt b" for i using bm_inv_word_index [OF assms(1) that] .
  have "bit (last_mask b) (i mod 32)" if i: "i < bit_cnt b" "i div 32 = j" for i
  proof (cases "bit_cnt b mod 32 = 0")
    case True
    then show ?thesis by (simp add: last_mask_def ELEM_BITS_def)
  next
    case False
    have "j = (bit_cnt b + 31) div 32 - 1" using elem_cnt_exact [OF assms(1,2)] assms(3) by simp
    then have "bit_cnt b div 32 \<le> j" using div_round_up_gt [OF False] by simp
    then have "i mod 32 < bit_cnt b mod 32" using i div_mult_mod_eq [of i 32] div_mult_mod_eq [of "bit_cnt b" 32] by linarith
    moreover have "bit_cnt b mod 32 < 32" by simp
    ultimately show ?thesis
      using False by (simp add: last_mask_def ELEM_BITS_def push_bit_eq_mult mask_eq_exp_minus_1 [symmetric] bit_mask_iff)
  qed
  then have "bm_bit (b\<lparr>bits := (bits b)[j := bits b ! j AND last_mask b]\<rparr>) i = bm_bit b i" if "i < bit_cnt b" for i
    using lt [OF that] that by (cases "i div 32 = j") (simp_all add: bm_bit_def bit_and_iff)
  then show ?thesis by (auto simp: bm_used_def)
qed

section \<open>Allocating sectors\<close>

lemma set_multiple_loop_length:
  "set_multiple_loop b start cnt v i = Some b' \<Longrightarrow> length (bits b') = length (bits b)"
proof (induction b start cnt v i rule: set_multiple_loop.induct)
  case (1 b start cnt v i)
  show ?case
  proof (cases "i < cnt")
    case True
    then obtain b1 where b1: "bitmap_set b (wrap32 (start + i)) v = Some b1" "set_multiple_loop b1 start cnt v (Suc i) = Some b'"
      using "1.prems" by (subst (asm) set_multiple_loop.simps) (auto simp: bind_Some_iff)
    then have "length (bits b1) = length (bits b)"
      by (auto simp: bitmap_set_def bitmap_mark_def bitmap_reset_def Let_def split: if_splits)
    then show ?thesis using "1.IH" [OF True b1] by simp
  next
    case False
    then show ?thesis using "1.prems" by (subst (asm) set_multiple_loop.simps) simp
  qed
qed

lemma bm_grab_keeps_length:
  assumes "bitmap_set_multiple b start cnt v = Some b'"
  shows "length (bits b') = length (bits b)"
  using assms set_multiple_loop_length by (auto simp: bitmap_set_multiple_def split: if_splits)

text \<open>
  C17. \<^verbatim>\<open>free_map_allocate\<close> gives out sectors that were free and marks exactly them, and the free map
  file then holds that map: reading it back gives the same used sectors. It fails only if no run of
  free sectors is long enough, and then nothing has changed.
\<close>

theorem free_map_allocate_persists:
  assumes "bm_inv (free_map s)" and "length (bits (free_map s)) = elem_cnt (bit_cnt (free_map s))"
    and "0 < bit_cnt (free_map s)" and "free_map_file s = Some k" and "map_file s k nd (bit_cnt (free_map s))"
    and "\<forall>n. mem_ok s n"
  shows "\<exists>r s'. free_map_allocate cnt s = Some (r, s') \<and>
    (case r of
       None \<Rightarrow> s' = s \<and> (\<forall>i. i + cnt \<le> bit_cnt (free_map s) \<longrightarrow> {i..<i + cnt} \<inter> bm_used (free_map s) \<noteq> {})
     | Some i \<Rightarrow> i + cnt \<le> bit_cnt (free_map s) \<and> {i..<i + cnt} \<inter> bm_used (free_map s) = {} \<and>
         bm_used (free_map s') = bm_used (free_map s) \<union> {i..<i + cnt} \<and>
         (\<exists>b s2. bitmap_read (free_map s) k s' = Some (True, b, s2) \<and> bm_used b = bm_used (free_map s')))"
  using assms(1)
proof (cases rule: bm_grab_cases [where n = cnt])
  case none
  then have "free_map_allocate cnt s = Some (None, s)" by (simp add: free_map_allocate_def)
  then show ?thesis using none(2) by auto
next
  case (some i b)
  let ?s = "s\<lparr>free_map := b\<rparr>" and ?n = "bit_cnt (free_map s)"
  have lb: "length (bits b) = elem_cnt (bit_cnt b)"
    using some(1,2,4) assms(2) bm_grab_keeps_length
    by (auto simp: bitmap_scan_and_flip_def bind_Some_iff split: if_splits)
  have mf: "map_file ?s k nd (bit_cnt b)" using assms(5) some(4) by (simp add: map_file_def data_ok_def)
  obtain s' where w: "bitmap_write b k ?s = Some (True, s')" "content s' (in_data nd) = bitmap_bytes b" "written (in_data nd) ?s s'"
    using bitmap_write_spec [OF mf lb] assms(6) by auto
  note wf = written_fields [OF w(3)]
  have al: "free_map_allocate cnt s = Some (Some i, s')"
    using some(1,2) assms(4) w(1) by (simp add: free_map_allocate_def)
  obtain f where f: "ofiles s' k = Some f" "inodes s' (f_inode f) = Some nd" using mf wf by (auto simp: map_file_def)
  have ok: "data_ok s' (in_data nd)" using w(3) by (simp add: written_def)
  let ?m = "byte_cnt ?n"
  obtain s2 where r: "inode_read_at (f_inode f) (int ?m) 0 s' = Some (file_bytes (content s' (in_data nd)) ?m 0, s2)"
    using inode_read_at_spec [OF f(2) ok, of "int ?m" 0] wf(6) assms(6) by auto
  have lb': "length (bitmap_bytes b) = ?m" using lb some(4) by (simp add: length_bitmap_bytes byte_cnt_eq)
  have rd: "file_bytes (content s' (in_data nd)) ?m 0 = bitmap_bytes b"
    unfolding w(2) using lb' by (simp add: file_bytes_def)
  have lf: "length (bitmap_bytes (free_map s)) = ?m" using assms(2) by (simp add: length_bitmap_bytes byte_cnt_eq)
  have ws: "words_of (overlay (bitmap_bytes (free_map s)) 0 (bitmap_bytes b)) (length (bits (free_map s))) = bits b"
    using words_of_bytes [of "bits b" "[]"] lb assms(2) some(4) lb' lf by (simp add: overlay_def bitmap_bytes_def)
  let ?j = "elem_cnt ?n - 1"
  let ?b = "(free_map s)\<lparr>bits := (bits b)[?j := bits b ! ?j AND last_mask (free_map s)]\<rparr>"
  have nz: "0 < elem_cnt ?n" using elem_cnt_exact [OF assms(1,2)] assms(3) by simp
  have "bitmap_read (free_map s) k s' = Some (True, ?b, s2)"
    using assms(2,3) f(1) r rd ws nz lb' lb some(4) by (simp add: bitmap_read_def file_read_at_def Let_def)
  moreover have "bm_used ?b = bm_used b"
  proof -
    have "?b = b\<lparr>bits := (bits b)[?j := bits b ! ?j AND last_mask b]\<rparr>" using some(4) by (simp add: last_mask_def)
    then show ?thesis using last_mask_used [OF some(3) lb, of ?j] some(4) by simp
  qed
  moreover have "free_map s' = b" using wf(3) by simp
  ultimately show ?thesis using al some(5-7) by auto
qed

text \<open>The free map of a disk of eight sectors, in a file of four bytes in sector 2.\<close>

definition map_inode :: inode where
  "map_inode = \<lparr>in_sector = 0, open_cnt = 1, removed = False, deny_write_cnt = 0,
     in_data = \<lparr>id_start = 2, id_length = 4, id_magic = INODE_MAGIC\<rparr>\<rparr>"

definition map_fs :: fs where
  "map_fs = small_fs\<lparr>inodes := [7 \<mapsto> map_inode], free_map_file := Some 8\<rparr>"

lemma free_map_allocate_persists_witness:
  "\<exists>i s'. free_map_allocate 2 map_fs = Some (Some i, s') \<and> bm_used (free_map s') = bm_used (free_map map_fs) \<union> {i..<i + 2}"
proof -
  have m: "free_map map_fs = \<lparr>bit_cnt = 8, bits = [0x2F]\<rparr>" "free_map_file map_fs = Some 8" "\<forall>n. mem_ok map_fs n"
    by (simp_all add: map_fs_def small_fs_def)
  have e: "elem_cnt 8 = 1" by (simp add: elem_cnt_def DIV_ROUND_UP_def ELEM_BITS_def)
  have a: "bm_inv (free_map map_fs)" "length (bits (free_map map_fs)) = elem_cnt (bit_cnt (free_map map_fs))"
    "0 < bit_cnt (free_map map_fs)"
    using e by (simp_all add: m bm_inv_def BITMAP_ERROR_def)
  have f: "map_file map_fs 8 map_inode (bit_cnt (free_map map_fs))"
    using e by (simp add: map_file_def m byte_cnt_eq) (simp add: map_fs_def small_fs_def map_inode_def data_ok_def sector_count_def inode_length_def)
  have "{6..<6 + 2} \<inter> bm_used (free_map map_fs) = {}"
  proof -
    have "{6..<6 + 2} = {6 :: nat, 7}" by auto
    then show ?thesis by (simp add: m bm_used_def bm_bit_def)
  qed
  moreover have "6 + 2 \<le> bit_cnt (free_map map_fs)" by (simp add: m)
  moreover obtain r s' where r: "free_map_allocate 2 map_fs = Some (r, s')"
    "case r of None \<Rightarrow> s' = map_fs \<and> (\<forall>i. i + 2 \<le> bit_cnt (free_map map_fs) \<longrightarrow> {i..<i + 2} \<inter> bm_used (free_map map_fs) \<noteq> {})
     | Some i \<Rightarrow> bm_used (free_map s') = bm_used (free_map map_fs) \<union> {i..<i + 2}"
    using free_map_allocate_persists [OF a m(2) f m(3), of 2] by (fastforce split: option.splits)
  moreover have "\<not> (\<forall>i. i + 2 \<le> bit_cnt (free_map map_fs) \<longrightarrow> {i..<i + 2} \<inter> bm_used (free_map map_fs) \<noteq> {})"
    using calculation(1,2) by blast
  ultimately show ?thesis by (cases r) (simp_all only: option.case simp_thms, blast)
qed

end
