(* ===== verification/Directory.thy ===== *)
theory Directory
  imports Inode
begin

text \<open>
  Directories (\<^verbatim>\<open>filesys/directory.c\<close>) and the file system calls (\<^verbatim>\<open>filesys/filesys.c\<close>).

  A directory is a file of 20-byte entries: a sector number, fifteen bytes of name and a flag. An entry
  is kept as its bytes. A name in memory is the list of its bytes before the terminator, and
  \<^verbatim>\<open>strcmp\<close> on names is equality of these lists.
\<close>

definition NAME_MAX :: nat where "NAME_MAX = 14"
definition ENTRY_SIZE :: nat where "ENTRY_SIZE = 20"

definition ent_sector :: "u8 list \<Rightarrow> nat" where "ent_sector e = unat (of_le32 e)"
definition ent_name :: "u8 list \<Rightarrow> u8 list" where "ent_name e = takeWhile (\<lambda>c. c \<noteq> 0) (take (NAME_MAX + 1) (drop 4 e))"
definition ent_in_use :: "u8 list \<Rightarrow> bool" where "ent_in_use e \<longleftrightarrow> e ! 19 \<noteq> 0"

definition set_in_use :: "bool \<Rightarrow> u8 list \<Rightarrow> u8 list" where
  "set_in_use b e = overlay e 19 [if b then 1 else 0]"

definition set_name :: "u8 list \<Rightarrow> u8 list \<Rightarrow> u8 list" where
  "set_name name e = overlay e 4 (name @ [0])"

definition set_sector :: "nat \<Rightarrow> u8 list \<Rightarrow> u8 list" where
  "set_sector sec e = overlay e 0 (le32 (of_nat sec))"

record dir =
  dir_inode :: nat
  dir_pos :: nat

text \<open>An open directory is an object of the caller; \<open>dir_open\<close> returns it, \<open>dir_close\<close> closes its inode.\<close>

definition dir_create :: "nat \<Rightarrow> nat \<Rightarrow> fs \<Rightarrow> (bool \<times> fs) option" where
  "dir_create sector entry_cnt s = inode_create sector (signed_take_bit 31 (int (entry_cnt * ENTRY_SIZE))) s"

definition dir_open :: "nat option \<Rightarrow> fs \<Rightarrow> (dir option \<times> fs) option" where
  "dir_open io s = do {
     let (p, s) = fs_malloc s;
     case (io, p) of
       (Some i, Some _) \<Rightarrow> Some (Some \<lparr>dir_inode = i, dir_pos = 0\<rparr>, s)
     | _ \<Rightarrow> do { s \<leftarrow> inode_close io s; Some (None, s) } }"

definition dir_open_root :: "fs \<Rightarrow> (dir option \<times> fs) option" where
  "dir_open_root s = do { (io, s) \<leftarrow> inode_open ROOT_DIR_SECTOR s; dir_open io s }"

definition dir_reopen :: "dir \<Rightarrow> fs \<Rightarrow> (dir option \<times> fs) option" where
  "dir_reopen d s = do { (io, s) \<leftarrow> inode_reopen (Some (dir_inode d)) s; dir_open io s }"

definition dir_close :: "dir option \<Rightarrow> fs \<Rightarrow> fs option" where
  "dir_close d s = (case d of None \<Rightarrow> Some s | Some d \<Rightarrow> inode_close (Some (dir_inode d)) s)"

definition dir_get_inode :: "dir \<Rightarrow> nat" where
  "dir_get_inode d = dir_inode d"

text \<open>
  The loop of \<open>lookup\<close> over the entries from \<open>ofs\<close> on; \<open>n\<close> bounds the number of entries, and the
  wrapper starts it with more than the file can hold.
\<close>

fun lookup_loop :: "nat \<Rightarrow> nat \<Rightarrow> u8 list \<Rightarrow> nat \<Rightarrow> fs \<Rightarrow> ((u8 list \<times> nat) option \<times> fs) option" where
  "lookup_loop 0 i name ofs s = None"
| "lookup_loop (Suc n) i name ofs s = do {
     (e, s) \<leftarrow> inode_read_at i (int ENTRY_SIZE) ofs s;
     if length e = ENTRY_SIZE
     then if ent_in_use e \<and> name = ent_name e then Some (Some (e, ofs), s)
          else lookup_loop n i name (ofs + ENTRY_SIZE) s
     else Some (None, s) }"

definition entry_fuel :: "nat \<Rightarrow> nat \<Rightarrow> fs \<Rightarrow> nat" where
  "entry_fuel i ofs s = (case inodes s i of None \<Rightarrow> 1 | Some nd \<Rightarrow> nat (inode_length nd) - ofs + 1)"

definition lookup :: "nat \<Rightarrow> u8 list \<Rightarrow> fs \<Rightarrow> ((u8 list \<times> nat) option \<times> fs) option" where
  "lookup i name s = lookup_loop (entry_fuel i 0 s) i name 0 s"

definition dir_lookup :: "dir \<Rightarrow> u8 list \<Rightarrow> fs \<Rightarrow> (nat option \<times> fs) option" where
  "dir_lookup d name s = do {
     (r, s) \<leftarrow> lookup (dir_inode d) name s;
     case r of None \<Rightarrow> Some (None, s) | Some (e, _) \<Rightarrow> inode_open (ent_sector e) s }"

text \<open>The search for a free slot; it leaves the bytes of the entry read last in \<open>e\<close>.\<close>

fun free_slot_loop :: "nat \<Rightarrow> nat \<Rightarrow> u8 list \<Rightarrow> nat \<Rightarrow> fs \<Rightarrow> (u8 list \<times> nat \<times> fs) option" where
  "free_slot_loop 0 i e ofs s = None"
| "free_slot_loop (Suc n) i e ofs s = do {
     (b, s) \<leftarrow> inode_read_at i (int ENTRY_SIZE) ofs s;
     let e = overlay e 0 b;
     if length b = ENTRY_SIZE
     then if \<not> ent_in_use e then Some (e, ofs, s) else free_slot_loop n i e (ofs + ENTRY_SIZE) s
     else Some (e, ofs, s) }"

definition dir_add :: "u8 list \<Rightarrow> dir \<Rightarrow> u8 list \<Rightarrow> nat \<Rightarrow> fs \<Rightarrow> (bool \<times> fs) option" where
  "dir_add stack d name inode_sector s =
     (if name = [] \<or> length name > NAME_MAX then Some (False, s)
      else do {
        (r, s) \<leftarrow> lookup (dir_inode d) name s;
        if r \<noteq> None then Some (False, s)
        else do {
          (e, ofs, s) \<leftarrow> free_slot_loop (entry_fuel (dir_inode d) 0 s) (dir_inode d) stack 0 s;
          let e = set_sector inode_sector (set_name name (set_in_use True e));
          (n, s) \<leftarrow> inode_write_at (dir_inode d) e (int ENTRY_SIZE) ofs s;
          Some (n = ENTRY_SIZE, s) } })"

definition dir_remove :: "dir \<Rightarrow> u8 list \<Rightarrow> fs \<Rightarrow> (bool \<times> fs) option" where
  "dir_remove d name s = do {
     (r, s) \<leftarrow> lookup (dir_inode d) name s;
     case r of
       None \<Rightarrow> do { s \<leftarrow> inode_close None s; Some (False, s) }
     | Some (e, ofs) \<Rightarrow> do {
         (io, s) \<leftarrow> inode_open (ent_sector e) s;
         case io of
           None \<Rightarrow> do { s \<leftarrow> inode_close None s; Some (False, s) }
         | Some i \<Rightarrow> do {
             (n, s) \<leftarrow> inode_write_at (dir_inode d) (set_in_use False e) (int ENTRY_SIZE) ofs s;
             if n \<noteq> ENTRY_SIZE then do { s \<leftarrow> inode_close io s; Some (False, s) }
             else do { s \<leftarrow> inode_remove i s; s \<leftarrow> inode_close io s; Some (True, s) } } } }"

fun readdir_loop :: "nat \<Rightarrow> dir \<Rightarrow> fs \<Rightarrow> (u8 list option \<times> dir \<times> fs) option" where
  "readdir_loop 0 d s = None"
| "readdir_loop (Suc n) d s = do {
     (e, s) \<leftarrow> inode_read_at (dir_inode d) (int ENTRY_SIZE) (dir_pos d) s;
     if length e = ENTRY_SIZE
     then let d = d\<lparr>dir_pos := dir_pos d + ENTRY_SIZE\<rparr>
       in if ent_in_use e then Some (Some (ent_name e), d, s) else readdir_loop n d s
     else Some (None, d, s) }"

definition dir_readdir :: "dir \<Rightarrow> fs \<Rightarrow> (u8 list option \<times> dir \<times> fs) option" where
  "dir_readdir d s = readdir_loop (entry_fuel (dir_inode d) (dir_pos d) s) d s"

section \<open>File system calls\<close>

text \<open>\<open>stack\<close> is what the uninitialised directory entry of \<open>dir_add\<close> holds.\<close>

definition filesys_create :: "u8 list \<Rightarrow> u8 list \<Rightarrow> int \<Rightarrow> fs \<Rightarrow> (bool \<times> fs) option" where
  "filesys_create stack name initial_size s = do {
     (d, s) \<leftarrow> dir_open_root s;
     (success, inode_sector, s) \<leftarrow>
       (case d of
          None \<Rightarrow> Some (False, 0, s)
        | Some dr \<Rightarrow> do {
            (sec, s) \<leftarrow> free_map_allocate 1 s;
            case sec of
              None \<Rightarrow> Some (False, 0, s)
            | Some inode_sector \<Rightarrow> do {
                (ok, s) \<leftarrow> inode_create inode_sector initial_size s;
                if ok then do { (ok, s) \<leftarrow> dir_add stack dr name inode_sector s; Some (ok, inode_sector, s) }
                else Some (False, inode_sector, s) } });
     s \<leftarrow> (if \<not> success \<and> inode_sector \<noteq> 0 then free_map_release inode_sector 1 s else Some s);
     s \<leftarrow> dir_close d s;
     Some (success, s) }"

definition filesys_open :: "u8 list \<Rightarrow> fs \<Rightarrow> (nat option \<times> fs) option" where
  "filesys_open name s = do {
     (d, s) \<leftarrow> dir_open_root s;
     (io, s) \<leftarrow> (case d of None \<Rightarrow> Some (None, s) | Some dr \<Rightarrow> dir_lookup dr name s);
     s \<leftarrow> dir_close d s;
     file_open io s }"

definition filesys_remove :: "u8 list \<Rightarrow> fs \<Rightarrow> (bool \<times> fs) option" where
  "filesys_remove name s = do {
     (d, s) \<leftarrow> dir_open_root s;
     (success, s) \<leftarrow> (case d of None \<Rightarrow> Some (False, s) | Some dr \<Rightarrow> dir_remove dr name s);
     s \<leftarrow> dir_close d s;
     Some (success, s) }"

definition do_format :: "fs \<Rightarrow> fs option" where
  "do_format s = do {
     s \<leftarrow> free_map_create s;
     (ok, s) \<leftarrow> dir_create ROOT_DIR_SECTOR 16 s;
     ASSERT ok;
     free_map_close s }"

definition filesys_init :: "bool \<Rightarrow> bool \<Rightarrow> u32 list option \<Rightarrow> fs \<Rightarrow> fs option" where
  "filesys_init format ok mem s = do {
     let s = inode_init s;
     s \<leftarrow> free_map_init ok mem s;
     s \<leftarrow> (if format then do_format s else Some s);
     free_map_open s }"

definition filesys_done :: "fs \<Rightarrow> fs option" where
  "filesys_done s = free_map_close s"

end
