(* ===== verification/Directory_Props.thy ===== *)
theory Directory_Props
  imports Directory Inode_Props
begin

text \<open>
  A directory is a finite map from names to sectors: adding a name updates the map, and looking one up
  gives its value. A directory does not grow.
\<close>

section \<open>Entries\<close>

definition entries :: "u8 list \<Rightarrow> u8 list list" where
  "entries c = map (\<lambda>k. file_bytes c 20 (20 * k)) [0..<length c div 20]"

fun find_entry :: "u8 list \<Rightarrow> u8 list list \<Rightarrow> nat \<Rightarrow> (u8 list \<times> nat) option" where
  "find_entry name [] ofs = None"
| "find_entry name (e # es) ofs =
     (if ent_in_use e \<and> name = ent_name e then Some (e, ofs) else find_entry name es (ofs + 20))"

fun free_entry :: "u8 list list \<Rightarrow> nat option" where
  "free_entry [] = None"
| "free_entry (e # es) = (if \<not> ent_in_use e then Some 0 else map_option Suc (free_entry es))"

text \<open>The map a list of entries stands for, and the condition that no name occurs twice.\<close>

definition dir_map :: "u8 list list \<Rightarrow> u8 list \<Rightarrow> nat option" where
  "dir_map es name = map_option (\<lambda>(e, _). ent_sector e) (find_entry name es 0)"

definition names_ok :: "u8 list list \<Rightarrow> bool" where
  "names_ok es \<longleftrightarrow> (\<forall>i<length es. \<forall>j<length es. ent_in_use (es ! i) \<longrightarrow> ent_in_use (es ! j) \<longrightarrow>
     ent_name (es ! i) = ent_name (es ! j) \<longrightarrow> i = j)"

lemma ENTRY_SIZE_20 [simp]: "ENTRY_SIZE = 20" and NAME_MAX_14 [simp]: "NAME_MAX = 14"
  by (simp_all add: ENTRY_SIZE_def NAME_MAX_def)

lemma length_entries [simp]: "length (entries c) = length c div 20"
  by (simp add: entries_def)

lemma nth_entries: "k < length c div 20 \<Longrightarrow> entries c ! k = file_bytes c 20 (20 * k)"
  by (simp add: entries_def)

lemma length_entry: "k < length c div 20 \<Longrightarrow> length (file_bytes c 20 (20 * k)) = 20"
  by (simp add: file_bytes_def)

lemma length_no_entry: "length c div 20 \<le> k \<Longrightarrow> length (file_bytes c 20 (20 * k)) \<noteq> 20"
  by (auto simp: file_bytes_def min_def)

lemma find_entry_Some:
  "find_entry name es ofs = Some (e, p) \<Longrightarrow> \<exists>k<length es. p = ofs + 20 * k \<and> e = es ! k \<and> ent_in_use e \<and> ent_name e = name"
proof (induction es arbitrary: ofs)
  case (Cons x xs)
  show ?case
  proof (cases "ent_in_use x \<and> name = ent_name x")
    case True
    then show ?thesis using Cons.prems by (intro exI [of _ 0]) auto
  next
    case False
    then obtain k where "k < length xs" "p = ofs + 20 + 20 * k" "e = xs ! k" "ent_in_use e" "ent_name e = name"
      using Cons.IH [of "ofs + 20"] Cons.prems by (auto simp only: find_entry.simps if_False split: if_splits)
    then show ?thesis by (intro exI [of _ "Suc k"]) auto
  qed
qed simp

lemma find_entry_None: "find_entry name es ofs = None \<longleftrightarrow> (\<forall>k<length es. \<not> (ent_in_use (es ! k) \<and> ent_name (es ! k) = name))"
  by (induction es arbitrary: ofs) (auto simp: less_Suc_eq_0_disj)

lemma dir_map_Some:
  assumes "names_ok es"
  shows "dir_map es name = Some sec \<longleftrightarrow> (\<exists>k<length es. ent_in_use (es ! k) \<and> ent_name (es ! k) = name \<and> ent_sector (es ! k) = sec)"
proof (cases "find_entry name es 0")
  case None
  then show ?thesis using find_entry_None [of name es 0] by (auto simp: dir_map_def)
next
  case (Some r)
  obtain e p where r: "r = (e, p)" by (cases r)
  then obtain k where k: "k < length es" "e = es ! k" "ent_in_use e" "ent_name e = name"
    using find_entry_Some [of name es 0 e p] Some by auto
  have u: "j = k" if "j < length es" "ent_in_use (es ! j)" "ent_name (es ! j) = name" for j
    using assms k that unfolding names_ok_def by simp
  have "dir_map es name = Some (ent_sector (es ! k))" using Some r k(2) by (simp add: dir_map_def)
  then have d: "dir_map es name = Some sec \<longleftrightarrow> ent_sector (es ! k) = sec" by simp
  show ?thesis
  proof
    assume "dir_map es name = Some sec"
    then show "\<exists>k<length es. ent_in_use (es ! k) \<and> ent_name (es ! k) = name \<and> ent_sector (es ! k) = sec"
      using d k by blast
  next
    assume "\<exists>k<length es. ent_in_use (es ! k) \<and> ent_name (es ! k) = name \<and> ent_sector (es ! k) = sec"
    then obtain j where j: "j < length es" "ent_in_use (es ! j)" "ent_name (es ! j) = name" "ent_sector (es ! j) = sec" by blast
    with u [OF j(1-3)] show "dir_map es name = Some sec" using d by simp
  qed
qed

lemma dir_map_None: "dir_map es name = None \<longleftrightarrow> (\<forall>k<length es. \<not> (ent_in_use (es ! k) \<and> ent_name (es ! k) = name))"
  using find_entry_None [of name es 0] by (simp add: dir_map_def)

lemma free_entry_Some: "free_entry es = Some j \<Longrightarrow> j < length es \<and> \<not> ent_in_use (es ! j)"
  by (induction es arbitrary: j) (auto split: if_splits)

lemma free_entry_None: "free_entry es = None \<longleftrightarrow> (\<forall>e\<in>set es. ent_in_use e)"
  by (induction es) auto

section \<open>Reading the entries\<close>

text \<open>The state up to the number of allocations.\<close>

definition same_fs :: "fs \<Rightarrow> fs \<Rightarrow> bool" where
  "same_fs s s' \<longleftrightarrow> (\<exists>n. s' = s\<lparr>mem_next := n\<rparr>)"

lemma same_fs_refl [simp]: "same_fs s s" and same_fs_next [simp]: "same_fs s (s\<lparr>mem_next := n\<rparr>)"
  and same_fs_trans: "same_fs s s1 \<Longrightarrow> same_fs s1 s2 \<Longrightarrow> same_fs s s2"
  by (auto simp: same_fs_def intro: exI [of _ "mem_next s"])

lemma same_fs_fields:
  "same_fs s s' \<Longrightarrow> inodes s' = inodes s \<and> disk s' = disk s \<and> mem_ok s' = mem_ok s \<and> content s' d = content s d \<and>
    data_ok s' d = data_ok s d \<and> open_inodes s' = open_inodes s \<and> free_map s' = free_map s \<and> disk_size s' = disk_size s"
  by (auto simp: same_fs_def)

definition dir_ok :: "fs \<Rightarrow> nat \<Rightarrow> inode \<Rightarrow> bool" where
  "dir_ok s i nd \<longleftrightarrow> inodes s i = Some nd \<and> data_ok s (in_data nd) \<and> (\<forall>n. mem_ok s n)"

lemma read_entry:
  assumes "dir_ok s i nd"
  shows "\<exists>s'. inode_read_at i 20 (20 * k) s = Some (file_bytes (content s (in_data nd)) 20 (20 * k), s') \<and> same_fs s s'"
  using inode_read_at_spec [of s i nd 20 "20 * k"] assms by (auto simp: dir_ok_def)

lemma find_entry_step:
  "k < length es \<Longrightarrow> find_entry name (drop k es) ofs =
    (if ent_in_use (es ! k) \<and> name = ent_name (es ! k) then Some (es ! k, ofs) else find_entry name (drop (Suc k) es) (ofs + 20))"
  by (simp add: Cons_nth_drop_Suc [symmetric])

lemma dir_ok_same: "dir_ok s i nd \<Longrightarrow> same_fs s s' \<Longrightarrow> dir_ok s' i nd"
  using same_fs_fields [of s s'] by (simp add: dir_ok_def)

lemma lookup_loop_spec:
  assumes "dir_ok s i nd" and "c = content s (in_data nd)" and "k \<le> length c div 20" and "length c div 20 < k + n"
  shows "\<exists>s'. lookup_loop n i name (20 * k) s = Some (find_entry name (drop k (entries c)) (20 * k), s') \<and> same_fs s s'"
  using assms
proof (induction n arbitrary: k s)
  case (Suc n)
  obtain s1 where r: "inode_read_at i 20 (20 * k) s = Some (file_bytes c 20 (20 * k), s1)" "same_fs s s1"
    using read_entry [OF Suc.prems(1), of k] Suc.prems(2) by blast
  show ?case
  proof (cases "k < length c div 20")
    case True
    have e: "entries c ! k = file_bytes c 20 (20 * k)" "length (file_bytes c 20 (20 * k)) = 20"
      using True by (simp_all add: nth_entries length_entry)
    note st = find_entry_step [of k "entries c" name "20 * k"]
    show ?thesis
    proof (cases "ent_in_use (entries c ! k) \<and> name = ent_name (entries c ! k)")
      case hit: True
      then show ?thesis using r e st True by auto
    next
      case False
      have c1: "c = content s1 (in_data nd)" using Suc.prems(2) same_fs_fields [OF r(2)] by simp
      obtain s' where s': "lookup_loop n i name (20 * Suc k) s1 = Some (find_entry name (drop (Suc k) (entries c)) (20 * Suc k), s')"
        "same_fs s1 s'"
        using Suc.IH [OF dir_ok_same [OF Suc.prems(1) r(2)] c1, of "Suc k"] True Suc.prems(4) by auto
      have "lookup_loop (Suc n) i name (20 * k) s = lookup_loop n i name (20 * Suc k) s1"
        using r(1) e False by (auto simp: add.commute)
      moreover have "find_entry name (drop k (entries c)) (20 * k) = find_entry name (drop (Suc k) (entries c)) (20 * Suc k)"
        using st True False by (simp add: add.commute)
      ultimately show ?thesis using s' same_fs_trans [OF r(2)] by auto
    qed
  next
    case False
    then show ?thesis using r length_no_entry [of c k] by auto
  qed
qed simp

lemma lookup_spec:
  assumes "dir_ok s i nd" and "c = content s (in_data nd)"
  shows "\<exists>s'. lookup i name s = Some (find_entry name (entries c) 0, s') \<and> same_fs s s'"
proof -
  have "entry_fuel i 0 s = length c + 1" using assms by (simp add: entry_fuel_def dir_ok_def inode_length_def)
  then show ?thesis
    using lookup_loop_spec [OF assms, of 0 "length c + 1" name] div_le_dividend [of "length c" 20] by (simp add: lookup_def)
qed

lemma free_slot_spec:
  assumes "dir_ok s i nd" and "c = content s (in_data nd)" and "k \<le> length c div 20" and "length c div 20 < k + n"
    and "length e = 20"
  shows "\<exists>e' s'. free_slot_loop n i e (20 * k) s =
      Some (e', 20 * (case free_entry (drop k (entries c)) of Some j \<Rightarrow> k + j | None \<Rightarrow> length c div 20), s') \<and>
    same_fs s s' \<and> length e' = 20"
  using assms
proof (induction n arbitrary: k s e)
  case (Suc n)
  obtain s1 where r: "inode_read_at i 20 (20 * k) s = Some (file_bytes c 20 (20 * k), s1)" "same_fs s s1"
    using read_entry [OF Suc.prems(1), of k] Suc.prems(2) by blast
  have le: "length (overlay e 0 (file_bytes c 20 (20 * k))) = 20"
    using Suc.prems(5) by (simp add: file_bytes_def)
  show ?case
  proof (cases "k < length c div 20")
    case True
    have e: "entries c ! k = file_bytes c 20 (20 * k)" "length (file_bytes c 20 (20 * k)) = 20"
      using True by (simp_all add: nth_entries length_entry)
    have o: "overlay e 0 (file_bytes c 20 (20 * k)) = entries c ! k" using e Suc.prems(5) by (simp add: overlay_def)
    have st: "free_entry (drop k (entries c)) =
        (if \<not> ent_in_use (entries c ! k) then Some 0 else map_option Suc (free_entry (drop (Suc k) (entries c))))"
      using True by (simp add: Cons_nth_drop_Suc [symmetric])
    show ?thesis
    proof (cases "ent_in_use (entries c ! k)")
      case False
      then show ?thesis using r e o st le by auto
    next
      case used: True
      have c1: "c = content s1 (in_data nd)" using Suc.prems(2) same_fs_fields [OF r(2)] by simp
      obtain e' s' where s': "free_slot_loop n i (entries c ! k) (20 * Suc k) s1 =
          Some (e', 20 * (case free_entry (drop (Suc k) (entries c)) of Some j \<Rightarrow> Suc k + j | None \<Rightarrow> length c div 20), s')"
        "same_fs s1 s'" "length e' = 20"
        using Suc.IH [OF dir_ok_same [OF Suc.prems(1) r(2)] c1, of "Suc k" "entries c ! k"] True Suc.prems(4) le o by auto
      have "free_slot_loop (Suc n) i e (20 * k) s = free_slot_loop n i (entries c ! k) (20 * Suc k) s1"
        using r(1) e(2) o used by (simp add: add.commute)
      then show ?thesis using s' same_fs_trans [OF r(2) s'(2)] st used by (auto split: option.splits)
    qed
  next
    case False
    then have "k = length c div 20" "free_entry (drop k (entries c)) = None" using Suc.prems(3) by simp_all
    then show ?thesis using r length_no_entry [of c k] le by auto
  qed
qed simp

lemma free_slot_start:
  assumes "dir_ok s i nd" and "c = content s (in_data nd)" and "length e = 20"
  shows "\<exists>e' s'. free_slot_loop (entry_fuel i 0 s) i e 0 s =
      Some (e', 20 * (case free_entry (entries c) of Some j \<Rightarrow> j | None \<Rightarrow> length c div 20), s') \<and>
    same_fs s s' \<and> length e' = 20"
proof -
  have "entry_fuel i 0 s = length c + 1" using assms by (simp add: entry_fuel_def dir_ok_def inode_length_def)
  then have lt: "length c div 20 < 0 + entry_fuel i 0 s" using div_le_dividend [of "length c" 20] by simp
  from free_slot_spec [OF assms(1,2) le0 lt assms(3)] show ?thesis by (simp cong: option.case_cong)
qed

section \<open>Adding a name\<close>

lemma file_bytes_overlay_same: "p + length b \<le> length c \<Longrightarrow> file_bytes (overlay c p b) (length b) p = b"
  by (rule file_bytes_overlay)

lemma file_bytes_overlay_other:
  assumes "p + length b \<le> length c" and "q + n \<le> p \<or> p + length b \<le> q"
  shows "file_bytes (overlay c p b) n q = file_bytes c n q"
proof (rule nth_equalityI)
  show "length (file_bytes (overlay c p b) n q) = length (file_bytes c n q)" using assms(1) by (simp add: file_bytes_def)
  fix k assume "k < length (file_bytes (overlay c p b) n q)"
  then have k: "k < n" "q + k < length c" using assms(1) by (auto simp: file_bytes_def)
  moreover from this assms(2) have "\<not> (p \<le> q + k \<and> q + k < p + length b)" by linarith
  ultimately show "file_bytes (overlay c p b) n q ! k = file_bytes c n q ! k"
    using assms(1) nth_overlay [OF assms(1) k(2)] by (auto simp: file_bytes_def)
qed

lemma entries_overlay:
  assumes "j < length c div 20" and "length e = 20"
  shows "entries (overlay c (20 * j) e) = (entries c)[j := e]"
proof (rule nth_equalityI)
  have p: "20 * j + length e \<le> length c" using assms by linarith
  show "length (entries (overlay c (20 * j) e)) = length ((entries c)[j := e])" using p by simp
  fix k assume "k < length (entries (overlay c (20 * j) e))"
  then have k: "k < length c div 20" using p by simp
  then have e: "entries (overlay c (20 * j) e) ! k = file_bytes (overlay c (20 * j) e) 20 (20 * k)"
    using p by (simp add: nth_entries)
  show "entries (overlay c (20 * j) e) ! k = (entries c)[j := e] ! k"
  proof (cases "k = j")
    case True
    then show ?thesis using e k p assms(2) file_bytes_overlay_same [OF p] by simp
  next
    case False
    then have "20 * k + 20 \<le> 20 * j \<or> 20 * j + length e \<le> 20 * k" using assms(2) by linarith
    then show ?thesis using e k p False file_bytes_overlay_other [OF p] by (simp add: nth_entries)
  qed
qed

lemma new_entry:
  assumes "length e = 20" and "length name \<le> 14" and "0 \<notin> set name" and "sec < 4294967296"
    and e': "e' = set_sector sec (set_name name (set_in_use True e))"
  shows "length e' = 20" "ent_in_use e'" "ent_name e' = name" "ent_sector e' = sec"
proof -
  let ?a = "set_in_use True e"
  let ?b = "set_name name ?a"
  have a: "length ?a = 20" "?a ! 19 = 1" using assms(1) by (simp_all add: set_in_use_def nth_overlay)
  have b: "length ?b = 20" using a assms(2) by (simp add: set_name_def)
  have b19: "?b ! 19 = 1" using a assms(2) by (simp add: set_name_def nth_overlay)
  have bn: "drop 4 ?b = (name @ [0]) @ drop (5 + length name) ?a" using a(1) by (simp add: set_name_def overlay_def)
  show l: "length e' = 20" using b by (simp add: e' set_sector_def)
  have "e' ! 19 = ?b ! 19" using b by (simp add: e' set_sector_def nth_overlay)
  then show "ent_in_use e'" using b19 by (simp add: ent_in_use_def)
  have "drop 4 e' = drop 4 ?b" using b by (simp add: e' set_sector_def overlay_def)
  then have "take 15 (drop 4 e') = name @ 0 # take (14 - length name) (drop (5 + length name) ?a)"
    using assms(2) unfolding bn by (simp add: take_Cons')
  moreover have "takeWhile (\<lambda>c. c \<noteq> 0) (name @ 0 # xs) = name" for xs using assms(3) by (induction name) auto
  ultimately show "ent_name e' = name" by (simp add: ent_name_def)
  show "ent_sector e' = sec" using assms(4) by (simp add: e' ent_sector_def set_sector_def overlay_def unat_of_nat)
qed

lemma dir_map_add:
  assumes ok: "names_ok es" and j: "j < length es" "\<not> ent_in_use (es ! j)" and none: "dir_map es name = None"
    and e: "ent_in_use e" "ent_name e = name" "ent_sector e = sec"
  shows "names_ok (es[j := e])" and "dir_map (es[j := e]) = (dir_map es)(name \<mapsto> sec)"
proof -
  have fresh: "\<And>k. k < length es \<Longrightarrow> ent_in_use (es ! k) \<Longrightarrow> ent_name (es ! k) \<noteq> name"
    using none by (auto simp: dir_map_None)
  show nm: "names_ok (es[j := e])"
    unfolding names_ok_def
  proof (intro allI impI)
    fix a b
    assume a: "a < length (es[j := e])" "b < length (es[j := e])" "ent_in_use (es[j := e] ! a)" "ent_in_use (es[j := e] ! b)"
      "ent_name (es[j := e] ! a) = ent_name (es[j := e] ! b)"
    show "a = b"
    proof (cases "a = j \<or> b = j")
      case True
      then show ?thesis using a e fresh [of a] fresh [of b] by (auto simp: nth_list_update split: if_splits)
    next
      case False
      then show ?thesis using a ok unfolding names_ok_def by simp
    qed
  qed
  show "dir_map (es[j := e]) = (dir_map es)(name \<mapsto> sec)"
  proof
    fix nm'
    have "dir_map (es[j := e]) nm' = Some x \<longleftrightarrow> ((dir_map es)(name \<mapsto> sec)) nm' = Some x" for x
    proof (cases "nm' = name")
      case True
      have "(\<exists>k<length es. ent_in_use (es[j := e] ! k) \<and> ent_name (es[j := e] ! k) = name \<and> ent_sector (es[j := e] ! k) = x) \<longleftrightarrow> sec = x"
        using e fresh j(1) by (auto simp: nth_list_update)
      then show ?thesis using True by (simp add: dir_map_Some [OF nm])
    next
      case False
      have "(ent_in_use (es[j := e] ! k) \<and> ent_name (es[j := e] ! k) = nm' \<and> ent_sector (es[j := e] ! k) = x) =
          (ent_in_use (es ! k) \<and> ent_name (es ! k) = nm' \<and> ent_sector (es ! k) = x)" if "k < length es" for k
        using False e j by (cases "k = j") auto
      then have "(\<exists>k<length es. ent_in_use (es[j := e] ! k) \<and> ent_name (es[j := e] ! k) = nm' \<and> ent_sector (es[j := e] ! k) = x) \<longleftrightarrow>
          (\<exists>k<length es. ent_in_use (es ! k) \<and> ent_name (es ! k) = nm' \<and> ent_sector (es ! k) = x)" by blast
      then show ?thesis using False by (simp add: dir_map_Some [OF nm] dir_map_Some [OF ok])
    qed
    then show "dir_map (es[j := e]) nm' = ((dir_map es)(name \<mapsto> sec)) nm'" by (metis not_Some_eq)
  qed
qed


text \<open>
  C16. \<^verbatim>\<open>dir_add\<close> succeeds exactly if the name is not empty, at most 14 bytes long and not in the
  directory, and a slot is free, since a directory does not grow. It then updates the map from names to
  sectors at that name and otherwise leaves it unchanged.
\<close>

theorem dir_add_updates_map:
  assumes "dir_ok s (dir_inode d) nd" and "deny_write_cnt nd = 0" and "nat (inode_length nd) mod 20 = 0"
    and "names_ok (entries (content s (in_data nd)))" and "0 \<notin> set name" and "sec < 4294967296" and "length stack = 20"
  shows "\<exists>ok s'. dir_add stack d name sec s = Some (ok, s') \<and>
    (ok \<longleftrightarrow> name \<noteq> [] \<and> length name \<le> NAME_MAX \<and> dir_map (entries (content s (in_data nd))) name = None \<and>
      (\<exists>e\<in>set (entries (content s (in_data nd))). \<not> ent_in_use e)) \<and>
    names_ok (entries (content s' (in_data nd))) \<and>
    dir_map (entries (content s' (in_data nd))) =
      (if ok then (dir_map (entries (content s (in_data nd))))(name \<mapsto> sec) else dir_map (entries (content s (in_data nd))))"
proof (cases "name = [] \<or> length name > 14")
  case True
  then show ?thesis using assms(4) by (intro exI [of _ False] exI [of _ s]) (auto simp: dir_add_def)
next
  case valid: False
  let ?i = "dir_inode d" and ?c = "content s (in_data nd)"
  let ?es = "entries ?c"
  obtain s1 where s1: "lookup ?i name s = Some (find_entry name ?es 0, s1)" "same_fs s s1"
    using lookup_spec [OF assms(1) refl] by blast
  have d1: "dir_ok s1 ?i nd" and c1: "?c = content s1 (in_data nd)"
    using dir_ok_same [OF assms(1) s1(2)] same_fs_fields [OF s1(2)] by simp_all
  show ?thesis
  proof (cases "find_entry name ?es 0")
    case (Some r)
    then have "dir_add stack d name sec s = Some (False, s1)" using s1(1) valid by (simp add: dir_add_def)
    moreover have "dir_map ?es name \<noteq> None" using Some by (simp add: dir_map_def)
    ultimately show ?thesis using assms(4) c1 by (intro exI [of _ False] exI [of _ s1]) auto
  next
    case None
    then have none: "dir_map ?es name = None" by (simp add: dir_map_def)
    obtain e s2 where s2: "free_slot_loop (entry_fuel ?i 0 s1) ?i stack 0 s1 =
        Some (e, 20 * (case free_entry ?es of Some j \<Rightarrow> j | None \<Rightarrow> length ?c div 20), s2)" "same_fs s1 s2" "length e = 20"
      using free_slot_start [OF d1 c1 assms(7)] by blast
    define e' where "e' = set_sector sec (set_name name (set_in_use True e))"
    have e': "length e' = 20" "ent_in_use e'" "ent_name e' = name" "ent_sector e' = sec"
      using new_entry [OF s2(3) _ assms(5,6) e'_def] valid by simp_all
    have d2: "dir_ok s2 ?i nd" and c2: "content s2 (in_data nd) = ?c"
      using dir_ok_same [OF d1 s2(2)] same_fs_fields [OF s2(2)] c1 by simp_all
    define ofs where "ofs = 20 * (case free_entry ?es of Some j \<Rightarrow> j | None \<Rightarrow> length ?c div 20)"
    obtain n s3 where w: "inode_write_at ?i e' 20 ofs s2 = Some (n, s3)" "n = min 20 (length ?c - ofs)"
      "content s3 (in_data nd) = overlay ?c ofs (take n e')"
      using inode_write_at_spec [of s2 ?i nd 20 e' ofs] d2 assms(2) e'(1) c2
      by (auto simp: dir_ok_def inode_length_def)
    have run: "dir_add stack d name sec s = Some (n = 20, s3)"
      using valid s1(1) None s2(1) w(1) by (simp add: dir_add_def e'_def ofs_def)
    show ?thesis
    proof (cases "free_entry ?es")
      case full: None
      then have "ofs = length ?c" using assms(3) by (auto simp: ofs_def inode_length_def)
      then have "n = 0" using w(2) by simp
      then have "content s3 (in_data nd) = ?c" using w(3) by simp
      then show ?thesis using run \<open>n = 0\<close> full assms(4) free_entry_None [of ?es]
        by (intro exI [of _ False] exI [of _ s3]) auto
    next
      case (Some j)
      then have j: "j < length ?es" "\<not> ent_in_use (?es ! j)" using free_entry_Some by blast+
      have ofs: "ofs = 20 * j" using Some by (simp add: ofs_def)
      then have "n = 20" using w(2) j(1) by simp
      then have "content s3 (in_data nd) = overlay ?c (20 * j) e'" using w(3) e'(1) ofs by simp
      then have es3: "entries (content s3 (in_data nd)) = ?es[j := e']" using entries_overlay j(1) e'(1) by simp
      show ?thesis
        using run \<open>n = 20\<close> valid none j es3 dir_map_add [OF assms(4) j none e'(2-4)]
        by (intro exI [of _ True] exI [of _ s3]) (auto intro!: bexI [of _ "?es ! j"])
    qed
  qed
qed


text \<open>The small disk with an empty directory of two slots, open as object 7.\<close>

definition two_slots :: inode where
  "two_slots = \<lparr>in_sector = 1, open_cnt = 1, removed = False, deny_write_cnt = 0,
     in_data = \<lparr>id_start = 2, id_length = 40, id_magic = INODE_MAGIC\<rparr>\<rparr>"

definition dir_fs :: fs where
  "dir_fs = small_fs\<lparr>inodes := [7 \<mapsto> two_slots]\<rparr>"

lemma dir_fs_entries: "entries (content dir_fs (in_data two_slots)) = [replicate 20 0, replicate 20 0]"
proof -
  have c: "content dir_fs (in_data two_slots) = replicate 40 0"
    by (rule nth_equalityI) (simp_all add: nth_content, simp_all add: dir_fs_def small_fs_def two_slots_def)
  have "[0..<2] = [0, 1 :: nat]" by (simp add: upt_rec)
  then show ?thesis unfolding c entries_def by (simp add: file_bytes_def)
qed

lemma dir_add_updates_map_witness:
  "\<exists>s'. dir_add (replicate 20 7) \<lparr>dir_inode = 7, dir_pos = 0\<rparr> [97, 98] 5 dir_fs = Some (True, s') \<and>
    dir_map (entries (content s' (in_data two_slots))) [97, 98] = Some 5"
proof -
  have unused: "\<not> ent_in_use (replicate 20 0)" by (simp add: ent_in_use_def)
  have no: "\<not> ent_in_use (entries (content dir_fs (in_data two_slots)) ! k)" if "k < 2" for k
    using that unused unfolding dir_fs_entries by (cases k) auto
  have a: "dir_ok dir_fs (dir_inode \<lparr>dir_inode = 7, dir_pos = 0\<rparr>) two_slots" "deny_write_cnt two_slots = 0"
    "nat (inode_length two_slots) mod 20 = 0"
    by (simp_all add: dir_ok_def data_ok_def sector_count_def inode_length_def) (simp_all add: dir_fs_def small_fs_def two_slots_def)
  have l: "length (entries (content dir_fs (in_data two_slots))) = 2" by (simp add: dir_fs_entries)
  have b: "names_ok (entries (content dir_fs (in_data two_slots)))" unfolding names_ok_def l using no by blast
  have n: "dir_map (entries (content dir_fs (in_data two_slots))) [97, 98] = None" unfolding dir_map_None l using no by blast
  have c: "(0 :: u8) \<notin> set [97, 98]" "(5 :: nat) < 4294967296" "length (replicate 20 (7 :: u8)) = 20" by simp_all
  obtain ok s' where r: "dir_add (replicate 20 7) \<lparr>dir_inode = 7, dir_pos = 0\<rparr> [97, 98] 5 dir_fs = Some (ok, s')"
    "ok \<longleftrightarrow> (\<exists>e\<in>set (entries (content dir_fs (in_data two_slots))). \<not> ent_in_use e)"
    "dir_map (entries (content s' (in_data two_slots))) = (if ok
      then (dir_map (entries (content dir_fs (in_data two_slots))))([97, 98] \<mapsto> 5) else dir_map (entries (content dir_fs (in_data two_slots))))"
    using dir_add_updates_map [OF a b c] n by auto
  have ok unfolding r(2) using no [of 0] l by (auto intro!: bexI [of _ "entries (content dir_fs (in_data two_slots)) ! 0"])
  then show ?thesis using r(1,3) by auto
qed

end
