(* ===== verification/Threads.thy ===== *)
theory Threads
  imports Inode
begin

text \<open>
  Threads and synchronization: the scheduler (\<^verbatim>\<open>threads/thread.c\<close>), semaphores, locks and condition
  variables (\<^verbatim>\<open>threads/synch.c\<close>), the interrupt level and the external interrupt
  (\<^verbatim>\<open>threads/interrupt.c\<close>), the timer (\<^verbatim>\<open>devices/timer.c\<close>) and the life cycle of processes
  (\<^verbatim>\<open>userprog/process.c\<close>, \<^verbatim>\<open>userprog/syscall.c\<close>).

  One processor runs one thread at a time. What a thread still has to do is a list of operations, its
  program; a routine that can lose the processor is the list of its operations, and an operation is a
  piece of code that no interrupt divides. The two list operations of condition variables, which the source runs with
  interrupts on under the lock of the caller, count as one operation each. \<open>exec\<close> runs one operation of the running thread and returns the
  operations that take its place. A thread with an empty program may call anything next, \<^verbatim>\<open>thread_exit\<close> among it, which is what
  \<^verbatim>\<open>kernel_thread\<close> calls after the function of the thread. A thread is named by the page that holds its structure; a freed page
  has no thread, and reading one is a panic. The elements of the intrusive lists are thread names here.

  A semaphore is one declared by a client, that of a lock, or the one on the stack of a thread that
  waits on a condition variable; a lock is a static one or the one on the stack of a thread.
\<close>

section \<open>State\<close>

datatype thread_status = THREAD_RUNNING | THREAD_READY | THREAD_BLOCKED | THREAD_DYING

datatype lref = LOCK nat | TEMP nat

datatype sref = SEMA nat | LOCK_SEMA lref | WAITER nat

datatype cref = COND nat | EXIT_COND nat | LOAD_COND nat

text \<open>
  What \<open>load\<close> does to a new process: it succeeds with an open executable, or it fails with or without a
  page directory.
\<close>

datatype load_result = LOADED nat | NOT_LOADED bool

datatype op =
    INTR_SET bool
  | SEMA_INIT sref u32 | SEMA_DOWN sref | SEMA_WAIT sref bool | SEMA_UP sref
  | LOCK_INIT lref | NOT_HELD lref | HELD lref | TRY_LOCK lref | SET_HOLDER lref | CLEAR_HOLDER lref
  | COND_PUSH cref | COND_POP cref | COND_ALL cref lref
  | YIELD | SLEEP int | SLEEP_LOOP int int
  | CREATE string int "op list" | NEXT_TID nat | LAUNCH nat string "op list"
  | SET_IDLE | IDLE_LOOP
  | EXIT_SIGNAL | FREE_SPACE | EXIT
  | RELEASE nat | RELEASE_CHILDREN nat "nat list" | CLOSE_ALL nat | CLOSE_FILE nat | DROP_FILE nat | FREE_PAGE nat
  | FREE_THREAD nat | FAULT
  | WAIT_CHILD int | WAIT_LOOP nat | WAIT_RESULT nat
  | PROCESS_EXECUTE string load_result | START_PROCESS load_result | SET_LOADED load_result
  | EXEC_FIND | LOAD_LOOP "nat option" int | EXEC_RESULT "nat option" int

definition THREAD_MAGIC :: u32 where "THREAD_MAGIC = 0xcd6abf4b"
definition TIME_SLICE :: u32 where "TIME_SLICE = 4"
definition TID_ERROR :: int where "TID_ERROR = -1"
definition PRI_MIN :: int where "PRI_MIN = 0"
definition PRI_DEFAULT :: int where "PRI_DEFAULT = 31"
definition PRI_MAX :: int where "PRI_MAX = 63"
definition FD_VALUE :: int where "FD_VALUE = 2"
definition THREAD_YET_TO_LOAD :: nat where "THREAD_YET_TO_LOAD = 0"
definition THREAD_LOAD_POSITIVE :: nat where "THREAD_LOAD_POSITIVE = 1"
definition THREAD_LOAD_NEGATIVE :: nat where "THREAD_LOAD_NEGATIVE = 2"

text \<open>
  \<open>t_stack\<close> is the saved stack pointer as an offset into the page; \<open>t_pages\<close> and \<open>t_pagedir\<close> tell whether the
  thread has page objects and a page directory, which have theories of their own; \<open>t_ret\<close> is the value
  its last call returned.
\<close>

record thread =
  t_tid :: int
  t_status :: thread_status
  t_name :: string
  t_stack :: nat
  t_priority :: int
  t_exit_status :: int
  t_children :: "nat list"
  t_parent :: "nat option"
  t_exe_file :: "nat option"
  t_opened_files :: "(int \<times> nat) list"
  t_thread_fd :: int
  t_is_parent_waiting :: bool
  t_is_thread_exited :: bool
  t_is_loaded :: nat
  t_pagedir :: bool
  t_pages :: bool
  t_magic :: u32
  t_ret :: int

record semaphore =
  s_value :: u32
  s_waiters :: "nat list"

record kern =
  threads :: "nat \<Rightarrow> thread option"
  cur :: nat
  intr_on :: bool
  in_external_intr :: bool
  yield_on_return :: bool
  ready_list :: "nat list"
  all_list :: "nat list"
  idle_thread :: "nat option"
  initial_thread :: nat
  thread_ticks :: u32
  idle_ticks :: int
  kernel_ticks :: int
  user_ticks :: int
  ticks :: int
  next_tid :: int
  page_ok :: "nat \<Rightarrow> bool"
  page_next :: nat
  semas :: "sref \<Rightarrow> semaphore"
  holder :: "lref \<Rightarrow> nat option"
  conds :: "cref \<Rightarrow> nat list"
  prog :: "nat \<Rightarrow> op list"
  kfs :: fs

definition TID_LOCK :: lref where "TID_LOCK = LOCK 0"
definition FILE_OP_LOCK :: lref where "FILE_OP_LOCK = LOCK 1"

definition upd_thread :: "nat \<Rightarrow> (thread \<Rightarrow> thread) \<Rightarrow> kern \<Rightarrow> kern" where
  "upd_thread t f s = s\<lparr>threads := (threads s)(t := map_option f (threads s t))\<rparr>"

definition set_status :: "nat \<Rightarrow> thread_status \<Rightarrow> kern \<Rightarrow> kern" where
  "set_status t st s = upd_thread t (\<lambda>th. th\<lparr>t_status := st\<rparr>) s"

definition set_ret :: "int \<Rightarrow> kern \<Rightarrow> kern" where
  "set_ret v s = upd_thread (cur s) (\<lambda>th. th\<lparr>t_ret := v\<rparr>) s"

definition set_sema :: "sref \<Rightarrow> semaphore \<Rightarrow> kern \<Rightarrow> kern" where
  "set_sema r x s = s\<lparr>semas := (semas s)(r := x)\<rparr>"

section \<open>The interrupt level\<close>

definition intr_enable :: "kern \<Rightarrow> kern option" where
  "intr_enable s = do { ASSERT (\<not> in_external_intr s); Some (s\<lparr>intr_on := True\<rparr>) }"

definition intr_disable :: "kern \<Rightarrow> kern" where
  "intr_disable s = s\<lparr>intr_on := False\<rparr>"

definition intr_set_level :: "bool \<Rightarrow> kern \<Rightarrow> kern option" where
  "intr_set_level on s = (if on then intr_enable s else Some (intr_disable s))"

definition intr_yield_on_return :: "kern \<Rightarrow> kern option" where
  "intr_yield_on_return s = do { ASSERT (in_external_intr s); Some (s\<lparr>yield_on_return := True\<rparr>) }"

section \<open>Scheduling\<close>

definition is_thread :: "kern \<Rightarrow> nat \<Rightarrow> bool" where
  "is_thread s t = (case threads s t of None \<Rightarrow> False | Some th \<Rightarrow> t_magic th = THREAD_MAGIC)"

definition thread_current :: "kern \<Rightarrow> thread option" where
  "thread_current s = do {
     ASSERT (is_thread s (cur s));
     th \<leftarrow> threads s (cur s);
     ASSERT (t_status th = THREAD_RUNNING);
     Some th }"

definition next_thread_to_run :: "kern \<Rightarrow> nat option \<times> kern" where
  "next_thread_to_run s =
     (case ready_list s of
        [] \<Rightarrow> (idle_thread s, s)
      | t # ts \<Rightarrow> (Some t, s\<lparr>ready_list := ts\<rparr>))"

text \<open>
  The end of a switch, run by the new thread: what remains of freeing the old one are operations of
  the new one. The address space of the new thread is activated in the processor only.
\<close>

definition thread_schedule_tail :: "nat option \<Rightarrow> kern \<Rightarrow> kern option" where
  "thread_schedule_tail prev s = do {
     ASSERT (\<not> intr_on s);
     let s = (set_status (cur s) THREAD_RUNNING s)\<lparr>thread_ticks := 0\<rparr>;
     case prev of
       None \<Rightarrow> Some s
     | Some p \<Rightarrow> do {
         th \<leftarrow> threads s p;
         if t_status th = THREAD_DYING \<and> p \<noteq> initial_thread s
         then do {
           orphan \<leftarrow> (case t_parent th of None \<Rightarrow> Some True | Some q \<Rightarrow> map_option t_is_thread_exited (threads s q));
           if orphan
           then do { ASSERT (p \<noteq> cur s); Some (s\<lparr>prog := (prog s)(cur s := RELEASE p # prog s (cur s))\<rparr>) }
           else Some s }
         else Some s } }"

definition schedule :: "kern \<Rightarrow> kern option" where
  "schedule s = do {
     let c = cur s;
     let (nx, s) = next_thread_to_run s;
     ASSERT (\<not> intr_on s);
     th \<leftarrow> threads s c;
     ASSERT (t_status th \<noteq> THREAD_RUNNING);
     n \<leftarrow> nx;
     ASSERT (is_thread s n);
     thread_schedule_tail (if c \<noteq> n then Some c else None) (s\<lparr>cur := n\<rparr>) }"

definition thread_block :: "kern \<Rightarrow> kern option" where
  "thread_block s = do {
     ASSERT (\<not> in_external_intr s);
     ASSERT (\<not> intr_on s);
     _ \<leftarrow> thread_current s;
     schedule (set_status (cur s) THREAD_BLOCKED s) }"

definition thread_unblock :: "nat \<Rightarrow> kern \<Rightarrow> kern option" where
  "thread_unblock t s = do {
     ASSERT (is_thread s t);
     th \<leftarrow> threads s t;
     ASSERT (t_status th = THREAD_BLOCKED);
     Some (set_status t THREAD_READY (s\<lparr>ready_list := ready_list s @ [t]\<rparr>)) }"

text \<open>\<open>thread_yield\<close> up to the switch; the level is restored when the thread runs again.\<close>

definition thread_yield :: "kern \<Rightarrow> (op list \<times> kern) option" where
  "thread_yield s = do {
     _ \<leftarrow> thread_current s;
     ASSERT (\<not> in_external_intr s);
     let old = intr_on s;
     let s = intr_disable s;
     let s = (if Some (cur s) \<noteq> idle_thread s then s\<lparr>ready_list := ready_list s @ [cur s]\<rparr> else s);
     s \<leftarrow> schedule (set_status (cur s) THREAD_READY s);
     Some ([INTR_SET old], s) }"

section \<open>Semaphores\<close>

definition sema_init :: "sref \<Rightarrow> u32 \<Rightarrow> kern \<Rightarrow> kern" where
  "sema_init r v s = set_sema r \<lparr>s_value = v, s_waiters = []\<rparr> s"

text \<open>The loop of \<open>sema_down\<close>: after a wake-up the thread tests the value again.\<close>

definition sema_wait :: "sref \<Rightarrow> bool \<Rightarrow> kern \<Rightarrow> (op list \<times> kern) option" where
  "sema_wait r old s =
     (if s_value (semas s r) = 0
      then do {
        _ \<leftarrow> thread_current s;
        s \<leftarrow> thread_block (set_sema r ((semas s r)\<lparr>s_waiters := s_waiters (semas s r) @ [cur s]\<rparr>) s);
        Some ([SEMA_WAIT r old], s) }
      else do {
        s \<leftarrow> intr_set_level old (set_sema r ((semas s r)\<lparr>s_value := s_value (semas s r) - 1\<rparr>) s);
        Some ([], s) })"

definition sema_down :: "sref \<Rightarrow> kern \<Rightarrow> (op list \<times> kern) option" where
  "sema_down r s = do {
     ASSERT (\<not> in_external_intr s);
     sema_wait r (intr_on s) (intr_disable s) }"

definition sema_try_down :: "sref \<Rightarrow> kern \<Rightarrow> bool \<times> kern" where
  "sema_try_down r s =
     (if s_value (semas s r) > 0
      then (True, set_sema r ((semas s r)\<lparr>s_value := s_value (semas s r) - 1\<rparr>) s)
      else (False, s))"

definition sema_up :: "sref \<Rightarrow> kern \<Rightarrow> kern option" where
  "sema_up r s = do {
     s \<leftarrow> (case s_waiters (semas s r) of
         [] \<Rightarrow> Some s
       | t # ts \<Rightarrow> thread_unblock t (set_sema r ((semas s r)\<lparr>s_waiters := ts\<rparr>) s));
     Some (set_sema r ((semas s r)\<lparr>s_value := s_value (semas s r) + 1\<rparr>) s) }"

section \<open>Locks\<close>

definition lock_init :: "lref \<Rightarrow> kern \<Rightarrow> kern" where
  "lock_init l s = sema_init (LOCK_SEMA l) 1 (s\<lparr>holder := (holder s)(l := None)\<rparr>)"

definition lock_held_by_current_thread :: "lref \<Rightarrow> kern \<Rightarrow> bool" where
  "lock_held_by_current_thread l s = (holder s l = Some (cur s))"

definition lock_acquire :: "lref \<Rightarrow> op list" where
  "lock_acquire l = [NOT_HELD l, SEMA_DOWN (LOCK_SEMA l), SET_HOLDER l]"

definition lock_try_acquire :: "lref \<Rightarrow> op list" where
  "lock_try_acquire l = [NOT_HELD l, TRY_LOCK l]"

definition lock_release :: "lref \<Rightarrow> op list" where
  "lock_release l = [CLEAR_HOLDER l, SEMA_UP (LOCK_SEMA l)]"

section \<open>Condition variables\<close>

definition cond_init :: "cref \<Rightarrow> kern \<Rightarrow> kern" where
  "cond_init c s = s\<lparr>conds := (conds s)(c := [])\<rparr>"

text \<open>\<open>cond_wait\<close> of the thread \<open>t\<close>, which has the semaphore of the waiter on its stack.\<close>

definition cond_wait :: "nat \<Rightarrow> cref \<Rightarrow> lref \<Rightarrow> op list" where
  "cond_wait t c l = [HELD l, SEMA_INIT (WAITER t) 0, COND_PUSH c] @ lock_release l @ [SEMA_DOWN (WAITER t)] @ lock_acquire l"

definition cond_signal :: "cref \<Rightarrow> lref \<Rightarrow> op list" where
  "cond_signal c l = [HELD l, COND_POP c]"

definition cond_broadcast :: "cref \<Rightarrow> lref \<Rightarrow> op list" where
  "cond_broadcast c l = [COND_ALL c l]"


section \<open>Creating threads\<close>

definition blank_thread :: "string \<Rightarrow> int \<Rightarrow> thread" where
  "blank_thread name priority =
     \<lparr>t_tid = 0, t_status = THREAD_BLOCKED, t_name = take 15 name, t_stack = 4096, t_priority = priority,
      t_exit_status = -1, t_children = [], t_parent = None, t_exe_file = None, t_opened_files = [],
      t_thread_fd = FD_VALUE, t_is_parent_waiting = False, t_is_thread_exited = False,
      t_is_loaded = THREAD_YET_TO_LOAD, t_pagedir = False, t_pages = False, t_magic = THREAD_MAGIC, t_ret = 0\<rparr>"

definition init_thread :: "nat \<Rightarrow> string \<Rightarrow> int \<Rightarrow> kern \<Rightarrow> kern option" where
  "init_thread t name priority s = do {
     ASSERT (PRI_MIN \<le> priority \<and> priority \<le> PRI_MAX);
     let s = s\<lparr>threads := (threads s)(t \<mapsto> blank_thread name priority), all_list := all_list s @ [t]\<rparr>;
     Some (cond_init (LOAD_COND t) (cond_init (EXIT_COND t) s)) }"

text \<open>
  \<open>allocate_tid\<close> gives the next identifier to \<open>t\<close>, under a lock; it is what \<open>thread_create\<close> returns.
\<close>

definition next_tid_to :: "nat \<Rightarrow> kern \<Rightarrow> kern option" where
  "next_tid_to t s = do {
     _ \<leftarrow> threads s t;
     Some (set_ret (next_tid s) (upd_thread t (\<lambda>th. th\<lparr>t_tid := next_tid s\<rparr>) (s\<lparr>next_tid := next_tid s + 1\<rparr>))) }"

definition allocate_tid :: "nat \<Rightarrow> op list" where
  "allocate_tid t = lock_acquire TID_LOCK @ [NEXT_TID t] @ lock_release TID_LOCK"

definition alloc_frame :: "nat \<Rightarrow> nat \<Rightarrow> kern \<Rightarrow> kern option" where
  "alloc_frame t sz s = do {
     ASSERT (is_thread s t);
     ASSERT (sz mod 4 = 0);
     Some (upd_thread t (\<lambda>th. th\<lparr>t_stack := t_stack th - sz\<rparr>) s) }"

text \<open>The frames of \<open>kernel_thread\<close> (which lets interrupts in before it calls the function), \<open>switch_entry\<close> and \<open>switch_threads\<close>; they start the program of the thread.\<close>

definition kernel_thread :: "op list \<Rightarrow> op list" where
  "kernel_thread func = INTR_SET True # func"

definition start_frames :: "nat \<Rightarrow> op list \<Rightarrow> kern \<Rightarrow> kern option" where
  "start_frames t func s = do {
     s \<leftarrow> alloc_frame t 12 s;
     s \<leftarrow> alloc_frame t 4 s;
     s \<leftarrow> alloc_frame t 28 s;
     Some (s\<lparr>prog := (prog s)(t := kernel_thread func)\<rparr>) }"

definition link_child :: "nat \<Rightarrow> string \<Rightarrow> kern \<Rightarrow> kern option" where
  "link_child t name s =
     (if name \<noteq> ''main''
      then do {
        _ \<leftarrow> thread_current s;
        _ \<leftarrow> threads s t;
        let s = upd_thread t (\<lambda>th. th\<lparr>t_parent := Some (cur s)\<rparr>) s;
        Some (if name \<noteq> ''idle'' then upd_thread (cur s) (\<lambda>th. th\<lparr>t_children := t_children th @ [t]\<rparr>) s else s) }
      else Some s)"

text \<open>
  The end of \<open>thread_create\<close>. The new thread cannot run before it is unblocked and nobody else reads the
  fields that are set here, so that an interrupt in between changes nothing.
\<close>

definition launch :: "nat \<Rightarrow> string \<Rightarrow> op list \<Rightarrow> kern \<Rightarrow> kern option" where
  "launch t name func s = do {
     s \<leftarrow> start_frames t func s;
     s \<leftarrow> link_child t name s;
     thread_unblock t s }"

definition thread_create :: "string \<Rightarrow> int \<Rightarrow> op list \<Rightarrow> kern \<Rightarrow> (op list \<times> kern) option" where
  "thread_create name priority func s =
     (let t = page_next s; s = s\<lparr>page_next := t + 1\<rparr>
      in if page_ok s t
         then do {
           s \<leftarrow> init_thread t name priority s;
           Some (allocate_tid t @ [LAUNCH t name func], s) }
         else Some ([], set_ret TID_ERROR s))"

text \<open>The thread that runs when no other can; \<open>hlt\<close> waits for an interrupt with interrupts on.\<close>

definition idle :: "op list" where
  "idle = [SET_IDLE, SEMA_UP (SEMA 0), IDLE_LOOP]"

definition idle_loop :: "kern \<Rightarrow> (op list \<times> kern) option" where
  "idle_loop s = do { s \<leftarrow> thread_block (intr_disable s); Some ([INTR_SET True, IDLE_LOOP], s) }"

definition thread_start :: "op list" where
  "thread_start = [SEMA_INIT (SEMA 0) 0, CREATE ''idle'' PRI_MIN idle, INTR_SET True, SEMA_DOWN (SEMA 0)]"

definition static_semas :: "sref \<Rightarrow> semaphore" where
  "static_semas r = \<lparr>s_value = (case r of LOCK_SEMA (LOCK _) \<Rightarrow> 1 | _ \<Rightarrow> 0), s_waiters = []\<rparr>"

text \<open>
  The kernel after \<open>thread_init\<close>, about to start the idle thread. What \<^verbatim>\<open>lock_init\<close> makes of the static locks, \<^verbatim>\<open>tid_lock\<close> among
  them, is in \<open>static_semas\<close>.
\<close>

definition thread_init :: "(nat \<Rightarrow> bool) \<Rightarrow> fs \<Rightarrow> kern option" where
  "thread_init ok f = do {
     s \<leftarrow> init_thread 0 ''main'' PRI_DEFAULT
       \<lparr>threads = (\<lambda>_. None), cur = 0, intr_on = False, in_external_intr = False, yield_on_return = False,
        ready_list = [], all_list = [], idle_thread = None, initial_thread = 0, thread_ticks = 0, idle_ticks = 0,
        kernel_ticks = 0, user_ticks = 0, ticks = 0, next_tid = 1, page_ok = ok, page_next = 1, semas = static_semas,
        holder = (\<lambda>_. None), conds = (\<lambda>_. []), prog = (\<lambda>_. []), kfs = f\<rparr>;
     let s = set_status 0 THREAD_RUNNING s;
     Some (s\<lparr>prog := (prog s)(0 := allocate_tid 0 @ thread_start)\<rparr>) }"

section \<open>Looking up threads\<close>

definition thread_tid :: "kern \<Rightarrow> int option" where
  "thread_tid s = map_option t_tid (thread_current s)"

definition thread_name :: "kern \<Rightarrow> string option" where
  "thread_name s = map_option t_name (thread_current s)"

definition thread_get_priority :: "kern \<Rightarrow> int option" where
  "thread_get_priority s = map_option t_priority (thread_current s)"

definition thread_set_priority :: "int \<Rightarrow> kern \<Rightarrow> kern option" where
  "thread_set_priority p s = do {
     _ \<leftarrow> thread_current s;
     Some (upd_thread (cur s) (\<lambda>th. th\<lparr>t_priority := p\<rparr>) s) }"

fun find_tid :: "int \<Rightarrow> nat list \<Rightarrow> kern \<Rightarrow> nat option option" where
  "find_tid i [] s = Some None"
| "find_tid i (t # ts) s = do { th \<leftarrow> threads s t; if t_tid th = i then Some (Some t) else find_tid i ts s }"

definition get_alive_thread_by_tid :: "int \<Rightarrow> kern \<Rightarrow> nat option option" where
  "get_alive_thread_by_tid i s = (if i < 1 then Some None else find_tid i (all_list s) s)"

definition get_child_thread_by_tid :: "int \<Rightarrow> kern \<Rightarrow> nat option option" where
  "get_child_thread_by_tid i s =
     (if i < 1 then Some None
      else do { th \<leftarrow> thread_current s; find_tid i (t_children th) s })"

section \<open>Exit and release\<close>

text \<open>
  The loop over the children of the parent: the first one with the identifier of the running thread,
  unless that is 2, gets the signal.
\<close>

fun find_self :: "int \<Rightarrow> nat list \<Rightarrow> kern \<Rightarrow> nat option option" where
  "find_self i [] s = Some None"
| "find_self i (t # ts) s = do {
     th \<leftarrow> threads s t;
     if t_tid th = i \<and> t_tid th \<noteq> 2 then Some (Some t) else find_self i ts s }"

definition exit_signal :: "kern \<Rightarrow> op list option" where
  "exit_signal s = do {
     th \<leftarrow> thread_current s;
     let l = TEMP (cur s);
     rest \<leftarrow> (case t_parent th of
         None \<Rightarrow> Some []
       | Some p \<Rightarrow> do {
           pt \<leftarrow> threads s p;
           r \<leftarrow> find_self (t_tid th) (t_children pt) s;
           Some (case r of None \<Rightarrow> [] | Some c \<Rightarrow> lock_acquire l @ cond_signal (EXIT_COND c) l @ lock_release l) });
     Some (LOCK_INIT l # rest) }"

text \<open>The page objects, the executable file and the page directory of the running thread are given up.\<close>

definition free_space :: "kern \<Rightarrow> kern option" where
  "free_space s = do {
     th \<leftarrow> thread_current s;
     f \<leftarrow> file_close (t_exe_file th) (kfs s);
     Some (upd_thread (cur s) (\<lambda>th. th\<lparr>t_pages := False, t_pagedir := False\<rparr>) (s\<lparr>kfs := f\<rparr>)) }"

definition process_exit :: "op list" where
  "process_exit = [EXIT_SIGNAL, FREE_SPACE]"

definition exit_switch :: "kern \<Rightarrow> kern option" where
  "exit_switch s = do {
     ASSERT (\<not> in_external_intr s);
     let s = intr_disable s;
     _ \<leftarrow> thread_current s;
     let s = s\<lparr>all_list := remove1 (cur s) (all_list s)\<rparr>;
     schedule (upd_thread (cur s) (\<lambda>th. th\<lparr>t_is_thread_exited := True, t_status := THREAD_DYING\<rparr>) s) }"

definition thread_exit :: "op list" where
  "thread_exit = process_exit @ [EXIT]"

text \<open>
  Closing all files of a thread. The page of the first file is freed and filled with \<open>0xcc\<close> before the
  loop reads the next element from it, so that the loop never gets past one file.
\<close>

definition close_all_opened_files :: "nat \<Rightarrow> kern \<Rightarrow> op list option" where
  "close_all_opened_files t s = do {
     th \<leftarrow> threads s t;
     Some (case t_opened_files th of
         [] \<Rightarrow> []
       | (fd, k) # fs \<Rightarrow> lock_acquire FILE_OP_LOCK @ [CLOSE_FILE k] @ lock_release FILE_OP_LOCK @ [DROP_FILE t, FAULT]) }"

definition release_thread_resources :: "nat \<Rightarrow> kern \<Rightarrow> op list option" where
  "release_thread_resources t s = do {
     th \<leftarrow> threads s t;
     Some [RELEASE_CHILDREN t (t_children th), CLOSE_ALL t, FREE_THREAD t] }"

text \<open>
  The loop over the children; after the page of a child is freed the next element is read from it. C gives that read no meaning,
  and a run of the model ends there with \<open>FAULT\<close>; so does the loop over the open files.
\<close>

definition release_children :: "nat \<Rightarrow> nat list \<Rightarrow> kern \<Rightarrow> (op list \<times> kern) option" where
  "release_children t cs s =
     (case cs of
        [] \<Rightarrow> Some ([], s)
      | c # cs \<Rightarrow> do {
          th \<leftarrow> threads s c;
          if t_tid th \<noteq> 2
          then do {
            let s = upd_thread c (\<lambda>th. th\<lparr>t_parent := None\<rparr>) s;
            let s = upd_thread t (\<lambda>th. th\<lparr>t_children := remove1 c (t_children th)\<rparr>) s;
            Some (if t_is_thread_exited th then [CLOSE_ALL c, FREE_PAGE c, FAULT] else [RELEASE_CHILDREN t cs], s) }
          else Some ([RELEASE_CHILDREN t cs], s) })"

definition palloc_free_page :: "nat \<Rightarrow> kern \<Rightarrow> kern option" where
  "palloc_free_page t s = do { _ \<leftarrow> threads s t; Some (s\<lparr>threads := (threads s)(t := None)\<rparr>) }"

definition free_thread :: "nat \<Rightarrow> kern \<Rightarrow> kern option" where
  "free_thread t s = do {
     th \<leftarrow> threads s t;
     case t_parent th of
       None \<Rightarrow> palloc_free_page t s
     | Some p \<Rightarrow> do {
         pt \<leftarrow> threads s p;
         if t_is_thread_exited pt
         then palloc_free_page t (upd_thread p (\<lambda>th. th\<lparr>t_children := remove1 t (t_children th)\<rparr>) s)
         else Some s } }"

section \<open>Processes\<close>

text \<open>A thread that waits for a child, or for a process to load, does so under a lock on its own stack.\<close>

definition process_wait :: "int \<Rightarrow> kern \<Rightarrow> (op list \<times> kern) option" where
  "process_wait i s = do {
     r \<leftarrow> get_child_thread_by_tid i s;
     case r of
       None \<Rightarrow> Some ([], set_ret (-1) s)
     | Some c \<Rightarrow> do {
         th \<leftarrow> threads s c;
         if t_is_parent_waiting th then Some ([], set_ret (-1) s)
         else Some ([LOCK_INIT (TEMP (cur s))] @ lock_acquire (TEMP (cur s)) @ [WAIT_LOOP c],
           upd_thread c (\<lambda>th. th\<lparr>t_is_parent_waiting := True\<rparr>) s) } }"

definition wait_loop :: "nat \<Rightarrow> kern \<Rightarrow> op list option" where
  "wait_loop c s = do {
     th \<leftarrow> threads s c;
     let l = TEMP (cur s);
     Some (if \<not> t_is_thread_exited th then cond_wait (cur s) (EXIT_COND c) l @ [WAIT_LOOP c]
       else lock_release l @ [WAIT_RESULT c]) }"

definition wait_result :: "nat \<Rightarrow> kern \<Rightarrow> kern option" where
  "wait_result c s = do { th \<leftarrow> threads s c; Some (set_ret (t_exit_status th) s) }"

text \<open>
  A new process. A command line without a word has no thread name, which \<open>init_thread\<close> asserts. The first
  page is for the copy of the command line.
\<close>

definition process_execute :: "string \<Rightarrow> load_result \<Rightarrow> kern \<Rightarrow> (op list \<times> kern) option" where
  "process_execute file_name r s =
     (let s' = s\<lparr>page_next := page_next s + 1\<rparr>;
          name = takeWhile (\<lambda>c. c \<noteq> CHR '' '') (dropWhile (\<lambda>c. c = CHR '' '') (take 16 file_name))
      in if \<not> page_ok s (page_next s) then Some ([], set_ret TID_ERROR s')
         else if name = [] \<and> page_ok s' (page_next s') then None
         else Some ([CREATE name PRI_DEFAULT [START_PROCESS r]], s'))"

definition load_ok :: "load_result \<Rightarrow> bool" where
  "load_ok r = (case r of LOADED _ \<Rightarrow> True | NOT_LOADED _ \<Rightarrow> False)"

definition start_process :: "load_result \<Rightarrow> nat \<Rightarrow> op list" where
  "start_process r t = [LOCK_INIT (TEMP t)] @ lock_acquire (TEMP t) @ [SET_LOADED r] @
     cond_signal (LOAD_COND t) (TEMP t) @ lock_release (TEMP t) @ (if load_ok r then [] else thread_exit)"

definition set_loaded :: "load_result \<Rightarrow> kern \<Rightarrow> kern option" where
  "set_loaded r s = do {
     _ \<leftarrow> thread_current s;
     Some (upd_thread (cur s) (\<lambda>th. case r of
         LOADED f \<Rightarrow> th\<lparr>t_pagedir := True, t_pages := True, t_exe_file := Some f, t_is_loaded := THREAD_LOAD_POSITIVE\<rparr>
       | NOT_LOADED pd \<Rightarrow> th\<lparr>t_pagedir := pd, t_pages := pd, t_is_loaded := THREAD_LOAD_NEGATIVE\<rparr>) s) }"

definition exec_process :: "string \<Rightarrow> load_result \<Rightarrow> op list" where
  "exec_process name r = [PROCESS_EXECUTE name r, EXEC_FIND]"

definition exec_find :: "kern \<Rightarrow> op list option" where
  "exec_find s = do {
     me \<leftarrow> thread_current s;
     t \<leftarrow> get_alive_thread_by_tid (t_ret me) s;
     let l = TEMP (cur s);
     Some ([LOCK_INIT l] @ lock_acquire l @ [LOAD_LOOP t (t_ret me)]) }"

definition load_state :: "nat option \<Rightarrow> kern \<Rightarrow> nat option" where
  "load_state t s = (case t of None \<Rightarrow> Some THREAD_LOAD_NEGATIVE | Some t \<Rightarrow> map_option t_is_loaded (threads s t))"

definition load_loop :: "nat option \<Rightarrow> int \<Rightarrow> kern \<Rightarrow> op list option" where
  "load_loop t i s = do {
     st \<leftarrow> load_state t s;
     let l = TEMP (cur s);
     Some (case t of
         Some c \<Rightarrow> if st = THREAD_YET_TO_LOAD then cond_wait (cur s) (LOAD_COND c) l @ [LOAD_LOOP t i]
                   else lock_release l @ [EXEC_RESULT t i]
       | None \<Rightarrow> lock_release l @ [EXEC_RESULT t i]) }"

definition exec_result :: "nat option \<Rightarrow> int \<Rightarrow> kern \<Rightarrow> kern option" where
  "exec_result t i s = do { st \<leftarrow> load_state t s; Some (set_ret (if st = THREAD_LOAD_NEGATIVE then -1 else i) s) }"


section \<open>The timer\<close>

definition timer_ticks :: "kern \<Rightarrow> int" where
  "timer_ticks s = ticks s"

definition timer_elapsed :: "int \<Rightarrow> kern \<Rightarrow> int" where
  "timer_elapsed thn s = timer_ticks s - thn"

definition timer_sleep :: "int \<Rightarrow> kern \<Rightarrow> op list option" where
  "timer_sleep n s = do {
     ASSERT (intr_on s);
     Some [SLEEP_LOOP (timer_ticks s) n] }"

definition sleep_loop :: "int \<Rightarrow> int \<Rightarrow> kern \<Rightarrow> op list" where
  "sleep_loop start n s = (if timer_elapsed start s < n then [YIELD, SLEEP_LOOP start n] else [])"

definition thread_tick :: "kern \<Rightarrow> kern option" where
  "thread_tick s = do {
     th \<leftarrow> thread_current s;
     let s = (if Some (cur s) = idle_thread s then s\<lparr>idle_ticks := idle_ticks s + 1\<rparr>
              else if t_pagedir th then s\<lparr>user_ticks := user_ticks s + 1\<rparr>
              else s\<lparr>kernel_ticks := kernel_ticks s + 1\<rparr>);
     let s = s\<lparr>thread_ticks := thread_ticks s + 1\<rparr>;
     if thread_ticks s \<ge> TIME_SLICE then intr_yield_on_return s else Some s }"

definition timer_interrupt :: "kern \<Rightarrow> kern option" where
  "timer_interrupt s = thread_tick (s\<lparr>ticks := ticks s + 1\<rparr>)"

text \<open>
  An external interrupt of the timer. The processor turns interrupts off; the return from the
  interrupt turns them on again, which a thread that yields does when it runs again.
\<close>

definition intr_handler :: "kern \<Rightarrow> (op list \<times> kern) option" where
  "intr_handler s = do {
     ASSERT (\<not> intr_on s);
     ASSERT (\<not> in_external_intr s);
     s \<leftarrow> timer_interrupt (s\<lparr>in_external_intr := True, yield_on_return := False\<rparr>);
     ASSERT (\<not> intr_on s);
     ASSERT (in_external_intr s);
     let s = s\<lparr>in_external_intr := False\<rparr>;
     if yield_on_return s then thread_yield s else Some ([], s) }"

section \<open>Steps\<close>

definition same_ops :: "kern option \<Rightarrow> (op list \<times> kern) option" where
  "same_ops r = map_option (Pair []) r"

definition same_state :: "kern \<Rightarrow> op list option \<Rightarrow> (op list \<times> kern) option" where
  "same_state s r = map_option (\<lambda>ops. (ops, s)) r"

text \<open>One operation of the running thread: the operations that follow it, and the new state.\<close>

fun exec :: "op \<Rightarrow> kern \<Rightarrow> (op list \<times> kern) option" where
  "exec (INTR_SET on) s = same_ops (intr_set_level on s)"
| "exec (SEMA_INIT r v) s = Some ([], sema_init r v s)"
| "exec (SEMA_DOWN r) s = sema_down r s"
| "exec (SEMA_WAIT r old) s = sema_wait r old s"
| "exec (SEMA_UP r) s = same_ops (sema_up r s)"
| "exec (LOCK_INIT l) s = Some ([], lock_init l s)"
| "exec (NOT_HELD l) s = do { ASSERT (\<not> in_external_intr s); ASSERT (\<not> lock_held_by_current_thread l s); Some ([], s) }"
| "exec (HELD l) s = do { ASSERT (\<not> in_external_intr s); ASSERT (lock_held_by_current_thread l s); Some ([], s) }"
| "exec (TRY_LOCK l) s =
     (case sema_try_down (LOCK_SEMA l) s of
        (True, s) \<Rightarrow> Some ([SET_HOLDER l], set_ret 1 s)
      | (False, s) \<Rightarrow> Some ([], set_ret 0 s))"
| "exec (SET_HOLDER l) s = do { _ \<leftarrow> thread_current s; Some ([], s\<lparr>holder := (holder s)(l := Some (cur s))\<rparr>) }"
| "exec (CLEAR_HOLDER l) s = do { ASSERT (lock_held_by_current_thread l s); Some ([], s\<lparr>holder := (holder s)(l := None)\<rparr>) }"
| "exec (COND_PUSH c) s = Some ([], s\<lparr>conds := (conds s)(c := conds s c @ [cur s])\<rparr>)"
| "exec (COND_POP c) s =
     (case conds s c of
        [] \<Rightarrow> Some ([], s)
      | w # ws \<Rightarrow> Some ([SEMA_UP (WAITER w)], s\<lparr>conds := (conds s)(c := ws)\<rparr>))"
| "exec (COND_ALL c l) s = Some (if conds s c = [] then [] else cond_signal c l @ [COND_ALL c l], s)"
| "exec YIELD s = thread_yield s"
| "exec (SLEEP n) s = same_state s (timer_sleep n s)"
| "exec (SLEEP_LOOP start n) s = Some (sleep_loop start n s, s)"
| "exec (CREATE name priority func) s = thread_create name priority func s"
| "exec (NEXT_TID t) s = same_ops (next_tid_to t s)"
| "exec (LAUNCH t name func) s = same_ops (launch t name func s)"
| "exec SET_IDLE s = do { _ \<leftarrow> thread_current s; Some ([], s\<lparr>idle_thread := Some (cur s)\<rparr>) }"
| "exec IDLE_LOOP s = idle_loop s"
| "exec EXIT_SIGNAL s = same_state s (exit_signal s)"
| "exec FREE_SPACE s = same_ops (free_space s)"
| "exec EXIT s = same_ops (exit_switch s)"
| "exec (RELEASE t) s = same_state s (release_thread_resources t s)"
| "exec (RELEASE_CHILDREN t cs) s = release_children t cs s"
| "exec (CLOSE_ALL t) s = same_state s (close_all_opened_files t s)"
| "exec (CLOSE_FILE k) s = do { f \<leftarrow> file_close (Some k) (kfs s); Some ([], s\<lparr>kfs := f\<rparr>) }"
| "exec (DROP_FILE t) s = Some ([], upd_thread t (\<lambda>th. th\<lparr>t_opened_files := tl (t_opened_files th)\<rparr>) s)"
| "exec (FREE_PAGE t) s = same_ops (palloc_free_page t s)"
| "exec (FREE_THREAD t) s = same_ops (free_thread t s)"
| "exec FAULT s = None"
| "exec (WAIT_CHILD i) s = process_wait i s"
| "exec (WAIT_LOOP c) s = same_state s (wait_loop c s)"
| "exec (WAIT_RESULT c) s = same_ops (wait_result c s)"
| "exec (PROCESS_EXECUTE name r) s = process_execute name r s"
| "exec (START_PROCESS r) s = Some (start_process r (cur s), s)"
| "exec (SET_LOADED r) s = same_ops (set_loaded r s)"
| "exec EXEC_FIND s = same_state s (exec_find s)"
| "exec (LOAD_LOOP t i) s = same_state s (load_loop t i s)"
| "exec (EXEC_RESULT t i) s = same_ops (exec_result t i s)"

definition push_ops :: "nat \<Rightarrow> op list \<Rightarrow> kern \<Rightarrow> kern" where
  "push_ops t ops s = s\<lparr>prog := (prog s)(t := ops @ prog s t)\<rparr>"

definition run_op :: "kern \<Rightarrow> kern option" where
  "run_op s =
     (case prog s (cur s) of
        [] \<Rightarrow> None
      | p # ps \<Rightarrow> do {
          (ops, s') \<leftarrow> exec p (s\<lparr>prog := (prog s)(cur s := ps)\<rparr>);
          Some (push_ops (cur s) ops s') })"

definition interrupt :: "kern \<Rightarrow> kern option" where
  "interrupt s = do {
     (ops, s') \<leftarrow> intr_handler (s\<lparr>intr_on := False\<rparr>);
     Some (push_ops (cur s) (ops @ [INTR_SET True]) s') }"

text \<open>What a thread with nothing left to do may ask for next.\<close>

datatype call =
    C_ACQUIRE nat | C_TRY_ACQUIRE nat | C_RELEASE nat
  | C_DOWN nat | C_UP nat
  | C_COND_WAIT nat nat | C_COND_SIGNAL nat nat | C_COND_BROADCAST nat nat
  | C_YIELD | C_SLEEP int | C_CREATE string int | C_EXIT int
  | C_EXEC string load_result | C_WAIT int

fun code_of :: "nat \<Rightarrow> call \<Rightarrow> op list" where
  "code_of t (C_ACQUIRE l) = lock_acquire (LOCK l)"
| "code_of t (C_TRY_ACQUIRE l) = lock_try_acquire (LOCK l)"
| "code_of t (C_RELEASE l) = lock_release (LOCK l)"
| "code_of t (C_DOWN n) = [SEMA_DOWN (SEMA n)]"
| "code_of t (C_UP n) = [SEMA_UP (SEMA n)]"
| "code_of t (C_COND_WAIT c l) = cond_wait t (COND c) (LOCK l)"
| "code_of t (C_COND_SIGNAL c l) = cond_signal (COND c) (LOCK l)"
| "code_of t (C_COND_BROADCAST c l) = cond_broadcast (COND c) (LOCK l)"
| "code_of t C_YIELD = [YIELD]"
| "code_of t (C_SLEEP n) = [SLEEP n]"
| "code_of t (C_CREATE name priority) = [CREATE name priority []]"
| "code_of t (C_EXIT status) = thread_exit"
| "code_of t (C_EXEC name r) = exec_process name r"
| "code_of t (C_WAIT i) = [WAIT_CHILD i]"

definition begin_call :: "call \<Rightarrow> kern \<Rightarrow> kern" where
  "begin_call c s =
     (case c of
        C_EXIT status \<Rightarrow> push_ops (cur s) thread_exit (upd_thread (cur s) (\<lambda>th. th\<lparr>t_exit_status := status\<rparr>) s)
      | _ \<Rightarrow> push_ops (cur s) (code_of (cur s) c) s)"

inductive kstep :: "kern \<Rightarrow> kern \<Rightarrow> bool" where
  run: "run_op s = Some s' \<Longrightarrow> kstep s s'"
| tick: "intr_on s \<Longrightarrow> interrupt s = Some s' \<Longrightarrow> kstep s s'"
| call: "prog s (cur s) = [] \<Longrightarrow> kstep s (begin_call c s)"

inductive reachable :: "kern \<Rightarrow> bool" where
  init: "thread_init ok f = Some s \<Longrightarrow> reachable s"
| step: "reachable s \<Longrightarrow> kstep s s' \<Longrightarrow> reachable s'"

inductive_cases kstep_cases [elim]: "kstep s s'"

declare exec.simps [simp del]

end
