(* ===== verification/Threads_Props.thy ===== *)
theory Threads_Props
  imports Threads
begin

text \<open>
  The scheduler: an invariant of every reachable state of the kernel, by induction over its steps. Threads
  have no open files here; closing those of a released thread is treated at the end.
\<close>

section \<open>What the invariant looks at\<close>

definition tst :: "kern \<Rightarrow> nat \<Rightarrow> thread_status option" where
  "tst s t = map_option t_status (threads s t)"

definition tview :: "kern \<Rightarrow> nat \<Rightarrow> (thread_status \<times> bool \<times> bool) option" where
  "tview s t = map_option (\<lambda>th. (t_status th, t_is_thread_exited th, t_opened_files th = [])) (threads s t)"

definition waiters :: "kern \<Rightarrow> sref \<Rightarrow> nat list" where
  "waiters s r = s_waiters (semas s r)"

text \<open>Threads an operation frees; the threads and the idle role an operation will start, once each.\<close>

fun op_frees :: "op \<Rightarrow> nat set" where
  "op_frees (RELEASE t) = {t}"
| "op_frees (RELEASE_CHILDREN t cs) = {t}"
| "op_frees (FREE_PAGE t) = {t}"
| "op_frees (FREE_THREAD t) = {t}"
| "op_frees _ = {}"

fun op_toks :: "op \<Rightarrow> nat option list" where
  "op_toks (CREATE name priority func) = (if SET_IDLE \<in> set func then [None] else [])"
| "op_toks (LAUNCH t name func) = Some t # (if SET_IDLE \<in> set func then [None] else [])"
| "op_toks SET_IDLE = [None]"
| "op_toks _ = []"

definition toks :: "op list \<Rightarrow> nat option list" where
  "toks ps = concat (map op_toks ps)"

fun op_func :: "op \<Rightarrow> op list" where
  "op_func (CREATE name priority func) = func"
| "op_func (LAUNCH t name func) = func"
| "op_func _ = []"

definition start_funcs :: "op list set" where
  "start_funcs = {[], idle} \<union> range (\<lambda>r. [START_PROCESS r])"

fun idle_safe :: "op \<Rightarrow> bool" where
  "idle_safe (INTR_SET _) = True"
| "idle_safe (SEMA_UP _) = True"
| "idle_safe SET_IDLE = True"
| "idle_safe IDLE_LOOP = True"
| "idle_safe (RELEASE _) = True"
| "idle_safe (RELEASE_CHILDREN _ _) = True"
| "idle_safe (CLOSE_ALL _) = True"
| "idle_safe (FREE_PAGE _) = True"
| "idle_safe (FREE_THREAD _) = True"
| "idle_safe FAULT = True"
| "idle_safe _ = False"

definition idle_prog :: "op list \<Rightarrow> bool" where
  "idle_prog ps \<longleftrightarrow> ps \<noteq> [] \<and> last ps = IDLE_LOOP \<and> (\<forall>p\<in>set ps. idle_safe p)"

section \<open>The invariant\<close>

definition ready_ok :: "kern \<Rightarrow> bool" where
  "ready_ok s \<longleftrightarrow> distinct (ready_list s) \<and>
     (\<forall>t. t \<in> set (ready_list s) \<longleftrightarrow> tst s t = Some THREAD_READY \<and> idle_thread s \<noteq> Some t)"

definition waiters_ok :: "kern \<Rightarrow> bool" where
  "waiters_ok s \<longleftrightarrow> (\<forall>r. distinct (waiters s r) \<and> (\<forall>t\<in>set (waiters s r).
     tst s t = Some THREAD_BLOCKED \<and> idle_thread s \<noteq> Some t \<and> (\<exists>old ps. prog s t = SEMA_WAIT r old # ps)))"

definition life_ok :: "kern \<Rightarrow> bool" where
  "life_ok s \<longleftrightarrow> (\<forall>t st ex nf. tview s t = Some (st, ex, nf) \<longrightarrow> nf \<and> (ex \<longrightarrow> st = THREAD_DYING))"

definition free_ok :: "kern \<Rightarrow> bool" where
  "free_ok s \<longleftrightarrow> (\<forall>t. \<forall>p\<in>set (prog s t). \<forall>u\<in>op_frees p.
     u < page_next s \<and> (tst s u = None \<or> tst s u = Some THREAD_DYING))"

definition token_ok :: "kern \<Rightarrow> bool" where
  "token_ok s \<longleftrightarrow>
     (\<forall>t. distinct (toks (prog s t))) \<and>
     (\<forall>t t'. t \<noteq> t' \<longrightarrow> set (toks (prog s t)) \<inter> set (toks (prog s t')) = {}) \<and>
     (\<forall>t u. Some u \<in> set (toks (prog s t)) \<longrightarrow>
        tst s u = Some THREAD_BLOCKED \<and> idle_thread s \<noteq> Some u \<and> prog s u = []) \<and>
     (\<forall>t. None \<in> set (toks (prog s t)) \<longrightarrow> idle_thread s = None) \<and>
     (\<forall>t. \<forall>p\<in>set (prog s t). op_func p \<in> start_funcs)"

definition idle_ok :: "kern \<Rightarrow> bool" where
  "idle_ok s \<longleftrightarrow> (\<forall>i. idle_thread s = Some i \<or> SET_IDLE \<in> set (prog s i) \<longrightarrow> idle_prog (prog s i)) \<and>
     (\<forall>i. idle_thread s = Some i \<longrightarrow> tst s i \<noteq> None \<and> tst s i \<noteq> Some THREAD_DYING)"

definition fresh_ok :: "kern \<Rightarrow> bool" where
  "fresh_ok s \<longleftrightarrow> (\<forall>u\<ge>page_next s. threads s u = None \<and> prog s u = [])"

definition base :: "kern \<Rightarrow> bool" where
  "base s \<longleftrightarrow> ready_ok s \<and> waiters_ok s \<and> life_ok s \<and> free_ok s \<and> token_ok s \<and> idle_ok s \<and> fresh_ok s"

definition running_ok :: "kern \<Rightarrow> bool" where
  "running_ok s \<longleftrightarrow> tst s (cur s) = Some THREAD_RUNNING \<and> (\<forall>t. tst s t = Some THREAD_RUNNING \<longrightarrow> t = cur s)"

lemmas base_defs = base_def ready_ok_def waiters_ok_def life_ok_def free_ok_def token_ok_def idle_ok_def fresh_ok_def

lemma toks_simps [simp]: "toks [] = []" "toks (p # ps) = op_toks p @ toks ps" "toks (ps @ qs) = toks ps @ toks qs"
  by (simp_all add: toks_def)

lemma tst_tview: "tst s t = map_option fst (tview s t)"
  by (cases "threads s t") (simp_all add: tst_def tview_def)

lemma idle_prog_append: "idle_prog (ops @ ps) \<longleftrightarrow> idle_prog ps \<and> (\<forall>p\<in>set ops. idle_safe p)" if "ps \<noteq> []"
  using that by (auto simp: idle_prog_def)

section \<open>States that look the same\<close>

text \<open>The scheduler sees no difference, except that pages may have been used up and a semaphore emptied.\<close>

definition sched_le :: "kern \<Rightarrow> kern \<Rightarrow> bool" where
  "sched_le s s' \<longleftrightarrow> cur s' = cur s \<and> ready_list s' = ready_list s \<and> idle_thread s' = idle_thread s \<and>
     prog s' = prog s \<and> page_next s \<le> page_next s' \<and> (\<forall>t. tview s' t = tview s t) \<and>
     (\<forall>r. waiters s' r = waiters s r \<or> waiters s' r = [])"

lemma sched_le_refl [simp]: "sched_le s s"
  by (simp add: sched_le_def)

lemma sched_le_tst: "sched_le s s' \<Longrightarrow> tst s' t = tst s t"
  by (simp add: sched_le_def tst_tview)

lemma threads_None_tview: "threads s t = None \<longleftrightarrow> tview s t = None"
  by (simp add: tview_def)

lemma base_le:
  assumes "base s" and le: "sched_le s s'"
  shows "base s'"
proof -
  note v = sched_le_tst [OF le]
  have eqs: "ready_list s' = ready_list s" "idle_thread s' = idle_thread s" "prog s' = prog s"
    "page_next s \<le> page_next s'" and tv: "\<And>t. tview s' t = tview s t"
    and w: "\<And>r. waiters s' r = waiters s r \<or> waiters s' r = []"
    using le by (auto simp: sched_le_def)
  have "ready_ok s'" using assms(1) by (simp add: base_def ready_ok_def eqs v)
  moreover have "waiters_ok s'"
    unfolding waiters_ok_def
  proof
    fix r
    show "distinct (waiters s' r) \<and> (\<forall>t\<in>set (waiters s' r). tst s' t = Some THREAD_BLOCKED \<and> idle_thread s' \<noteq> Some t \<and>
        (\<exists>old ps. prog s' t = SEMA_WAIT r old # ps))"
      using w [of r] assms(1) by (force simp: base_def waiters_ok_def eqs v)
  qed
  moreover have "life_ok s'" using assms(1) unfolding base_def life_ok_def tv by blast
  moreover have "free_ok s'" using assms(1) eqs(4) by (fastforce simp: base_def free_ok_def eqs(1-3) v)
  moreover have "token_ok s'" using assms(1) by (simp add: base_def token_ok_def eqs v)
  moreover have "idle_ok s'" using assms(1) by (simp add: base_def idle_ok_def eqs v)
  moreover have "fresh_ok s'" using assms(1) eqs(4) by (simp add: base_def fresh_ok_def eqs(1-3) tv threads_None_tview)
  ultimately show ?thesis by (simp add: base_def)
qed

lemma running_le: "running_ok s \<Longrightarrow> sched_le s s' \<Longrightarrow> running_ok s'"
  by (simp add: running_ok_def sched_le_tst) (simp add: sched_le_def)


section \<open>Replacing the operation of the running thread\<close>

text \<open>The part of the invariant that does not concern the queues.\<close>

definition core :: "kern \<Rightarrow> bool" where
  "core s \<longleftrightarrow> life_ok s \<and> free_ok s \<and> token_ok s \<and> idle_ok s \<and> fresh_ok s"

lemma base_core: "base s \<longleftrightarrow> ready_ok s \<and> waiters_ok s \<and> core s"
  by (auto simp: base_def core_def)

text \<open>Operations that may take the place of the first operation \<open>p\<close> of a program.\<close>

definition ops_ok :: "kern \<Rightarrow> op \<Rightarrow> op list \<Rightarrow> op list \<Rightarrow> bool" where
  "ops_ok s p ps ops \<longleftrightarrow> toks ops = [] \<and> (idle_prog (p # ps) \<longrightarrow> idle_prog (ops @ ps)) \<and>
     (\<forall>q\<in>set ops. op_func q \<in> start_funcs \<and>
       (\<forall>u\<in>op_frees q. u < page_next s \<and> (tst s u = None \<or> tst s u = Some THREAD_DYING)))"

lemma SET_IDLE_toks: "SET_IDLE \<in> set ps \<Longrightarrow> None \<in> set (toks ps)"
  by (induction ps) auto

text \<open>A program \<open>qs\<close> that may take the place of the program \<open>old\<close> of a thread.\<close>

definition prog_ok :: "kern \<Rightarrow> op list \<Rightarrow> op list \<Rightarrow> bool" where
  "prog_ok s old qs \<longleftrightarrow> set (toks qs) \<subseteq> set (toks old) \<and> (distinct (toks old) \<longrightarrow> distinct (toks qs)) \<and>
     (idle_prog old \<longrightarrow> idle_prog qs) \<and> (SET_IDLE \<in> set qs \<longrightarrow> SET_IDLE \<in> set old) \<and>
     (\<forall>q\<in>set qs. q \<in> set old \<or> op_func q \<in> start_funcs \<and>
       (\<forall>u\<in>op_frees q. u < page_next s \<and> (tst s u = None \<or> tst s u = Some THREAD_DYING)))"

lemma prog_ok_refl: "prog_ok s ps ps"
  by (simp add: prog_ok_def)

lemma prog_ok_ops: "ops_ok s p ps ops \<Longrightarrow> prog_ok s (p # ps) (ops @ ps)"
  using SET_IDLE_toks [of ops] by (auto simp: prog_ok_def ops_ok_def)

lemma nil_start [simp]: "[] \<in> start_funcs"
  by (simp add: start_funcs_def)

lemma prog_ok_release:
  "c < page_next s \<Longrightarrow> tst s c = Some THREAD_DYING \<Longrightarrow> prog_ok s ps (RELEASE c # ps)"
  by (auto simp: prog_ok_def idle_prog_def)

lemma core_update:
  assumes core: "core s" and t: "tst s t = Some st0" "st0 \<noteq> THREAD_DYING"
    and token: "\<And>u. Some t \<notin> set (toks (prog s u))" and po: "prog_ok s (prog s t) qs"
    and eqs: "idle_thread s' = idle_thread s" "prog s' = (prog s)(t := qs)" "page_next s \<le> page_next s'"
    and other: "\<And>u. u \<noteq> t \<Longrightarrow> tview s' u = tview s u" and own: "tview s' t = Some (st, ex, True)"
    and st: "ex \<Longrightarrow> st = THREAD_DYING" "st = THREAD_DYING \<Longrightarrow> idle_thread s \<noteq> Some t"
  shows "core s'"
proof -
  note c = core [unfolded core_def]
  note po = po [unfolded prog_ok_def]
  have ot: "u \<noteq> t \<Longrightarrow> tst s' u = tst s u" for u using other by (simp add: tst_tview)
  have life: "life_ok s'"
    unfolding life_ok_def
  proof (intro allI impI)
    fix u st' ex' nf assume v: "tview s' u = Some (st', ex', nf)"
    show "nf \<and> (ex' \<longrightarrow> st' = THREAD_DYING)"
    proof (cases "u = t")
      case False
      then have "tview s u = Some (st', ex', nf)" using v other by simp
      then show ?thesis using c unfolding life_ok_def by blast
    qed (use v own st in simp)
  qed
  have free: "free_ok s'"
    unfolding free_ok_def
  proof (intro allI ballI)
    fix u q v assume q: "q \<in> set (prog s' u)" and v: "v \<in> op_frees q"
    have "q \<in> set (prog s u) \<or> (\<forall>u\<in>op_frees q. u < page_next s \<and> (tst s u = None \<or> tst s u = Some THREAD_DYING))"
      using q po by (auto simp: eqs split: if_splits)
    then have d: "v < page_next s \<and> (tst s v = None \<or> tst s v = Some THREAD_DYING)"
      using c v unfolding free_ok_def by blast
    then have "v \<noteq> t" using t by auto
    with d ot [of v] eqs(3) show "v < page_next s' \<and> (tst s' v = None \<or> tst s' v = Some THREAD_DYING)" by auto
  qed
  have token: "token_ok s'"
    unfolding token_ok_def
  proof (intro conjI allI impI ballI)
    have sub: "set (toks (prog s' u)) \<subseteq> set (toks (prog s u))" for u using po by (simp add: eqs)
    have tok: "token_ok s" using c by simp
    fix u u' v q
    show "distinct (toks (prog s' u))" using tok po by (auto simp: token_ok_def eqs)
    show "u \<noteq> u' \<Longrightarrow> set (toks (prog s' u)) \<inter> set (toks (prog s' u')) = {}"
      using tok sub [of u] sub [of u'] unfolding token_ok_def by blast
    { assume "Some v \<in> set (toks (prog s' u))"
      then have vs: "Some v \<in> set (toks (prog s u))" using sub by blast
      then have v: "tst s v = Some THREAD_BLOCKED" "idle_thread s \<noteq> Some v" "prog s v = []"
        using tok unfolding token_ok_def by blast+
      have "v \<noteq> t" using vs token by auto
      then show "tst s' v = Some THREAD_BLOCKED" "idle_thread s' \<noteq> Some v" "prog s' v = []"
        using v ot [of v] by (simp_all add: eqs) }
    { assume "None \<in> set (toks (prog s' u))"
      then have "None \<in> set (toks (prog s u))" using sub by blast
      then show "idle_thread s' = None" using tok unfolding token_ok_def eqs by blast }
    { assume q: "q \<in> set (prog s' u)"
      have "q \<in> set (prog s u) \<or> op_func q \<in> start_funcs" using q po by (auto simp: eqs split: if_splits)
      then show "op_func q \<in> start_funcs" using tok unfolding token_ok_def by blast }
  qed
  have idle: "idle_ok s'"
    unfolding idle_ok_def
  proof (intro conjI allI impI)
    have io: "idle_ok s" using c by simp
    fix i
    { assume i: "idle_thread s' = Some i \<or> SET_IDLE \<in> set (prog s' i)"
      have "idle_thread s = Some i \<or> SET_IDLE \<in> set (prog s i)" using i po by (auto simp: eqs split: if_splits)
      then have ip: "idle_prog (prog s i)" using io unfolding idle_ok_def by blast
      show "idle_prog (prog s' i)" using ip po by (cases "i = t") (simp_all add: eqs) }
    { assume i: "idle_thread s' = Some i"
      have "tst s i \<noteq> None \<and> tst s i \<noteq> Some THREAD_DYING" using io i unfolding idle_ok_def eqs by blast
      moreover have "i = t \<Longrightarrow> st \<noteq> THREAD_DYING" using st(2) i eqs(1) by auto
      ultimately show "tst s' i \<noteq> None" "tst s' i \<noteq> Some THREAD_DYING"
        using own ot [of i] by (cases "i = t"; simp add: tst_tview)+ }
  qed
  have "threads s t \<noteq> None" using t by (auto simp: tst_def)
  then have tn: "t < page_next s" using c by (auto simp: fresh_ok_def not_le [symmetric])
  have fresh: "fresh_ok s'"
    unfolding fresh_ok_def
  proof (intro allI impI)
    fix u assume u: "page_next s' \<le> u"
    with tn eqs(3) have "u \<noteq> t" "page_next s \<le> u" by auto
    then show "threads s' u = None \<and> prog s' u = []"
      using c other [of u] by (simp add: fresh_ok_def eqs threads_None_tview)
  qed
  show ?thesis using life free token idle fresh by (simp add: core_def)
qed

lemma no_token:
  assumes "core s" and "tst s t \<noteq> Some THREAD_BLOCKED \<or> idle_thread s = Some t \<or> prog s t \<noteq> []"
  shows "Some t \<notin> set (toks (prog s u))"
  using assms unfolding core_def token_ok_def by blast

lemma exists_less: "core s \<Longrightarrow> tst s t = Some st \<Longrightarrow> t < page_next s"
  by (auto simp: core_def fresh_ok_def tst_def not_le [symmetric])

lemma tview_of_tst:
  assumes "core s" and "tst s t = Some st"
  obtains ex where "tview s t = Some (st, ex, True)" and "ex \<Longrightarrow> st = THREAD_DYING"
proof -
  obtain ex nf where v: "tview s t = Some (st, ex, nf)" using assms(2) by (auto simp: tst_tview)
  then have "nf \<and> (ex \<longrightarrow> st = THREAD_DYING)" using assms(1) unfolding core_def life_ok_def by blast
  with v that show thesis by simp
qed

section \<open>Switching\<close>

lemma tview_upd:
  "tview (upd_thread t f s) u = (if u = t then map_option (\<lambda>th. (t_status (f th), t_is_thread_exited (f th), t_opened_files (f th) = [])) (threads s t) else tview s u)"
  by (simp add: tview_def upd_thread_def option.map_comp o_def)

lemma upd_thread_simps [simp]:
  "cur (upd_thread t f s) = cur s" "ready_list (upd_thread t f s) = ready_list s" "idle_thread (upd_thread t f s) = idle_thread s"
  "page_next (upd_thread t f s) = page_next s" "prog (upd_thread t f s) = prog s" "semas (upd_thread t f s) = semas s"
  "waiters (upd_thread t f s) = waiters s" "intr_on (upd_thread t f s) = intr_on s"
  "in_external_intr (upd_thread t f s) = in_external_intr s" "holder (upd_thread t f s) = holder s"
  "conds (upd_thread t f s) = conds s" "initial_thread (upd_thread t f s) = initial_thread s"
  "all_list (upd_thread t f s) = all_list s"
  by (simp_all add: upd_thread_def waiters_def fun_eq_iff)

definition switched :: "kern \<Rightarrow> nat \<Rightarrow> kern \<Rightarrow> bool" where
  "switched s n s' \<longleftrightarrow>
     (ready_list s = n # ready_list s' \<or> ready_list s = [] \<and> ready_list s' = [] \<and> idle_thread s = Some n) \<and>
     cur s' = n \<and> idle_thread s' = idle_thread s \<and> page_next s' = page_next s \<and> semas s' = semas s \<and>
     holder s' = holder s \<and> conds s' = conds s \<and>
     threads s' = (threads s)(n := map_option (\<lambda>th. th\<lparr>t_status := THREAD_RUNNING\<rparr>) (threads s n)) \<and> threads s n \<noteq> None \<and>
     (prog s' = prog s \<or> n \<noteq> cur s \<and> tst s (cur s) = Some THREAD_DYING \<and> prog s' = (prog s)(n := RELEASE (cur s) # prog s n))"

definition run_now :: "kern \<Rightarrow> kern" where
  "run_now s = (set_status (cur s) THREAD_RUNNING s)\<lparr>thread_ticks := 0\<rparr>"

lemma run_now_simps:
  "cur (run_now s) = cur s" "ready_list (run_now s) = ready_list s" "idle_thread (run_now s) = idle_thread s"
  "page_next (run_now s) = page_next s" "semas (run_now s) = semas s" "holder (run_now s) = holder s"
  "conds (run_now s) = conds s" "prog (run_now s) = prog s"
  "threads (run_now s) = (threads s)(cur s := map_option (\<lambda>th. th\<lparr>t_status := THREAD_RUNNING\<rparr>) (threads s (cur s)))"
  by (simp_all add: run_now_def set_status_def upd_thread_def)

lemma tail_cases:
  assumes "thread_schedule_tail prev s = Some s'"
  shows "s' = run_now s \<or> (\<exists>c. prev = Some c \<and> c \<noteq> cur s \<and> tst s c = Some THREAD_DYING \<and>
           s' = (run_now s)\<lparr>prog := (prog s)(cur s := RELEASE c # prog s (cur s))\<rparr>)"
proof (cases prev)
  case None
  then show ?thesis using assms by (simp add: thread_schedule_tail_def run_now_def Let_def split: if_splits)
next
  case (Some c)
  define r where "r = run_now s"
  obtain th where th: "threads r c = Some th"
    using assms Some by (cases "threads r c") (simp_all add: thread_schedule_tail_def run_now_def [symmetric] r_def Let_def split: if_splits)
  have e: "thread_schedule_tail prev s = (if intr_on s then None else
      if t_status th = THREAD_DYING \<and> c \<noteq> initial_thread r
      then do {
        orphan \<leftarrow> (case t_parent th of None \<Rightarrow> Some True | Some q \<Rightarrow> map_option t_is_thread_exited (threads r q));
        if orphan
        then do { ASSERT (c \<noteq> cur r); Some (r\<lparr>prog := (prog r)(cur r := RELEASE c # prog r (cur r))\<rparr>) }
        else Some r }
      else Some r)"
    unfolding thread_schedule_tail_def run_now_def [symmetric] r_def [symmetric] Let_def Some ASSERT_bind
    using th by simp
  have "s' = r \<or> t_status th = THREAD_DYING \<and> c \<noteq> cur r \<and> s' = r\<lparr>prog := (prog r)(cur r := RELEASE c # prog r (cur r))\<rparr>"
    using assms [unfolded e] by (auto simp: bind_Some_iff split: if_splits)
  moreover have "tst s c = Some THREAD_DYING" if "t_status th = THREAD_DYING" "c \<noteq> cur r"
    using th that by (simp add: r_def run_now_simps tst_def)
  ultimately show ?thesis using Some by (auto simp: r_def run_now_simps)
qed

lemma schedule_switched:
  assumes "schedule s = Some s'"
  shows "\<exists>n. switched s n s'"
proof -
  define nx where "nx = next_thread_to_run s"
  obtain n where n: "fst nx = Some n" and f: "\<not> intr_on (snd nx)" "is_thread (snd nx) n"
    and tail: "thread_schedule_tail (if cur s \<noteq> n then Some (cur s) else None) ((snd nx)\<lparr>cur := n\<rparr>) = Some s'"
    using assms by (auto simp: schedule_def nx_def Let_def bind_Some_iff split: prod.splits if_splits)
  have nx: "nx = (Some n, snd nx)" using n by (cases nx) simp
  define r where "r = ready_list (snd nx)"
  have s1: "snd nx = s\<lparr>ready_list := r\<rparr>"
    and q: "ready_list s = n # r \<or> ready_list s = [] \<and> r = [] \<and> idle_thread s = Some n"
    using nx unfolding nx_def r_def next_thread_to_run_def by (auto split: list.splits)
  have ne: "threads s n \<noteq> None" using f(2) by (auto simp: is_thread_def s1 split: option.splits)
  define s2 where "s2 = (snd nx)\<lparr>cur := n\<rparr>"
  have s2: "cur s2 = n" "ready_list s2 = r" "idle_thread s2 = idle_thread s" "page_next s2 = page_next s" "semas s2 = semas s"
    "holder s2 = holder s" "conds s2 = conds s" "prog s2 = prog s" "threads s2 = threads s"
    by (simp_all add: s2_def s1)
  have t2: "tst s2 c = tst s c" for c by (simp add: tst_def s2)
  from tail_cases [OF tail [folded s2_def]] show ?thesis
  proof (elim disjE exE conjE)
    assume "s' = run_now s2"
    then have "switched s n s'" using q ne by (auto simp: switched_def run_now_simps s2)
    then show ?thesis ..
  next
    fix c assume c: "(if cur s \<noteq> n then Some (cur s) else None) = Some c" "c \<noteq> cur s2" "tst s2 c = Some THREAD_DYING"
      and e: "s' = (run_now s2)\<lparr>prog := (prog s2)(cur s2 := RELEASE c # prog s2 (cur s2))\<rparr>"
    have c: "c = cur s" "n \<noteq> cur s" "tst s (cur s) = Some THREAD_DYING" using c t2 by (auto split: if_splits)
    have f: "threads s' = threads (run_now s2)" "prog s' = (prog s)(n := RELEASE (cur s) # prog s n)"
      "ready_list s' = r" "cur s' = n" "idle_thread s' = idle_thread s" "page_next s' = page_next s" "semas s' = semas s"
      "holder s' = holder s" "conds s' = conds s"
      using c(1) by (simp_all add: e run_now_simps s2)
    have "switched s n s'" using q ne c f by (simp add: switched_def run_now_simps s2)
    then show ?thesis ..
  qed
qed

lemma schedule_base:
  assumes base: "base s" and none: "\<And>t. tst s t \<noteq> Some THREAD_RUNNING" and sw: "switched s n s'"
  shows "base s' \<and> running_ok s'"
proof -
  note sw = sw [unfolded switched_def]
  have eqs: "cur s' = n" "idle_thread s' = idle_thread s" "page_next s' = page_next s" "waiters s' = waiters s"
    using sw by (auto simp: waiters_def fun_eq_iff)
  have ro: "ready_ok s" and wo: "waiters_ok s" and core: "core s" using base by (simp_all add: base_core)
  have tn: "tview s' u = (if u = n then map_option (\<lambda>(st, e). (THREAD_RUNNING, e)) (tview s n) else tview s u)" for u
    using sw by (cases "threads s n") (simp_all add: tview_def)
  obtain th where "threads s n = Some th" using sw by blast
  then have st: "tst s n = Some (t_status th)" by (simp add: tst_def)
  define st where "st = t_status th"
  note st = st [folded st_def]
  obtain ex where v: "tview s n = Some (st, ex, True)" "ex \<Longrightarrow> st = THREAD_DYING"
    by (rule tview_of_tst [OF core st]) blast
  have nd: "st = THREAD_READY \<or> idle_thread s = Some n" "st \<noteq> THREAD_DYING"
  proof -
    have r: "n \<in> set (ready_list s) \<longleftrightarrow> tst s n = Some THREAD_READY \<and> idle_thread s \<noteq> Some n"
      using ro unfolding ready_ok_def by blast
    have n: "n \<in> set (ready_list s) \<or> idle_thread s = Some n" using sw by auto
    then show "st = THREAD_READY \<or> idle_thread s = Some n" using r st by auto
    have "idle_thread s = Some n \<Longrightarrow> tst s n \<noteq> Some THREAD_DYING" using core unfolding core_def idle_ok_def by blast
    then show "st \<noteq> THREAD_DYING" using r n st by auto
  qed
  have ts: "tst s' u = (if u = n then Some THREAD_RUNNING else tst s u)" for u
    using tn [of u] v by (simp add: tst_tview)
  obtain qs where qs: "prog s' = (prog s)(n := qs)" "prog_ok s (prog s n) qs"
  proof (cases "prog s' = prog s")
    case True
    then show thesis using that [of "prog s n"] by (simp add: prog_ok_refl)
  next
    case False
    then have "tst s (cur s) = Some THREAD_DYING" "prog s' = (prog s)(n := RELEASE (cur s) # prog s n)" using sw by auto
    then show thesis using that prog_ok_release exists_less [OF core] by blast
  qed
  have "core s'"
  proof (rule core_update [OF core st nd(2) _ qs(2) eqs(2) qs(1)])
    show "Some n \<notin> set (toks (prog s u))" for u by (rule no_token [OF core]) (use nd st in auto)
    show "tview s' n = Some (THREAD_RUNNING, ex, True)" using tn [of n] v by simp
    show "ex \<Longrightarrow> THREAD_RUNNING = THREAD_DYING" using v nd by simp
  qed (use eqs tn in simp_all)
  moreover have "ready_ok s'"
  proof -
    have d: "distinct (ready_list s)" "\<And>t. t \<in> set (ready_list s) \<longleftrightarrow> tst s t = Some THREAD_READY \<and> idle_thread s \<noteq> Some t"
      using ro by (simp_all add: ready_ok_def)
    have "distinct (ready_list s')" using sw d(1) by auto
    moreover have "t \<in> set (ready_list s') \<longleftrightarrow> tst s' t = Some THREAD_READY \<and> idle_thread s' \<noteq> Some t" for t
      using sw d(1) d(2) [of t] by (auto simp: ts eqs)
    ultimately show ?thesis by (simp add: ready_ok_def)
  qed
  moreover have "waiters_ok s'"
    unfolding waiters_ok_def
  proof (intro allI conjI ballI)
    fix r u
    show "distinct (waiters s' r)" using wo by (simp add: waiters_ok_def eqs)
    assume "u \<in> set (waiters s' r)"
    then have u: "tst s u = Some THREAD_BLOCKED" "idle_thread s \<noteq> Some u" "\<exists>old ps. prog s u = SEMA_WAIT r old # ps"
      using wo unfolding waiters_ok_def eqs by blast+
    then have "u \<noteq> n" using nd st by auto
    then show "tst s' u = Some THREAD_BLOCKED" "idle_thread s' \<noteq> Some u" "\<exists>old ps. prog s' u = SEMA_WAIT r old # ps"
      using u qs by (simp_all add: ts eqs)
  qed
  ultimately show ?thesis using none by (auto simp: base_core running_ok_def eqs ts)
qed


section \<open>Operations that leave the queues alone\<close>

fun plain :: "op \<Rightarrow> bool" where
  "plain (SEMA_DOWN _) = False"
| "plain (SEMA_WAIT _ _) = False"
| "plain (SEMA_UP _) = False"
| "plain YIELD = False"
| "plain (CREATE _ _ _) = False"
| "plain (LAUNCH _ _ _) = False"
| "plain SET_IDLE = False"
| "plain IDLE_LOOP = False"
| "plain EXIT = False"
| "plain (FREE_PAGE _) = False"
| "plain (FREE_THREAD _) = False"
| "plain _ = True"

lemma same_ops_iff [simp]: "same_ops r = Some (ops, s') \<longleftrightarrow> r = Some s' \<and> ops = []"
  by (cases r) (auto simp: same_ops_def)

lemma same_state_iff [simp]: "same_state s r = Some (ops, s') \<longleftrightarrow> r = Some ops \<and> s' = s"
  by (cases r) (auto simp: same_state_def)

lemma sched_le_trans: "sched_le s s' \<Longrightarrow> sched_le s' s'' \<Longrightarrow> sched_le s s''"
  unfolding sched_le_def by (intro conjI allI; (elim conjE)?; metis le_trans)

lemma sched_le_upd:
  assumes "\<And>th. t_status (f th) = t_status th \<and> t_is_thread_exited (f th) = t_is_thread_exited th \<and>
    (t_opened_files th = [] \<longrightarrow> t_opened_files (f th) = [])" and "life_ok s"
  shows "sched_le s (upd_thread t f s)"
proof -
  have "tview (upd_thread t f s) u = tview s u" for u
  proof (cases "u = t \<and> threads s t \<noteq> None")
    case True
    then obtain th where th: "threads s t = Some th" by auto
    then have "tview s t = Some (t_status th, t_is_thread_exited th, t_opened_files th = [])" by (simp add: tview_def)
    then have "t_opened_files th = []" using assms(2) unfolding life_ok_def by blast
    with th True assms(1) [of th] show ?thesis by (simp add: tview_upd) (simp add: tview_def)
  qed (auto simp: tview_def upd_thread_def)
  then show ?thesis by (simp add: sched_le_def)
qed

lemma life_le: "life_ok s \<Longrightarrow> sched_le s s' \<Longrightarrow> life_ok s'"
  unfolding life_ok_def sched_le_def by metis

lemma sched_le_fields [simp]:
  "sched_le s (s\<lparr>intr_on := b\<rparr>)" "sched_le s (s\<lparr>holder := h\<rparr>)" "sched_le s (s\<lparr>conds := c\<rparr>)" "sched_le s (s\<lparr>kfs := f\<rparr>)"
  "sched_le s (s\<lparr>next_tid := n\<rparr>)" "sched_le s (s\<lparr>in_external_intr := b\<rparr>)" "sched_le s (s\<lparr>yield_on_return := b\<rparr>)"
  "sched_le s (s\<lparr>ticks := n\<rparr>)" "sched_le s (s\<lparr>idle_ticks := n\<rparr>)" "sched_le s (s\<lparr>kernel_ticks := n\<rparr>)"
  "sched_le s (s\<lparr>user_ticks := n\<rparr>)" "sched_le s (s\<lparr>thread_ticks := w\<rparr>)" "sched_le s (s\<lparr>all_list := xs\<rparr>)"
  by (simp_all add: sched_le_def tview_def waiters_def)

lemma sched_le_page: "m \<ge> page_next s \<Longrightarrow> sched_le s (s\<lparr>page_next := m\<rparr>)"
  by (simp add: sched_le_def tview_def waiters_def)

lemma sched_le_ret: "life_ok s \<Longrightarrow> sched_le s (set_ret v s)"
  unfolding set_ret_def by (rule sched_le_upd) simp_all

lemma sched_le_sema:
  "s_waiters x = waiters s r \<or> s_waiters x = [] \<Longrightarrow> sched_le s (set_sema r x s)"
  by (auto simp: sched_le_def tview_def waiters_def set_sema_def)

lemma intr_set_level_eq: "intr_set_level b s = Some s' \<Longrightarrow> s' = s\<lparr>intr_on := b\<rparr>"
  by (auto simp: intr_set_level_def intr_enable_def intr_disable_def split: if_splits)

fun stateless :: "op \<Rightarrow> bool" where
  "stateless (NOT_HELD _) = True"
| "stateless (HELD _) = True"
| "stateless (COND_ALL _ _) = True"
| "stateless (SLEEP _) = True"
| "stateless (SLEEP_LOOP _ _) = True"
| "stateless (RELEASE _) = True"
| "stateless (CLOSE_ALL _) = True"
| "stateless EXIT_SIGNAL = True"
| "stateless EXEC_FIND = True"
| "stateless (WAIT_LOOP _) = True"
| "stateless (START_PROCESS _) = True"
| "stateless (LOAD_LOOP _ _) = True"
| "stateless _ = False"

lemma stateless_same: "exec p s = Some (ops, s') \<Longrightarrow> stateless p \<Longrightarrow> s' = s"
  by (cases p) (auto simp: exec.simps split: if_splits)

lemma plain_le:
  assumes e: "exec p s = Some (ops, s')" and p: "plain p" and l: "life_ok s"
  shows "sched_le s s'"
proof (cases p)
  case (INTR_SET b)
  then show ?thesis using e by (auto simp: exec.simps dest: intr_set_level_eq)
next
  case (SEMA_INIT r v)
  then show ?thesis using e by (auto simp: exec.simps sema_init_def intro: sched_le_sema)
next
  case (LOCK_INIT k)
  have "sched_le (s\<lparr>holder := (holder s)(k := None)\<rparr>) s'"
    using e LOCK_INIT by (auto simp: exec.simps lock_init_def sema_init_def intro: sched_le_sema)
  then show ?thesis by (rule sched_le_trans [rotated]) simp
next
  case (TRY_LOCK k)
  show ?thesis
  proof (cases "s_value (semas s (LOCK_SEMA k)) > 0")
    case True
    define s1 where "s1 = set_sema (LOCK_SEMA k) ((semas s (LOCK_SEMA k))\<lparr>s_value := s_value (semas s (LOCK_SEMA k)) - 1\<rparr>) s"
    have "sched_le s s1" unfolding s1_def by (rule sched_le_sema) (simp add: waiters_def)
    moreover have "s' = set_ret 1 s1" using e TRY_LOCK True by (simp add: exec.simps sema_try_down_def s1_def)
    ultimately show ?thesis using sched_le_trans sched_le_ret life_le [OF l] by blast
  next
    case False
    then show ?thesis using e TRY_LOCK l by (auto simp: exec.simps sema_try_down_def intro: sched_le_ret)
  qed
next
  case (SET_HOLDER k)
  then show ?thesis using e by (auto simp: exec.simps bind_Some_iff)
next
  case (CLEAR_HOLDER k)
  then show ?thesis using e by (auto simp: exec.simps split: if_splits)
next
  case (COND_PUSH c)
  then show ?thesis using e by (auto simp: exec.simps)
next
  case (COND_POP c)
  then show ?thesis using e by (auto simp: exec.simps split: list.splits)
next
  case (NEXT_TID t)
  define s1 where "s1 = upd_thread t (\<lambda>th. th\<lparr>t_tid := next_tid s\<rparr>) (s\<lparr>next_tid := next_tid s + 1\<rparr>)"
  have a: "sched_le s (s\<lparr>next_tid := next_tid s + 1\<rparr>)" by simp
  have b: "sched_le (s\<lparr>next_tid := next_tid s + 1\<rparr>) s1"
    unfolding s1_def by (rule sched_le_upd) (simp_all add: life_le [OF l a])
  note ab = sched_le_trans [OF a b]
  have "s' = set_ret (next_tid s) s1" using e NEXT_TID by (auto simp: exec.simps next_tid_to_def bind_Some_iff s1_def)
  then show ?thesis using sched_le_trans [OF ab sched_le_ret [OF life_le [OF l ab]]] by simp
next
  case FREE_SPACE
  then obtain f where s': "s' = upd_thread (cur s) (\<lambda>th. th\<lparr>t_pages := False, t_pagedir := False\<rparr>) (s\<lparr>kfs := f\<rparr>)"
    using e by (auto simp: exec.simps free_space_def bind_Some_iff)
  have "sched_le (s\<lparr>kfs := f\<rparr>) s'" unfolding s' by (rule sched_le_upd) (simp_all add: life_le [OF l])
  then show ?thesis by (rule sched_le_trans [rotated]) simp
next
  case (RELEASE_CHILDREN t cs)
  show ?thesis
  proof (cases cs)
    case Nil
    then show ?thesis using e RELEASE_CHILDREN by (auto simp: exec.simps release_children_def)
  next
    case (Cons c ds)
    define s1 where "s1 = upd_thread c (\<lambda>th. th\<lparr>t_parent := None\<rparr>) s"
    define s2 where "s2 = upd_thread t (\<lambda>th. th\<lparr>t_children := remove1 c (t_children th)\<rparr>) s1"
    have "s' = s \<or> s' = s2"
      using e RELEASE_CHILDREN Cons by (auto simp: exec.simps release_children_def bind_Some_iff Let_def s1_def s2_def split: if_splits)
    moreover have a: "sched_le s s1" unfolding s1_def by (rule sched_le_upd) (simp_all add: l)
    moreover have "sched_le s1 s2" unfolding s2_def by (rule sched_le_upd) (simp_all add: life_le [OF l a])
    ultimately show ?thesis using sched_le_trans [of s s1 s2] by auto
  qed
next
  case (CLOSE_FILE k)
  then show ?thesis using e by (auto simp: exec.simps bind_Some_iff)
next
  case (DROP_FILE t)
  then have "s' = upd_thread t (\<lambda>th. th\<lparr>t_opened_files := tl (t_opened_files th)\<rparr>) s" using e by (simp add: exec.simps)
  then show ?thesis using sched_le_upd [OF _ l] by simp
next
  case (WAIT_CHILD i)
  define f where "f c = upd_thread c (\<lambda>th. th\<lparr>t_is_parent_waiting := True\<rparr>) s" for c
  have "s' = set_ret (-1) s \<or> (\<exists>c. s' = f c)"
    using e WAIT_CHILD by (auto simp: exec.simps process_wait_def bind_Some_iff f_def split: option.splits if_splits)
  then show ?thesis using sched_le_ret [OF l] sched_le_upd [OF _ l] by (auto simp: f_def)
next
  case (WAIT_RESULT c)
  then show ?thesis using e sched_le_ret [OF l] by (auto simp: exec.simps wait_result_def bind_Some_iff)
next
  case (PROCESS_EXECUTE name r)
  define s1 where "s1 = s\<lparr>page_next := page_next s + 1\<rparr>"
  have a: "sched_le s s1" unfolding s1_def by (rule sched_le_page) simp
  have "s' = s1 \<or> s' = set_ret TID_ERROR s1"
    using e PROCESS_EXECUTE by (auto simp: exec.simps process_execute_def Let_def s1_def split: if_splits)
  then show ?thesis using a sched_le_trans [OF a sched_le_ret [OF life_le [OF l a]]] by auto
next
  case (SET_LOADED r)
  then have "s' = upd_thread (cur s) (\<lambda>th. case r of
         LOADED f \<Rightarrow> th\<lparr>t_pagedir := True, t_pages := True, t_exe_file := Some f, t_is_loaded := THREAD_LOAD_POSITIVE\<rparr>
       | NOT_LOADED pd \<Rightarrow> th\<lparr>t_pagedir := pd, t_pages := pd, t_is_loaded := THREAD_LOAD_NEGATIVE\<rparr>) s"
    using e by (auto simp: exec.simps set_loaded_def bind_Some_iff)
  then show ?thesis using sched_le_upd [OF _ l] by (simp split: load_result.split)
next
  case (EXEC_RESULT t i)
  then show ?thesis using e sched_le_ret [OF l] by (auto simp: exec.simps exec_result_def bind_Some_iff)
next
  case FAULT
  then show ?thesis using e by (simp add: exec.simps)
qed (use p stateless_same [OF e] in auto)


definition harmless :: "op \<Rightarrow> bool" where
  "harmless q \<longleftrightarrow> op_toks q = [] \<and> op_func q \<in> start_funcs \<and> op_frees q = {}"

lemma toks_harmless: "\<forall>q\<in>set ops. harmless q \<Longrightarrow> toks ops = []"
  by (induction ops) (auto simp: harmless_def)

lemma idle_prog_step:
  "idle_prog (p # ps) \<Longrightarrow> p \<noteq> IDLE_LOOP \<Longrightarrow> \<forall>q\<in>set ops. idle_safe q \<Longrightarrow> idle_prog (ops @ ps)"
  by (auto simp: idle_prog_def split: if_splits)

lemma ops_ok_harmless:
  assumes "\<forall>q\<in>set ops. harmless q" and "p \<noteq> IDLE_LOOP" and "idle_safe p \<Longrightarrow> \<forall>q\<in>set ops. idle_safe q"
  shows "ops_ok s p ps ops"
proof -
  have "idle_prog (p # ps) \<Longrightarrow> idle_prog (ops @ ps)"
    using assms(2,3) idle_prog_step [of p ps ops] by (auto simp: idle_prog_def)
  then show ?thesis using assms(1) toks_harmless [OF assms(1)] by (auto simp: ops_ok_def harmless_def)
qed

lemma start_func_process [simp]: "[START_PROCESS r] \<in> start_funcs"
  by (simp add: start_funcs_def)

lemma harmless_ops:
  assumes e: "exec p s = Some (ops, s')" and p: "plain p" and n: "\<not> idle_safe p"
  shows "\<forall>q\<in>set ops. harmless q"
proof -
  have [simp]: "\<forall>q\<in>set (cond_wait t c l). harmless q" "\<forall>q\<in>set (lock_acquire l). harmless q"
    "\<forall>q\<in>set (lock_release l). harmless q" "\<forall>q\<in>set (cond_signal c l). harmless q" "\<forall>q\<in>set thread_exit. harmless q" for t c l
    by (simp_all add: cond_wait_def lock_acquire_def lock_release_def cond_signal_def thread_exit_def process_exit_def harmless_def)
  have [simp]: "harmless (LOCK_INIT l)" "harmless (WAIT_LOOP c)" "harmless (WAIT_RESULT c)" "harmless (LOAD_LOOP t i)"
    "harmless (EXEC_RESULT t i)" "harmless (SET_LOADED r)" "harmless (COND_ALL cc l)" "harmless (SEMA_UP rr)"
    "harmless (SET_HOLDER l)" "harmless YIELD" "harmless (SLEEP_LOOP i j)" "harmless (CREATE name j [START_PROCESS r])"
    for l c t i j r cc rr name by (simp_all add: harmless_def)
  show ?thesis
  proof (cases p)
    case EXIT_SIGNAL
    then show ?thesis using e
      by (auto simp: exec.simps exit_signal_def bind_Some_iff Let_def simp del: harmless_def split: option.splits)
  next
    case (START_PROCESS r)
    then show ?thesis using e by (auto simp: exec.simps start_process_def split: if_splits)
  next
    case (WAIT_CHILD i)
    then show ?thesis using e by (auto simp: exec.simps process_wait_def bind_Some_iff split: option.splits if_splits)
  next
    case (WAIT_LOOP c)
    then show ?thesis using e by (auto simp: exec.simps wait_loop_def bind_Some_iff Let_def split: if_splits)
  next
    case EXEC_FIND
    then show ?thesis using e by (auto simp: exec.simps exec_find_def bind_Some_iff Let_def)
  next
    case (LOAD_LOOP t i)
    then show ?thesis using e by (cases t) (auto simp: exec.simps load_loop_def bind_Some_iff Let_def split: if_splits)
  next
    case (PROCESS_EXECUTE name r)
    then show ?thesis using e by (auto simp: exec.simps process_execute_def Let_def split: if_splits)
  qed (use e p n in \<open>auto simp: exec.simps bind_Some_iff timer_sleep_def sleep_loop_def cond_broadcast_def split: if_splits prod.splits bool.splits list.splits\<close>)
qed


lemma ops_ok_plain:
  assumes e: "exec p s0 = Some (ops, s')" and p: "plain p" and b: "core s" and prog: "p \<in> set (prog s t)"
    and s0: "s0 = s\<lparr>prog := pr\<rparr>"
  shows "ops_ok s p ps ops"
proof -
  have ti: "p \<noteq> IDLE_LOOP" using p by auto
  have fr: "u < page_next s \<and> (tst s u = None \<or> tst s u = Some THREAD_DYING)" if "u \<in> op_frees p" for u
    using b prog that unfolding core_def free_ok_def by blast
  have lf: "nf \<and> (ex \<longrightarrow> st = THREAD_DYING)" if "tview s u = Some (st, ex, nf)" for u st ex nf
    using b that unfolding core_def life_ok_def by blast
  have ip: "idle_prog (p # ps) \<longrightarrow> idle_prog (ops @ ps)" if "\<forall>q\<in>set ops. idle_safe q"
    using idle_prog_step [OF _ ti that] by blast
  show ?thesis
  proof (cases "idle_safe p")
    case False
    show ?thesis by (rule ops_ok_harmless [OF harmless_ops [OF e p False] ti]) (use False in simp)
  next
    case True
    show ?thesis
    proof (cases p)
      case (RELEASE t)
      then have "ops = [RELEASE_CHILDREN t (t_children (the (threads s t))), CLOSE_ALL t, FREE_THREAD t]"
        using e by (auto simp: exec.simps release_thread_resources_def bind_Some_iff s0)
      then show ?thesis using fr RELEASE ip by (auto simp: ops_ok_def)
    next
      case (RELEASE_CHILDREN t cs)
      show ?thesis
      proof (cases cs)
        case Nil
        then show ?thesis using e RELEASE_CHILDREN ip by (auto simp: exec.simps release_children_def ops_ok_def)
      next
        case (Cons c ds)
        obtain th where th: "threads s c = Some th"
          using e RELEASE_CHILDREN Cons by (auto simp: exec.simps release_children_def bind_Some_iff s0)
        have ops: "ops = [RELEASE_CHILDREN t ds] \<or> t_is_thread_exited th \<and> ops = [CLOSE_ALL c, FREE_PAGE c, FAULT]"
          using e RELEASE_CHILDREN Cons th
          by (auto simp: exec.simps release_children_def bind_Some_iff s0 split: if_splits)
        have "tview s c = Some (t_status th, t_is_thread_exited th, t_opened_files th = [])" using th by (simp add: tview_def)
        then have d: "t_is_thread_exited th \<longrightarrow> tst s c = Some THREAD_DYING" using lf th by (auto simp: tst_def)
        have "tst s c = Some (t_status th)" using th by (simp add: tst_def)
        note c = exists_less [OF b this]
        show ?thesis using ops d c fr RELEASE_CHILDREN ip by (auto simp: ops_ok_def)
      qed
    next
      case (CLOSE_ALL t)
      obtain th where th: "threads s t = Some th"
        and ops: "ops = (case t_opened_files th of [] \<Rightarrow> []
          | (fd, k) # fs \<Rightarrow> lock_acquire FILE_OP_LOCK @ [CLOSE_FILE k] @ lock_release FILE_OP_LOCK @ [DROP_FILE t, FAULT])"
        using e CLOSE_ALL by (auto simp: exec.simps close_all_opened_files_def bind_Some_iff s0)
      have "tview s t = Some (t_status th, t_is_thread_exited th, t_opened_files th = [])" using th by (simp add: tview_def)
      then have "ops = []" using lf [of t] ops by auto
      then show ?thesis using ip by (simp add: ops_ok_def)
    next
      case FAULT
      then show ?thesis using e by (simp add: exec.simps)
    qed (use e p True ip in \<open>auto simp: exec.simps ops_ok_def\<close>)
  qed
qed

definition inv :: "kern \<Rightarrow> bool" where
  "inv s \<longleftrightarrow> base s \<and> running_ok s"

lemma not_waiting: "inv s \<Longrightarrow> cur s \<notin> set (waiters s r)"
  unfolding inv_def running_ok_def base_core waiters_ok_def by force

lemma waiters_subset:
  assumes wo: "waiters_ok s" and t: "\<And>r. t \<notin> set (waiters s r)"
    and eqs: "idle_thread s' = idle_thread s" "\<And>u. u \<noteq> t \<Longrightarrow> prog s' u = prog s u" "\<And>u. u \<noteq> t \<Longrightarrow> tst s' u = tst s u"
      "\<And>r. waiters s' r = waiters s r \<or> waiters s' r = []"
  shows "waiters_ok s'"
  unfolding waiters_ok_def
proof (intro allI conjI ballI)
  fix r u
  show "distinct (waiters s' r)" using wo eqs(4) [of r] by (auto simp: waiters_ok_def)
  assume "u \<in> set (waiters s' r)"
  then have w: "u \<in> set (waiters s r)" using eqs(4) [of r] by auto
  then have ut: "u \<noteq> t" using t by auto
  have "tst s u = Some THREAD_BLOCKED" "idle_thread s \<noteq> Some u" "\<exists>old ps. prog s u = SEMA_WAIT r old # ps"
    using w wo unfolding waiters_ok_def by blast+
  then show "tst s' u = Some THREAD_BLOCKED" "idle_thread s' \<noteq> Some u" "\<exists>old ps. prog s' u = SEMA_WAIT r old # ps"
    using ut eqs by simp_all
qed

lemma inv_plain:
  assumes inv: "inv s" and p: "prog s (cur s) = p # ps" and le: "sched_le (s\<lparr>prog := (prog s)(cur s := ps)\<rparr>) s'"
    and ops: "ops_ok s p ps ops"
  shows "inv (push_ops (cur s) ops s')"
proof -
  define f where "f = push_ops (cur s) ops s'"
  have ro: "ready_ok s" and wo: "waiters_ok s" and core: "core s" and run: "tst s (cur s) = Some THREAD_RUNNING"
    using inv by (simp_all add: inv_def base_core running_ok_def)
  have eqs: "cur f = cur s" "ready_list f = ready_list s" "idle_thread f = idle_thread s" "page_next s \<le> page_next f"
    "\<And>t. tview f t = tview s t" "\<And>r. waiters f r = waiters s r \<or> waiters f r = []"
    "prog f = (prog s)(cur s := ops @ ps)"
    using le by (simp_all add: sched_le_def f_def push_ops_def tview_def waiters_def)
  have ts: "tst f t = tst s t" for t by (simp add: tst_tview eqs)
  obtain ex where v: "tview s (cur s) = Some (THREAD_RUNNING, ex, True)" "ex \<Longrightarrow> THREAD_RUNNING = THREAD_DYING"
    by (rule tview_of_tst [OF core run]) blast
  have "core f"
  proof (rule core_update [OF core run _ _ _ eqs(3) eqs(7) eqs(4)])
    show "Some (cur s) \<notin> set (toks (prog s u))" for u by (rule no_token [OF core]) (simp add: run)
    show "prog_ok s (prog s (cur s)) (ops @ ps)" using prog_ok_ops [OF ops] p by simp
    show "tview f (cur s) = Some (THREAD_RUNNING, ex, True)" using v eqs by simp
    show "ex \<Longrightarrow> THREAD_RUNNING = THREAD_DYING" using v by simp
  qed (use eqs in simp_all)
  moreover have "waiters_ok f"
  proof (rule waiters_subset [OF wo, of "cur s"])
    show "cur s \<notin> set (waiters s r)" for r by (rule not_waiting [OF inv])
    show "waiters f r = waiters s r \<or> waiters f r = []" for r by (rule eqs(6))
  qed (simp_all add: eqs(3,7) ts)
  moreover have "ready_ok f" using ro by (simp add: ready_ok_def eqs ts)
  moreover have "running_ok f" using inv unfolding inv_def running_ok_def ts eqs(1) by blast
  ultimately show ?thesis unfolding f_def [symmetric] by (simp add: inv_def base_core)
qed


section \<open>Operations that give up the processor\<close>

lemma push_ops_simps [simp]:
  "prog (push_ops t ops s) = (prog s)(t := ops @ prog s t)" "threads (push_ops t ops s) = threads s"
  "cur (push_ops t ops s) = cur s" "ready_list (push_ops t ops s) = ready_list s"
  "idle_thread (push_ops t ops s) = idle_thread s" "page_next (push_ops t ops s) = page_next s"
  "semas (push_ops t ops s) = semas s" "holder (push_ops t ops s) = holder s" "conds (push_ops t ops s) = conds s"
  "tst (push_ops t ops s) = tst s" "tview (push_ops t ops s) = tview s" "waiters (push_ops t ops s) = waiters s"
  by (simp_all add: push_ops_def tst_def tview_def waiters_def fun_eq_iff)

lemma switched_push:
  "switched s n s' \<Longrightarrow> switched (push_ops (cur s) ops s) n (push_ops (cur s) ops s')"
  unfolding switched_def by (auto simp: fun_upd_twist)

lemma inv_switch:
  assumes inv: "inv s" and p: "prog s (cur s) = p # ps" and ops: "ops_ok s p ps ops"
    and eqs: "cur s1 = cur s" "idle_thread s1 = idle_thread s" "prog s1 = (prog s)(cur s := ps)" "page_next s1 = page_next s"
    and other: "\<And>u. u \<noteq> cur s \<Longrightarrow> tview s1 u = tview s u" and own: "tview s1 (cur s) = Some (st, ex, True)"
    and st: "st \<noteq> THREAD_RUNNING" "ex \<Longrightarrow> st = THREAD_DYING" "st = THREAD_DYING \<Longrightarrow> idle_thread s \<noteq> Some (cur s)"
    and ready: "ready_ok s1" and wait: "waiters_ok (push_ops (cur s) ops s1)" and sch: "schedule s1 = Some s'"
  shows "inv (push_ops (cur s) ops s')"
proof -
  define f where "f = push_ops (cur s) ops s1"
  have core: "core s" and run: "tst s (cur s) = Some THREAD_RUNNING"
    and only: "tst s t = Some THREAD_RUNNING \<longrightarrow> t = cur s" for t
    using inv unfolding inv_def base_core running_ok_def by blast+
  have fe: "idle_thread f = idle_thread s" "prog f = (prog s)(cur s := ops @ ps)" "page_next s \<le> page_next f"
    by (simp_all add: f_def eqs)
  have "core f"
  proof (rule core_update [OF core run _ _ _ fe])
    show "Some (cur s) \<notin> set (toks (prog s u))" for u by (rule no_token [OF core]) (simp add: run)
    show "prog_ok s (prog s (cur s)) (ops @ ps)" using prog_ok_ops [OF ops] p by simp
    show "tview f (cur s) = Some (st, ex, True)" using own by (simp add: f_def)
  qed (use other st in \<open>simp_all add: f_def\<close>)
  moreover have "ready_ok f" using ready by (simp add: ready_ok_def f_def)
  moreover have "waiters_ok f" using wait by (simp add: f_def)
  ultimately have base: "base f" by (simp add: base_core)
  have none: "tst f t \<noteq> Some THREAD_RUNNING" for t
    using only [of t] other [of t] own st(1) by (cases "t = cur s") (auto simp: f_def tst_tview)
  obtain n where "switched s1 n s'" using schedule_switched [OF sch] by blast
  then have "switched f n (push_ops (cur s) ops s')" using switched_push [of s1 n s' ops] by (simp add: f_def eqs)
  from schedule_base [OF base none this] show ?thesis by (simp add: inv_def)
qed

lemma not_idle:
  assumes "inv s" and "prog s (cur s) = p # ps" and "\<not> idle_safe p"
  shows "idle_thread s \<noteq> Some (cur s)"
  using assms unfolding inv_def base_def idle_ok_def idle_prog_def by auto

lemma inv_tview:
  assumes "inv s"
  obtains "tview s (cur s) = Some (THREAD_RUNNING, False, True)"
proof -
  have core: "core s" and run: "tst s (cur s) = Some THREAD_RUNNING"
    using assms by (simp_all add: inv_def base_core running_ok_def)
  obtain ex where "tview s (cur s) = Some (THREAD_RUNNING, ex, True)" "ex \<Longrightarrow> THREAD_RUNNING = THREAD_DYING"
    by (rule tview_of_tst [OF core run]) blast
  then show thesis using that by (cases ex) simp_all
qed

lemma ready_status:
  assumes inv: "inv s" and eqs: "idle_thread s1 = idle_thread s" and other: "\<And>u. u \<noteq> cur s \<Longrightarrow> tst s1 u = tst s u"
    and own: "tst s1 (cur s) = Some st" and
      rl: "ready_list s1 = ready_list s @ (if st = THREAD_READY \<and> idle_thread s \<noteq> Some (cur s) then [cur s] else [])"
  shows "ready_ok s1"
proof -
  have r: "distinct (ready_list s)" and d: "\<And>t. t \<in> set (ready_list s) \<longleftrightarrow> tst s t = Some THREAD_READY \<and> idle_thread s \<noteq> Some t"
    and run: "tst s (cur s) = Some THREAD_RUNNING"
    using inv by (simp_all add: inv_def base_def ready_ok_def running_ok_def)
  have n: "cur s \<notin> set (ready_list s)" using d [of "cur s"] run by simp
  have "t \<in> set (ready_list s1) \<longleftrightarrow> tst s1 t = Some THREAD_READY \<and> idle_thread s1 \<noteq> Some t" for t
    using d [of t] other [of t] own n by (cases "t = cur s") (auto simp: rl eqs)
  moreover have "distinct (ready_list s1)" using r n by (auto simp: rl)
  ultimately show ?thesis by (simp add: ready_ok_def)
qed

lemma tst_set_status: "tst (set_status t st s) u = (if u = t then map_option (\<lambda>_. st) (tst s t) else tst s u)"
  by (simp add: set_status_def upd_thread_def tst_def option.map_comp o_def)

lemma tview_set_status: "tview (set_status t st s) u = (if u = t then map_option (\<lambda>(_, e). (st, e)) (tview s t) else tview s u)"
  by (simp add: set_status_def upd_thread_def tview_def option.map_comp o_def)

lemma set_status_simps [simp]:
  "cur (set_status t st s) = cur s" "ready_list (set_status t st s) = ready_list s" "idle_thread (set_status t st s) = idle_thread s"
  "page_next (set_status t st s) = page_next s" "prog (set_status t st s) = prog s" "semas (set_status t st s) = semas s"
  "waiters (set_status t st s) = waiters s" "intr_on (set_status t st s) = intr_on s"
  by (simp_all add: set_status_def)

text \<open>A thread that blocks, on a semaphore or as the idle thread.\<close>

lemma thread_block_schedule:
  "thread_block s = Some s' \<Longrightarrow> schedule (set_status (cur s) THREAD_BLOCKED s) = Some s' \<and> \<not> intr_on s"
  by (auto simp: thread_block_def bind_Some_iff split: if_splits)

lemma waiters_other:
  assumes inv: "inv s" and "idle_thread s1 = idle_thread s" "\<And>u. u \<noteq> cur s \<Longrightarrow> prog s1 u = prog s u"
    "\<And>u. u \<noteq> cur s \<Longrightarrow> tst s1 u = tst s u" "\<And>r. waiters s1 r = waiters s r \<or> waiters s1 r = []"
  shows "waiters_ok s1"
proof (rule waiters_subset [of s "cur s"])
  show "waiters_ok s" using inv by (simp add: inv_def base_core)
  show "cur s \<notin> set (waiters s r)" for r by (rule not_waiting [OF inv])
qed (use assms in auto)

lemma inv_block_sema:
  assumes inv: "inv s" and p: "prog s (cur s) = p # ps" and ns: "\<not> idle_safe p"
    and s1: "s1 = set_sema r ((semas s r)\<lparr>s_waiters := waiters s r @ [cur s]\<rparr>) (s\<lparr>prog := (prog s)(cur s := ps), intr_on := b\<rparr>)"
    and blk: "thread_block s1 = Some s'"
  shows "inv (push_ops (cur s) [SEMA_WAIT r old] s')"
proof -
  define s2 where "s2 = set_status (cur s) THREAD_BLOCKED s1"
  have e1: "cur s1 = cur s" "idle_thread s1 = idle_thread s" "prog s1 = (prog s)(cur s := ps)" "page_next s1 = page_next s"
    "ready_list s1 = ready_list s" "tview s1 = tview s" "tst s1 = tst s"
    "waiters s1 = (waiters s)(r := waiters s r @ [cur s])"
    by (simp_all add: s1 set_sema_def tview_def tst_def waiters_def fun_eq_iff)
  note ni = not_idle [OF inv p ns]
  obtain v: "tview s (cur s) = Some (THREAD_RUNNING, False, True)" by (rule inv_tview [OF inv])
  have t2: "tst s2 u = (if u = cur s then Some THREAD_BLOCKED else tst s u)" for u
    using v by (simp add: s2_def tst_set_status e1) (simp add: tst_tview)
  have e2: "idle_thread s2 = idle_thread s" "prog s2 = (prog s)(cur s := ps)" by (simp_all add: s2_def e1)
  have sch: "schedule s2 = Some s'" using thread_block_schedule [OF blk] by (simp add: s2_def e1)
  show ?thesis
  proof (rule inv_switch [OF inv p _ _ _ _ _ _ _ _ _ _ _ _ sch])
    show "ops_ok s p ps [SEMA_WAIT r old]"
      by (rule ops_ok_harmless) (use ns in \<open>auto simp: harmless_def\<close>)
    show "tview s2 (cur s) = Some (THREAD_BLOCKED, False, True)" by (simp add: s2_def tview_set_status e1 v)
    show "ready_ok s2" by (rule ready_status [OF inv, of _ THREAD_BLOCKED]) (simp_all add: t2, simp_all add: s2_def e1)
    have wo: "waiters_ok s" using inv by (simp add: inv_def base_core)
    show "waiters_ok (push_ops (cur s) [SEMA_WAIT r old] s2)"
      unfolding waiters_ok_def
    proof (intro allI conjI ballI)
      fix q u
      have w: "waiters (push_ops (cur s) [SEMA_WAIT r old] s2) q = (if q = r then waiters s r @ [cur s] else waiters s q)"
        by (simp add: s2_def e1)
      show "distinct (waiters (push_ops (cur s) [SEMA_WAIT r old] s2) q)"
        unfolding w using wo not_waiting [OF inv, of r] by (auto simp: waiters_ok_def)
      assume u: "u \<in> set (waiters (push_ops (cur s) [SEMA_WAIT r old] s2) q)"
      have "tst s2 u = Some THREAD_BLOCKED \<and> idle_thread s \<noteq> Some u \<and>
          (\<exists>old' qs. prog (push_ops (cur s) [SEMA_WAIT r old] s2) u = SEMA_WAIT q old' # qs)"
      proof (cases "u = cur s")
        case True
        then have "q = r" using u [unfolded w] not_waiting [OF inv, of q] by (auto split: if_splits)
        then show ?thesis using True ni by (simp add: t2 e2)
      next
        case False
        then have "u \<in> set (waiters s q)" using u [unfolded w] by (auto split: if_splits)
        then have "tst s u = Some THREAD_BLOCKED" "idle_thread s \<noteq> Some u" "\<exists>old ps. prog s u = SEMA_WAIT q old # ps"
          using wo unfolding waiters_ok_def by blast+
        then show ?thesis using False by (simp add: t2 e2)
      qed
      then show "tst (push_ops (cur s) [SEMA_WAIT r old] s2) u = Some THREAD_BLOCKED"
        "idle_thread (push_ops (cur s) [SEMA_WAIT r old] s2) \<noteq> Some u"
        "\<exists>old' qs. prog (push_ops (cur s) [SEMA_WAIT r old] s2) u = SEMA_WAIT q old' # qs"
        by (simp_all add: s2_def e1)
    qed
  qed (simp_all add: s2_def e1 tview_set_status)
qed


lemma inv_drop:
  assumes inv: "inv s" and p: "prog s (cur s) = p # ps" and ni: "p \<noteq> IDLE_LOOP"
  shows "inv (s\<lparr>prog := (prog s)(cur s := ps)\<rparr>)"
proof -
  have "inv (push_ops (cur s) [] (s\<lparr>prog := (prog s)(cur s := ps)\<rparr>))"
    by (rule inv_plain [OF inv p sched_le_refl]) (rule ops_ok_harmless, simp_all add: ni)
  moreover have "push_ops (cur s) [] (s\<lparr>prog := (prog s)(cur s := ps)\<rparr>) = s\<lparr>prog := (prog s)(cur s := ps)\<rparr>"
    by (simp add: push_ops_def)
  ultimately show ?thesis by simp
qed

lemma inv_le: "inv s \<Longrightarrow> sched_le s s' \<Longrightarrow> inv s'"
  using base_le running_le unfolding inv_def by blast

lemma schedule_sched_fields: "schedule s = Some s' \<Longrightarrow> \<not> intr_on s"
  by (auto simp: schedule_def next_thread_to_run_def Let_def split: list.splits if_splits prod.splits)

lemma inv_idle_loop:
  assumes inv: "inv s" and p: "prog s (cur s) = IDLE_LOOP # ps"
    and e: "idle_loop (s\<lparr>prog := (prog s)(cur s := ps)\<rparr>) = Some (ops, s')"
  shows "inv (push_ops (cur s) ops s')"
proof -
  define s1 where "s1 = set_status (cur s) THREAD_BLOCKED (intr_disable (s\<lparr>prog := (prog s)(cur s := ps)\<rparr>))"
  have blk: "thread_block (intr_disable (s\<lparr>prog := (prog s)(cur s := ps)\<rparr>)) = Some s'"
    and ops: "ops = [INTR_SET True, IDLE_LOOP]"
    using e by (auto simp: idle_loop_def bind_Some_iff)
  have sch: "schedule s1 = Some s'" using thread_block_schedule [OF blk] by (simp add: s1_def intr_disable_def)
  have e1: "cur s1 = cur s" "idle_thread s1 = idle_thread s" "prog s1 = (prog s)(cur s := ps)" "page_next s1 = page_next s"
    "ready_list s1 = ready_list s" "waiters s1 = waiters s"
    by (simp_all add: s1_def intr_disable_def waiters_def fun_eq_iff)
  obtain v: "tview s (cur s) = Some (THREAD_RUNNING, False, True)" by (rule inv_tview [OF inv])
  have tv: "tview s1 u = (if u = cur s then Some (THREAD_BLOCKED, False, True) else tview s u)" for u
  proof -
    have "tview (intr_disable (s\<lparr>prog := (prog s)(cur s := ps)\<rparr>)) = tview s"
      by (simp add: intr_disable_def tview_def fun_eq_iff)
    then show ?thesis using v unfolding s1_def tview_set_status by (simp add: intr_disable_def)
  qed
  then have ts: "tst s1 u = (if u = cur s then Some THREAD_BLOCKED else tst s u)" for u by (simp add: tst_tview)
  show ?thesis
    unfolding ops
  proof (rule inv_switch [OF inv p _ e1(1-4) _ _ _ _ _ _ _ sch])
    show "ops_ok s IDLE_LOOP ps [INTR_SET True, IDLE_LOOP]" by (auto simp: ops_ok_def idle_prog_def)
    show "tview s1 (cur s) = Some (THREAD_BLOCKED, False, True)" by (simp add: tv)
    show "ready_ok s1" by (rule ready_status [OF inv, of _ THREAD_BLOCKED]) (simp_all add: ts e1)
    show "waiters_ok (push_ops (cur s) [INTR_SET True, IDLE_LOOP] s1)"
      by (rule waiters_other [OF inv]) (simp_all add: e1 ts)
  qed (simp_all add: tv)
qed

lemma inv_yield:
  assumes inv: "inv s" and p: "prog s (cur s) = p # ps" and ok: "\<And>b. ops_ok s p ps (INTR_SET b # ops')"
    and le: "sched_le (s\<lparr>prog := (prog s)(cur s := ps)\<rparr>) s0" "page_next s0 = page_next s"
    and e: "thread_yield s0 = Some (ops, s')"
  shows "inv (push_ops (cur s) (ops @ ops') s')"
proof -
  define sa where "sa = (let s = intr_disable s0 in
    if Some (cur s) \<noteq> idle_thread s then s\<lparr>ready_list := ready_list s @ [cur s]\<rparr> else s)"
  define s1 where "s1 = set_status (cur sa) THREAD_READY sa"
  have sch: "schedule s1 = Some s'" and ops: "ops = [INTR_SET (intr_on s0)]"
    using e by (auto simp: thread_yield_def bind_Some_iff s1_def sa_def Let_def split: if_splits)
  have le': "cur s0 = cur s" "ready_list s0 = ready_list s" "idle_thread s0 = idle_thread s" "prog s0 = (prog s)(cur s := ps)"
    "\<And>t. tview s0 t = tview s t" "\<And>r. waiters s0 r = waiters s r \<or> waiters s0 r = []"
    using le(1) by (simp_all add: sched_le_def tview_def waiters_def)
  have ea: "cur sa = cur s" "idle_thread sa = idle_thread s" "prog sa = (prog s)(cur s := ps)" "page_next sa = page_next s"
    "ready_list sa = ready_list s @ (if idle_thread s \<noteq> Some (cur s) then [cur s] else [])"
    "\<And>t. tview sa t = tview s t" "\<And>r. waiters sa r = waiters s r \<or> waiters sa r = []"
    using le' le(2) by (simp_all add: sa_def intr_disable_def Let_def tview_def waiters_def)
  have e1: "cur s1 = cur s" "idle_thread s1 = idle_thread s" "prog s1 = (prog s)(cur s := ps)" "page_next s1 = page_next s"
    "ready_list s1 = ready_list s @ (if idle_thread s \<noteq> Some (cur s) then [cur s] else [])"
    "\<And>r. waiters s1 r = waiters s r \<or> waiters s1 r = []"
    using ea by (simp_all add: s1_def)
  obtain v: "tview s (cur s) = Some (THREAD_RUNNING, False, True)" by (rule inv_tview [OF inv])
  have tv: "tview s1 u = (if u = cur s then Some (THREAD_READY, False, True) else tview s u)" for u
    using v by (simp add: s1_def tview_set_status ea)
  then have ts: "tst s1 u = (if u = cur s then Some THREAD_READY else tst s u)" for u by (simp add: tst_tview)
  have c: "ops @ ops' = INTR_SET (intr_on s0) # ops'" by (simp add: ops)
  show ?thesis
    unfolding c
  proof (rule inv_switch [OF inv p ok e1(1-4) _ _ _ _ _ _ _ sch])
    show "tview s1 (cur s) = Some (THREAD_READY, False, True)" by (simp add: tv)
    show "ready_ok s1" by (rule ready_status [OF inv, of _ THREAD_READY]) (simp_all add: ts e1)
    show "waiters_ok (push_ops (cur s) (INTR_SET (intr_on s0) # ops') s1)"
      by (rule waiters_other [OF inv]) (use e1(6) in \<open>simp_all add: e1(1-5) ts\<close>)
  qed (simp_all add: tv)
qed

lemma inv_exit:
  assumes inv: "inv s" and p: "prog s (cur s) = EXIT # ps"
    and e: "exit_switch (s\<lparr>prog := (prog s)(cur s := ps)\<rparr>) = Some s'"
  shows "inv (push_ops (cur s) [] s')"
proof -
  define sa where "sa = s\<lparr>prog := (prog s)(cur s := ps), intr_on := False, all_list := remove1 (cur s) (all_list s)\<rparr>"
  define s1 where "s1 = upd_thread (cur s) (\<lambda>th. th\<lparr>t_is_thread_exited := True, t_status := THREAD_DYING\<rparr>) sa"
  have sch: "schedule s1 = Some s'"
    using e by (auto simp: exit_switch_def bind_Some_iff s1_def sa_def Let_def intr_disable_def split: if_splits)
  have e1: "cur s1 = cur s" "idle_thread s1 = idle_thread s" "prog s1 = (prog s)(cur s := ps)" "page_next s1 = page_next s"
    "ready_list s1 = ready_list s" "waiters s1 = waiters s"
    by (simp_all add: s1_def sa_def waiters_def fun_eq_iff)
  obtain v: "tview s (cur s) = Some (THREAD_RUNNING, False, True)" by (rule inv_tview [OF inv])
  obtain th where th: "threads s (cur s) = Some th" "t_opened_files th = []"
    using v by (cases "threads s (cur s)") (auto simp: tview_def)
  have tv: "tview s1 u = (if u = cur s then Some (THREAD_DYING, True, True) else tview s u)" for u
    using th by (simp add: s1_def tview_upd) (simp add: sa_def tview_def)
  then have ts: "tst s1 u = (if u = cur s then Some THREAD_DYING else tst s u)" for u by (simp add: tst_tview)
  show ?thesis
  proof (rule inv_switch [OF inv p _ e1(1-4) _ _ _ _ _ _ _ sch])
    show "ops_ok s EXIT ps []" by (rule ops_ok_harmless) simp_all
    show "tview s1 (cur s) = Some (THREAD_DYING, True, True)" by (simp add: tv)
    show "ready_ok s1" by (rule ready_status [OF inv, of _ THREAD_DYING]) (simp_all add: ts e1)
    show "waiters_ok (push_ops (cur s) [] s1)" by (rule waiters_other [OF inv]) (simp_all add: e1 ts)
    show "idle_thread s \<noteq> Some (cur s)" by (rule not_idle [OF inv p]) simp
  qed (simp_all add: tv)
qed


section \<open>Waking, starting and freeing threads\<close>



lemma running_eq:
  assumes "running_ok s" and "cur s' = cur s" and "\<And>t. tst s' t = Some THREAD_RUNNING \<longleftrightarrow> tst s t = Some THREAD_RUNNING"
  shows "running_ok s'"
proof -
  have r: "tst s (cur s) = Some THREAD_RUNNING" using assms(1) unfolding running_ok_def by (rule conjunct1)
  have b: "t = cur s'" if "tst s' t = Some THREAD_RUNNING" for t
  proof -
    have "tst s t = Some THREAD_RUNNING" using that assms(3) by simp
    from assms(1) [unfolded running_ok_def, THEN conjunct2, rule_format, OF this] show ?thesis by (simp only: assms(2))
  qed
  have a: "tst s' (cur s') = Some THREAD_RUNNING" using r assms(3) [of "cur s"] by (simp add: assms(2))
  show ?thesis unfolding running_ok_def by (intro conjI allI impI a) (rule b)
qed

lemma inv_wake:
  assumes inv: "inv s" and w: "tst s w = Some THREAD_BLOCKED" "idle_thread s \<noteq> Some w" "prog s w \<noteq> []"
    and token: "\<And>u. Some w \<notin> set (toks (prog s u))"
    and eqs: "cur s' = cur s" "idle_thread s' = idle_thread s" "prog s' = prog s" "page_next s' = page_next s"
      "ready_list s' = ready_list s @ [w]"
    and tv: "\<And>u. tview s' u = (if u = w then map_option (\<lambda>(_, e). (THREAD_READY, e)) (tview s w) else tview s u)"
    and wait: "\<And>r. distinct (waiters s' r) \<and> set (waiters s' r) \<subseteq> set (waiters s r) - {w}"
  shows "inv s'"
proof -
  have core: "core s" and run: "running_ok s" using inv by (simp_all add: inv_def base_core)
  obtain ex where v: "tview s w = Some (THREAD_BLOCKED, ex, True)" "ex \<Longrightarrow> THREAD_BLOCKED = THREAD_DYING"
    by (rule tview_of_tst [OF core w(1)]) blast
  have v': "tview s' w = Some (THREAD_READY, False, True)" using v tv [of w] by (cases ex) auto
  have ts: "tst s' u = (if u = w then Some THREAD_READY else tst s u)" for u   proof (cases "u = w")
    case True
    then show ?thesis using v' by (simp add: tst_tview)
  next
    case False
    then show ?thesis using tv [of u] by (simp add: tst_tview)
  qed
  have "core s'"
  proof (rule core_update [OF core w(1) _ token prog_ok_refl eqs(2) _ _ _ v'])
    show "prog s' = (prog s)(w := prog s w)" by (simp add: eqs)
  qed (use tv eqs(4) in simp_all)
  moreover have "ready_ok s'"
  proof -
    have r: "distinct (ready_list s)" and d: "\<And>t. t \<in> set (ready_list s) \<longleftrightarrow> tst s t = Some THREAD_READY \<and> idle_thread s \<noteq> Some t"
      using inv by (simp_all add: inv_def base_def ready_ok_def)
    have n: "w \<notin> set (ready_list s)" using d [of w] w by simp
    have "t \<in> set (ready_list s') \<longleftrightarrow> tst s' t = Some THREAD_READY \<and> idle_thread s' \<noteq> Some t" for t
      using d [of t] w(2) by (cases "t = w") (auto simp: eqs ts)
    then show ?thesis using r n by (simp add: ready_ok_def eqs)
  qed
  moreover have "waiters_ok s'"
    unfolding waiters_ok_def
  proof (intro allI conjI ballI)
    fix r u
    show "distinct (waiters s' r)" using wait by blast
    assume "u \<in> set (waiters s' r)"
    then have u: "u \<in> set (waiters s r)" "u \<noteq> w" using wait [of r] by auto
    then have "tst s u = Some THREAD_BLOCKED" "idle_thread s \<noteq> Some u" "\<exists>old ps. prog s u = SEMA_WAIT r old # ps"
      using inv unfolding inv_def base_def waiters_ok_def by blast+
    then show "tst s' u = Some THREAD_BLOCKED" "idle_thread s' \<noteq> Some u" "\<exists>old ps. prog s' u = SEMA_WAIT r old # ps"
      using u by (simp_all add: ts eqs)
  qed
  moreover have "running_ok s'"
    by (rule running_eq [OF run eqs(1)]) (use w(1) in \<open>auto simp: ts\<close>)
  ultimately show ?thesis by (simp add: inv_def base_core)
qed

lemma thread_unblock_eq:
  "thread_unblock t s = Some s' \<Longrightarrow>
     tst s t = Some THREAD_BLOCKED \<and> s' = set_status t THREAD_READY (s\<lparr>ready_list := ready_list s @ [t]\<rparr>)"
  by (auto simp: thread_unblock_def bind_Some_iff tst_def split: if_splits)

lemma inv_sema_up:
  assumes inv: "inv s" and e: "sema_up r s = Some s'"
  shows "inv s'"
proof (cases "waiters s r")
  case Nil
  then have "s' = set_sema r ((semas s r)\<lparr>s_value := s_value (semas s r) + 1\<rparr>) s"
    using e by (simp add: sema_up_def waiters_def)
  then show ?thesis using inv_le [OF inv sched_le_sema] by (simp add: waiters_def)
next
  case (Cons w ws)
  define s1 where "s1 = set_sema r ((semas s r)\<lparr>s_waiters := ws\<rparr>) s"
  obtain s2 where s2: "thread_unblock w s1 = Some s2"
    and s': "s' = set_sema r ((semas s2 r)\<lparr>s_value := s_value (semas s2 r) + 1\<rparr>) s2"
    using e Cons by (auto simp: sema_up_def waiters_def s1_def bind_Some_iff)
  have s2e: "s2 = set_status w THREAD_READY (s1\<lparr>ready_list := ready_list s1 @ [w]\<rparr>)" using thread_unblock_eq [OF s2] by simp
  have wo: "waiters_ok s" using inv by (simp add: inv_def base_def)
  have w: "tst s w = Some THREAD_BLOCKED" "idle_thread s \<noteq> Some w" "\<exists>old ps. prog s w = SEMA_WAIT r old # ps"
    using wo Cons unfolding waiters_ok_def by (metis list.set_intros(1))+
  have other: "w \<notin> set (waiters s q)" if "q \<noteq> r" for q
    using w(3) that wo unfolding waiters_ok_def by fastforce
  have d: "distinct (waiters s q)" for q using wo by (simp add: waiters_ok_def)
  have "inv s2"
  proof (rule inv_wake [OF inv w(1,2)])
    show "prog s w \<noteq> []" using w(3) by auto
    show "Some w \<notin> set (toks (prog s u))" for u
      by (rule no_token) (use inv w(3) in \<open>auto simp: inv_def base_core\<close>)
    fix u q
    show "tview s2 u = (if u = w then map_option (\<lambda>(_, e). (THREAD_READY, e)) (tview s w) else tview s u)"
      unfolding s2e tview_set_status by (simp add: s1_def set_sema_def tview_def)
    show "distinct (waiters s2 q) \<and> set (waiters s2 q) \<subseteq> set (waiters s q) - {w}"
      using d [of q] other [of q] Cons by (auto simp: s2e s1_def set_sema_def waiters_def)
  qed (simp_all add: s2e s1_def set_sema_def)
  then show ?thesis unfolding s' by (rule inv_le [OF _ sched_le_sema]) (simp add: waiters_def)
qed

text \<open>The thread that takes the idle role.\<close>

lemma inv_set_idle:
  assumes inv: "inv s" and p: "prog s (cur s) = SET_IDLE # ps"
  shows "inv (s\<lparr>prog := (prog s)(cur s := ps), idle_thread := Some (cur s)\<rparr>)" (is "inv ?s")
proof -
  have core: "core s" and run: "tst s (cur s) = Some THREAD_RUNNING" using inv by (simp_all add: inv_def base_core running_ok_def)
  have drop: "inv (s\<lparr>prog := (prog s)(cur s := ps)\<rparr>)" (is "inv ?d") by (rule inv_drop [OF inv p]) simp
  have tok: "token_ok s" using core by (simp add: core_def)
  have nt: "None \<in> set (toks (prog s (cur s)))" by (simp add: p)
  have none: "None \<notin> set (toks (prog ?d u))" for u
  proof (cases "u = cur s")
    case True
    have "distinct (toks (prog s (cur s)))" using tok by (simp add: token_ok_def)
    then show ?thesis using True by (simp add: p)
  next
    case False
    then have "set (toks (prog s (cur s))) \<inter> set (toks (prog s u)) = {}" using tok unfolding token_ok_def by blast
    then show ?thesis using False nt by auto
  qed
  have idle: "idle_thread s = None" using tok nt unfolding token_ok_def by blast
  have ip: "idle_prog ps"
  proof -
    have "SET_IDLE \<in> set (prog s (cur s))" by (simp add: p)
    then have "idle_prog (SET_IDLE # ps)" using core p unfolding core_def idle_ok_def by metis
    then show ?thesis by (auto simp: idle_prog_def split: if_splits)
  qed
  have no_set: "SET_IDLE \<notin> set (prog ?d u)" for u using none SET_IDLE_toks by blast
  have v: "tst ?s = tst s" "tview ?s = tview s" "waiters ?s = waiters s" "tst ?d = tst s" "tview ?d = tview s" "waiters ?d = waiters s"
    by (simp_all add: tst_def tview_def waiters_def fun_eq_iff)
  have b: "ready_ok ?d" "waiters_ok ?d" "life_ok ?d" "free_ok ?d" "token_ok ?d" "fresh_ok ?d" and r: "running_ok ?d"
    using drop by (simp_all add: inv_def base_def)
  have "ready_ok ?s" using b(1) run idle by (auto simp: ready_ok_def v)
  moreover have "waiters_ok ?s"
  proof -
    have nc: "cur s \<notin> set (waiters s r)" for r by (rule not_waiting [OF inv])
    then show ?thesis using b(2) unfolding waiters_ok_def v by auto
  qed
  moreover have "life_ok ?s" using b(3) unfolding life_ok_def v .
  moreover have "free_ok ?s" using b(4) unfolding free_ok_def v by simp
  moreover have "token_ok ?s"
  proof -
    have "Some (cur s) \<notin> set (toks (prog s u))" for u by (rule no_token [OF core]) (simp add: run)
    from this [of "cur s"] this have "Some (cur s) \<notin> set (toks (prog ?d u))" for u by (simp add: p)
    note nc = this
    have e: "prog ?s = prog ?d" "idle_thread ?s = Some (cur s)" by simp_all
    show ?thesis
      unfolding token_ok_def e v
    proof (intro conjI allI impI ballI)
      note t = b(5) [unfolded token_ok_def v]
      fix t t' u q
      show "distinct (toks (prog ?d t))" using t by blast
      show "t \<noteq> t' \<Longrightarrow> set (toks (prog ?d t)) \<inter> set (toks (prog ?d t')) = {}" using t by blast
      show "Some u \<in> set (toks (prog ?d t)) \<Longrightarrow> tst s u = Some THREAD_BLOCKED" using t by blast
      show "Some u \<in> set (toks (prog ?d t)) \<Longrightarrow> prog ?d u = []" using t by blast
      show "Some u \<in> set (toks (prog ?d t)) \<Longrightarrow> Some (cur s) \<noteq> Some u" using nc by blast
      show "None \<in> set (toks (prog ?d t)) \<Longrightarrow> Some (cur s) = None" using none by blast
      show "q \<in> set (prog ?d t) \<Longrightarrow> op_func q \<in> start_funcs" using t by blast
    qed
  qed
  moreover have "idle_ok ?s" using no_set ip run unfolding idle_ok_def v by auto
  moreover have "fresh_ok ?s" using b(6) by (simp add: fresh_ok_def)
  moreover have "running_ok ?s" using r by (simp add: running_ok_def v)
  ultimately show ?thesis by (simp add: inv_def base_def)
qed

text \<open>A dead thread is freed.\<close>

lemma inv_free:
  assumes inv: "inv s" and u: "tst s u = Some THREAD_DYING"
  shows "inv (s\<lparr>threads := (threads s)(u := None)\<rparr>)" (is "inv ?s")
proof -
  have core: "core s" using inv by (simp add: inv_def base_core)
  have v: "waiters ?s = waiters s" "tst ?s = (tst s)(u := None)" "tview ?s = (tview s)(u := None)"
    by (simp_all add: tst_def tview_def waiters_def fun_eq_iff)
  have b: "ready_ok s" "waiters_ok s" "life_ok s" "free_ok s" "token_ok s" "idle_ok s" "fresh_ok s" and r: "running_ok s"
    using inv by (simp_all add: inv_def base_def)
  have "ready_ok ?s" using b(1) u by (auto simp: ready_ok_def v)
  moreover have "waiters_ok ?s"
    unfolding waiters_ok_def
  proof (intro allI conjI ballI)
    fix q w
    show "distinct (waiters ?s q)" using b(2) by (simp add: waiters_ok_def v)
    assume "w \<in> set (waiters ?s q)"
    then have w: "tst s w = Some THREAD_BLOCKED" "idle_thread s \<noteq> Some w" "\<exists>old ps. prog s w = SEMA_WAIT q old # ps"
      using b(2) unfolding waiters_ok_def v by blast+
    then have "w \<noteq> u" using u by auto
    then show "tst ?s w = Some THREAD_BLOCKED" "idle_thread ?s \<noteq> Some w" "\<exists>old ps. prog ?s w = SEMA_WAIT q old # ps"
      using w by (simp_all add: v)
  qed
  moreover have "life_ok ?s" using b(3) unfolding life_ok_def v by auto
  moreover have "free_ok ?s" using b(4) unfolding free_ok_def v by auto
  moreover have "token_ok ?s"
  proof -
    have "Some u \<notin> set (toks (prog s t))" for t by (rule no_token [OF core]) (simp add: u)
    then show ?thesis using b(5) unfolding token_ok_def v by auto
  qed
  moreover have "idle_ok ?s"
  proof -
    have "idle_thread s \<noteq> Some u" using b(6) u unfolding idle_ok_def by auto
    then show ?thesis using b(6) unfolding idle_ok_def v by auto
  qed
  moreover have "fresh_ok ?s" using b(7) by (simp add: fresh_ok_def)
  moreover have "running_ok ?s"
  proof -
    have run: "tst s (cur s) = Some THREAD_RUNNING" and only: "\<forall>t. tst s t = Some THREAD_RUNNING \<longrightarrow> t = cur s"
      using r unfolding running_ok_def by blast+
    have "u \<noteq> cur s" using run u by auto
    moreover have "t = cur s" if "tst ?s t = Some THREAD_RUNNING" for t
      using that only by (cases "t = u") (simp_all add: v)
    ultimately show ?thesis using run unfolding running_ok_def by (simp add: v)
  qed
  ultimately show ?thesis by (simp add: inv_def base_def)
qed


section \<open>Creating threads\<close>

lemma running_cur: "running_ok s \<Longrightarrow> tst s (cur s) = Some THREAD_RUNNING"
  by (simp add: running_ok_def)

lemma toks_start: "func \<in> start_funcs \<Longrightarrow> toks func = (if SET_IDLE \<in> set func then [None] else [])"
  by (auto simp: start_funcs_def idle_def)

lemma frees_start: "func \<in> start_funcs \<Longrightarrow> q \<in> set func \<Longrightarrow> op_frees q = {} \<and> op_func q = []"
  by (auto simp: start_funcs_def idle_def)

lemma no_set_idle:
  assumes "idle_ok s" and "prog s t = p # ps" and "\<not> idle_safe p"
  shows "SET_IDLE \<notin> set (prog s t)" and "idle_thread s \<noteq> Some t"
  using assms unfolding idle_ok_def idle_prog_def by (auto dest!: spec [of _ t])

lemma waiters_same:
  assumes wo: "waiters_ok s" and "idle_thread s' = idle_thread s" and "\<And>r. waiters s' r = waiters s r"
    and "\<And>u r. u \<in> set (waiters s r) \<Longrightarrow> tst s' u = tst s u \<and> prog s' u = prog s u"
  shows "waiters_ok s'"
  unfolding waiters_ok_def
proof (intro allI conjI ballI)
  fix r u
  show "distinct (waiters s' r)" using wo assms(3) by (simp add: waiters_ok_def)
  assume "u \<in> set (waiters s' r)"
  then have w: "u \<in> set (waiters s r)" using assms(3) by simp
  then have "tst s u = Some THREAD_BLOCKED" "idle_thread s \<noteq> Some u" "\<exists>old ps. prog s u = SEMA_WAIT r old # ps"
    using wo unfolding waiters_ok_def by blast+
  then show "tst s' u = Some THREAD_BLOCKED" "idle_thread s' \<noteq> Some u" "\<exists>old ps. prog s' u = SEMA_WAIT r old # ps"
    using assms(2) assms(4) [OF w] by simp_all
qed

lemma inv_create:
  assumes inv: "inv s" and p: "prog s (cur s) = CREATE name priority func # ps"
    and eqs: "cur f = cur s" "ready_list f = ready_list s" "idle_thread f = idle_thread s" "page_next f = Suc (page_next s)"
      "prog f = (prog s)(cur s := (allocate_tid (page_next s) @ [LAUNCH (page_next s) name func]) @ ps)"
      "\<And>r. waiters f r = waiters s r"
    and tv: "\<And>u. tview f u = (if u = page_next s then Some (THREAD_BLOCKED, False, True) else tview s u)"
  shows "inv f"
proof -
  define n where "n = page_next s"
  have core: "core s" and b: "ready_ok s" "waiters_ok s" "life_ok s" "free_ok s" "token_ok s" "idle_ok s" "fresh_ok s"
    and run: "running_ok s"
    using inv by (simp_all add: inv_def base_def core_def)
  have n: "threads s n = None" "prog s n = []" "tst s n = None" using b(7) by (simp_all add: fresh_ok_def n_def tst_def)
  have cn: "cur s \<noteq> n" using running_cur [OF run] n(3) by auto
  have tv: "tview f u = (if u = n then Some (THREAD_BLOCKED, False, True) else tview s u)" for u using tv by (simp add: n_def)
  then have ts: "tst f u = (if u = n then Some THREAD_BLOCKED else tst s u)" for u by (simp add: tst_tview)
  have pf: "prog f = (prog s)(cur s := allocate_tid n @ LAUNCH n name func # ps)" using eqs(5) by (simp add: n_def)
  have al: "toks (allocate_tid n) = []" "\<forall>q\<in>set (allocate_tid n). op_frees q = {} \<and> op_func q = []" "SET_IDLE \<notin> set (allocate_tid n)"
    by (simp_all add: allocate_tid_def lock_acquire_def lock_release_def)
  have tk: "toks (prog f u) = (if u = cur s then Some n # toks (prog s u) else toks (prog s u))" for u
    using al by (simp add: pf p)
  have sn: "Some n \<notin> set (toks (prog s u))" for u by (rule no_token [OF core]) (simp add: n)
  have idle: "SET_IDLE \<notin> set (prog s (cur s))" "idle_thread s \<noteq> Some (cur s)"
    using no_set_idle [OF b(6) p] by simp_all
  have "ready_ok f" using b(1) n(3) unfolding ready_ok_def eqs ts by auto
  moreover have "waiters_ok f"
  proof (rule waiters_same [OF b(2) eqs(3,6)])
    fix u r assume "u \<in> set (waiters s r)"
    then have "tst s u = Some THREAD_BLOCKED" using b(2) unfolding waiters_ok_def by blast
    then have "u \<noteq> n" "u \<noteq> cur s" using n running_cur [OF run] by auto
    then show "tst f u = tst s u \<and> prog f u = prog s u" by (simp add: ts pf)
  qed
  moreover have "life_ok f" using b(3) unfolding life_ok_def tv by auto
  moreover have "free_ok f"
    unfolding free_ok_def
  proof (intro allI ballI)
    fix t q u assume q: "q \<in> set (prog f t)" "u \<in> op_frees q"
    then have "q \<in> set (prog s t)" using al by (auto simp: pf p split: if_splits)
    then have "u < n \<and> (tst s u = None \<or> tst s u = Some THREAD_DYING)" using q b(4) unfolding free_ok_def n_def by blast
    then show "u < page_next f \<and> (tst f u = None \<or> tst f u = Some THREAD_DYING)" by (auto simp: eqs ts n_def)
  qed
  moreover have "token_ok f"
    unfolding token_ok_def
  proof (intro conjI allI impI ballI)
    note t = b(5) [unfolded token_ok_def]
    fix u u' v q
    show "distinct (toks (prog f u))" using t sn by (simp add: tk)
    have "u \<noteq> u' \<Longrightarrow> set (toks (prog s u)) \<inter> set (toks (prog s u')) = {}" using t by blast
    then show "u \<noteq> u' \<Longrightarrow> set (toks (prog f u)) \<inter> set (toks (prog f u')) = {}" using sn by (auto simp: tk)
    { assume a: "Some v \<in> set (toks (prog f u))"
      have "v = n \<or> Some v \<in> set (toks (prog s u))" using a by (auto simp: tk split: if_splits)
      moreover have "idle_thread s \<noteq> Some n" using b(6) n(3) unfolding idle_ok_def by blast
      moreover have "prog s v = [] \<Longrightarrow> v \<noteq> cur s" using p by auto
      ultimately show "tst f v = Some THREAD_BLOCKED" "idle_thread f \<noteq> Some v" "prog f v = []"
        using t n cn by (auto simp: ts eqs pf) }
    { assume "None \<in> set (toks (prog f u))"
      then have "None \<in> set (toks (prog s u))" by (auto simp: tk split: if_splits)
      then show "idle_thread f = None" using t unfolding eqs by blast }
    { assume q: "q \<in> set (prog f u)"
      have "CREATE name priority func \<in> set (prog s (cur s))" by (simp add: p)
      then have "op_func (CREATE name priority func) \<in> start_funcs" using t by blast
      then have fs: "func \<in> start_funcs" by simp
      have "q \<in> set (prog s u) \<or> op_func q = func \<or> op_func q = []" using q al by (auto simp: pf p split: if_splits)
      then show "op_func q \<in> start_funcs" using t fs by auto }
  qed
  moreover have "idle_ok f"
    unfolding idle_ok_def
  proof (intro conjI allI impI)
    fix i
    { assume i: "idle_thread f = Some i \<or> SET_IDLE \<in> set (prog f i)"
      then have ni: "i \<noteq> cur s" using idle al by (auto simp: pf p eqs)
      then have "idle_thread s = Some i \<or> SET_IDLE \<in> set (prog s i)" using i by (simp add: pf eqs)
      then have "idle_prog (prog s i)" using b(6) unfolding idle_ok_def by blast
      then show "idle_prog (prog f i)" using ni by (simp add: pf) }
    show "idle_thread f = Some i \<Longrightarrow> tst f i \<noteq> None" "idle_thread f = Some i \<Longrightarrow> tst f i \<noteq> Some THREAD_DYING"
      using b(6) by (auto simp: idle_ok_def eqs ts)
  qed
  moreover have "fresh_ok f"
    unfolding fresh_ok_def
  proof (intro allI impI)
    fix u assume "page_next f \<le> u"
    then have u: "page_next s \<le> u" "u \<noteq> n" by (simp_all add: eqs n_def)
    then have "threads s u = None" "prog s u = []" using b(7) by (simp_all add: fresh_ok_def)
    moreover have "u \<noteq> cur s" using calculation p by auto
    ultimately show "threads f u = None \<and> prog f u = []" using u by (simp add: threads_None_tview tv pf)
  qed
  moreover have "running_ok f" by (rule running_eq [OF run eqs(1)]) (simp add: ts n)
  ultimately show ?thesis by (simp add: inv_def base_def)
qed


lemma inv_launch:
  assumes inv: "inv s" and p: "prog s (cur s) = LAUNCH u name func # ps"
    and eqs: "cur f = cur s" "ready_list f = ready_list s @ [u]" "idle_thread f = idle_thread s" "page_next f = page_next s"
      "prog f = (prog s)(cur s := ps, u := kernel_thread func)" "\<And>r. waiters f r = waiters s r"
    and tv: "\<And>v. tview f v = (if v = u then map_option (\<lambda>(_, e). (THREAD_READY, e)) (tview s u) else tview s v)"
  shows "inv f"
proof -
  have core: "core s" and b: "ready_ok s" "waiters_ok s" "life_ok s" "free_ok s" "token_ok s" "idle_ok s" "fresh_ok s"
    and run: "running_ok s"
    using inv by (simp_all add: inv_def base_def core_def)
  note t = b(5) [unfolded token_ok_def]
  have "Some u \<in> set (toks (prog s (cur s)))" by (simp add: p)
  then have u: "tst s u = Some THREAD_BLOCKED" "idle_thread s \<noteq> Some u" "prog s u = []" using t by blast+
  have uc: "u \<noteq> cur s" using u running_cur [OF run] by auto
  have "LAUNCH u name func \<in> set (prog s (cur s))" by (simp add: p)
  then have "op_func (LAUNCH u name func) \<in> start_funcs" using t by blast
  then have fs: "func \<in> start_funcs" by simp
  obtain ex where v: "tview s u = Some (THREAD_BLOCKED, ex, True)" "ex \<Longrightarrow> THREAD_BLOCKED = THREAD_DYING"
    by (rule tview_of_tst [OF core u(1)]) blast
  have tv: "tview f w = (if w = u then Some (THREAD_READY, False, True) else tview s w)" for w
    using tv [of w] v by (cases ex) auto
  have ts: "tst f w = (if w = u then Some THREAD_READY else tst s w)" for w by (simp add: tst_tview tv)
  have dc: "distinct (toks (prog s (cur s)))" using t by blast
  have tc: "toks (prog s (cur s)) = Some u # (if SET_IDLE \<in> set func then [None] else []) @ toks ps" by (simp add: p)
  have tk: "toks (prog f w) = (if w = u then (if SET_IDLE \<in> set func then [None] else []) else if w = cur s then toks ps
      else toks (prog s w))" for w
    using toks_start [OF fs] uc by (simp add: eqs kernel_thread_def)
  have dis: "w \<noteq> cur s \<Longrightarrow> set (toks (prog s (cur s))) \<inter> set (toks (prog s w)) = {}" for w using t by blast
  have su: "Some u \<notin> set (toks (prog f w))" for w
    using dc dis [of w] by (auto simp: tk tc split: if_splits)
  have nn: "SET_IDLE \<in> set func \<Longrightarrow> w \<noteq> u \<Longrightarrow> None \<notin> set (toks (prog f w))" for w
    using dc dis [of w] by (auto simp: tk tc split: if_splits)
  have sub: "w \<noteq> u \<Longrightarrow> set (toks (prog f w)) \<subseteq> set (toks (prog s w))" for w by (auto simp: tk tc)
  have idle: "SET_IDLE \<notin> set (prog s (cur s))" "idle_thread s \<noteq> Some (cur s)"
    using no_set_idle [OF b(6) p] by simp_all
  have "ready_ok f"
  proof -
    have r: "distinct (ready_list s)" and d: "\<And>t. t \<in> set (ready_list s) \<longleftrightarrow> tst s t = Some THREAD_READY \<and> idle_thread s \<noteq> Some t"
      using b(1) by (simp_all add: ready_ok_def)
    have n: "u \<notin> set (ready_list s)" using d [of u] u by simp
    have "t \<in> set (ready_list f) \<longleftrightarrow> tst f t = Some THREAD_READY \<and> idle_thread f \<noteq> Some t" for t
      using d [of t] u(2) by (cases "t = u") (auto simp: eqs ts)
    then show ?thesis using r n by (simp add: ready_ok_def eqs)
  qed
  moreover have "waiters_ok f"
  proof (rule waiters_same [OF b(2) eqs(3,6)])
    fix w r assume "w \<in> set (waiters s r)"
    then have "tst s w = Some THREAD_BLOCKED" "\<exists>old ps. prog s w = SEMA_WAIT r old # ps" using b(2) unfolding waiters_ok_def by blast+
    then have "w \<noteq> u" "w \<noteq> cur s" using u running_cur [OF run] by auto
    then show "tst f w = tst s w \<and> prog f w = prog s w" by (simp add: ts eqs)
  qed
  moreover have "life_ok f" using b(3) unfolding life_ok_def tv by auto
  moreover have "free_ok f"
    unfolding free_ok_def
  proof (intro allI ballI)
    fix t q w assume q: "q \<in> set (prog f t)" "w \<in> op_frees q"
    then have "q \<in> set (prog s t)" using frees_start [OF fs] by (auto simp: eqs p kernel_thread_def split: if_splits)
    then have "w < page_next s \<and> (tst s w = None \<or> tst s w = Some THREAD_DYING)" using q b(4) unfolding free_ok_def by blast
    then show "w < page_next f \<and> (tst f w = None \<or> tst f w = Some THREAD_DYING)" using u by (auto simp: eqs ts)
  qed
  moreover have "token_ok f"
    unfolding token_ok_def
  proof (intro conjI allI impI ballI)
    fix w w' v q
    show "distinct (toks (prog f w))" using t dc by (auto simp: tk tc)
    show "set (toks (prog f w)) \<inter> set (toks (prog f w')) = {}" if "w \<noteq> w'"
    proof (cases "w = u \<or> w' = u")
      case True
      have "set (toks (prog f u)) \<subseteq> {None}" "SET_IDLE \<notin> set func \<Longrightarrow> toks (prog f u) = []" by (auto simp: tk)
      then show ?thesis using True nn [of w] nn [of w'] that by (cases "SET_IDLE \<in> set func") auto
    next
      case False
      have "set (toks (prog s w)) \<inter> set (toks (prog s w')) = {}" using t that by blast
      then show ?thesis using sub [of w] sub [of w'] False by blast
    qed
    { assume a: "Some v \<in> set (toks (prog f w))"
      then have "w \<noteq> u" by (auto simp: tk split: if_splits)
      then have "Some v \<in> set (toks (prog s w))" using a sub by blast
      then have v: "tst s v = Some THREAD_BLOCKED" "idle_thread s \<noteq> Some v" "prog s v = []" using t by blast+
      have "v \<noteq> u" "v \<noteq> cur s" using a su v p by auto
      then show "tst f v = Some THREAD_BLOCKED" "idle_thread f \<noteq> Some v" "prog f v = []" using v by (simp_all add: ts eqs) }
    { assume a: "None \<in> set (toks (prog f w))"
      have "None \<in> set (toks (prog s w)) \<or> None \<in> set (toks (prog s (cur s)))"
        using a sub [of w] by (cases "w = u") (auto simp: tk tc split: if_splits)
      then have "idle_thread s = None" using t by blast
      then show "idle_thread f = None" by (simp add: eqs) }
    { assume q: "q \<in> set (prog f w)"
      have "q \<in> set (prog s w) \<or> op_func q = []"
        using q frees_start [OF fs] by (auto simp: eqs p kernel_thread_def split: if_splits)
      then show "op_func q \<in> start_funcs" using t by auto }
  qed
  moreover have "idle_ok f"
    unfolding idle_ok_def
  proof (intro conjI allI impI)
    fix i
    { assume i: "idle_thread f = Some i \<or> SET_IDLE \<in> set (prog f i)"
      show "idle_prog (prog f i)"
      proof (cases "i = u")
        case True
        then have "SET_IDLE \<in> set func" using i u by (auto simp: eqs kernel_thread_def)
        then have "func = idle" using fs by (auto simp: start_funcs_def)
        then show ?thesis using True by (simp add: eqs kernel_thread_def idle_def idle_prog_def)
      next
        case False
        then have ni: "i \<noteq> cur s" using i idle by (auto simp: eqs p)
        then have "idle_thread s = Some i \<or> SET_IDLE \<in> set (prog s i)" using i False by (simp add: eqs)
        then have "idle_prog (prog s i)" using b(6) unfolding idle_ok_def by blast
        then show ?thesis using ni False by (simp add: eqs)
      qed }
    show "idle_thread f = Some i \<Longrightarrow> tst f i \<noteq> None" "idle_thread f = Some i \<Longrightarrow> tst f i \<noteq> Some THREAD_DYING"
      using b(6) by (auto simp: idle_ok_def eqs ts)
  qed
  moreover have "fresh_ok f"
    unfolding fresh_ok_def
  proof (intro allI impI)
    fix w assume "page_next f \<le> w"
    then have w: "threads s w = None" "prog s w = []" using b(7) by (simp_all add: fresh_ok_def eqs)
    moreover have "w \<noteq> cur s" "w \<noteq> u" using w p u by (auto simp: tst_def)
    ultimately show "threads f w = None \<and> prog f w = []" by (simp add: threads_None_tview tv eqs)
  qed
  moreover have "running_ok f" by (rule running_eq [OF run eqs(1)]) (simp add: ts u)
  ultimately show ?thesis by (simp add: inv_def base_def)
qed


section \<open>Every step keeps the invariant\<close>

lemma push_nil [simp]: "push_ops t [] s = s"
  by (simp add: push_ops_def)

lemma life_tview: "life_ok s \<Longrightarrow> tview s' = tview s \<Longrightarrow> life_ok s'"
  by (simp only: life_ok_def)

lemma base_life:
  assumes "inv s"
  shows "life_ok (s\<lparr>prog := pr\<rparr>)"
proof (rule life_tview)
  show "life_ok s" using assms by (simp add: inv_def base_def)
qed (simp add: tview_def fun_eq_iff)

lemma inv_sema_wait:
  assumes inv: "inv s" and p: "prog s (cur s) = p # ps" and ns: "\<not> idle_safe p"
    and e: "sema_wait r old (s\<lparr>prog := (prog s)(cur s := ps), intr_on := b\<rparr>) = Some (ops, s')"
  shows "inv (push_ops (cur s) ops s')"
proof -
  define s0 where "s0 = s\<lparr>prog := (prog s)(cur s := ps), intr_on := b\<rparr>"
  have le0: "sched_le (s\<lparr>prog := (prog s)(cur s := ps)\<rparr>) s0" unfolding s0_def by (simp add: sched_le_def tview_def waiters_def)
  show ?thesis
  proof (cases "s_value (semas s r) = 0")
    case True
    define s1 where "s1 = set_sema r ((semas s r)\<lparr>s_waiters := waiters s r @ [cur s]\<rparr>) s0"
    have "thread_block s1 = Some s'" and ops: "ops = [SEMA_WAIT r old]"
      using e True by (auto simp: sema_wait_def bind_Some_iff s0_def s1_def waiters_def)
    then show ?thesis unfolding ops s1_def s0_def by (intro inv_block_sema [OF inv p ns refl])
  next
    case False
    define s1 where "s1 = set_sema r ((semas s r)\<lparr>s_value := s_value (semas s r) - 1\<rparr>) s0"
    have s': "intr_set_level old s1 = Some s'" and ops: "ops = []"
      using e False by (auto simp: sema_wait_def bind_Some_iff s0_def s1_def)
    have "sched_le s0 s1" unfolding s1_def by (rule sched_le_sema) (simp add: s0_def waiters_def)
    moreover have "sched_le s1 s'" using intr_set_level_eq [OF s'] by simp
    ultimately have le: "sched_le (s\<lparr>prog := (prog s)(cur s := ps)\<rparr>) s'" using le0 sched_le_trans by blast
    show ?thesis unfolding ops
      by (rule inv_plain [OF inv p le]) (rule ops_ok_harmless, use ns in auto)
  qed
qed

lemma inv_thread_create:
  assumes inv: "inv s" and p: "prog s (cur s) = CREATE name priority func # ps"
    and e: "thread_create name priority func (s\<lparr>prog := (prog s)(cur s := ps)\<rparr>) = Some (ops, s')"
  shows "inv (push_ops (cur s) ops s')"
proof -
  define n where "n = page_next s"
  define s0 where "s0 = s\<lparr>prog := (prog s)(cur s := ps)\<rparr>"
  define s1 where "s1 = s0\<lparr>page_next := n + 1\<rparr>"
  have le: "sched_le s0 s1" unfolding s1_def by (rule sched_le_page) (simp add: s0_def n_def)
  show ?thesis
  proof (cases "page_ok s n")
    case False
    then have s': "s' = set_ret TID_ERROR s1" and ops: "ops = []"
      using e by (simp_all add: thread_create_def s0_def s1_def n_def Let_def)
    have "life_ok s0" using base_life [OF inv] by (simp add: s0_def)
    then have "sched_le s0 s'" unfolding s' using le life_le sched_le_ret sched_le_trans by blast
    then show ?thesis unfolding ops
      by (intro inv_plain [OF inv p]) (simp add: s0_def, rule ops_ok_harmless, simp_all)
  next
    case True
    then have i: "init_thread n name priority s1 = Some s'"
      and ops: "ops = allocate_tid n @ [LAUNCH n name func]"
      using e by (auto simp: thread_create_def s0_def s1_def n_def Let_def bind_Some_iff)
    define th where "th = blank_thread name priority"
    have th: "t_status th = THREAD_BLOCKED" "\<not> t_is_thread_exited th" "t_opened_files th = []"
      by (simp_all add: th_def blank_thread_def)
    have s': "s' = cond_init (LOAD_COND n) (cond_init (EXIT_COND n) (s1\<lparr>threads := (threads s1)(n \<mapsto> th), all_list := all_list s1 @ [n]\<rparr>))"
      using i by (auto simp: init_thread_def Let_def th_def split: if_splits)
    show ?thesis unfolding ops
    proof (rule inv_create [OF inv p])
      show "tview (push_ops (cur s) (allocate_tid n @ [LAUNCH n name func]) s') u =
          (if u = page_next s then Some (THREAD_BLOCKED, False, True) else tview s u)" for u
        using th by (simp add: s' tview_def cond_init_def s1_def s0_def n_def)
    qed (simp_all add: s' cond_init_def s1_def s0_def n_def waiters_def)
  qed
qed

lemma inv_run_launch:
  assumes inv: "inv s" and p: "prog s (cur s) = LAUNCH u name func # ps"
    and e: "launch u name func (s\<lparr>prog := (prog s)(cur s := ps)\<rparr>) = Some s'"
  shows "inv (push_ops (cur s) [] s')"
proof -
  define s0 where "s0 = s\<lparr>prog := (prog s)(cur s := ps)\<rparr>"
  have af: "alloc_frame t k q = Some q' \<Longrightarrow> q' = upd_thread t (\<lambda>th. th\<lparr>t_stack := t_stack th - k\<rparr>) q" for t k q q'
    by (auto simp: alloc_frame_def split: if_splits)
  obtain s1 s2 where s1: "start_frames u func s0 = Some s1" and s2: "link_child u name s1 = Some s2"
    and s3: "thread_unblock u s2 = Some s'"
    using e by (auto simp: launch_def bind_Some_iff s0_def)
  obtain sa sb sc where a: "alloc_frame u 12 s0 = Some sa" "alloc_frame u 4 sa = Some sb" "alloc_frame u 28 sb = Some sc"
    and s1e: "s1 = sc\<lparr>prog := (prog sc)(u := kernel_thread func)\<rparr>"
    using s1 by (auto simp: start_frames_def bind_Some_iff)
  have l0: "life_ok s0" using base_life [OF inv] by (simp add: s0_def)
  have la: "sched_le s0 sa" unfolding af [OF a(1)] by (rule sched_le_upd) (simp_all add: l0)
  have lb: "sched_le sa sb" unfolding af [OF a(2)] by (rule sched_le_upd) (simp_all add: life_le [OF l0 la])
  note lab = sched_le_trans [OF la lb]
  have lc: "sched_le sb sc" unfolding af [OF a(3)] by (rule sched_le_upd) (simp_all add: life_le [OF l0 lab])
  note labc = sched_le_trans [OF lab lc]
  have sem: "semas sc = semas s" "page_next sc = page_next s" using af [OF a(1)] af [OF a(2)] af [OF a(3)] by (simp_all add: s0_def)
  have e1: "cur s1 = cur s" "ready_list s1 = ready_list s" "idle_thread s1 = idle_thread s" "page_next s1 = page_next s"
    "prog s1 = (prog s)(cur s := ps, u := kernel_thread func)" "\<And>t. tview s1 t = tview s t" "semas s1 = semas s"
    using labc sem by (simp_all add: sched_le_def s1e tview_def s0_def)
  have l1: "life_ok s1"
  proof (rule life_tview)
    show "life_ok s" using inv by (simp add: inv_def base_def)
  qed (simp add: fun_eq_iff e1)
  define sd where "sd = upd_thread u (\<lambda>th. th\<lparr>t_parent := Some (cur s1)\<rparr>) s1"
  have ld: "sched_le s1 sd" unfolding sd_def by (rule sched_le_upd) (simp_all add: l1)
  have s2e: "s2 = s1 \<or> s2 = sd \<or> s2 = upd_thread (cur sd) (\<lambda>th. th\<lparr>t_children := t_children th @ [u]\<rparr>) sd"
    using s2 by (auto simp: link_child_def bind_Some_iff sd_def Let_def split: if_splits)
  have "sched_le sd (upd_thread (cur sd) (\<lambda>th. th\<lparr>t_children := t_children th @ [u]\<rparr>) sd)"
    by (rule sched_le_upd) (simp_all add: life_le [OF l1 ld])
  then have l2: "sched_le s1 s2" using s2e ld sched_le_trans by auto
  have e2: "page_next s2 = page_next s" "semas s2 = semas s" using s2e e1 by (auto simp: sd_def)
  have s'e: "s' = set_status u THREAD_READY (s2\<lparr>ready_list := ready_list s2 @ [u]\<rparr>)" using thread_unblock_eq [OF s3] by simp
  have t2: "tview s2 t = tview s t" "cur s2 = cur s" "ready_list s2 = ready_list s" "idle_thread s2 = idle_thread s"
    "prog s2 = (prog s)(cur s := ps, u := kernel_thread func)" for t
    using l2 e1 by (simp_all add: sched_le_def)
  show ?thesis unfolding push_nil
  proof (rule inv_launch [OF inv p])
    fix v
    have "tview s' v = (if v = u then map_option (\<lambda>(_, e). (THREAD_READY, e)) (tview s2 u) else tview s2 v)"
      unfolding s'e tview_set_status by (simp add: tview_def)
    then show "tview s' v = (if v = u then map_option (\<lambda>(_, e). (THREAD_READY, e)) (tview s u) else tview s v)"
      by (simp add: t2)
  qed (simp_all add: s'e t2 e2 waiters_def)
qed

lemma inv_free_page:
  assumes inv: "inv s" and dead: "tst s u = None \<or> tst s u = Some THREAD_DYING" and e: "palloc_free_page u s = Some s'"
  shows "inv s'"
proof -
  have "tst s u = Some THREAD_DYING" using dead e by (auto simp: palloc_free_page_def bind_Some_iff tst_def)
  from inv_free [OF inv this] show ?thesis using e by (auto simp: palloc_free_page_def bind_Some_iff)
qed

lemma inv_free_thread:
  assumes inv: "inv s" and dead: "tst s u = None \<or> tst s u = Some THREAD_DYING" and e: "free_thread u s = Some s'"
  shows "inv s'"
proof -
  obtain th where th: "threads s u = Some th" using e by (auto simp: free_thread_def bind_Some_iff)
  show ?thesis
  proof (cases "t_parent th")
    case None
    then have "palloc_free_page u s = Some s'" using e th by (simp add: free_thread_def)
    then show ?thesis using inv_free_page [OF inv dead] by simp
  next
    case (Some q)
    define s1 where "s1 = upd_thread q (\<lambda>th. th\<lparr>t_children := remove1 u (t_children th)\<rparr>) s"
    have l: "life_ok s" using inv by (simp add: inv_def base_def)
    have le: "sched_le s s1" unfolding s1_def by (rule sched_le_upd) (simp_all add: l)
    have i1: "inv s1" by (rule inv_le [OF inv le])
    have d1: "tst s1 u = None \<or> tst s1 u = Some THREAD_DYING" using dead sched_le_tst [OF le] by simp
    have "s' = s \<or> palloc_free_page u s1 = Some s'"
      using e th Some by (auto simp: free_thread_def bind_Some_iff s1_def split: if_splits)
    then show ?thesis using inv inv_free_page [OF i1 d1] by auto
  qed
qed

lemma dead_frees:
  assumes "inv s" and "u \<in> op_frees p" and "p \<in> set (prog s t)"
  shows "tst s u = None \<or> tst s u = Some THREAD_DYING"
  using assms unfolding inv_def base_def free_ok_def by blast

lemma inv_run_op:
  assumes inv: "inv s" and r: "run_op s = Some f"
  shows "inv f"
proof -
  obtain p ps where p: "prog s (cur s) = p # ps" using r by (auto simp: run_op_def split: list.splits)
  define s0 where "s0 = s\<lparr>prog := (prog s)(cur s := ps)\<rparr>"
  obtain ops s' where e: "exec p s0 = Some (ops, s')" and f: "f = push_ops (cur s) ops s'"
    using r p by (auto simp: run_op_def bind_Some_iff s0_def)
  have core: "core s" using inv by (simp add: inv_def base_core)
  have pin: "p \<in> set (prog s (cur s))" by (simp add: p)
  show ?thesis
  proof (cases "plain p")
    case True
    have "sched_le s0 s'" by (rule plain_le [OF e True]) (simp add: s0_def base_life [OF inv])
    moreover have "ops_ok s p ps ops" by (rule ops_ok_plain [OF e True core pin s0_def])
    ultimately show ?thesis unfolding f by (intro inv_plain [OF inv p]) (simp_all add: s0_def)
  next
    case np: False
    have drop: "p \<noteq> IDLE_LOOP \<Longrightarrow> inv s0" unfolding s0_def by (rule inv_drop [OF inv p])
    show ?thesis
    proof (cases p)
      case (SEMA_DOWN q)
      have e': "sema_wait q (intr_on s) (s\<lparr>prog := (prog s)(cur s := ps), intr_on := False\<rparr>) = Some (ops, s')"
        using e SEMA_DOWN by (auto simp: exec.simps sema_down_def s0_def intr_disable_def split: if_splits)
      show ?thesis unfolding f by (rule inv_sema_wait [OF inv p _ e']) (simp add: SEMA_DOWN)
    next
      case (SEMA_WAIT q old)
      have e': "sema_wait q old (s\<lparr>prog := (prog s)(cur s := ps), intr_on := intr_on s\<rparr>) = Some (ops, s')"
        using e SEMA_WAIT by (simp add: exec.simps s0_def)
      show ?thesis unfolding f by (rule inv_sema_wait [OF inv p _ e']) (simp add: SEMA_WAIT)
    next
      case (SEMA_UP q)
      then have "sema_up q s0 = Some s'" "ops = []" using e by (simp_all add: exec.simps)
      then show ?thesis using inv_sema_up [OF drop] SEMA_UP by (simp add: f)
    next
      case YIELD
      have "thread_yield s0 = Some (ops, s')" using e YIELD by (simp add: exec.simps)
      moreover have "ops_ok s p ps [INTR_SET b]" for b by (rule ops_ok_harmless) (simp_all add: YIELD harmless_def)
      ultimately have "inv (push_ops (cur s) (ops @ []) s')"
        by (intro inv_yield [OF inv p]) (simp_all add: s0_def)
      then show ?thesis by (simp add: f)
    next
      case (CREATE name priority func)
      show ?thesis unfolding f
        by (rule inv_thread_create [OF inv, of name priority func ps]) (use e p CREATE in \<open>simp_all add: exec.simps s0_def\<close>)
    next
      case (LAUNCH u name func)
      then have ops: "ops = []" and l: "launch u name func s0 = Some s'" using e by (simp_all add: exec.simps)
      show ?thesis unfolding f ops
        by (rule inv_run_launch [OF inv, of u name func ps]) (use l p LAUNCH in \<open>simp_all add: s0_def\<close>)
    next
      case SET_IDLE
      then have "s' = s0\<lparr>idle_thread := Some (cur s)\<rparr>" "ops = []" using e by (auto simp: exec.simps bind_Some_iff s0_def)
      then show ?thesis using inv_set_idle [OF inv] p SET_IDLE by (simp add: f s0_def)
    next
      case IDLE_LOOP
      show ?thesis unfolding f by (rule inv_idle_loop [OF inv, of ps]) (use e p IDLE_LOOP in \<open>simp_all add: exec.simps s0_def\<close>)
    next
      case EXIT
      then have ops: "ops = []" and l: "exit_switch s0 = Some s'" using e by (simp_all add: exec.simps)
      show ?thesis unfolding f ops by (rule inv_exit [OF inv, of ps]) (use l p EXIT in \<open>simp_all add: s0_def\<close>)
    next
      case (FREE_PAGE u)
      then have ops: "ops = []" and l: "palloc_free_page u s0 = Some s'" using e by (simp_all add: exec.simps)
      have "tst s0 u = None \<or> tst s0 u = Some THREAD_DYING"
        using dead_frees [OF inv _ pin, of u] FREE_PAGE by (simp add: s0_def tst_def)
      then show ?thesis using inv_free_page [OF drop _ l] FREE_PAGE by (simp add: f ops)
    next
      case (FREE_THREAD u)
      then have ops: "ops = []" and l: "free_thread u s0 = Some s'" using e by (simp_all add: exec.simps)
      have "tst s0 u = None \<or> tst s0 u = Some THREAD_DYING"
        using dead_frees [OF inv _ pin, of u] FREE_THREAD by (simp add: s0_def tst_def)
      then show ?thesis using inv_free_thread [OF drop _ l] FREE_THREAD by (simp add: f ops)
    qed (use np in simp_all)
  qed
qed


lemma thread_tick_le: "thread_tick s = Some s' \<Longrightarrow> sched_le s s' \<and> page_next s' = page_next s"
  by (auto simp: thread_tick_def bind_Some_iff Let_def intr_yield_on_return_def sched_le_def tview_def waiters_def split: if_splits)

lemma inv_push:
  assumes inv: "inv s" and h: "\<forall>q\<in>set ops. harmless q"
    and i: "idle_prog (prog s (cur s)) \<Longrightarrow> \<forall>q\<in>set ops. idle_safe q"
  shows "inv (push_ops (cur s) ops s)"
proof -
  define f where "f = push_ops (cur s) ops s"
  have core: "core s" and run: "tst s (cur s) = Some THREAD_RUNNING" and r: "running_ok s"
    using inv by (simp_all add: inv_def base_core running_ok_def)
  obtain v: "tview s (cur s) = Some (THREAD_RUNNING, False, True)" by (rule inv_tview [OF inv])
  have fe: "idle_thread f = idle_thread s" "prog f = (prog s)(cur s := ops @ prog s (cur s))" "page_next s \<le> page_next f"
    by (simp_all add: f_def)
  have "core f"
  proof (rule core_update [OF core run _ _ _ fe])
    show "Some (cur s) \<notin> set (toks (prog s u))" for u by (rule no_token [OF core]) (simp add: run)
    have "toks ops = []" by (rule toks_harmless [OF h])
    then show "prog_ok s (prog s (cur s)) (ops @ prog s (cur s))"
      using h i SET_IDLE_toks [of ops] by (auto simp: prog_ok_def harmless_def idle_prog_def)
    show "tview f (cur s) = Some (THREAD_RUNNING, False, True)" by (simp add: f_def v)
  qed (simp_all add: f_def)
  moreover have "waiters_ok f" by (rule waiters_other [OF inv]) (simp_all add: f_def)
  moreover have "ready_ok f" using inv by (simp add: inv_def base_def ready_ok_def f_def)
  moreover have "running_ok f" by (rule running_eq [OF r]) (simp_all add: f_def)
  ultimately show ?thesis by (simp add: inv_def base_core f_def)
qed

lemma inv_interrupt:
  assumes inv: "inv s" and e: "interrupt s = Some f"
  shows "inv f"
proof -
  define s1 where "s1 = s\<lparr>intr_on := False, in_external_intr := True, yield_on_return := False, ticks := ticks s + 1\<rparr>"
  have l1: "sched_le s s1" "page_next s1 = page_next s" by (simp_all add: s1_def sched_le_def tview_def waiters_def)
  obtain s2 ops s' where s2: "thread_tick s1 = Some s2"
    and r: "(if yield_on_return s2 then thread_yield (s2\<lparr>in_external_intr := False\<rparr>) else Some ([], s2\<lparr>in_external_intr := False\<rparr>)) =
      Some (ops, s')"
    and f: "f = push_ops (cur s) (ops @ [INTR_SET True]) s'"
    using e by (auto simp: interrupt_def intr_handler_def timer_interrupt_def bind_Some_iff Let_def s1_def split: if_splits)
  define s3 where "s3 = s2\<lparr>in_external_intr := False\<rparr>"
  have l3: "sched_le s2 s3" "page_next s3 = page_next s2" unfolding s3_def by simp_all
  have le: "sched_le s s3" "page_next s3 = page_next s"
    using l1 thread_tick_le [OF s2] l3 sched_le_trans by (blast, simp)
  have c3: "cur s3 = cur s" using le(1) by (simp add: sched_le_def)
  show ?thesis
  proof (cases "yield_on_return s2")
    case False
    have "s' = s3" "ops = []" using r False by (simp_all add: s3_def)
    moreover have "inv (push_ops (cur s3) [INTR_SET True] s3)"
      by (rule inv_push [OF inv_le [OF inv le(1)]]) (simp_all add: harmless_def)
    ultimately show ?thesis by (simp add: f c3)
  next
    case True
    define sx where "sx = push_ops (cur s) [INTR_SET True] s"
    have ix: "inv sx" unfolding sx_def by (rule inv_push [OF inv]) (simp_all add: harmless_def)
    have y: "thread_yield s3 = Some (ops, s')" using r True by (simp add: s3_def)
    have px: "prog sx (cur sx) = INTR_SET True # prog s (cur s)" by (simp add: sx_def)
    have "sx\<lparr>prog := (prog sx)(cur sx := prog s (cur s))\<rparr> = s" by (simp add: sx_def push_ops_def)
    moreover have "ops_ok sx (INTR_SET True) (prog s (cur s)) [INTR_SET b, INTR_SET True]" for b
      by (rule ops_ok_harmless) (simp_all add: harmless_def)
    ultimately have "inv (push_ops (cur sx) (ops @ [INTR_SET True]) s')"
      using le y by (intro inv_yield [OF ix px, of _ s3]) (simp_all add: sx_def)
    then show ?thesis by (simp add: f sx_def)
  qed
qed

lemma harmless_code:
  "\<forall>q\<in>set (code_of t c). harmless q"
  by (cases c) (simp_all add: harmless_def lock_acquire_def lock_try_acquire_def lock_release_def cond_wait_def cond_signal_def
      cond_broadcast_def thread_exit_def process_exit_def exec_process_def)

lemma inv_begin_call:
  assumes inv: "inv s" and n: "prog s (cur s) = []"
  shows "inv (begin_call c s)"
proof (cases "\<exists>st. c = C_EXIT st")
  case False
  then have "begin_call c s = push_ops (cur s) (code_of (cur s) c) s" by (cases c) (simp_all add: begin_call_def)
  moreover have "inv (push_ops (cur s) (code_of (cur s) c) s)"
    by (rule inv_push [OF inv harmless_code]) (simp add: n idle_prog_def)
  ultimately show ?thesis by simp
next
  case True
  then obtain st where c: "c = C_EXIT st" ..
  define s1 where "s1 = upd_thread (cur s) (\<lambda>th. th\<lparr>t_exit_status := st\<rparr>) s"
  have "sched_le s s1" unfolding s1_def using inv by (intro sched_le_upd) (simp_all add: inv_def base_def)
  then have i1: "inv s1" by (rule inv_le [OF inv])
  have "inv (push_ops (cur s1) thread_exit s1)"
    by (rule inv_push [OF i1]) (use harmless_code [of 0 "C_EXIT 0"] in \<open>simp, simp add: s1_def n idle_prog_def\<close>)
  then show ?thesis by (simp add: c begin_call_def s1_def)
qed

lemma inv_init:
  assumes "thread_init ok f = Some s"
  shows "inv s"
proof -
  have s: "threads s = (\<lambda>_. None)(0 \<mapsto> (blank_thread ''main'' PRI_DEFAULT)\<lparr>t_status := THREAD_RUNNING\<rparr>)" "cur s = 0"
    "ready_list s = []" "idle_thread s = None" "page_next s = 1" "semas s = static_semas"
    "prog s = (\<lambda>_. [])(0 := allocate_tid 0 @ thread_start)"
    using assms
    by (auto simp: thread_init_def init_thread_def bind_Some_iff Let_def cond_init_def set_status_def upd_thread_def fun_eq_iff
        split: if_splits)
  have st: "tst s t = (if t = 0 then Some THREAD_RUNNING else None)"
    "tview s t = (if t = 0 then Some (THREAD_RUNNING, False, True) else None)" for t
    by (simp_all add: tst_def tview_def s blank_thread_def)
  have w: "waiters s r = []" for r by (simp add: waiters_def s static_semas_def)
  have tk: "toks (prog s t) = (if t = 0 then [None] else [])" for t
    by (simp add: s allocate_tid_def lock_acquire_def lock_release_def thread_start_def idle_def)
  have fn: "op_func q \<in> start_funcs" "op_frees q = {}" "q \<noteq> SET_IDLE" if "q \<in> set (prog s t)" for q t
    using that by (auto simp: s allocate_tid_def lock_acquire_def lock_release_def thread_start_def start_funcs_def split: if_splits)
  have "ready_ok s" by (simp add: ready_ok_def s st)
  moreover have "waiters_ok s" by (simp add: waiters_ok_def w)
  moreover have "life_ok s" by (simp add: life_ok_def st)
  moreover have "free_ok s" using fn by (auto simp: free_ok_def)
  moreover have "token_ok s" using fn by (auto simp: token_ok_def tk s(4))
  moreover have "idle_ok s"
  proof -
    have "SET_IDLE \<notin> set (prog s i)" for i using fn(3) by blast
    then show ?thesis by (simp add: idle_ok_def s(4))
  qed
  moreover have "fresh_ok s" by (simp add: fresh_ok_def s)
  moreover have "running_ok s" by (simp add: running_ok_def st s)
  ultimately show ?thesis by (simp add: inv_def base_def)
qed

lemma inv_kstep: "kstep s s' \<Longrightarrow> inv s \<Longrightarrow> inv s'"
  by (erule kstep_cases) (auto intro: inv_run_op inv_interrupt inv_begin_call)

theorem reachable_inv: "reachable s \<Longrightarrow> inv s"
  by (induction rule: reachable.induct) (auto intro: inv_init inv_kstep)


section \<open>The run queue\<close>

text \<open>A file system without a disk and a kernel that has just started, for the examples.\<close>

definition no_fs :: fs where
  "no_fs = \<lparr>disk = (\<lambda>_. []), disk_size = 0, mem_ok = (\<lambda>_. True), mem_next = 0, open_inodes = [], inodes = (\<lambda>_. None),
     ofiles = (\<lambda>_. None), free_map = \<lparr>bit_cnt = 0, bits = []\<rparr>, free_map_file = None\<rparr>"

definition boot :: kern where
  "boot = the (thread_init (\<lambda>_. True) no_fs)"

lemma boot: "thread_init (\<lambda>_. True) no_fs = Some boot"
  by (simp add: boot_def thread_init_def init_thread_def PRI_MIN_def PRI_MAX_def PRI_DEFAULT_def)

text \<open>
  C1. In every reachable state exactly one thread has the status RUNNING, the current one. The ready list
  has no duplicates and holds exactly the READY threads other than the idle thread, and the waiting
  lists of the semaphores have no duplicates, hold only BLOCKED threads and are disjoint, as the
  two uses of the list element of a thread require.
\<close>

theorem run_queue_invariant:
  assumes "reachable s"
  shows "(\<forall>t. map_option t_status (threads s t) = Some THREAD_RUNNING \<longleftrightarrow> t = cur s) \<and>
    distinct (ready_list s) \<and>
    (\<forall>t. t \<in> set (ready_list s) \<longleftrightarrow>
       map_option t_status (threads s t) = Some THREAD_READY \<and> idle_thread s \<noteq> Some t) \<and>
    (\<forall>r. distinct (s_waiters (semas s r)) \<and>
       (\<forall>t\<in>set (s_waiters (semas s r)). map_option t_status (threads s t) = Some THREAD_BLOCKED)) \<and>
    (\<forall>r q. r \<noteq> q \<longrightarrow> set (s_waiters (semas s r)) \<inter> set (s_waiters (semas s q)) = {})"
proof (intro conjI allI impI)
  have inv: "inv s" by (rule reachable_inv [OF assms])
  have wo: "waiters_ok s" and ro: "ready_ok s" and run: "running_ok s" using inv by (simp_all add: inv_def base_def)
  fix t r q
  show "map_option t_status (threads s t) = Some THREAD_RUNNING \<longleftrightarrow> t = cur s"
    using run unfolding running_ok_def tst_def by blast
  show "distinct (ready_list s)" using ro by (simp add: ready_ok_def)
  show "t \<in> set (ready_list s) \<longleftrightarrow>
      map_option t_status (threads s t) = Some THREAD_READY \<and> idle_thread s \<noteq> Some t"
    using ro unfolding ready_ok_def tst_def by blast
  show "distinct (s_waiters (semas s r))" using wo unfolding waiters_ok_def waiters_def by blast
  show "\<forall>t\<in>set (s_waiters (semas s r)). map_option t_status (threads s t) = Some THREAD_BLOCKED"
    using wo unfolding waiters_ok_def waiters_def tst_def by blast
  show "set (s_waiters (semas s r)) \<inter> set (s_waiters (semas s q)) = {}" if rq: "r \<noteq> q"
  proof (rule ccontr)
    assume "set (s_waiters (semas s r)) \<inter> set (s_waiters (semas s q)) \<noteq> {}"
    then obtain u where "u \<in> set (waiters s r)" "u \<in> set (waiters s q)" by (auto simp: waiters_def)
    then obtain a ps b qs where "prog s u = SEMA_WAIT r a # ps" "prog s u = SEMA_WAIT q b # qs"
      using wo unfolding waiters_ok_def by blast
    with rq show False by simp
  qed
qed

lemma boot_simps: "cur boot = 0" "ready_list boot = []" "idle_thread boot = None"
  by (simp_all add: boot_def thread_init_def init_thread_def PRI_MIN_def PRI_MAX_def PRI_DEFAULT_def Let_def cond_init_def
      set_status_def upd_thread_def)

theorem run_queue_invariant_witness:
  "(\<forall>t. map_option t_status (threads boot t) = Some THREAD_RUNNING \<longleftrightarrow> t = 0) \<and>
   (\<forall>t. map_option t_status (threads boot t) \<noteq> Some THREAD_READY)"
proof -
  have r: "reachable boot" by (rule reachable.init [OF boot])
  have "map_option t_status (threads boot t) = Some THREAD_RUNNING \<longleftrightarrow> t = cur boot" for t
    using run_queue_invariant [OF r] by blast
  moreover have "t \<in> set (ready_list boot) \<longleftrightarrow>
      map_option t_status (threads boot t) = Some THREAD_READY \<and> idle_thread boot \<noteq> Some t" for t
    using run_queue_invariant [OF r] by blast
  ultimately show ?thesis by (simp add: boot_simps)
qed

end
