(* ===== verification/Threads_Locks.thy ===== *)
theory Threads_Locks
  imports Threads_Props
begin

text \<open>
  Locks and semaphores under any interleaving: a static lock has one owner at a time, and a thread that
  waits on a semaphore is not forgotten while the semaphore has units to give.
\<close>

section \<open>The shape of programs\<close>

text \<open>
  Operations that can come in front of an interrupted program: the return from the interrupt and the
  freeing of a dead thread.
\<close>

fun pre_safe :: "op \<Rightarrow> bool" where
  "pre_safe (INTR_SET _) = True"
| "pre_safe (RELEASE _) = True"
| "pre_safe (RELEASE_CHILDREN _ _) = True"
| "pre_safe (CLOSE_ALL _) = True"
| "pre_safe (FREE_PAGE _) = True"
| "pre_safe (FREE_THREAD _) = True"
| "pre_safe FAULT = True"
| "pre_safe _ = False"

definition body :: "op list \<Rightarrow> op list" where
  "body ps = dropWhile pre_safe ps"

lemma body_simps [simp]:
  "body [] = []" "body (p # ps) = (if pre_safe p then body ps else p # ps)"
  by (simp_all add: body_def)

lemma body_append: "\<forall>p\<in>set xs. pre_safe p \<Longrightarrow> body (xs @ ps) = body ps"
  by (induction xs) auto

text \<open>What an operation may do to the programs of threads.\<close>

definition progs_follow :: "op \<Rightarrow> kern \<Rightarrow> kern \<Rightarrow> bool" where
  "progs_follow p s s' \<longleftrightarrow> (\<forall>t. prog s' t = prog s t \<or> (\<exists>c. t \<noteq> cur s \<and> prog s' t = RELEASE c # prog s t) \<or>
     (\<exists>name func. p = LAUNCH t name func \<and> prog s' t = kernel_thread func))"

lemma progs_follow_same: "prog s' = prog s \<Longrightarrow> progs_follow p s s'"
  by (simp add: progs_follow_def)

lemma progs_follow_switched: "switched s n s' \<Longrightarrow> progs_follow p s s'"
  unfolding switched_def progs_follow_def by (metis fun_upd_apply)

lemma progs_follow_schedule: "schedule s = Some s' \<Longrightarrow> prog s = prog s0 \<Longrightarrow> cur s = cur s0 \<Longrightarrow> progs_follow p s0 s'"
  using schedule_switched [of s s'] progs_follow_switched [of s _ s' p] by (auto simp: progs_follow_def)

lemma progs_follow_block:
  "thread_block s = Some s' \<Longrightarrow> prog s = prog s0 \<Longrightarrow> cur s = cur s0 \<Longrightarrow> progs_follow p s0 s'"
  using thread_block_schedule [of s s'] progs_follow_schedule by auto

lemma intr_disable_simps [simp]: "prog (intr_disable s) = prog s" "semas (intr_disable s) = semas s" "cur (intr_disable s) = cur s"
  "holder (intr_disable s) = holder s" "threads (intr_disable s) = threads s" "conds (intr_disable s) = conds s"
  by (simp_all add: intr_disable_def)

lemma set_sema_simps [simp]: "prog (set_sema r x s) = prog s" "cur (set_sema r x s) = cur s" "threads (set_sema r x s) = threads s"
  "holder (set_sema r x s) = holder s" "semas (set_sema r x s) = (semas s)(r := x)"
  by (simp_all add: set_sema_def)

lemma progs_follow_yield:
  "thread_yield s = Some (ops, s') \<Longrightarrow> progs_follow p s s'"
  by (auto simp: thread_yield_def bind_Some_iff Let_def split: if_splits intro: progs_follow_schedule)

lemma progs_follow_wait:
  assumes "sema_wait r old s = Some (ops, s')" and "prog s = prog s0" and "cur s = cur s0"
  shows "progs_follow p s0 s'"
proof (cases "s_value (semas s r) = 0")
  case True
  then show ?thesis using assms by (auto simp: sema_wait_def bind_Some_iff intro: progs_follow_block)
next
  case False
  then obtain s1 where "s1 = set_sema r ((semas s r)\<lparr>s_value := s_value (semas s r) - 1\<rparr>) s" "intr_set_level old s1 = Some s'"
    using assms(1) by (auto simp: sema_wait_def bind_Some_iff)
  then show ?thesis using intr_set_level_eq [of old s1 s'] assms(2) by (intro progs_follow_same) simp
qed

lemma thread_create_prog: "thread_create name priority func s = Some (ops, s') \<Longrightarrow> prog s' = prog s"
  by (auto simp: thread_create_def Let_def bind_Some_iff init_thread_def cond_init_def set_ret_def split: if_splits)

lemma alloc_frame_eq: "alloc_frame t k s = Some s' \<Longrightarrow> s' = upd_thread t (\<lambda>th. th\<lparr>t_stack := t_stack th - k\<rparr>) s"
  by (auto simp: alloc_frame_def split: if_splits)

lemma link_child_eq:
  "link_child t name s = Some s' \<Longrightarrow> prog s' = prog s \<and> semas s' = semas s \<and> holder s' = holder s \<and> cur s' = cur s \<and>
     conds s' = conds s \<and> tview s' = tview s"
  by (auto simp: link_child_def bind_Some_iff Let_def tview_def upd_thread_def fun_eq_iff option.map_comp o_def split: if_splits)

lemma launch_eq:
  assumes "launch t name func s = Some s'"
  shows "prog s' = (prog s)(t := kernel_thread func) \<and> semas s' = semas s \<and> holder s' = holder s \<and> cur s' = cur s \<and>
     conds s' = conds s \<and> (\<forall>u. tview s' u = (if u = t then map_option (\<lambda>(_, e). (THREAD_READY, e)) (tview s t) else tview s u))"
proof -
  obtain sa sb sc s1 s2 where a: "alloc_frame t 12 s = Some sa" "alloc_frame t 4 sa = Some sb" "alloc_frame t 28 sb = Some sc"
    and s1: "s1 = sc\<lparr>prog := (prog sc)(t := kernel_thread func)\<rparr>" and s2: "link_child t name s1 = Some s2"
    and s3: "thread_unblock t s2 = Some s'"
    using assms by (auto simp: launch_def start_frames_def bind_Some_iff)
  note fr = alloc_frame_eq [OF a(1)] alloc_frame_eq [OF a(2)] alloc_frame_eq [OF a(3)]
  have tv: "tview sc u = tview s u" for u by (simp add: fr tview_def upd_thread_def option.map_comp o_def)
  have "tview s1 = tview sc" by (simp add: tview_def s1 fun_eq_iff)
  then have t1: "tview s1 = tview s" by (simp add: tv fun_eq_iff)
  have s': "s' = set_status t THREAD_READY (s2\<lparr>ready_list := ready_list s2 @ [t]\<rparr>)" using thread_unblock_eq [OF s3] by simp
  note l = link_child_eq [OF s2]
  have "tview s' u = (if u = t then map_option (\<lambda>(_, e). (THREAD_READY, e)) (tview s t) else tview s u)" for u
  proof -
    have "tview (s2\<lparr>ready_list := ready_list s2 @ [t]\<rparr>) = tview s" using l t1 by (simp add: tview_def fun_eq_iff)
    then show ?thesis unfolding s' tview_set_status by simp
  qed
  then show ?thesis using l by (simp add: s' s1 fr set_status_def)
qed

lemma progs_follow_exec:
  assumes e: "exec p s = Some (ops, s')" and l: "life_ok s"
  shows "progs_follow p s s'"
proof (cases "plain p")
  case True
  then show ?thesis using plain_le [OF e _ l] by (intro progs_follow_same) (simp add: sched_le_def)
next
  case False
  show ?thesis
  proof (cases p)
    case (SEMA_DOWN r)
    then show ?thesis using e by (auto simp: exec.simps sema_down_def split: if_splits intro: progs_follow_wait)
  next
    case (SEMA_WAIT r old)
    then show ?thesis using e by (auto simp: exec.simps intro: progs_follow_wait)
  next
    case (SEMA_UP r)
    then have "sema_up r s = Some s'" using e by (simp add: exec.simps)
    then have "prog s' = prog s"
      by (auto simp: sema_up_def bind_Some_iff dest!: thread_unblock_eq split: list.splits)
    then show ?thesis by (rule progs_follow_same)
  next
    case YIELD
    then show ?thesis using e by (auto simp: exec.simps intro: progs_follow_yield)
  next
    case (CREATE name priority func)
    then show ?thesis using e thread_create_prog by (auto simp: exec.simps intro: progs_follow_same)
  next
    case (LAUNCH u name func)
    then have "launch u name func s = Some s'" using e by (simp add: exec.simps)
    then show ?thesis using launch_eq [of u name func s s'] LAUNCH by (simp add: progs_follow_def)
  next
    case SET_IDLE
    then show ?thesis using e by (auto simp: exec.simps bind_Some_iff intro: progs_follow_same)
  next
    case IDLE_LOOP
    then show ?thesis using e by (auto simp: exec.simps idle_loop_def bind_Some_iff intro: progs_follow_block)
  next
    case EXIT
    then show ?thesis using e
      by (auto simp: exec.simps exit_switch_def bind_Some_iff Let_def split: if_splits intro: progs_follow_schedule)
  next
    case (FREE_PAGE u)
    then show ?thesis using e by (auto simp: exec.simps palloc_free_page_def bind_Some_iff intro: progs_follow_same)
  next
    case (FREE_THREAD u)
    then have "prog s' = prog s"
      using e by (auto simp: exec.simps free_thread_def palloc_free_page_def bind_Some_iff split: option.splits if_splits)
    then show ?thesis by (rule progs_follow_same)
  qed (use False in simp_all)
qed


section \<open>The shape of programs around a lock\<close>

text \<open>
  An acquisition of \<open>l\<close> is followed by \<open>SET_HOLDER l\<close> and the clearing of the holder by the increment of the
  semaphore; neither of the two followers occurs elsewhere.
\<close>

fun takes :: "lref \<Rightarrow> op \<Rightarrow> bool" where
  "takes l (SEMA_DOWN r) = (r = LOCK_SEMA l)"
| "takes l (SEMA_WAIT r old) = (r = LOCK_SEMA l)"
| "takes l _ = False"

fun follower :: "lref \<Rightarrow> op \<Rightarrow> bool" where
  "follower l (SET_HOLDER k) = (k = l)"
| "follower l (SEMA_UP r) = (r = LOCK_SEMA l)"
| "follower l _ = False"

fun stray :: "lref \<Rightarrow> op \<Rightarrow> bool" where
  "stray l (SET_HOLDER k) = (k = l)"
| "stray l (SEMA_UP r) = (r = LOCK_SEMA l)"
| "stray l (LOCK_INIT k) = (k = l)"
| "stray l (SEMA_INIT r v) = (r = LOCK_SEMA l)"
| "stray l _ = False"

lemma follower_stray: "follower l p \<Longrightarrow> stray l p \<and> \<not> takes l p \<and> p \<noteq> CLEAR_HOLDER l \<and> \<not> pre_safe p"
  by (cases p) auto

fun follow :: "lref \<Rightarrow> op option \<Rightarrow> op list \<Rightarrow> bool" where
  "follow l None [] = True"
| "follow l (Some q) [] = False"
| "follow l (Some q) (p # ps) = (p = q \<and> follow l None ps)"
| "follow l None (p # ps) =
     (if takes l p then follow l (Some (SET_HOLDER l)) ps
      else if p = CLEAR_HOLDER l then follow l (Some (SEMA_UP (LOCK_SEMA l))) ps
      else \<not> stray l p \<and> follow l None ps)"

text \<open>The follower a thread is about to run, if any.\<close>

definition pending :: "lref \<Rightarrow> op list \<Rightarrow> op option" where
  "pending l ps = (case body ps of [] \<Rightarrow> None | p # _ \<Rightarrow> if follower l p then Some p else None)"

definition lock_prog :: "lref \<Rightarrow> op list \<Rightarrow> bool" where
  "lock_prog l ps \<longleftrightarrow> follow l (pending l ps) (body ps)"

lemma follow_append: "follow l e xs \<Longrightarrow> follow l e (xs @ ys) \<longleftrightarrow> follow l None ys"
  by (induction l e xs rule: follow.induct) auto

lemma pre_safe_plain: "pre_safe p \<Longrightarrow> \<not> takes l p \<and> p \<noteq> CLEAR_HOLDER l \<and> \<not> stray l p"
  by (cases p) auto

lemma follow_body: "follow l None ps \<Longrightarrow> follow l None (body ps)"
  by (induction ps) (auto split: if_splits dest: pre_safe_plain)

lemma follow_pending: "follow l None ps \<Longrightarrow> pending l ps = None"
proof (induction ps)
  case (Cons p ps)
  show ?case
  proof (cases "pre_safe p")
    case True
    then have "follow l None ps" using Cons.prems pre_safe_plain [OF True, of l] by simp
    then show ?thesis using Cons.IH True by (simp add: pending_def)
  next
    case False
    have "\<not> follower l p" using Cons.prems follower_stray [of l p] by (auto split: if_splits)
    then show ?thesis using False by (simp add: pending_def)
  qed
qed (simp add: pending_def)

lemma follow_lock_prog: "follow l None ps \<Longrightarrow> lock_prog l ps \<and> pending l ps = None"
  by (simp add: lock_prog_def follow_pending follow_body)

lemma pending_pre: "\<forall>p\<in>set xs. pre_safe p \<Longrightarrow> pending l (xs @ ps) = pending l ps"
  by (simp add: pending_def body_append)

lemma lock_prog_pre: "\<forall>p\<in>set xs. pre_safe p \<Longrightarrow> lock_prog l (xs @ ps) = lock_prog l ps"
  by (simp add: lock_prog_def body_append pending_pre)

lemma pending_Cons_pre [simp]: "pre_safe p \<Longrightarrow> pending l (p # ps) = pending l ps \<and> lock_prog l (p # ps) = lock_prog l ps"
  using pending_pre [of "[p]"] lock_prog_pre [of "[p]"] by simp

lemma lock_prog_Cons:
  "\<not> pre_safe p \<Longrightarrow> \<not> follower l p \<Longrightarrow> lock_prog l (p # ps) \<longleftrightarrow> follow l None (p # ps)"
  by (simp add: lock_prog_def pending_def)

lemma lock_prog_follower:
  "follower l p \<Longrightarrow> lock_prog l (p # ps) \<longleftrightarrow> follow l None ps"
  using follower_stray [of l p] by (auto simp: lock_prog_def pending_def)

lemma pending_follower: "follower l p \<Longrightarrow> pending l (p # ps) = Some p"
  using follower_stray [of l p] by (auto simp: pending_def)

text \<open>Operations that deal with the lock itself.\<close>

definition touches :: "lref \<Rightarrow> op \<Rightarrow> bool" where
  "touches l p \<longleftrightarrow> takes l p \<or> stray l p \<or> p = CLEAR_HOLDER l \<or> p = TRY_LOCK l"

lemma follow_lists [simp]:
  "follow (LOCK n) None (lock_acquire k)" "follow (LOCK n) None (lock_release k)"
  "follow (LOCK n) None (cond_signal c k)" "follow (LOCK n) None (cond_wait t c k)"
  "follow (LOCK n) None thread_exit" "follow (LOCK n) None (allocate_tid t)"
  by (auto simp: lock_acquire_def lock_release_def cond_signal_def cond_wait_def thread_exit_def process_exit_def
      allocate_tid_def TID_LOCK_def)

lemma follow_harmless:
  "\<not> touches (LOCK n) p \<Longrightarrow> follow (LOCK n) None (p # ps) = follow (LOCK n) None ps"
  by (simp add: touches_def)

lemma follow_app [simp]: "follow l None xs \<Longrightarrow> follow l None (xs @ ys) = follow l None ys"
  by (rule follow_append)

lemma exec_follow:
  assumes e: "exec p s = Some (ops, s')" and nt: "\<not> touches (LOCK n) p"
  shows "follow (LOCK n) None ops"
proof -
  show ?thesis
  proof (cases p)
    case (SEMA_DOWN r)
    then show ?thesis using e nt
      by (auto simp: exec.simps sema_down_def sema_wait_def bind_Some_iff touches_def split: if_splits)
  next
    case (SEMA_WAIT r old)
    then show ?thesis using e nt
      by (auto simp: exec.simps sema_wait_def bind_Some_iff touches_def split: if_splits)
  next
    case (TRY_LOCK k)
    then show ?thesis using e nt
      by (auto simp: exec.simps touches_def split: prod.splits bool.splits)
  next
    case (COND_POP c)
    then show ?thesis using e by (auto simp: exec.simps split: list.splits)
  next
    case (COND_ALL c k)
    then show ?thesis using e by (auto simp: exec.simps split: if_splits)
  next
    case YIELD
    then show ?thesis using e by (auto simp: exec.simps thread_yield_def bind_Some_iff Let_def split: if_splits)
  next
    case (SLEEP i)
    then show ?thesis using e by (auto simp: exec.simps timer_sleep_def split: if_splits)
  next
    case (SLEEP_LOOP i j)
    then show ?thesis using e by (auto simp: exec.simps sleep_loop_def split: if_splits)
  next
    case (CREATE name priority func)
    then show ?thesis using e by (auto simp: exec.simps thread_create_def bind_Some_iff Let_def split: if_splits)
  next
    case IDLE_LOOP
    then show ?thesis using e by (auto simp: exec.simps idle_loop_def bind_Some_iff)
  next
    case EXIT_SIGNAL
    then show ?thesis using e
      by (auto simp: exec.simps exit_signal_def bind_Some_iff Let_def split: option.splits)
  next
    case (RELEASE t)
    then show ?thesis using e by (auto simp: exec.simps release_thread_resources_def bind_Some_iff)
  next
    case (RELEASE_CHILDREN t cs)
    then show ?thesis using e
      by (auto simp: exec.simps release_children_def bind_Some_iff split: list.splits if_splits)
  next
    case (CLOSE_ALL t)
    then obtain th where "threads s t = Some th" and ops: "ops = (case t_opened_files th of [] \<Rightarrow> []
          | (fd, k) # fs \<Rightarrow> lock_acquire FILE_OP_LOCK @ [CLOSE_FILE k] @ lock_release FILE_OP_LOCK @ [DROP_FILE t, FAULT])"
      using e by (auto simp: exec.simps close_all_opened_files_def bind_Some_iff)
    then show ?thesis by (cases "t_opened_files th") auto
  next
    case (WAIT_CHILD i)
    then show ?thesis using e by (auto simp: exec.simps process_wait_def bind_Some_iff split: option.splits if_splits)
  next
    case (WAIT_LOOP c)
    then show ?thesis using e by (auto simp: exec.simps wait_loop_def bind_Some_iff Let_def split: if_splits)
  next
    case (PROCESS_EXECUTE name r)
    then show ?thesis using e by (auto simp: exec.simps process_execute_def Let_def split: if_splits)
  next
    case (START_PROCESS r)
    then show ?thesis using e by (auto simp: exec.simps start_process_def split: if_splits)
  next
    case EXEC_FIND
    then show ?thesis using e by (auto simp: exec.simps exec_find_def bind_Some_iff Let_def)
  next
    case (LOAD_LOOP t i)
    then show ?thesis using e by (cases t) (auto simp: exec.simps load_loop_def bind_Some_iff Let_def split: if_splits)
  qed (use e in \<open>auto simp: exec.simps bind_Some_iff split: if_splits\<close>)
qed


text \<open>Freeing a dead thread without open files only needs operations of the same kind.\<close>

lemma exec_pre_safe:
  assumes e: "exec p s = Some (ops, s')" and p: "pre_safe p" and l: "life_ok s"
  shows "\<forall>q\<in>set ops. pre_safe q"
proof (cases p)
  case (CLOSE_ALL t)
  then obtain th where th: "threads s t = Some th" and ops: "ops = (case t_opened_files th of [] \<Rightarrow> []
      | (fd, k) # fs \<Rightarrow> lock_acquire FILE_OP_LOCK @ [CLOSE_FILE k] @ lock_release FILE_OP_LOCK @ [DROP_FILE t, FAULT])"
    using e by (auto simp: exec.simps close_all_opened_files_def bind_Some_iff)
  have "tview s t = Some (t_status th, t_is_thread_exited th, t_opened_files th = [])" using th by (simp add: tview_def)
  then have "t_opened_files th = []" using l unfolding life_ok_def by blast
  then show ?thesis by (simp add: ops)
qed (use e p in \<open>auto simp: exec.simps release_thread_resources_def release_children_def bind_Some_iff split: list.splits if_splits\<close>)

text \<open>Only the operations that deal with the lock change its semaphore or its holder.\<close>

lemma schedule_sema: "schedule s = Some s' \<Longrightarrow> semas s' = semas s \<and> holder s' = holder s \<and> conds s' = conds s"
  using schedule_switched [of s s'] by (auto simp: switched_def)

lemma block_sema: "thread_block s = Some s' \<Longrightarrow> semas s' = semas s \<and> holder s' = holder s \<and> conds s' = conds s"
  using thread_block_schedule [of s s'] schedule_sema [of "set_status (cur s) THREAD_BLOCKED s" s'] by (simp add: set_status_def)

lemma yield_sema: "thread_yield s = Some (ops, s') \<Longrightarrow> semas s' = semas s \<and> holder s' = holder s \<and> conds s' = conds s"
  by (auto simp: thread_yield_def bind_Some_iff Let_def set_status_def split: if_splits dest!: schedule_sema)

definition value_of :: "kern \<Rightarrow> sref \<Rightarrow> u32" where
  "value_of s r = s_value (semas s r)"

text \<open>Operations that change a semaphore.\<close>

fun op_sema :: "op \<Rightarrow> sref set" where
  "op_sema (SEMA_INIT r v) = {r}"
| "op_sema (SEMA_DOWN r) = {r}"
| "op_sema (SEMA_WAIT r old) = {r}"
| "op_sema (SEMA_UP r) = {r}"
| "op_sema (LOCK_INIT k) = {LOCK_SEMA k}"
| "op_sema (TRY_LOCK k) = {LOCK_SEMA k}"
| "op_sema _ = {}"

lemma sema_wait_other:
  assumes e: "sema_wait q old s = Some (ops, s')" and "r \<noteq> q"
  shows "semas s' r = semas s r \<and> holder s' = holder s"
proof (cases "s_value (semas s q) = 0")
  case True
  then have "thread_block (set_sema q ((semas s q)\<lparr>s_waiters := s_waiters (semas s q) @ [cur s]\<rparr>) s) = Some s'"
    using e by (auto simp: sema_wait_def bind_Some_iff)
  from block_sema [OF this] show ?thesis using assms(2) by simp
next
  case False
  then have "intr_set_level old (set_sema q ((semas s q)\<lparr>s_value := s_value (semas s q) - 1\<rparr>) s) = Some s'"
    using e by (auto simp: sema_wait_def bind_Some_iff)
  from intr_set_level_eq [OF this] show ?thesis using assms(2) by simp
qed

lemma sema_up_sema:
  assumes "sema_up r s = Some s'"
  shows "semas s' = (semas s)(r := \<lparr>s_value = s_value (semas s r) + 1, s_waiters = tl (s_waiters (semas s r))\<rparr>) \<and> holder s' = holder s"
  using assms by (cases "s_waiters (semas s r)") (auto simp: sema_up_def bind_Some_iff set_status_def dest!: thread_unblock_eq)

lemma exec_sema_other:
  assumes e: "exec p s = Some (ops, s')" and r: "r \<notin> op_sema p"
  shows "semas s' r = semas s r"
proof (cases p)
  case (SEMA_DOWN q)
  then show ?thesis using e r sema_wait_other [of q "intr_on s" "intr_disable s" ops s' r]
    by (auto simp: exec.simps sema_down_def split: if_splits)
next
  case (SEMA_WAIT q old)
  then show ?thesis using e r sema_wait_other [of q old s ops s' r] by (auto simp: exec.simps)
next
  case (SEMA_UP q)
  then show ?thesis using e r sema_up_sema [of q s s'] by (simp add: exec.simps)
next
  case (TRY_LOCK k)
  then show ?thesis using e r
    by (auto simp: exec.simps sema_try_down_def set_ret_def split: if_splits)
next
  case YIELD
  then show ?thesis using e yield_sema by (auto simp: exec.simps)
next
  case (CREATE name priority func)
  then show ?thesis using e
    by (auto simp: exec.simps thread_create_def Let_def bind_Some_iff init_thread_def cond_init_def set_ret_def split: if_splits)
next
  case (LAUNCH t name func)
  then show ?thesis using e launch_eq [of t name func s s'] by (simp add: exec.simps)
next
  case IDLE_LOOP
  then show ?thesis using e by (auto simp: exec.simps idle_loop_def bind_Some_iff dest!: block_sema)
next
  case EXIT
  then show ?thesis using e by (auto simp: exec.simps exit_switch_def bind_Some_iff Let_def split: if_splits dest!: schedule_sema)
qed (use e r in \<open>auto simp: exec.simps bind_Some_iff sema_init_def lock_init_def set_ret_def next_tid_to_def
    free_space_def release_children_def palloc_free_page_def free_thread_def process_wait_def wait_result_def
    process_execute_def set_loaded_def exec_result_def Let_def dest!: intr_set_level_eq
    split: if_splits list.splits option.splits\<close>)

lemma exec_holder:
  assumes e: "exec p s = Some (ops, s')" and r: "p \<notin> {LOCK_INIT l, SET_HOLDER l, CLEAR_HOLDER l}"
  shows "holder s' l = holder s l"
proof (cases p)
  case (SEMA_DOWN q)
  then show ?thesis using e by (cases "s_value (semas s q) = 0")
    (auto simp: exec.simps sema_down_def sema_wait_def bind_Some_iff split: if_splits dest!: block_sema intr_set_level_eq)
next
  case (SEMA_WAIT q old)
  then show ?thesis using e by (cases "s_value (semas s q) = 0")
    (auto simp: exec.simps sema_wait_def bind_Some_iff dest!: block_sema intr_set_level_eq)
next
  case (SEMA_UP q)
  then show ?thesis using e sema_up_sema [of q s s'] by (simp add: exec.simps)
next
  case (TRY_LOCK k)
  then show ?thesis using e
    by (auto simp: exec.simps sema_try_down_def set_ret_def split: if_splits)
next
  case YIELD
  then show ?thesis using e yield_sema by (auto simp: exec.simps)
next
  case (CREATE name priority func)
  then show ?thesis using e
    by (auto simp: exec.simps thread_create_def Let_def bind_Some_iff init_thread_def cond_init_def set_ret_def split: if_splits)
next
  case (LAUNCH t name func)
  then show ?thesis using e launch_eq [of t name func s s'] by (simp add: exec.simps)
next
  case IDLE_LOOP
  then show ?thesis using e by (auto simp: exec.simps idle_loop_def bind_Some_iff dest!: block_sema)
next
  case EXIT
  then show ?thesis using e by (auto simp: exec.simps exit_switch_def bind_Some_iff Let_def split: if_splits dest!: schedule_sema)
qed (use e r in \<open>auto simp: exec.simps bind_Some_iff sema_init_def lock_init_def set_ret_def next_tid_to_def
    free_space_def release_children_def palloc_free_page_def free_thread_def process_wait_def wait_result_def
    process_execute_def set_loaded_def exec_result_def Let_def dest!: intr_set_level_eq
    split: if_splits list.splits option.splits\<close>)


section \<open>Mutual exclusion\<close>

definition crit :: "lref \<Rightarrow> kern \<Rightarrow> nat \<Rightarrow> bool" where
  "crit l s t \<longleftrightarrow> holder s l = Some t \<or> pending l (prog s t) \<noteq> None"

definition mutex :: "lref \<Rightarrow> kern \<Rightarrow> bool" where
  "mutex l s \<longleftrightarrow> (\<forall>t. lock_prog l (prog s t)) \<and> (value_of s (LOCK_SEMA l) = 0 \<or> value_of s (LOCK_SEMA l) = 1) \<and>
     (value_of s (LOCK_SEMA l) = 1 \<longrightarrow> (\<forall>t. \<not> crit l s t)) \<and> (\<forall>t t'. crit l s t \<longrightarrow> crit l s t' \<longrightarrow> t = t') \<and>
     (\<forall>t. pending l (prog s t) = Some (SEMA_UP (LOCK_SEMA l)) \<longrightarrow> holder s l \<noteq> Some t)"

text \<open>The programs after one operation of the running thread.\<close>

lemma run_op_progs:
  assumes inv: "inv s" and r: "run_op s = Some f"
  obtains p ps ops s' where "prog s (cur s) = p # ps" "exec p (s\<lparr>prog := (prog s)(cur s := ps)\<rparr>) = Some (ops, s')"
    "prog f (cur s) = ops @ ps" "semas f = semas s'" "holder f = holder s'"
    "\<And>t. t \<noteq> cur s \<Longrightarrow> prog f t = prog s t \<or> (\<exists>c. prog f t = RELEASE c # prog s t) \<or>
       prog s t = [] \<and> (\<exists>name func. func \<in> start_funcs \<and> p = LAUNCH t name func \<and> prog f t = kernel_thread func)"
proof -
  obtain p ps where p: "prog s (cur s) = p # ps" using r by (auto simp: run_op_def split: list.splits)
  define s0 where "s0 = s\<lparr>prog := (prog s)(cur s := ps)\<rparr>"
  obtain ops s' where e: "exec p s0 = Some (ops, s')" and f: "f = push_ops (cur s) ops s'"
    using r p by (auto simp: run_op_def bind_Some_iff s0_def)
  have pf: "progs_follow p s0 s'" by (rule progs_follow_exec [OF e]) (simp add: s0_def base_life [OF inv])
  have la: "func \<in> start_funcs \<and> prog s u = [] \<and> u \<noteq> cur s" if "p = LAUNCH u name func" for u name func
  proof -
    have t: "token_ok s" using inv by (simp add: inv_def base_def)
    have "Some u \<in> set (toks (prog s (cur s)))" using that by (simp add: p)
    then have n: "prog s u = []" using t unfolding token_ok_def by blast
    have "p \<in> set (prog s (cur s))" by (simp add: p)
    then have "op_func p \<in> start_funcs" using t unfolding token_ok_def by blast
    then show ?thesis using n that p by auto
  qed
  have s0: "prog s0 (cur s) = ps" "cur s0 = cur s" by (simp_all add: s0_def)
  have own: "prog s' (cur s) = ps"
    using pf [unfolded progs_follow_def, THEN spec, of "cur s"] la unfolding s0 by blast
  show thesis
  proof (rule that [OF p e [unfolded s0_def]])
    show "prog f (cur s) = ops @ ps" by (simp add: f own)
    show "semas f = semas s'" "holder f = holder s'" by (simp_all add: f)
    fix t assume t: "t \<noteq> cur s"
    have "prog s' t = prog s0 t \<or> (\<exists>c. prog s' t = RELEASE c # prog s0 t) \<or>
       (\<exists>name func. p = LAUNCH t name func \<and> prog s' t = kernel_thread func)"
      using pf unfolding progs_follow_def by blast
    moreover have "prog s0 t = prog s t" "prog f t = prog s' t" using t by (simp_all add: s0_def f)
    ultimately show "prog f t = prog s t \<or> (\<exists>c. prog f t = RELEASE c # prog s t) \<or>
       prog s t = [] \<and> (\<exists>name func. func \<in> start_funcs \<and> p = LAUNCH t name func \<and> prog f t = kernel_thread func)"
      using la by metis
  qed
qed

lemma follow_start: "func \<in> start_funcs \<Longrightarrow> follow (LOCK n) None (kernel_thread func)"
  by (auto simp: start_funcs_def idle_def kernel_thread_def)

lemma other_progs:
  assumes "prog f t = prog s t \<or> (\<exists>c. prog f t = RELEASE c # prog s t) \<or>
       prog s t = [] \<and> (\<exists>name func. func \<in> start_funcs \<and> p = LAUNCH t name func \<and> prog f t = kernel_thread func)"
  shows "pending (LOCK n) (prog f t) = pending (LOCK n) (prog s t) \<and> lock_prog (LOCK n) (prog f t) = lock_prog (LOCK n) (prog s t)"
  using assms
proof (elim disjE conjE exE)
  fix name func assume "prog s t = []" "func \<in> start_funcs" "prog f t = kernel_thread func"
  moreover have "pending (LOCK n) [] = None \<and> lock_prog (LOCK n) []" by (simp add: pending_def lock_prog_def)
  ultimately show ?thesis using follow_lock_prog [OF follow_start [of func n]] by metis
qed simp_all

lemma mutex_same:
  assumes m: "mutex l s" and "value_of f (LOCK_SEMA l) = value_of s (LOCK_SEMA l)" and "holder f l = holder s l"
    and "\<And>t. pending l (prog f t) = pending l (prog s t) \<and> lock_prog l (prog f t) = lock_prog l (prog s t)"
  shows "mutex l f"
proof -
  have "crit l f t = crit l s t" for t using assms(3,4) by (simp add: crit_def)
  then show ?thesis using m assms(2-4) unfolding mutex_def by simp
qed

text \<open>The states in which only the thread \<open>c\<close> can be inside.\<close>

lemma mutex_only:
  assumes "\<And>t. t \<noteq> c \<Longrightarrow> \<not> crit l f t" and "\<And>t. lock_prog l (prog f t)" and "value_of f (LOCK_SEMA l) = 0"
    and "pending l (prog f c) = Some (SEMA_UP (LOCK_SEMA l)) \<Longrightarrow> holder f l \<noteq> Some c"
  shows "mutex l f"
  using assms unfolding mutex_def crit_def by (metis zero_neq_one option.distinct(1))

lemma exec_take:
  assumes e: "exec p s = Some (ops, s')" and t: "takes l p"
  shows "(value_of s (LOCK_SEMA l) = 0 \<and> (\<exists>old. ops = [SEMA_WAIT (LOCK_SEMA l) old]) \<and> value_of s' (LOCK_SEMA l) = 0) \<or>
    (value_of s (LOCK_SEMA l) \<noteq> 0 \<and> ops = [] \<and> value_of s' (LOCK_SEMA l) = value_of s (LOCK_SEMA l) - 1)"
proof -
  let ?r = "LOCK_SEMA l"
  have w: ?thesis if "sema_wait ?r old s1 = Some (ops, s')" "semas s1 = semas s" for old s1
  proof (cases "value_of s ?r = 0")
    case True
    then have "thread_block (set_sema ?r ((semas s1 ?r)\<lparr>s_waiters := s_waiters (semas s1 ?r) @ [cur s1]\<rparr>) s1) = Some s'"
      "ops = [SEMA_WAIT ?r old]"
      using that by (auto simp: sema_wait_def bind_Some_iff value_of_def)
    then show ?thesis using True block_sema that(2) by (fastforce simp: value_of_def)
  next
    case False
    then have "intr_set_level old (set_sema ?r ((semas s1 ?r)\<lparr>s_value := s_value (semas s1 ?r) - 1\<rparr>) s1) = Some s'" "ops = []"
      using that by (auto simp: sema_wait_def bind_Some_iff value_of_def)
    then show ?thesis using False that(2) by (auto simp: value_of_def dest!: intr_set_level_eq)
  qed
  consider "p = SEMA_DOWN ?r" | old where "p = SEMA_WAIT ?r old" using t by (cases p) auto
  then show ?thesis
  proof cases
    case 1
    then have "sema_wait ?r (intr_on s) (intr_disable s) = Some (ops, s')"
      using e by (auto simp: exec.simps sema_down_def split: if_splits)
    then show ?thesis by (rule w) simp
  next
    case 2
    then show ?thesis using e w by (simp add: exec.simps)
  qed
qed

lemma mutex_run_op:
  assumes inv: "inv s" and m: "mutex (LOCK n) s" and r: "run_op s = Some f"
  shows "mutex (LOCK n) f"
proof -
  let ?l = "LOCK n"
  obtain p ps ops s' where p: "prog s (cur s) = p # ps" and e: "exec p (s\<lparr>prog := (prog s)(cur s := ps)\<rparr>) = Some (ops, s')"
    and own: "prog f (cur s) = ops @ ps" and fs: "semas f = semas s'" "holder f = holder s'"
    and others: "\<And>t. t \<noteq> cur s \<Longrightarrow> prog f t = prog s t \<or> (\<exists>c. prog f t = RELEASE c # prog s t) \<or>
       prog s t = [] \<and> (\<exists>name func. func \<in> start_funcs \<and> p = LAUNCH t name func \<and> prog f t = kernel_thread func)"
    by (rule run_op_progs [OF inv r]) blast
  note ot = other_progs [OF others, of _ n]
  define s0 where "s0 = s\<lparr>prog := (prog s)(cur s := ps)\<rparr>"
  note e = e [folded s0_def]
  have lp: "lock_prog ?l (p # ps)" using m p unfolding mutex_def by metis
  have v0: "value_of s0 = value_of s" "holder s0 = holder s" "cur s0 = cur s" by (simp_all add: s0_def value_of_def fun_eq_iff)
  show ?thesis
  proof (cases "touches ?l p")
    case False
    then have nt: "LOCK_SEMA ?l \<notin> op_sema p" "p \<notin> {LOCK_INIT ?l, SET_HOLDER ?l, CLEAR_HOLDER ?l}" "\<not> follower ?l p"
      by (cases p; auto simp: touches_def)+
    have "value_of f (LOCK_SEMA ?l) = value_of s (LOCK_SEMA ?l)"
      using exec_sema_other [OF e nt(1)] by (simp add: value_of_def fs s0_def)
    moreover have "holder f ?l = holder s ?l" using exec_holder [OF e nt(2)] by (simp add: fs v0)
    moreover have "pending ?l (prog f (cur s)) = pending ?l (prog s (cur s)) \<and> lock_prog ?l (prog f (cur s)) = lock_prog ?l (prog s (cur s))"
    proof (cases "pre_safe p")
      case True
      have "\<forall>q\<in>set ops. pre_safe q" by (rule exec_pre_safe [OF e True]) (simp add: s0_def base_life [OF inv])
      then show ?thesis using True by (simp add: own p pending_pre lock_prog_pre)
    next
      case np: False
      have "follow ?l None (p # ps)" using lp lock_prog_Cons [OF np nt(3)] by simp
      then have "follow ?l None ps" using follow_harmless [OF False] by simp
      then have "follow ?l None (ops @ ps)" using follow_append [OF exec_follow [OF e False]] by simp
      then have "lock_prog ?l (ops @ ps)" "pending ?l (ops @ ps) = None" using follow_lock_prog by blast+
      moreover have "pending ?l (p # ps) = None" using np nt(3) by (simp add: pending_def)
      ultimately show ?thesis using lp by (simp add: own p)
    qed
    ultimately show ?thesis using ot by (intro mutex_same [OF m]) metis+
  next
    case True
    have oc: "crit ?l f t \<longleftrightarrow> holder f ?l = Some t \<or> pending ?l (prog s t) \<noteq> None" if "t \<noteq> cur s" for t
      using ot [OF that] by (simp add: crit_def)
    have ol: "lock_prog ?l (prog f t)" if "lock_prog ?l (prog f (cur s))" for t
      using ot [of t] m that unfolding mutex_def by (cases "t = cur s") auto
    have one: "crit ?l s t \<Longrightarrow> crit ?l s t' \<Longrightarrow> t = t'" for t t' using m unfolding mutex_def by blast
    have val: "value_of s (LOCK_SEMA ?l) = 0 \<or> value_of s (LOCK_SEMA ?l) = 1 \<and> (\<forall>t. \<not> crit ?l s t)"
      using m unfolding mutex_def by blast
    have only_cur: "\<not> crit ?l f t" if "crit ?l s (cur s) \<or> (\<forall>t. \<not> crit ?l s t)" "holder f ?l \<in> {None, Some (cur s), holder s ?l}" "t \<noteq> cur s" for t
    proof -
      have "\<not> crit ?l s t" using that(1,3) one [of "cur s" t] by blast
      then have "holder s ?l \<noteq> Some t" "pending ?l (prog s t) = None" by (simp_all add: crit_def)
      moreover from this(1) have "holder f ?l \<noteq> Some t" using that(2,3) by fastforce
      ultimately show ?thesis using oc [OF that(3)] by simp
    qed
    have vf: "value_of f = value_of s'" by (simp add: value_of_def fs fun_eq_iff)
    have fol: "follow ?l None (p # ps)" if "\<not> follower ?l p" "\<not> pre_safe p"
      using lp lock_prog_Cons [OF that(2,1)] by simp
    consider "takes ?l p" | "p = TRY_LOCK ?l" | "p = SET_HOLDER ?l" | "p = CLEAR_HOLDER ?l" | "p = SEMA_UP (LOCK_SEMA ?l)"
      | "p = LOCK_INIT ?l \<or> (\<exists>v. p = SEMA_INIT (LOCK_SEMA ?l) v)"
      using True by (cases p) (auto simp: touches_def)
    then show ?thesis
    proof cases
      case 1
      have np: "\<not> follower ?l p" "\<not> pre_safe p" using 1 by (cases p; auto)+
      obtain qs where qs: "ps = SET_HOLDER ?l # qs" "follow ?l None qs" using fol [OF np] 1 by (cases ps) auto
      have h: "holder f ?l = holder s ?l" using exec_holder [OF e, of ?l] 1 by (cases p) (auto simp: fs v0)
      show ?thesis
      proof (cases "value_of s (LOCK_SEMA ?l) = 0")
        case True
        then obtain old where o: "ops = [SEMA_WAIT (LOCK_SEMA ?l) old]" "value_of f (LOCK_SEMA ?l) = 0"
          using exec_take [OF e 1] by (auto simp: v0 vf)
        have "pending ?l (ops @ ps) = None" "pending ?l (p # ps) = None" "lock_prog ?l (ops @ ps)"
          using np qs by (simp_all add: o pending_def lock_prog_def)
        then have "pending ?l (prog f t) = pending ?l (prog s t) \<and> lock_prog ?l (prog f t) = lock_prog ?l (prog s t)" for t
          using ot [of t] lp by (cases "t = cur s") (simp_all add: own p)
        then show ?thesis using mutex_same [OF m _ h] o True by simp
      next
        case False
        then have o: "ops = []" "value_of f (LOCK_SEMA ?l) = 0"
          using exec_take [OF e 1] val by (auto simp: v0 vf)
        have pf: "prog f (cur s) = SET_HOLDER ?l # qs" by (simp add: own o qs)
        show ?thesis
        proof (rule mutex_only [where c = "cur s"])
          show "lock_prog ?l (prog f t)" for t using ol lock_prog_follower [of ?l "SET_HOLDER ?l" qs] qs pf by simp
          show "\<not> crit ?l f t" if "t \<noteq> cur s" for t using only_cur that val False h by auto
        qed (use o pf in \<open>simp_all add: pending_def\<close>)
      qed
    next
      case 2
      have fp: "follow ?l None ps" using fol 2 by simp
      note flp = follow_lock_prog [OF fp]
      have h: "holder f ?l = holder s ?l" using exec_holder [OF e, of ?l] 2 by (auto simp: fs v0)
      show ?thesis
      proof (cases "value_of s (LOCK_SEMA ?l) = 0")
        case True
        then have o: "ops = []" "value_of f (LOCK_SEMA ?l) = 0"
          using e 2 v0(1) [THEN fun_cong, of "LOCK_SEMA ?l"] by (auto simp: exec.simps sema_try_down_def vf value_of_def set_ret_def)
        have "pending ?l (p # ps) = None" using 2 by (simp add: pending_def)
        then have "pending ?l (prog f t) = pending ?l (prog s t) \<and> lock_prog ?l (prog f t) = lock_prog ?l (prog s t)" for t
          using ot [of t] lp flp by (cases "t = cur s") (simp_all add: own p o)
        then show ?thesis using mutex_same [OF m _ h] o True by simp
      next
        case False
        then have v1: "s_value (semas s0 (LOCK_SEMA ?l)) = 1" using val v0(1) [THEN fun_cong, of "LOCK_SEMA ?l"] by (simp add: value_of_def)
        then have o: "ops = [SET_HOLDER ?l]" "value_of f (LOCK_SEMA ?l) = 0"
          using e 2 by (auto simp: exec.simps sema_try_down_def vf value_of_def set_ret_def)
        have pf: "prog f (cur s) = SET_HOLDER ?l # ps" by (simp add: own o)
        show ?thesis
        proof (rule mutex_only [where c = "cur s"])
          show "lock_prog ?l (prog f t)" for t using ol lock_prog_follower [of ?l "SET_HOLDER ?l" ps] fp pf by simp
          show "\<not> crit ?l f t" if "t \<noteq> cur s" for t using only_cur that val False h by auto
        qed (use o pf in \<open>simp_all add: pending_def\<close>)
      qed
    next
      case 3
      have fp: "follow ?l None ps" using lp 3 lock_prog_follower [of ?l "SET_HOLDER ?l" ps] by simp
      note flp = follow_lock_prog [OF fp]
      have c: "crit ?l s (cur s)" using pending_follower [of ?l "SET_HOLDER ?l" ps] by (simp add: crit_def p 3)
      have o: "ops = []" "holder f ?l = Some (cur s)" "value_of f (LOCK_SEMA ?l) = value_of s (LOCK_SEMA ?l)"
        using e 3 v0(3) by (auto simp: exec.simps bind_Some_iff fs value_of_def s0_def)
      show ?thesis
      proof (rule mutex_only [where c = "cur s"])
        show "lock_prog ?l (prog f t)" for t using ol flp own o by simp
        show "\<not> crit ?l f t" if "t \<noteq> cur s" for t using only_cur that c o by auto
      qed (use o own flp val c in auto)
    next
      case 4
      obtain qs where qs: "ps = SEMA_UP (LOCK_SEMA ?l) # qs" "follow ?l None qs" using fol 4 by (cases ps) auto
      have o: "ops = []" "holder f ?l = None" "value_of f (LOCK_SEMA ?l) = value_of s (LOCK_SEMA ?l)" "holder s ?l = Some (cur s)"
        using e 4 by (auto simp: exec.simps bind_Some_iff fs value_of_def s0_def lock_held_by_current_thread_def split: if_splits)
      then have c: "crit ?l s (cur s)" by (simp add: crit_def)
      have pf: "prog f (cur s) = SEMA_UP (LOCK_SEMA ?l) # qs" by (simp add: own o qs)
      show ?thesis
      proof (rule mutex_only [where c = "cur s"])
        show "lock_prog ?l (prog f t)" for t using ol lock_prog_follower [of ?l "SEMA_UP (LOCK_SEMA ?l)" qs] qs pf by simp
        show "\<not> crit ?l f t" if "t \<noteq> cur s" for t using only_cur that c o by auto
      qed (use o val c in auto)
    next
      case 5
      have fp: "follow ?l None ps" using lp 5 lock_prog_follower [of ?l "SEMA_UP (LOCK_SEMA ?l)" ps] by simp
      note flp = follow_lock_prog [OF fp]
      have pc: "pending ?l (prog s (cur s)) = Some (SEMA_UP (LOCK_SEMA ?l))"
        using pending_follower [of ?l "SEMA_UP (LOCK_SEMA ?l)" ps] by (simp add: p 5)
      then have c: "crit ?l s (cur s)" by (simp add: crit_def)
      have v: "value_of s (LOCK_SEMA ?l) = 0" using val c by blast
      have hn: "holder s ?l \<noteq> Some (cur s)" using m pc unfolding mutex_def by blast
      have hs: "holder s ?l = None" using hn one [OF c] by (cases "holder s ?l") (auto simp: crit_def)
      have "sema_up (LOCK_SEMA ?l) s0 = Some s'" "ops = []" using e 5 by (auto simp: exec.simps)
      then have o: "ops = []" "holder f ?l = None" "value_of f (LOCK_SEMA ?l) = 1"
        using sema_up_sema [of "LOCK_SEMA ?l" s0 s'] hs v v0 by (simp_all add: fs value_of_def s0_def)
      have nc: "\<not> crit ?l f t" for t
      proof (cases "t = cur s")
        case True
        then show ?thesis using flp own o by (simp add: crit_def)
      next
        case False
        then show ?thesis using only_cur c o by auto
      qed
      show ?thesis using nc o ol flp own unfolding mutex_def crit_def by simp
    next
      case 6
      then show ?thesis using fol by auto
    qed
  qed
qed


lemma mutex_push:
  assumes m: "mutex (LOCK n) s" and n: "pending (LOCK n) (ops @ prog s (cur s)) = pending (LOCK n) (prog s (cur s))"
    "lock_prog (LOCK n) (ops @ prog s (cur s))"
  shows "mutex (LOCK n) (push_ops (cur s) ops s)"
proof (rule mutex_same [OF m])
  fix t
  have "lock_prog (LOCK n) (prog s t)" using m unfolding mutex_def by blast
  then show "pending (LOCK n) (prog (push_ops (cur s) ops s) t) = pending (LOCK n) (prog s t) \<and>
      lock_prog (LOCK n) (prog (push_ops (cur s) ops s) t) = lock_prog (LOCK n) (prog s t)"
    using n by simp
qed (simp_all add: value_of_def)

lemma intr_handler_frame:
  assumes "intr_handler s = Some (ops, s')"
  shows "semas s' = semas s \<and> holder s' = holder s \<and> ops \<in> {[], [INTR_SET False], [INTR_SET True]} \<and>
    (\<forall>t. prog s' t = prog s t \<or> t \<noteq> cur s \<and> (\<exists>c. prog s' t = RELEASE c # prog s t))"
proof -
  have tt: "semas s1 = semas s \<and> holder s1 = holder s \<and> prog s1 = prog s \<and> cur s1 = cur s"
    if "timer_interrupt (s\<lparr>in_external_intr := True, yield_on_return := False\<rparr>) = Some s1" for s1
    using that by (auto simp: timer_interrupt_def thread_tick_def bind_Some_iff Let_def intr_yield_on_return_def split: if_splits)
  obtain s1 where s1: "timer_interrupt (s\<lparr>in_external_intr := True, yield_on_return := False\<rparr>) = Some s1"
    and y: "(if yield_on_return s1 then thread_yield (s1\<lparr>in_external_intr := False\<rparr>) else Some ([], s1\<lparr>in_external_intr := False\<rparr>)) = Some (ops, s')"
    using assms by (auto simp: intr_handler_def bind_Some_iff Let_def split: if_splits)
  show ?thesis
  proof (cases "yield_on_return s1")
    case True
    then have ty: "thread_yield (s1\<lparr>in_external_intr := False\<rparr>) = Some (ops, s')" using y by simp
    have o: "ops \<in> {[], [INTR_SET False], [INTR_SET True]}"
      using ty by (auto simp: thread_yield_def bind_Some_iff Let_def split: if_splits)
    show ?thesis using yield_sema [OF ty] progs_follow_yield [OF ty, of FAULT] tt [OF s1] o
      by (auto simp: progs_follow_def)
  next
    case False
    then show ?thesis using y tt [OF s1] by auto
  qed
qed


lemma mutex_interrupt:
  assumes m: "mutex (LOCK n) s" and e: "interrupt s = Some f"
  shows "mutex (LOCK n) f"
proof -
  obtain ops s' where i: "intr_handler (s\<lparr>intr_on := False\<rparr>) = Some (ops, s')" and f: "f = push_ops (cur s) (ops @ [INTR_SET True]) s'"
    using e by (auto simp: interrupt_def bind_Some_iff)
  note fr = intr_handler_frame [OF i, simplified]
  show ?thesis
  proof (rule mutex_same [OF m])
    show "value_of f (LOCK_SEMA (LOCK n)) = value_of s (LOCK_SEMA (LOCK n))" "holder f (LOCK n) = holder s (LOCK n)"
      using fr by (simp_all add: value_of_def f)
    fix t
    have "\<exists>xs. prog f t = xs @ prog s t \<and> (\<forall>q\<in>set xs. pre_safe q)"
    proof (cases "t = cur s")
      case True
      then have "prog s' t = prog s t" using fr by metis
      then show ?thesis using True fr by (auto simp: f)
    next
      case False
      then have "prog f t = prog s' t" by (simp add: f)
      moreover have "prog s' t = [] @ prog s t \<or> (\<exists>c. prog s' t = [RELEASE c] @ prog s t)" using fr by auto
      ultimately show ?thesis by fastforce
    qed
    then show "pending (LOCK n) (prog f t) = pending (LOCK n) (prog s t) \<and> lock_prog (LOCK n) (prog f t) = lock_prog (LOCK n) (prog s t)"
      using pending_pre lock_prog_pre by fastforce
  qed
qed

lemma follow_code: "follow (LOCK n) None (code_of t c)"
  by (cases c) (simp_all add: lock_try_acquire_def cond_broadcast_def exec_process_def lock_acquire_def lock_release_def)

lemma mutex_begin_call:
  assumes m: "mutex (LOCK n) s" and n: "prog s (cur s) = []"
  shows "mutex (LOCK n) (begin_call c s)"
proof -
  define s1 where "s1 = (case c of C_EXIT status \<Rightarrow> upd_thread (cur s) (\<lambda>th. th\<lparr>t_exit_status := status\<rparr>) s | _ \<Rightarrow> s)"
  have b: "begin_call c s = push_ops (cur s1) (code_of (cur s) c) s1" and s1: "cur s1 = cur s" "prog s1 = prog s"
    "semas s1 = semas s" "holder s1 = holder s"
    by (cases c; simp add: begin_call_def s1_def upd_thread_def)+
  have "mutex (LOCK n) s1" using mutex_same [OF m] s1 by (simp add: value_of_def)
  then show ?thesis unfolding b
    by (rule mutex_push) (use follow_lock_prog [OF follow_code [of n "cur s" c]] in \<open>simp_all add: s1 n pending_def [of _ "[]"]\<close>)
qed



lemma mutex_init:
  assumes "thread_init ok f = Some s"
  shows "mutex (LOCK n) s"
proof -
  have s: "holder s = (\<lambda>_. None)" "semas s = static_semas" "prog s = (\<lambda>_. [])(0 := allocate_tid 0 @ thread_start)"
    using assms
    by (auto simp: thread_init_def init_thread_def bind_Some_iff Let_def cond_init_def set_status_def upd_thread_def
        split: if_splits)
  have "follow (LOCK n) None thread_start" by (simp add: thread_start_def touches_def)
  then have "follow (LOCK n) None (prog s t)" for t by (simp add: s)
  then have "lock_prog (LOCK n) (prog s t)" "pending (LOCK n) (prog s t) = None" for t using follow_lock_prog by blast+
  then show ?thesis by (simp add: mutex_def crit_def s value_of_def static_semas_def)
qed

theorem reachable_mutex: "reachable s \<Longrightarrow> mutex (LOCK n) s"
proof (induction rule: reachable.induct)
  case (init ok f s)
  then show ?case by (rule mutex_init)
next
  case (step s s')
  from step.hyps(2) show ?case
    by cases (use step.IH reachable_inv [OF step.hyps(1)] mutex_run_op mutex_interrupt mutex_begin_call in blast)+
qed

lemma begin_call_holder: "holder (begin_call c s) = holder s"
  by (cases c) (simp_all add: begin_call_def push_ops_def upd_thread_def)

text \<open>
  C2. A lock that has been initialised has at most one owner, under every interleaving of the threads with the timer:
  while the thread \<open>t\<close> owns it the count of its semaphore is zero, so that no other acquisition can go through,
  and the next step leaves \<open>t\<close> its owner unless it is \<open>t\<close> itself that gives it back.
\<close>

theorem lock_mutual_exclusion:
  assumes r: "reachable s" and k: "kstep s s'" and h: "holder s (LOCK n) = Some t"
  shows "s_value (semas s (LOCK_SEMA (LOCK n))) = 0 \<and>
    (holder s' (LOCK n) = Some t \<or>
     holder s' (LOCK n) = None \<and> cur s = t \<and> (\<exists>ps. prog s t = CLEAR_HOLDER (LOCK n) # ps))"
proof -
  have m: "mutex (LOCK n) s" and inv: "inv s" using reachable_mutex [OF r] reachable_inv [OF r] by simp_all
  have c: "crit (LOCK n) s t" by (simp add: crit_def h)
  then have "value_of s (LOCK_SEMA (LOCK n)) = 0" using m unfolding mutex_def by blast
  moreover have "holder s' (LOCK n) = Some t \<or>
     holder s' (LOCK n) = None \<and> cur s = t \<and> (\<exists>ps. prog s t = CLEAR_HOLDER (LOCK n) # ps)"
    using k
  proof cases
    case run
    obtain p ps ops s1 where p: "prog s (cur s) = p # ps" and e: "exec p (s\<lparr>prog := (prog s)(cur s := ps)\<rparr>) = Some (ops, s1)"
      and hs: "holder s' = holder s1"
      by (rule run_op_progs [OF inv run]) blast
    have lp: "lock_prog (LOCK n) (p # ps)" using m p unfolding mutex_def by metis
    consider "p \<notin> {LOCK_INIT (LOCK n), SET_HOLDER (LOCK n), CLEAR_HOLDER (LOCK n)}" | "p = SET_HOLDER (LOCK n)"
      | "p = CLEAR_HOLDER (LOCK n)" | "p = LOCK_INIT (LOCK n)" by blast
    then show ?thesis
    proof cases
      case 1
      then show ?thesis using exec_holder [OF e 1] h by (simp add: hs)
    next
      case 2
      then have "crit (LOCK n) s (cur s)" by (simp add: crit_def p pending_def)
      then have "cur s = t" using c m unfolding mutex_def by blast
      then show ?thesis using e 2 by (auto simp: exec.simps bind_Some_iff hs)
    next
      case 3
      then have "lock_held_by_current_thread (LOCK n) s" "holder s1 (LOCK n) = None"
        using e by (auto simp: exec.simps bind_Some_iff lock_held_by_current_thread_def split: if_splits)
      then show ?thesis using 3 p h by (simp add: hs lock_held_by_current_thread_def)
    next
      case 4
      then show ?thesis using lp by (simp add: lock_prog_def pending_def)
    qed
  next
    case tick
    then obtain ops s1 where "intr_handler (s\<lparr>intr_on := False\<rparr>) = Some (ops, s1)" "holder s' = holder s1"
      by (auto simp: interrupt_def bind_Some_iff)
    then show ?thesis using intr_handler_frame [of "s\<lparr>intr_on := False\<rparr>" ops s1] h by simp
  next
    case (call c)
    then show ?thesis using h by (simp add: begin_call_holder)
  qed
  ultimately show ?thesis by (simp add: value_of_def)
qed

theorem lock_mutual_exclusion_witness:
  "\<exists>s s'. reachable s \<and> kstep s s' \<and> holder s (LOCK 0) = Some 0 \<and> s_value (semas s (LOCK_SEMA (LOCK 0))) = 0 \<and>
     holder s' (LOCK 0) = Some 0"
proof -
  define ps where "ps = NEXT_TID 0 # lock_release TID_LOCK @ thread_start"
  define s1 where "s1 = boot\<lparr>prog := (\<lambda>_. [])(0 := [SEMA_DOWN (LOCK_SEMA (LOCK 0)), SET_HOLDER (LOCK 0)] @ ps)\<rparr>"
  define s2 where "s2 = s1\<lparr>prog := (\<lambda>_. [])(0 := SET_HOLDER (LOCK 0) # ps),
    semas := (semas boot)(LOCK_SEMA (LOCK 0) := \<lparr>s_value = 0, s_waiters = []\<rparr>)\<rparr>"
  define s3 where "s3 = s2\<lparr>prog := (\<lambda>_. [])(0 := ps), holder := (\<lambda>_. None)(LOCK 0 := Some 0)\<rparr>"
  have b: "prog boot = (\<lambda>_. [])(0 := [NOT_HELD (LOCK 0), SEMA_DOWN (LOCK_SEMA (LOCK 0)), SET_HOLDER (LOCK 0)] @ ps)"
    "cur boot = 0" "holder boot = (\<lambda>_. None)" "in_external_intr boot = False" "intr_on boot = False"
    "semas boot = static_semas" "threads boot 0 = Some ((blank_thread ''main'' PRI_DEFAULT)\<lparr>t_status := THREAD_RUNNING\<rparr>)"
    by (simp_all add: boot_def thread_init_def init_thread_def Let_def cond_init_def set_status_def upd_thread_def
        ps_def allocate_tid_def lock_acquire_def TID_LOCK_def PRI_MIN_def PRI_MAX_def PRI_DEFAULT_def)
  have "run_op boot = Some s1" by (simp add: run_op_def b exec.simps lock_held_by_current_thread_def push_ops_def s1_def)
  moreover have "run_op s1 = Some s2"
    by (simp add: run_op_def b s1_def s2_def exec.simps sema_down_def sema_wait_def static_semas_def set_sema_def
        intr_disable_def intr_set_level_def push_ops_def intr_enable_def)
  moreover have "run_op s2 = Some s3"
    by (simp add: run_op_def b s1_def s2_def s3_def exec.simps push_ops_def thread_current_def is_thread_def blank_thread_def)
  ultimately have "reachable s3"
    using reachable.init [OF boot] kstep.run reachable.step by metis
  moreover have "\<exists>s4. run_op s3 = Some s4"
    by (simp add: run_op_def b s1_def s2_def s3_def ps_def exec.simps next_tid_to_def same_ops_def)
  then obtain s4 where "kstep s3 s4" using kstep.run by blast
  moreover have "holder s3 (LOCK 0) = Some 0" "\<nexists>qs. prog s3 0 = CLEAR_HOLDER (LOCK 0) # qs"
    by (simp_all add: s3_def ps_def)
  ultimately show ?thesis using lock_mutual_exclusion [of s3 s4 0 0] by blast
qed

end
