(* ===== verification/Arg_Stack.thy ===== *)
theory Arg_Stack
  imports Kernel_String Pagedir
begin

text \<open>
  The argument stack of a new process: \<^verbatim>\<open>push\<close>, \<^verbatim>\<open>reverse\<close> and \<^verbatim>\<open>parse_cmdline\<close> of
  \<^verbatim>\<open>userprog/process.c\<close>, on the byte memory of \<open>Kernel_String\<close>. The page at the kernel address
  \<open>kpage\<close> is the one the process sees at the user address \<open>upage\<close>; \<open>offset\<close> counts bytes from the start of the
  page and the stack grows down from its end.
\<close>

section \<open>Operations\<close>

definition store_bytes :: "memory \<Rightarrow> nat \<Rightarrow> u8 list \<Rightarrow> memory" where
  "store_bytes m a b = (\<lambda>x. if a \<le> x \<and> x < a + length b then b ! (x - a) else m x)"

definition load_bytes :: "memory \<Rightarrow> nat \<Rightarrow> nat \<Rightarrow> u8 list" where
  "load_bytes m a n = map m [a..<a + n]"

definition load32 :: "memory \<Rightarrow> nat \<Rightarrow> u32" where
  "load32 m a = of_le32 (load_bytes m a 4)"

text \<open>\<open>b\<close> is the object to push; the result is the address of its copy (0 if there is no room) and the new offset.\<close>

definition push :: "memory \<Rightarrow> nat \<Rightarrow> nat \<Rightarrow> u8 list \<Rightarrow> nat \<times> nat \<times> memory" where
  "push m kpage offset b =
     (let psize = ROUND_UP (length b) 4
      in if offset < psize then (0, offset, m)
         else let cal_size = psize - length b;
                  offset = offset - psize
              in (kpage + offset + cal_size, offset, store_bytes m (kpage + offset + cal_size) b))"

text \<open>\<open>argv\<close> is the address of an array of \<open>argc\<close> words.\<close>

fun reverse_args :: "memory \<Rightarrow> nat \<Rightarrow> nat \<Rightarrow> memory" where
  "reverse_args m argv argc =
     (if argc > 1
      then let tmp_arg = load32 m argv;
               m = store_bytes m argv (le32 (load32 m (argv + 4 * (argc - 1))));
               m = store_bytes m (argv + 4 * (argc - 1)) (le32 tmp_arg)
           in reverse_args m (argv + 4) (argc - 2)
      else m)"

text \<open>
  The loop over the arguments. \<open>delim\<close> is the address of the string of delimiters, \<open>s\<close> and \<open>save\<close> the arguments
  of the tokenizer.
\<close>

partial_function (option) arg_loop ::
  "nat \<Rightarrow> u32 \<Rightarrow> nat \<Rightarrow> memory \<Rightarrow> nat \<Rightarrow> nat \<Rightarrow> nat \<Rightarrow> nat \<Rightarrow> (bool \<times> nat \<times> nat \<times> memory) option" where
  "arg_loop delim upage kpage m s save argc offset = do {
     (loop_arg, save, m) \<leftarrow> strtok_r m s delim save;
     if loop_arg = 0 then Some (True, argc, offset, m)
     else let usr_arg = upage + of_nat (loop_arg - kpage); (r, offset, m) = push m kpage offset (le32 usr_arg)
          in if r = 0 then Some (False, argc, offset, m)
             else arg_loop delim upage kpage m 0 save (argc + 1) offset }"

text \<open>The result and the initial stack pointer, which is set on success only.\<close>

definition parse_cmdline ::
  "memory \<Rightarrow> nat \<Rightarrow> nat \<Rightarrow> u32 \<Rightarrow> nat \<Rightarrow> (u32 option \<times> memory) option" where
  "parse_cmdline m cmdline delim upage kpage = do {
     len \<leftarrow> strlen m cmdline;
     let (copy_cmd, offset, m) = push m kpage 4096 (load_bytes m cmdline (len + 1));
     if copy_cmd = 0 then Some (None, m)
     else do {
       let (r, offset, m) = push m kpage offset (le32 0);
       if r = 0 then Some (None, m)
       else do {
         (ok, argc, offset, m) \<leftarrow> arg_loop delim upage kpage m copy_cmd 0 0 offset;
         if \<not> ok then Some (None, m)
         else do {
           let argv = upage + of_nat offset;
           let m = reverse_args m (kpage + offset) argc;
           let (r, offset, m) = push m kpage offset (le32 argv);
           if r = 0 then Some (None, m)
           else do {
             let (r, offset, m) = push m kpage offset (le32 (of_nat argc));
             if r = 0 then Some (None, m)
             else do {
               let (r, offset, m) = push m kpage offset (le32 0);
               if r = 0 then Some (None, m) else Some (Some (upage + of_nat offset), m) } } } } } }"

declare reverse_args.simps [simp del]

section \<open>Bytes and words in memory\<close>

lemma store_bytes_out [simp]: "x < a \<or> a + length b \<le> x \<Longrightarrow> store_bytes m a b x = m x"
  by (auto simp: store_bytes_def)

lemma store_bytes_in: "i < length b \<Longrightarrow> store_bytes m a b (a + i) = b ! i"
  by (simp add: store_bytes_def)

lemma load_bytes_cong: "(\<And>x. a \<le> x \<Longrightarrow> x < a + n \<Longrightarrow> m x = m' x) \<Longrightarrow> load_bytes m a n = load_bytes m' a n"
  by (simp add: load_bytes_def)

lemma load_store_bytes [simp]: "load_bytes (store_bytes m a b) a (length b) = b"
  by (rule nth_equalityI) (simp_all add: load_bytes_def store_bytes_def)

lemma load32_store [simp]: "load32 (store_bytes m a (le32 w)) a = w"
  using load_store_bytes [of m a "le32 w"] of_le32_le32 [of w "[]"] by (simp add: load32_def)

lemma load32_cong: "(\<And>x. a \<le> x \<Longrightarrow> x < a + 4 \<Longrightarrow> m x = m' x) \<Longrightarrow> load32 m a = load32 m' a"
  unfolding load32_def by (rule arg_cong [OF load_bytes_cong]) simp

lemma load32_store_other: "x + 4 \<le> a \<or> a + length b \<le> x \<Longrightarrow> load32 (store_bytes m a b) x = load32 m x"
  by (rule load32_cong) (auto simp: store_bytes_def)

lemma cstr_store_other: "p + length s < a \<or> a + length b \<le> p \<Longrightarrow> cstr (store_bytes m a b) p s = cstr m p s"
  by (auto simp: cstr_def)

lemma round_up_4: "n \<le> 4096 \<Longrightarrow> ROUND_UP n 4 = (n + 3) div 4 * 4"
  by (simp add: ROUND_UP_def)

lemma round_up_word [simp]: "ROUND_UP 4 4 = 4"
  by (simp add: round_up_4)

lemma push_word:
  "push m kpage offset (le32 w) =
     (if offset < 4 then (0, offset, m) else (kpage + (offset - 4), offset - 4, store_bytes m (kpage + (offset - 4)) (le32 w)))"
  by (simp add: push_def Let_def)


section \<open>The loop over the arguments\<close>

text \<open>The maximal runs of characters other than the blank.\<close>

function arg_words :: "u8 list \<Rightarrow> u8 list list" where
  "arg_words s =
     (let r = dropWhile (\<lambda>c. c = 32) s
      in if r = [] then [] else takeWhile (\<lambda>c. c \<noteq> 32) r # arg_words (dropWhile (\<lambda>c. c \<noteq> 32) r))"
  by pat_completeness auto
termination
proof (relation "measure length")
  fix s r :: "u8 list"
  assume r: "r = dropWhile (\<lambda>c. c = 32) s" "r \<noteq> []"
  obtain c cs where c: "r = c # cs" using r(2) by (cases r) simp_all
  then have "c \<noteq> 32" using r(1) hd_dropWhile [of "\<lambda>c. c = 32" s] by auto
  have "length (dropWhile (\<lambda>c. c \<noteq> 32) r) \<le> length cs" using c \<open>c \<noteq> 32\<close> length_dropWhile_le [of "\<lambda>c. c \<noteq> 32" cs] by simp
  moreover have "length r \<le> length s" unfolding r(1) by (rule length_dropWhile_le)
  ultimately show "(dropWhile (\<lambda>c. c \<noteq> 32) r, s) \<in> measure length" using c by simp
qed simp

declare arg_words.simps [simp del]

lemma arg_words_tl: "arg_words (tl (dropWhile (\<lambda>c. c \<noteq> 32) r)) = arg_words (dropWhile (\<lambda>c. c \<noteq> 32) r)"
proof (cases "dropWhile (\<lambda>c. c \<noteq> 32) r")
  case (Cons c cs)
  then have "c = 32" using hd_dropWhile [of "\<lambda>c. c \<noteq> 32" r] by auto
  then have "arg_words (c # cs) = arg_words cs" by (simp add: arg_words.simps [of "32 # cs"] arg_words.simps [of cs])
  then show ?thesis using Cons by simp
next
  case Nil
  show ?thesis unfolding Nil by simp
qed

text \<open>The tokenizer with the blank as its only delimiter.\<close>

lemma strtok_blank:
  assumes d: "cstr m delim [32]" and c: "cstr m p r" and out: "delim + 1 < p \<or> p + length r < delim"
    and s: "(if s = 0 then save else s) = p"
  shows "arg_words r = [] \<and> (\<exists>save'. strtok_r m s delim save = Some (0, save', m)) \<or>
    (\<exists>q w r' save' m'. strtok_r m s delim save = Some (q, save', m') \<and> q \<noteq> 0 \<and> arg_words r = w # arg_words r' \<and> length r' < length r \<and>
       p \<le> q \<and> q + length w \<le> save' \<and> q + length w < p + length r + 1 \<and> save' + length r' = p + length r \<and>
       (q + length w < save' \<or> r' = []) \<and> cstr m' q w \<and> cstr m' save' r' \<and>
       cstr m' delim [32] \<and> (\<forall>a. a < p \<or> p + length r \<le> a \<longrightarrow> m' a = m a))"
proof -
  define rest where "rest = dropWhile (\<lambda>c. c = 32) r"
  define k where "k = length (takeWhile (\<lambda>c. c = 32) r)"
  define w where "w = takeWhile (\<lambda>c. c \<noteq> 32) rest"
  define u where "u = dropWhile (\<lambda>c. c \<noteq> 32) rest"
  have len: "length r = k + length w + length u"
  proof -
    have "r = takeWhile (\<lambda>c. c = 32) r @ rest" "rest = w @ u" by (simp_all add: rest_def w_def u_def)
    then show ?thesis unfolding k_def by (metis length_append add.assoc)
  qed
  have p0: "p \<noteq> 0" using c by (simp add: cstr_def)
  then have sp: "strtok_r m s delim save = strtok_r m p delim 0"
    using s by (cases "s = 0") (simp_all add: strtok_r_def)
  have "delim + length [32 :: u8] < p \<or> p + length r < delim" using out by simp
  from strtok_r_spec [OF d c this, of 0] obtain token save' m' where
    run: "strtok_r m p delim 0 = Some (token, save', m')"
    and n: "rest = [] \<Longrightarrow> token = 0 \<and> m' = m"
    and y: "rest \<noteq> [] \<Longrightarrow> token = p + k \<and> w \<noteq> [] \<and> cstr m' token w \<and> cstr m' save' (tl u) \<and> cstr m' delim [32] \<and>
        (\<forall>a. a \<noteq> token + length w \<longrightarrow> m' a = m a)"
    and l: "token \<noteq> 0 \<longrightarrow> save' + length (tl u) = p + length r"
    by (auto simp: Let_def rest_def k_def w_def u_def split: if_splits)
  show ?thesis
  proof (cases "rest = []")
    case True
    then show ?thesis using run n sp by (simp add: arg_words.simps [of r] rest_def)
  next
    case False
    note y = y [OF False]
    have t0: "token \<noteq> 0" using y p0 by simp
    have aw: "arg_words r = w # arg_words (tl u)"
      using False arg_words_tl [of rest] by (simp add: arg_words.simps [of r] Let_def rest_def [symmetric] w_def u_def)
    have keep: "m' a = m a" if "a < p \<or> p + length r \<le> a" for a
    proof (cases "a = token + length w")
      case True
      then have "u = []" using that y len by (cases u) auto
      moreover from this have "m a = 0" using c True y len by (simp add: cstr_def add.assoc)
      moreover have "m' a = 0" unfolding True using y unfolding cstr_def by blast
      ultimately show ?thesis by simp
    qed (use y in simp)
    have "length (tl u) < length r" using len y by (cases w) auto
    moreover have "token + length w \<le> save'" using len l t0 y by (cases u) auto
    moreover have "token + length w < save' \<or> tl u = []" using len l t0 y by (cases u) auto
    ultimately have "\<exists>q w r' save' m'. strtok_r m s delim save = Some (q, save', m') \<and> q \<noteq> 0 \<and> arg_words r = w # arg_words r' \<and> length r' < length r \<and>
       p \<le> q \<and> q + length w \<le> save' \<and> q + length w < p + length r + 1 \<and> save' + length r' = p + length r \<and>
       (q + length w < save' \<or> r' = []) \<and> cstr m' q w \<and> cstr m' save' r' \<and>
       cstr m' delim [32] \<and> (\<forall>a. a < p \<or> p + length r \<le> a \<longrightarrow> m' a = m a)"
      using run sp y l t0 aw keep len by (intro exI [of _ token] exI [of _ w] exI [of _ "tl u"] exI [of _ save'] exI [of _ m']) auto
    then show ?thesis ..
  qed
qed

lemma arg_loop_spec:
  assumes "cstr m delim [32]" and "delim + 1 < kpage \<or> kpage + 4096 \<le> delim"
    and "cstr m p r" and "(if s = 0 then save else s) = p"
    and "0 < kpage" and "kpage + offset \<le> p" and "p + length r < kpage + 4096"
  shows "\<exists>ok argc' offset' m'. arg_loop delim upage kpage m s save argc offset = Some (ok, argc', offset', m') \<and>
    (ok \<longleftrightarrow> 4 * length (arg_words r) \<le> offset) \<and> cstr m' delim [32] \<and>
    (\<forall>a. a < kpage \<or> kpage + offset \<le> a \<and> a < p \<or> p + length r \<le> a \<longrightarrow> m' a = m a) \<and>
    (ok \<longrightarrow> argc' = argc + length (arg_words r) \<and> offset' = offset - 4 * length (arg_words r) \<and>
      (\<exists>qs. length qs = length (arg_words r) \<and>
        (\<forall>i<length qs. load32 m' (kpage + offset - 4 * (i + 1)) = upage + of_nat (qs ! i - kpage) \<and>
           cstr m' (qs ! i) (arg_words r ! i) \<and> p \<le> qs ! i \<and> qs ! i + length (arg_words r ! i) \<le> p + length r)))"
  using assms
proof (induction "length r" arbitrary: m p r s save argc offset rule: less_induct)
  case less
  have out: "delim + 1 < p \<or> p + length r < delim" using less.prems(2,6,7) by auto
  note sp = strtok_blank [OF less.prems(1,3) out less.prems(4)]
  then consider "arg_words r = []" "\<exists>save'. strtok_r m s delim save = Some (0, save', m)"
    | q w r' save' m1 where "strtok_r m s delim save = Some (q, save', m1)" "q \<noteq> 0" "arg_words r = w # arg_words r'"
       "length r' < length r" "p \<le> q" "q + length w \<le> save'" "q + length w \<le> p + length r" "save' + length r' = p + length r"
       "q + length w < save' \<or> r' = []" "cstr m1 q w" "cstr m1 save' r'" "cstr m1 delim [32]" "\<forall>a. a < p \<or> p + length r \<le> a \<longrightarrow> m1 a = m a"
    by auto
  then show ?case
  proof cases
    case 1
    then obtain save' where "arg_loop delim upage kpage m s save argc offset = Some (True, argc, offset, m)"
      by (auto simp: arg_loop.simps)
    then show ?thesis using 1 less.prems(1) by (intro exI [of _ True] exI [of _ argc] exI [of _ offset] exI [of _ m]) simp
  next
    case 2
    let ?u = "upage + of_nat (q - kpage)"
    show ?thesis
    proof (cases "offset < 4")
      case True
      have "arg_loop delim upage kpage m s save argc offset = Some (False, argc, offset, m1)"
        using 2(1,2) True by (simp add: arg_loop.simps push_word)
      moreover have "\<not> 4 * length (arg_words r) \<le> offset" using 2(3) True by simp
      ultimately show ?thesis using 2(12,13) less.prems(6)
        by (intro exI [of _ False] exI [of _ argc] exI [of _ offset] exI [of _ m1]) auto
    next
      case False
      define m2 where "m2 = store_bytes m1 (kpage + (offset - 4)) (le32 ?u)"
      have run: "arg_loop delim upage kpage m s save argc offset = arg_loop delim upage kpage m2 0 save' (argc + 1) (offset - 4)"
        using 2(1,2) False less.prems(5) by (simp add: arg_loop.simps [of delim upage kpage m s] push_word m2_def)
      have sv: "save' \<noteq> 0" using 2(11) by (simp add: cstr_def)
      have c2: "cstr m2 delim [32]" "cstr m2 save' r'" "cstr m2 q w"
        unfolding m2_def by (subst cstr_store_other; use 2(5,6,10-12) False less.prems(2,6,7) in auto)+
      have h: "(if (0 :: nat) = 0 then save' else 0) = save'" "kpage + (offset - 4) \<le> save'" "save' + length r' < kpage + 4096"
        using 2(5,6,8) False less.prems(5-7) by auto
      obtain ok argc' offset' m' where ih: "arg_loop delim upage kpage m2 0 save' (argc + 1) (offset - 4) = Some (ok, argc', offset', m')"
        "ok \<longleftrightarrow> 4 * length (arg_words r') \<le> offset - 4" "cstr m' delim [32]"
        "\<forall>a. a < kpage \<or> kpage + (offset - 4) \<le> a \<and> a < save' \<or> save' + length r' \<le> a \<longrightarrow> m' a = m2 a"
        "ok \<longrightarrow> argc' = argc + 1 + length (arg_words r') \<and> offset' = offset - 4 - 4 * length (arg_words r') \<and>
          (\<exists>qs. length qs = length (arg_words r') \<and>
            (\<forall>i<length qs. load32 m' (kpage + (offset - 4) - 4 * (i + 1)) = upage + of_nat (qs ! i - kpage) \<and>
               cstr m' (qs ! i) (arg_words r' ! i) \<and> save' \<le> qs ! i \<and> qs ! i + length (arg_words r' ! i) \<le> save' + length r'))"
        using less.hyps [OF 2(4) c2(1) less.prems(2) c2(2) h(1) less.prems(5) h(2,3), of "argc + 1"] by blast
      have same: "m' a = m a" if "a < kpage \<or> kpage + offset \<le> a \<and> a < p \<or> p + length r \<le> a" for a
      proof -
        have "m' a = m2 a" using ih(4) that 2(5,6,8) False by auto
        also have "\<dots> = m1 a" unfolding m2_def using that False less.prems(6) by (intro store_bytes_out) auto
        also have "\<dots> = m a" using 2(13) that less.prems(6) by auto
        finally show ?thesis .
      qed
      have w': "load32 m' (kpage + offset - 4) = ?u"
      proof -
        have "load32 m' (kpage + offset - 4) = load32 m2 (kpage + offset - 4)"
          using ih(4) False 2(5,6) less.prems(6) by (intro load32_cong) auto
        also have "\<dots> = ?u" using False by (simp add: m2_def)
        finally show ?thesis .
      qed
      have q': "cstr m' q w"
      proof (rule cstr_cong [OF c2(3)])
        fix a assume "q \<le> a" "a \<le> q + length w"
        then have "kpage + (offset - 4) \<le> a \<and> a < save' \<or> save' + length r' \<le> a"
          using 2(5,8,9) False less.prems(6) by auto
        then show "m' a = m2 a" using ih(4) by blast
      qed
      have "\<exists>qs. length qs = length (arg_words r) \<and>
        (\<forall>i<length qs. load32 m' (kpage + offset - 4 * (i + 1)) = upage + of_nat (qs ! i - kpage) \<and>
           cstr m' (qs ! i) (arg_words r ! i) \<and> p \<le> qs ! i \<and> qs ! i + length (arg_words r ! i) \<le> p + length r)" if o: ok
      proof -
        obtain qs where qs: "length qs = length (arg_words r')"
          "\<forall>i<length qs. load32 m' (kpage + (offset - 4) - 4 * (i + 1)) = upage + of_nat (qs ! i - kpage) \<and>
             cstr m' (qs ! i) (arg_words r' ! i) \<and> save' \<le> qs ! i \<and> qs ! i + length (arg_words r' ! i) \<le> save' + length r'"
          using ih(5) o by blast
        have "load32 m' (kpage + offset - 4 * (i + 1)) = upage + of_nat ((q # qs) ! i - kpage) \<and>
             cstr m' ((q # qs) ! i) (arg_words r ! i) \<and> p \<le> (q # qs) ! i \<and> (q # qs) ! i + length (arg_words r ! i) \<le> p + length r"
          if i: "i < length (q # qs)" for i
        proof (cases i)
          case 0
          then show ?thesis using w' q' 2(3,5,7) by simp
        next
          case (Suc j)
          have e: "kpage + (offset - 4) - 4 * (j + 1) = kpage + offset - 4 * (Suc j + 1)" using False by simp
          have "j < length qs" using i Suc by simp
          with qs(2) e show ?thesis using Suc 2(3,5,6,8) by fastforce
        qed
        moreover have "length (q # qs) = length (arg_words r)" using qs(1) 2(3) by simp
        ultimately show ?thesis by blast
      qed
      then have res: "ok \<longrightarrow> argc' = argc + length (arg_words r) \<and> offset' = offset - 4 * length (arg_words r) \<and>
        (\<exists>qs. length qs = length (arg_words r) \<and>
        (\<forall>i<length qs. load32 m' (kpage + offset - 4 * (i + 1)) = upage + of_nat (qs ! i - kpage) \<and>
           cstr m' (qs ! i) (arg_words r ! i) \<and> p \<le> qs ! i \<and> qs ! i + length (arg_words r ! i) \<le> p + length r))"
        using ih(5) 2(3) by simp
      show ?thesis
      proof (rule exI [of _ ok], rule exI [of _ argc'], rule exI [of _ offset'], rule exI [of _ m'], intro conjI)
        show "arg_loop delim upage kpage m s save argc offset = Some (ok, argc', offset', m')" using run ih(1) by simp
        show "ok \<longleftrightarrow> 4 * length (arg_words r) \<le> offset" using ih(2) False 2(3) by auto
        show "cstr m' delim [32]" by (rule ih(3))
        show "\<forall>a. a < kpage \<or> kpage + offset \<le> a \<and> a < p \<or> p + length r \<le> a \<longrightarrow> m' a = m a" using same by blast
      qed (rule res)
    qed
  qed
qed


section \<open>Reversal\<close>

lemma reverse_args_spec:
  "(\<forall>i<n. load32 (reverse_args m a n) (a + 4 * i) = load32 m (a + 4 * (n - 1 - i))) \<and>
   (\<forall>x. x < a \<or> a + 4 * n \<le> x \<longrightarrow> reverse_args m a n x = m x)"
proof (induction m a n rule: reverse_args.induct)
  case (1 m a n)
  show ?case
  proof (cases "n > 1")
    case False
    then consider "n = 0" | "n = 1" by linarith
    then show ?thesis by cases (simp_all add: reverse_args.simps)
  next
    case True
    define m1 where "m1 = store_bytes m a (le32 (load32 m (a + 4 * (n - 1))))"
    define m2 where "m2 = store_bytes m1 (a + 4 * (n - 1)) (le32 (load32 m a))"
    have r: "reverse_args m a n = reverse_args m2 (a + 4) (n - 2)"
      using True by (simp add: reverse_args.simps [of m a n] m1_def m2_def)
    have ih: "\<forall>i<n - 2. load32 (reverse_args m2 (a + 4) (n - 2)) (a + 4 + 4 * i) = load32 m2 (a + 4 + 4 * (n - 2 - 1 - i))"
      "\<forall>x. x < a + 4 \<or> a + 4 + 4 * (n - 2) \<le> x \<longrightarrow> reverse_args m2 (a + 4) (n - 2) x = m2 x"
      using "1.IH" [OF True refl refl] unfolding m1_def m2_def by simp_all
    have mid: "load32 m2 x = load32 m x" if "a + 4 \<le> x" "x + 4 \<le> a + 4 * (n - 1)" for x
      using that by (simp add: m2_def m1_def load32_store_other)
    have fst: "load32 (reverse_args m a n) a = load32 m (a + 4 * (n - 1))"
    proof -
      have "load32 (reverse_args m a n) a = load32 m2 a" using ih(2) unfolding r by (intro load32_cong) simp
      also have "\<dots> = load32 m1 a" using True unfolding m2_def by (intro load32_store_other) auto
      finally show ?thesis by (simp add: m1_def)
    qed
    have lst: "load32 (reverse_args m a n) (a + 4 * (n - 1)) = load32 m a"
    proof -
      have "load32 (reverse_args m a n) (a + 4 * (n - 1)) = load32 m2 (a + 4 * (n - 1))"
        using ih(2) True unfolding r by (intro load32_cong) auto
      then show ?thesis by (simp add: m2_def)
    qed
    have words: "load32 (reverse_args m a n) (a + 4 * i) = load32 m (a + 4 * (n - 1 - i))" if i: "i < n" for i
    proof -
      consider "i = 0" | "i = n - 1" | "0 < i" "i < n - 1" using i by linarith
      then show ?thesis
      proof cases
        case 3
        then have j: "i - 1 < n - 2" "a + 4 + 4 * (i - 1) = a + 4 * i" "a + 4 + 4 * (n - 2 - 1 - (i - 1)) = a + 4 * (n - 1 - i)"
          by auto
        have "load32 (reverse_args m a n) (a + 4 * i) = load32 m2 (a + 4 * (n - 1 - i))"
          using ih(1) [THEN spec, of "i - 1"] j(1) unfolding r j by simp
        also have "\<dots> = load32 m (a + 4 * (n - 1 - i))" using 3 by (intro mid) auto
        finally show ?thesis .
      qed (use fst lst in simp_all)
    qed
    have out: "reverse_args m a n x = m x" if "x < a \<or> a + 4 * n \<le> x" for x
    proof -
      have "reverse_args m a n x = m2 x" using ih(2) that True unfolding r by auto
      also have "\<dots> = m1 x" unfolding m2_def using that True by (intro store_bytes_out) auto
      also have "\<dots> = m x" unfolding m1_def using that True by (intro store_bytes_out) auto
      finally show ?thesis .
    qed
    show ?thesis using words out by blast
  qed
qed


section \<open>The layout of the argument stack\<close>

text \<open>The bytes that the string and the \<open>n\<close> words of the arguments take.\<close>

definition arg_space :: "u8 list \<Rightarrow> nat" where
  "arg_space s = ROUND_UP (length s + 1) 4 + 4 * length (arg_words s) + 16"

lemma load_bytes_cstr: "cstr m p s \<Longrightarrow> load_bytes m p (length s + 1) = s @ [0]"
  by (rule nth_equalityI) (auto simp: load_bytes_def cstr_def nth_append less_Suc_eq)

lemma cstr_store: "0 \<notin> set s \<Longrightarrow> p \<noteq> 0 \<Longrightarrow> cstr (store_bytes m p (s @ [0])) p s"
  by (auto simp: cstr_def store_bytes_def nth_append)

lemma round_up_bounds:
  assumes "n \<le> 4096"
  shows "n \<le> ROUND_UP n 4 \<and> ROUND_UP n 4 \<le> 4096 \<and> ROUND_UP n 4 < n + 4"
  unfolding round_up_4 [OF assms] using assms by presburger

text \<open>The state of the page after the arguments: what \<open>parse_cmdline\<close> still pushes are three words.\<close>

definition args_at :: "memory \<Rightarrow> u32 \<Rightarrow> nat \<Rightarrow> nat \<Rightarrow> u8 list list \<Rightarrow> bool" where
  "args_at m upage kpage a ws \<longleftrightarrow> load32 m (a + 4 * length ws) = 0 \<and>
     (\<forall>i<length ws. \<exists>q. a + 4 * length ws + 4 \<le> q \<and> q + length (ws ! i) < kpage + 4096 \<and>
        load32 m (a + 4 * i) = upage + of_nat (q - kpage) \<and> cstr m q (ws ! i))"

lemma args_at_cong:
  assumes "args_at m upage kpage a ws" and "\<And>x. a \<le> x \<Longrightarrow> m' x = m x"
  shows "args_at m' upage kpage a ws"
proof -
  have w: "load32 m' x = load32 m x" if "a \<le> x" for x using assms(2) that by (intro load32_cong) simp
  have c: "cstr m' q s" if "cstr m q s" "a \<le> q" for q s
    using cstr_cong [OF that(1), of m'] assms(2) that(2) by simp
  show ?thesis
    unfolding args_at_def
  proof (intro conjI allI impI)
    show "load32 m' (a + 4 * length ws) = 0" using assms(1) w [of "a + 4 * length ws"] by (simp add: args_at_def)
    fix i assume "i < length ws"
    then obtain q where q: "a + 4 * length ws + 4 \<le> q" "q + length (ws ! i) < kpage + 4096"
      "load32 m (a + 4 * i) = upage + of_nat (q - kpage)" "cstr m q (ws ! i)"
      using assms(1) unfolding args_at_def by blast
    then show "\<exists>q. a + 4 * length ws + 4 \<le> q \<and> q + length (ws ! i) < kpage + 4096 \<and>
        load32 m' (a + 4 * i) = upage + of_nat (q - kpage) \<and> cstr m' q (ws ! i)"
      using w [of "a + 4 * i"] c [OF q(4)] by (intro exI [of _ q]) simp
  qed
qed

lemma args_at_reversed:
  assumes n: "load32 m (a + 4 * length ws) = 0" and l: "length qs = length ws"
    and q: "\<forall>i<length ws. load32 m (a + 4 * length ws - 4 * (i + 1)) = upage + of_nat (qs ! i - kpage) \<and> cstr m (qs ! i) (ws ! i) \<and>
      a + 4 * length ws + 4 \<le> qs ! i \<and> qs ! i + length (ws ! i) < kpage + 4096"
  shows "args_at (reverse_args m a (length ws)) upage kpage a ws"
  unfolding args_at_def
proof (intro conjI allI impI)
  let ?n = "length ws" and ?m' = "reverse_args m a (length ws)"
  note r = reverse_args_spec [of ?n m a]
  show "load32 ?m' (a + 4 * ?n) = 0" using r n load32_cong [of "a + 4 * ?n" ?m' m] by simp
  fix i assume i: "i < ?n"
  have e: "a + 4 * (?n - 1 - i) = a + 4 * ?n - 4 * (i + 1)" using i by simp
  have "load32 ?m' (a + 4 * i) = upage + of_nat (qs ! i - kpage)" using r q i e by simp
  moreover have "cstr ?m' (qs ! i) (ws ! i)"
  proof (rule cstr_cong)
    show "cstr m (qs ! i) (ws ! i)" using q i by blast
    fix x assume "qs ! i \<le> x"
    moreover have "a + 4 * ?n + 4 \<le> qs ! i" using q i by blast
    ultimately show "?m' x = m x" using r by simp
  qed
  ultimately show "\<exists>q. a + 4 * ?n + 4 \<le> q \<and> q + length (ws ! i) < kpage + 4096 \<and>
        load32 ?m' (a + 4 * i) = upage + of_nat (q - kpage) \<and> cstr ?m' q (ws ! i)"
    using q i by blast
qed


text \<open>
  C3. \<^verbatim>\<open>parse_cmdline\<close> lays out the stack a new process starts with. It succeeds exactly when the string, a
  pointer for each of the words between blanks, the null pointer that ends them and three more words fit
  into the page, and never writes outside the page. From the stack pointer up there are then a null return address, the number
  of words, the user address of the vector and the vector, whose pointers lead, in the order of
  the words, to the words as null-terminated strings in the page, and whose end is a null pointer.
\<close>

theorem parse_cmdline_layout:
  assumes "cstr m cmdline s" and "length s < 4096" and "cstr m delim [32]"
    and "delim + 1 < kpage \<or> kpage + 4096 \<le> delim" and "0 < kpage"
  shows "\<exists>r m'. parse_cmdline m cmdline delim upage kpage = Some (r, m') \<and>
    (\<forall>a. a < kpage \<or> kpage + 4096 \<le> a \<longrightarrow> m' a = m a) \<and>
    (if arg_space s \<le> 4096
     then let ofs = 4096 - arg_space s; sp = kpage + ofs in
       r = Some (upage + of_nat ofs) \<and> load32 m' sp = 0 \<and> load32 m' (sp + 4) = of_nat (length (arg_words s)) \<and>
       load32 m' (sp + 8) = upage + of_nat (ofs + 12) \<and> args_at m' upage kpage (sp + 12) (arg_words s)
     else r = None)"
proof -
  define ws where "ws = arg_words s"
  define n where "n = length ws"
  define L where "L = length s + 1"
  define P where "P = ROUND_UP L 4"
  have P: "L \<le> P" "P \<le> 4096" "P < L + 4" using round_up_bounds [of L] assms(2) by (simp_all add: L_def P_def)
  define copy where "copy = kpage + (4096 - P) + (P - L)"
  have cp: "copy = kpage + 4096 - L" "copy + length s < kpage + 4096" "kpage + (4096 - P) \<le> copy" using P by (simp_all add: copy_def L_def)
  define m1 where "m1 = store_bytes m copy (s @ [0])"
  have lb: "load_bytes m cmdline (length s + 1) = s @ [0]" by (rule load_bytes_cstr [OF assms(1)])
  have p1: "push m kpage 4096 (s @ [0]) = (copy, 4096 - P, m1)"
    using P by (simp add: push_def Let_def L_def P_def copy_def m1_def)
  have sl: "strlen m cmdline = Some (length s)" by (rule strlen_cstr [OF assms(1)])
  have z: "0 \<notin> set s" using assms(1) by (simp add: cstr_def)
  have c1: "cstr m1 copy s" unfolding m1_def using z cp assms(5) by (intro cstr_store) auto
  have d1: "cstr m1 delim [32]" unfolding m1_def using assms(3,4) cp P by (subst cstr_store_other) (auto simp: L_def)
  have o1: "m1 a = m a" if "a < kpage \<or> kpage + 4096 \<le> a" for a
    unfolding m1_def using that cp by (intro store_bytes_out) (auto simp: L_def)
  have sp: "arg_space s = P + 4 * n + 16" by (simp add: arg_space_def P_def L_def n_def ws_def)
  show ?thesis
  proof (cases "4096 - P < 4")
    case True
    have "parse_cmdline m cmdline delim upage kpage = Some (None, m1)"
      using True assms(5) cp(3) unfolding parse_cmdline_def by (simp add: sl lb [simplified] p1 push_word)
    then show ?thesis using o1 True sp by auto
  next
    case f1: False
    define m2 where "m2 = store_bytes m1 (kpage + (4092 - P)) (le32 0)"
    have p2: "push m1 kpage (4096 - P) (le32 0) = (kpage + (4092 - P), 4092 - P, m2)"
      using f1 by (simp add: push_word m2_def)
    have c2: "cstr m2 copy s" "cstr m2 delim [32]"
      unfolding m2_def using c1 d1 cp f1 assms(4) by (subst cstr_store_other; auto)+
    have o2: "m2 a = m a" if "a < kpage \<or> kpage + 4096 \<le> a" for a
      using that f1 o1 unfolding m2_def by (subst store_bytes_out) auto
    have nz: "copy \<noteq> 0" "\<not> (kpage = 0 \<and> 4092 \<le> P)" "\<not> kpage + 4092 \<le> P" using cp(3) assms(5) f1 by auto
    have h: "(if copy = 0 then 0 else copy) = copy" "kpage + (4092 - P) \<le> copy" using cp by auto
    obtain ok argc ofs3 m3 where l: "arg_loop delim upage kpage m2 copy 0 0 (4092 - P) = Some (ok, argc, ofs3, m3)"
      "ok \<longleftrightarrow> 4 * n \<le> 4092 - P"
      and o3: "\<forall>a. a < kpage \<or> kpage + (4092 - P) \<le> a \<and> a < copy \<or> copy + length s \<le> a \<longrightarrow> m3 a = m2 a"
      and k: "ok \<longrightarrow> argc = 0 + n \<and> ofs3 = 4092 - P - 4 * n \<and>
      (\<exists>qs. length qs = n \<and>
        (\<forall>i<length qs. load32 m3 (kpage + (4092 - P) - 4 * (i + 1)) = upage + of_nat (qs ! i - kpage) \<and>
           cstr m3 (qs ! i) (ws ! i) \<and> copy \<le> qs ! i \<and> qs ! i + length (ws ! i) \<le> copy + length s))"
      using arg_loop_spec [OF c2(2) assms(4) c2(1) h(1) assms(5) h(2) cp(2), of upage 0] unfolding n_def ws_def by blast
    have out3: "m3 a = m a" if "a < kpage \<or> kpage + 4096 \<le> a" for a
    proof -
      have "m3 a = m2 a" using o3 that cp(2) by auto
      then show ?thesis using o2 [OF that] by simp
    qed
    show ?thesis
    proof (cases ok)
      case False
      have "parse_cmdline m cmdline delim upage kpage = Some (None, m3)"
        using False l nz assms(5) unfolding parse_cmdline_def by (simp add: sl lb [simplified] p1 p2)
      then show ?thesis using out3 False l(2) sp by auto
    next
      case True
      obtain qs where qs: "length qs = n"
        "\<forall>i<length qs. load32 m3 (kpage + (4092 - P) - 4 * (i + 1)) = upage + of_nat (qs ! i - kpage) \<and>
           cstr m3 (qs ! i) (ws ! i) \<and> copy \<le> qs ! i \<and> qs ! i + length (ws ! i) \<le> copy + length s"
        using k True by blast
      have e3: "argc = n" "ofs3 = 4092 - P - 4 * n" "4 * n \<le> 4092 - P" using k l(2) True by simp_all
      define a where "a = kpage + ofs3"
      have an: "a + 4 * n = kpage + (4092 - P)" using e3 by (simp add: a_def)
      define m4 where "m4 = reverse_args m3 a n"
      have o4: "m4 x = m3 x" if "x < a \<or> a + 4 * n \<le> x" for x using reverse_args_spec [of n m3 a] that unfolding m4_def by blast
      have "load32 m3 (a + 4 * n) = load32 m2 (a + 4 * n)"
        using o3 cp(3) f1 unfolding an by (intro load32_cong) auto
      then have nul: "load32 m3 (a + 4 * length ws) = 0" unfolding n_def [symmetric] an m2_def by simp
      have "\<forall>i<length ws. load32 m3 (a + 4 * length ws - 4 * (i + 1)) = upage + of_nat (qs ! i - kpage) \<and> cstr m3 (qs ! i) (ws ! i) \<and>
          a + 4 * length ws + 4 \<le> qs ! i \<and> qs ! i + length (ws ! i) < kpage + 4096"
        using qs cp(2,3) f1 unfolding n_def [symmetric] an by fastforce
      from args_at_reversed [OF nul qs(1) [unfolded n_def] this]
      have a4: "args_at m4 upage kpage a ws" by (simp add: m4_def n_def)
      define m5 where "m5 = store_bytes m4 (kpage + (ofs3 - 4)) (le32 (upage + of_nat ofs3))"
      define m6 where "m6 = store_bytes m5 (kpage + (ofs3 - 8)) (le32 (of_nat n))"
      define m7 where "m7 = store_bytes m6 (kpage + (ofs3 - 12)) (le32 0)"
      have run: "parse_cmdline m cmdline delim upage kpage =
          (if ofs3 < 4 then Some (None, m4) else if ofs3 < 8 then Some (None, m5) else if ofs3 < 12 then Some (None, m6)
           else Some (Some (upage + of_nat (ofs3 - 12)), m7))"
      proof -
        have m4: "reverse_args m3 (kpage + ofs3) n = m4" by (simp add: m4_def a_def)
        have p5: "push m4 kpage ofs3 (le32 (upage + of_nat ofs3)) = (if ofs3 < 4 then (0, ofs3, m4) else (kpage + (ofs3 - 4), ofs3 - 4, m5))"
          by (simp only: push_word m5_def)
        have p6: "push m5 kpage (ofs3 - 4) (le32 (of_nat n)) = (if ofs3 < 8 then (0, ofs3 - 4, m5) else (kpage + (ofs3 - 8), ofs3 - 8, m6))"
          if "\<not> ofs3 < 4" using that by (simp add: push_word m6_def less_diff_conv2)
        have p7: "push m6 kpage (ofs3 - 8) (le32 0) = (if ofs3 < 12 then (0, ofs3 - 8, m6) else (kpage + (ofs3 - 12), ofs3 - 12, m7))"
          if "\<not> ofs3 < 8" using that by (simp add: push_word m7_def less_diff_conv2)
        show ?thesis
          using True l(1) nz(1) assms(5) unfolding parse_cmdline_def
          by (simp add: sl lb [simplified] p1 p2 p5 p6 p7 e3(1) m4)
      qed
      have out4: "m4 x = m x" if "x < kpage \<or> kpage + 4096 \<le> x" for x
      proof -
        have "a + 4 * n \<le> kpage + 4096" unfolding an by simp
        then have "x < a \<or> a + 4 * n \<le> x" using that by (auto simp: a_def)
        then show ?thesis using o4 out3 [OF that] by simp
      qed
      have out5: "m5 x = m x" if "x < kpage \<or> kpage + 4096 \<le> x" "4 \<le> ofs3" for x
        unfolding m5_def using out4 [OF that(1)] that e3 by (subst store_bytes_out) auto
      have out6: "m6 x = m x" if "x < kpage \<or> kpage + 4096 \<le> x" "8 \<le> ofs3" for x
        unfolding m6_def using out5 [OF that(1)] that e3 by (subst store_bytes_out) auto
      have out7: "m7 x = m x" if "x < kpage \<or> kpage + 4096 \<le> x" "12 \<le> ofs3" for x
        unfolding m7_def using out6 [OF that(1)] that e3 by (subst store_bytes_out) auto
      show ?thesis
      proof (cases "12 \<le> ofs3")
        case False
        then have "\<not> arg_space s \<le> 4096" using sp e3 P f1 by auto
        moreover have "\<exists>m'. parse_cmdline m cmdline delim upage kpage = Some (None, m') \<and> (\<forall>a. a < kpage \<or> kpage + 4096 \<le> a \<longrightarrow> m' a = m a)"
          using run False out4 out5 out6 by auto
        ultimately show ?thesis by auto
      next
        case f: True
        have fit: "arg_space s \<le> 4096" "ofs3 - 12 = 4096 - arg_space s" using sp e3 P f f1 by auto
        have st: "store_bytes M (kpage + (ofs3 - k)) (le32 w) x = M x" if "4 \<le> k" "k \<le> ofs3" "a \<le> x" for M k w x
        proof (rule store_bytes_out)
          have "kpage + (ofs3 - k) + 4 \<le> a" using that(1,2) by (simp add: a_def)
          then show "x < kpage + (ofs3 - k) \<or> kpage + (ofs3 - k) + length (le32 w) \<le> x" using that(3) by simp
        qed
        have up: "m7 x = m4 x" if "a \<le> x" for x
          using st [of 12 x m6 0] st [of 8 x m5 "of_nat n"] st [of 4 x m4 "upage + of_nat ofs3"] that f
          unfolding m7_def m6_def m5_def by simp
        have "args_at m7 upage kpage a ws" by (rule args_at_cong [OF a4]) (rule up)
        moreover have "load32 m7 (kpage + (ofs3 - 12)) = 0" by (simp add: m7_def)
        moreover have "load32 m7 (kpage + (ofs3 - 8)) = of_nat n"
        proof -
          have d: "kpage + (ofs3 - 12) + 4 \<le> kpage + (ofs3 - 8)" using f by simp
          have "load32 m7 (kpage + (ofs3 - 8)) = load32 m6 (kpage + (ofs3 - 8))"
            unfolding m7_def by (rule load32_store_other, rule disjI2) (use d in \<open>simp only: length_le32\<close>)
          then show ?thesis by (simp add: m6_def)
        qed
        moreover have "load32 m7 (kpage + (ofs3 - 4)) = upage + of_nat ofs3"
        proof -
          have d: "kpage + (ofs3 - 12) + 4 \<le> kpage + (ofs3 - 4)" "kpage + (ofs3 - 8) + 4 \<le> kpage + (ofs3 - 4)" using f by simp_all
          have "load32 m7 (kpage + (ofs3 - 4)) = load32 m6 (kpage + (ofs3 - 4))"
            unfolding m7_def by (rule load32_store_other, rule disjI2) (use d(1) in \<open>simp only: length_le32\<close>)
          also have "\<dots> = load32 m5 (kpage + (ofs3 - 4))" unfolding m6_def by (rule load32_store_other, rule disjI2) (use d(2) in \<open>simp only: length_le32\<close>)
          finally have "load32 m7 (kpage + (ofs3 - 4)) = load32 m5 (kpage + (ofs3 - 4))" .
          then show ?thesis by (simp add: m5_def)
        qed
        moreover have eqs: "kpage + (ofs3 - 12) + 4 = kpage + (ofs3 - 8)" "kpage + (ofs3 - 12) + 8 = kpage + (ofs3 - 4)"
          "kpage + (ofs3 - 12) + 12 = a" "ofs3 - 12 + 12 = ofs3" using f by (simp_all add: a_def)
        ultimately have "if arg_space s \<le> 4096
          then let ofs = 4096 - arg_space s; sp = kpage + ofs in
            Some (upage + of_nat (ofs3 - 12)) = Some (upage + of_nat ofs) \<and> load32 m7 sp = 0 \<and>
            load32 m7 (sp + 4) = of_nat (length (arg_words s)) \<and>
            load32 m7 (sp + 8) = upage + of_nat (ofs + 12) \<and> args_at m7 upage kpage (sp + 12) (arg_words s)
          else Some (upage + of_nat (ofs3 - 12)) = None"
          unfolding if_P [OF fit(1)] Let_def fit(2) [symmetric] ws_def [symmetric] n_def [symmetric] eqs by (intro conjI refl)
        moreover have "parse_cmdline m cmdline delim upage kpage = Some (Some (upage + of_nat (ofs3 - 12)), m7)" using run f by simp
        ultimately show ?thesis using out7 f by blast
      qed
    qed
  qed
qed


text \<open>The command line \<open>a b\<close>.\<close>

theorem parse_cmdline_layout_witness:
  "\<exists>m'. parse_cmdline ((\<lambda>_. 0)(1 := 32, 10 := 97, 11 := 32, 12 := 98)) 10 1 0xbffff000 8192 = Some (Some 0xbfffffe4, m') \<and>
     load32 m' (8192 + 4068 + 4) = 2"
proof -
  have w: "arg_words [97, 32, 98] = [[97], [98]]" by (simp add: arg_words.simps)
  then have a: "arg_space [97, 32, 98] = 28" by (simp add: arg_space_def ROUND_UP_def)
  from parse_cmdline_layout [of "(\<lambda>_. 0)(1 := 32, 10 := 97, 11 := 32, 12 := 98)" 10 "[97, 32, 98]" 1 8192 "0xbffff000"]
  show ?thesis unfolding a w Let_def by (auto simp: cstr_simps)
qed

end
