(* ===== verification/Process.thy ===== *)
theory Process
  imports Arg_Stack Vm Directory
begin

text \<open>
  Loading a program: the ELF part of \<^verbatim>\<open>userprog/process.c\<close>. A process has the file system, the virtual memory
  and the fields of its thread that the loader and the system calls use. A file is named by its number in the file system;
  the pages of a file take their bytes from \<open>vm_files\<close>, which holds the contents of the open files by the same number.
\<close>

section \<open>State\<close>

text \<open>\<open>struct map\<close>: a file mapped into memory.\<close>

record mmap =
  map_id :: int
  map_file :: nat
  num_of_pages :: nat
  start_addr :: u32

record uproc =
  u_fs :: fs
  u_vm :: vm
  u_pagedir :: bool
  u_exe_file :: "nat option"
  u_opened_files :: "(int \<times> nat) list"
  u_thread_fd :: int
  u_map_list :: "mmap list"

text \<open>What the allocators return while a program is loaded; \<open>le_pg\<close> serves the pages in the order they are made.\<close>

record load_env =
  le_copy :: "nat option"
  le_pagedir :: bool
  le_pages :: bool
  le_hash :: bool
  le_pg :: "nat \<Rightarrow> vm_env"

section \<open>ELF structures\<close>

record elf32_ehdr =
  e_ident :: "u8 list"
  e_type :: u16
  e_machine :: u16
  e_version :: u32
  e_entry :: u32
  e_phoff :: u32
  e_shoff :: u32
  e_flags :: u32
  e_ehsize :: u16
  e_phentsize :: u16
  e_phnum :: u16
  e_shentsize :: u16
  e_shnum :: u16
  e_shstrndx :: u16

record elf32_phdr =
  p_type :: u32
  p_offset :: u32
  p_vaddr :: u32
  p_paddr :: u32
  p_filesz :: u32
  p_memsz :: u32
  p_flags :: u32
  p_align :: u32

definition of_le16 :: "u8 list \<Rightarrow> u16" where
  "of_le16 b = horner_sum ucast 256 (take 2 b)"

definition ehdr_size :: nat where "ehdr_size = 52"
definition phdr_size :: nat where "phdr_size = 32"

definition ehdr_of :: "u8 list \<Rightarrow> elf32_ehdr" where
  "ehdr_of b =
     \<lparr>e_ident = take 16 b, e_type = of_le16 (drop 16 b), e_machine = of_le16 (drop 18 b), e_version = of_le32 (drop 20 b),
      e_entry = of_le32 (drop 24 b), e_phoff = of_le32 (drop 28 b), e_shoff = of_le32 (drop 32 b),
      e_flags = of_le32 (drop 36 b), e_ehsize = of_le16 (drop 40 b), e_phentsize = of_le16 (drop 42 b),
      e_phnum = of_le16 (drop 44 b), e_shentsize = of_le16 (drop 46 b), e_shnum = of_le16 (drop 48 b),
      e_shstrndx = of_le16 (drop 50 b)\<rparr>"

definition phdr_of :: "u8 list \<Rightarrow> elf32_phdr" where
  "phdr_of b =
     \<lparr>p_type = of_le32 b, p_offset = of_le32 (drop 4 b), p_vaddr = of_le32 (drop 8 b), p_paddr = of_le32 (drop 12 b),
      p_filesz = of_le32 (drop 16 b), p_memsz = of_le32 (drop 20 b), p_flags = of_le32 (drop 24 b),
      p_align = of_le32 (drop 28 b)\<rparr>"

definition PT_LOAD :: u32 where "PT_LOAD = 1"
definition PT_DYNAMIC :: u32 where "PT_DYNAMIC = 2"
definition PT_INTERP :: u32 where "PT_INTERP = 3"
definition PT_SHLIB :: u32 where "PT_SHLIB = 5"
definition PF_W :: u32 where "PF_W = 2"

definition ELF_MAGIC :: "u8 list" where "ELF_MAGIC = [127, 69, 76, 70, 1, 1, 1]"

text \<open>The check of the header: \<open>b\<close> are the bytes read.\<close>

definition header_ok :: "u8 list \<Rightarrow> bool" where
  "header_ok b \<longleftrightarrow> length b = ehdr_size \<and> take 7 (e_ident (ehdr_of b)) = ELF_MAGIC \<and> e_type (ehdr_of b) = 2 \<and>
     e_machine (ehdr_of b) = 3 \<and> e_version (ehdr_of b) = 1 \<and> unat (e_phentsize (ehdr_of b)) = phdr_size \<and>
     e_phnum (ehdr_of b) \<le> 1024"

section \<open>Segments\<close>

definition validate_segment :: "elf32_phdr \<Rightarrow> int \<Rightarrow> bool" where
  "validate_segment phdr flen =
     (if p_offset phdr AND PGMASK \<noteq> p_vaddr phdr AND PGMASK then False
      else if p_offset phdr > of_int flen then False
      else if p_memsz phdr < p_filesz phdr then False
      else if p_memsz phdr = 0 then False
      else if \<not> is_user_vaddr (p_vaddr phdr) then False
      else if \<not> is_user_vaddr (p_vaddr phdr + p_memsz phdr) then False
      else if p_vaddr phdr + p_memsz phdr < p_vaddr phdr then False
      else if p_vaddr phdr < PGSIZE then False
      else True)"

text \<open>The loop of \<open>load_segment\<close>: \<open>c\<close> counts the pages made so far.\<close>

partial_function (option) segment_loop ::
  "(nat \<Rightarrow> vm_env) \<Rightarrow> nat \<Rightarrow> nat \<Rightarrow> bool \<Rightarrow> nat \<Rightarrow> u32 \<Rightarrow> u32 \<Rightarrow> u32 \<Rightarrow> u32 \<Rightarrow> vm \<Rightarrow> (bool \<times> nat \<times> vm) option" where
  "segment_loop envs t k writable c ofs upage read_bytes zero_bytes vm =
     (if read_bytes > 0 \<or> zero_bytes > 0
      then let r_pg_byt = (if read_bytes < PGSIZE then read_bytes else PGSIZE); z_pg_byt = PGSIZE - r_pg_byt
        in do {
          (pg, vm) \<leftarrow> allocation_of_page (envs c) t upage (\<not> writable) vm;
          case pg of
            None \<Rightarrow> Some (False, c + 1, vm)
          | Some p \<Rightarrow>
              let vm = (if r_pg_byt > 0
                        then upd_page p (\<lambda>pg. pg\<lparr>f_ofs := unat ofs, pg_file := Some k, byts_rw_f := unat r_pg_byt\<rparr>) vm else vm)
              in segment_loop envs t k writable (c + 1) (ofs + r_pg_byt) (upage + PGSIZE) (read_bytes - r_pg_byt)
                   (zero_bytes - z_pg_byt) vm }
      else Some (True, c, vm))"

definition load_segment ::
  "(nat \<Rightarrow> vm_env) \<Rightarrow> nat \<Rightarrow> nat \<Rightarrow> nat \<Rightarrow> u32 \<Rightarrow> u32 \<Rightarrow> u32 \<Rightarrow> u32 \<Rightarrow> bool \<Rightarrow> vm \<Rightarrow> (bool \<times> nat \<times> vm) option" where
  "load_segment envs t k c ofs upage read_bytes zero_bytes writable vm = do {
     ASSERT ((read_bytes + zero_bytes) mod PGSIZE = 0);
     ASSERT (pg_ofs upage = 0);
     ASSERT (ofs mod PGSIZE = 0);
     segment_loop envs t k writable c ofs upage read_bytes zero_bytes vm }"

text \<open>The sizes: \<open>ROUND_UP\<close> is taken on unsigned 32-bit operands.\<close>

definition segment_sizes :: "elf32_phdr \<Rightarrow> u32 \<times> u32" where
  "segment_sizes phdr =
     (let page_offset = p_vaddr phdr AND PGMASK
      in if p_filesz phdr > 0
         then let read_bytes = page_offset + p_filesz phdr
              in (read_bytes, of_nat (ROUND_UP (unat (page_offset + p_memsz phdr)) 4096) - read_bytes)
         else (0, of_nat (ROUND_UP (unat (page_offset + p_memsz phdr)) 4096)))"

text \<open>The case of the loop over the program headers for one header.\<close>

definition load_phdr ::
  "(nat \<Rightarrow> vm_env) \<Rightarrow> nat \<Rightarrow> nat \<Rightarrow> int \<Rightarrow> elf32_phdr \<Rightarrow> nat \<Rightarrow> vm \<Rightarrow> (bool \<times> nat \<times> vm) option" where
  "load_phdr envs t k flen phdr c vm =
     (if p_type phdr = PT_DYNAMIC \<or> p_type phdr = PT_INTERP \<or> p_type phdr = PT_SHLIB then Some (False, c, vm)
      else if p_type phdr = PT_LOAD
      then if validate_segment phdr flen
        then let writable = (p_flags phdr AND PF_W \<noteq> 0);
                 file_page = p_offset phdr AND NOT PGMASK; mem_page = p_vaddr phdr AND NOT PGMASK;
                 (read_bytes, zero_bytes) = segment_sizes phdr
             in load_segment envs t k c file_page mem_page read_bytes zero_bytes writable vm
        else Some (False, c, vm)
      else Some (True, c, vm))"

text \<open>The loop over the program headers: \<open>n\<close> are left, the next one is at \<open>file_ofs\<close>, a signed offset.\<close>

fun phdr_loop :: "(nat \<Rightarrow> vm_env) \<Rightarrow> nat \<Rightarrow> nat \<Rightarrow> int \<Rightarrow> nat \<Rightarrow> nat \<Rightarrow> uproc \<Rightarrow> (bool \<times> nat \<times> uproc) option" where
  "phdr_loop envs t k file_ofs 0 c p = Some (True, c, p)"
| "phdr_loop envs t k file_ofs (Suc n) c p = do {
     flen \<leftarrow> file_length k (u_fs p);
     if file_ofs < 0 \<or> file_ofs > flen then Some (False, c, p)
     else do {
       f \<leftarrow> file_seek k file_ofs (u_fs p);
       (b, f) \<leftarrow> file_read k (int phdr_size) f;
       let p = p\<lparr>u_fs := f\<rparr>;
       if length b \<noteq> phdr_size then Some (False, c, p)
       else do {
         (ok, c, vm) \<leftarrow> load_phdr envs t k flen (phdr_of b) c (u_vm p);
         let p = p\<lparr>u_vm := vm\<rparr>;
         if ok then phdr_loop envs t k (signed_take_bit 31 (file_ofs + int phdr_size)) n c p
         else Some (False, c, p) } } }"

section \<open>The stack\<close>

text \<open>
  The page at the top of user memory. The frame is named by its kernel address in the memory \<open>m\<close> while the
  arguments are pushed.
\<close>

definition setup_stack ::
  "vm_env \<Rightarrow> nat \<Rightarrow> memory \<Rightarrow> nat \<Rightarrow> nat \<Rightarrow> vm \<Rightarrow> (bool \<times> u32 option \<times> vm) option" where
  "setup_stack env t m cmdline delim vm = do {
     (page, vm) \<leftarrow> allocation_of_page env t (PHYS_BASE - PGSIZE) False vm;
     case page of
       None \<Rightarrow> Some (False, None, vm)
     | Some p \<Rightarrow> do {
         (fr, vm) \<leftarrow> frame_allocate t p vm;
         let vm = upd_page p (\<lambda>pg. pg\<lparr>pg_frame := fr\<rparr>) vm;
         case fr of
           None \<Rightarrow> Some (False, None, vm)
         | Some i \<Rightarrow> do {
             let vm = upd_page p (\<lambda>pg. pg\<lparr>pg_private := False, ro_page := False\<rparr>) vm;
             pg \<leftarrow> page_heap vm p;
             let kpage = unat (fkbase (s_frame vm ! i));
             (esp, m) \<leftarrow> parse_cmdline (store_bytes m kpage (frame_mem vm i)) cmdline delim (user_vaddr pg) kpage;
             let vm = fill_frame i (load_bytes m kpage 4096) vm;
             vm \<leftarrow> unlock_curr_pg_frame t i vm;
             Some (esp \<noteq> None, esp, vm) } } }"

section \<open>Loading\<close>

definition read_string :: "memory \<Rightarrow> nat \<Rightarrow> u8 list option" where
  "read_string m p = do { n \<leftarrow> strlen m p; Some (load_bytes m p n) }"

text \<open>
  The program \<open>load\<close> runs until it fails or succeeds: \<open>m\<close> holds the copy of the command line at \<open>cpy\<close> and \<open>file\<close> is the
  file opened so far. The entry point and the stack pointer are those of the interrupt frame.
\<close>

definition load_image ::
  "load_env \<Rightarrow> nat \<Rightarrow> memory \<Rightarrow> nat \<Rightarrow> nat \<Rightarrow> nat \<Rightarrow> u32 \<Rightarrow> u32 \<Rightarrow> uproc \<Rightarrow> (bool \<times> u32 \<times> u32 \<times> uproc) option" where
  "load_image env t m cpy delim k eip esp p = do {
     (b, f) \<leftarrow> file_read k (int ehdr_size) (u_fs p);
     let p = p\<lparr>u_fs := f\<rparr>;
     if \<not> header_ok b then Some (False, eip, esp, p)
     else do {
       (ok, c, p) \<leftarrow> phdr_loop (le_pg env) t k (sint (e_phoff (ehdr_of b))) (unat (e_phnum (ehdr_of b))) 0 p;
       if \<not> ok then Some (False, eip, esp, p)
       else do {
         (ok, sp, vm) \<leftarrow> setup_stack (le_pg env c) t m cpy delim (u_vm p);
         let p = p\<lparr>u_vm := vm\<rparr>;
         let esp = (case sp of Some a \<Rightarrow> a | None \<Rightarrow> esp);
         if \<not> ok then Some (False, eip, esp, p)
         else Some (True, e_entry (ehdr_of b), esp, p\<lparr>u_exe_file := Some k\<rparr>) } } }"

text \<open>
  \<open>fnbuf\<close> is the array \<open>file_name_\<close>, \<open>args\<close> the command line. If there is no page for its copy the result is
  \<open>TID_ERROR\<close>, which the caller takes for true.
\<close>

definition load ::
  "load_env \<Rightarrow> nat \<Rightarrow> memory \<Rightarrow> nat \<Rightarrow> nat \<Rightarrow> nat \<Rightarrow> u32 \<Rightarrow> u32 \<Rightarrow> uproc \<Rightarrow> (bool \<times> u32 \<times> u32 \<times> uproc) option" where
  "load env t m args delim fnbuf eip esp p =
     (case le_copy env of
        None \<Rightarrow> Some (True, eip, esp, p)
      | Some cpy \<Rightarrow> do {
          (_, m) \<leftarrow> strlcpy m cpy args 4096;
          let p = p\<lparr>u_pagedir := le_pagedir env\<rparr>;
          if \<not> le_pagedir env then Some (False, eip, esp, p)
          else if \<not> le_pages env then Some (False, eip, esp, p)
          else do {
            h \<leftarrow> hash_init (le_hash env) get_page_hash_value check_hash_entries;
            let p = p\<lparr>u_vm := (u_vm p)\<lparr>page_tables := (page_tables (u_vm p))(t := Some h)\<rparr>\<rparr>;
            (_, m) \<leftarrow> strlcpy m fnbuf args 17;
            (file_name, _, m) \<leftarrow> strtok_r m fnbuf delim 0;
            name \<leftarrow> read_string m file_name;
            (file, f) \<leftarrow> filesys_open name (u_fs p);
            let p = p\<lparr>u_fs := f\<rparr>;
            case file of
              None \<Rightarrow> Some (False, eip, esp, p)
            | Some k \<Rightarrow> do {
                (success, eip, esp, p) \<leftarrow> load_image env t m cpy delim k eip esp p;
                f \<leftarrow> (if success then file_deny_write k (u_fs p) else file_close (Some k) (u_fs p));
                Some (success, eip, esp, p\<lparr>u_fs := f\<rparr>) } } })"

end
