(* ===== verification/Process_Props.thy ===== *)
theory Process_Props
  imports Process Vm_Props
begin

text \<open>
  What the loader maps: the page table of a thread as a map from addresses to pages, the pages that \<open>load_segment\<close>
  makes, and the bytes of a loaded segment.
\<close>

section \<open>The page table as a map\<close>

definition page_map :: "page_elem hash_table \<Rightarrow> u32 \<Rightarrow> nat option" where
  "page_map h va = map_option pe_page (hash_find h \<lparr>pe_vaddr = va, pe_page = 0\<rparr>)"

text \<open>A page table with room for \<open>n\<close> more pages.\<close>

definition table_ok :: "nat \<Rightarrow> page_elem hash_table \<Rightarrow> bool" where
  "table_ok n h \<longleftrightarrow> hash_ok h \<and> less_fn h = check_hash_entries \<and> hash_fn h = get_page_hash_value \<and>
     length (hash_elems h) + n \<le> 4294967295"

lemma hash_find_key:
  assumes "table_ok n h"
  shows "hash_find h e = hash_find h \<lparr>pe_vaddr = pe_vaddr e, pe_page = x\<rparr>"
proof -
  have h: "hash_ok h" "page_table.client h" using assms by (simp_all add: table_ok_def page_client)
  note find = page_table.hash_find_Some [OF h] and nofind = page_table.hash_find_None [OF h]
  show ?thesis
  proof (cases "hash_find h e")
    case None
    then have "hash_find h \<lparr>pe_vaddr = pe_vaddr e, pe_page = x\<rparr> = None" by (simp add: nofind page_eqv)
    then show ?thesis using None by simp
  next
    case (Some y)
    then have "hash_find h \<lparr>pe_vaddr = pe_vaddr e, pe_page = x\<rparr> = Some y" by (simp add: find page_eqv)
    then show ?thesis using Some by simp
  qed
qed

definition new_page :: "nat \<Rightarrow> bool \<Rightarrow> u32 \<Rightarrow> page" where
  "new_page t r_only va = \<lparr>pg_frame = None, pg_thread = t, pg_file = None, pg_private = (\<not> r_only), swap_sec = NO_SECTOR,
     user_vaddr = va, ro_page = r_only, f_ofs = 0, byts_rw_f = 0\<rparr>"

lemma allocation_spec:
  assumes "page_tables vm t = Some h" and ok: "table_ok (Suc n) h" and "env_page env = Some p" and "page_map h (pg_round_down va) = None"
  obtains h' where "allocation_of_page env t va r_only vm =
      Some (Some p, vm\<lparr>page_tables := (page_tables vm)(t \<mapsto> h'),
        page_heap := (page_heap vm)(p \<mapsto> new_page t r_only (pg_round_down va))\<rparr>)"
    and "table_ok n h'" and "page_map h' = (page_map h)(pg_round_down va \<mapsto> p)"
proof -
  let ?va = "pg_round_down va"
  let ?k = "\<lparr>pe_vaddr = ?va, pe_page = p\<rparr>"
  have h: "hash_ok h" "page_table.client h" and sz: "length (hash_elems h) < 4294967295"
    using ok by (simp_all add: table_ok_def page_client)
  have n: "hash_find h ?k = None" using assms(4) hash_find_key [OF ok, of ?k 0] by (simp add: page_map_def)
  obtain h' where i: "hash_insert (env_hash env) h ?k = Some (None, h')" "hash_ok h'" "page_table.client h'"
    "\<forall>e. hash_find h' e = (if less_func.eqv check_hash_entries ?k e then Some ?k else hash_find h e)"
    "hash_table.elem_cnt h' = hash_table.elem_cnt h + 1"
    using page_table.hash_insert_map [OF h sz, of "env_hash env" ?k] n by auto
  have "unat (hash_table.elem_cnt h) = length (hash_elems h)" "unat (hash_table.elem_cnt h') = length (hash_elems h')"
    using h(1) i(2) by (simp_all add: hash_ok_def)
  then have "length (hash_elems h') = length (hash_elems h) + 1" using i(5) sz page_table.unat_Suc [of "hash_table.elem_cnt h"] by simp
  then have "table_ok n h'" using ok i(2,3) by (simp add: table_ok_def page_client)
  moreover have "page_map h' = (page_map h)(?va \<mapsto> p)"
    by (rule ext) (simp add: page_map_def i(4) page_eqv)
  moreover have "allocation_of_page env t va r_only vm =
      Some (Some p, vm\<lparr>page_tables := (page_tables vm)(t \<mapsto> h'), page_heap := (page_heap vm)(p \<mapsto> new_page t r_only ?va)\<rparr>)"
    using i(1) assms(1,3) by (simp add: allocation_of_page_def new_page_def Let_def)
  ultimately show thesis using that by blast
qed

section \<open>The pages of a segment\<close>

text \<open>The page at \<open>va\<close> of a segment that still has \<open>rd\<close> bytes in the file, from \<open>ofs\<close> on.\<close>

definition segment_page :: "nat \<Rightarrow> nat \<Rightarrow> bool \<Rightarrow> u32 \<Rightarrow> nat \<Rightarrow> nat \<Rightarrow> page" where
  "segment_page t k writable va ofs rd =
     (if rd > 0 then (new_page t (\<not> writable) va)\<lparr>f_ofs := ofs, pg_file := Some k, byts_rw_f := min rd 4096\<rparr>
      else new_page t (\<not> writable) va)"

lemma unat_add_nat:
  assumes "unat (a :: u32) + m \<le> 4294967295"
  shows "unat (a + of_nat m) = unat a + m"
proof -
  have m: "unat (of_nat m :: u32) = m" using assms unfolding unat_of_nat by simp
  then show ?thesis using assms unat_add_lem [of a "of_nat m"] by simp
qed

lemma pgsize_of_nat: "PGSIZE = of_nat 4096"
  by (simp add: PGSIZE_def)

lemma unat_pg_ofs: "unat (pg_ofs va) = unat va mod 4096"
  by (simp add: pg_ofs_take take_bit_eq_mod unat_mod)

lemma pg_ofs_0_iff: "pg_ofs va = 0 \<longleftrightarrow> unat va mod 4096 = 0"
  using unat_pg_ofs [of va] by (metis unat_0 unat_eq_0)

lemma pg_ofs_next: "pg_ofs upage = 0 \<Longrightarrow> unat upage + 4096 \<le> 4294967295 \<Longrightarrow> pg_ofs (upage + PGSIZE) = 0"
  using unat_add_nat [of upage 4096] by (simp add: pg_ofs_0_iff PGSIZE_def)

lemma segment_loop_spec:
  assumes "page_tables vm t = Some h" and "table_ok n h"
    and "unat rd + unat zr = 4096 * n" and "pg_ofs upage = 0"
    and "unat upage + 4096 * n \<le> 4294967295" and "unat ofs + 4096 * n \<le> 4294967295"
    and "\<forall>j<n. page_map h (upage + of_nat (4096 * j)) = None"
    and "\<forall>j<n. env_page (envs (c + j)) = Some (pgs j)" and "inj_on pgs {..<n}"
  shows "\<exists>vm' h'. segment_loop envs t k writable c ofs upage rd zr vm = Some (True, c + n, vm') \<and>
    page_tables vm' = (page_tables vm)(t \<mapsto> h') \<and> table_ok 0 h' \<and>
    (\<forall>j<n. page_map h' (upage + of_nat (4096 * j)) = Some (pgs j) \<and>
       page_heap vm' (pgs j) = Some (segment_page t k writable (upage + of_nat (4096 * j)) (unat ofs + 4096 * j) (unat rd - 4096 * j))) \<and>
    (\<forall>va. (\<forall>j<n. va \<noteq> upage + of_nat (4096 * j)) \<longrightarrow> page_map h' va = page_map h va) \<and>
    (\<forall>q. q \<notin> pgs ` {..<n} \<longrightarrow> page_heap vm' q = page_heap vm q) \<and>
    vm_files vm' = vm_files vm \<and> frame_mem vm' = frame_mem vm \<and> swap_dev vm' = swap_dev vm"
  using assms
proof (induction n arbitrary: vm h rd zr upage ofs c pgs)
  case 0
  then have "rd = 0" "zr = 0" by (simp_all add: unat_eq_0)
  then have "segment_loop envs t k writable c ofs upage rd zr vm = Some (True, c, vm)" by (simp add: segment_loop.simps)
  then show ?case using 0 by (intro exI [of _ vm] exI [of _ h]) (auto simp: table_ok_def)
next
  case (Suc n)
  define r where "r = (if rd < PGSIZE then rd else PGSIZE)"
  define z where "z = PGSIZE - r"
  have r: "unat r = min (unat rd) 4096" by (simp add: r_def PGSIZE_def word_less_nat_alt)
  have z: "unat z = 4096 - unat r" using r by (simp add: z_def PGSIZE_def unat_sub word_le_nat_alt)
  have rz: "unat (rd - r) = unat rd - unat r" "unat (zr - z) = unat zr - unat z"
    using r z Suc.prems(3) by (intro unat_sub; simp add: word_le_nat_alt)+
  have addr: "unat (upage + of_nat (4096 * j)) = unat upage + 4096 * j" if "j \<le> n" for j
    using that Suc.prems(5) by (intro unat_add_nat) simp
  have nxt: "upage + PGSIZE + of_nat (4096 * j) = upage + of_nat (4096 * Suc j)" for j by (simp add: PGSIZE_def)
  have ne: "upage + of_nat (4096 * Suc j) \<noteq> upage" if "j < n" for j
  proof
    assume "upage + of_nat (4096 * Suc j) = upage"
    then have "unat upage + 4096 * Suc j = unat upage" using addr [of "Suc j"] that by simp
    then show False by simp
  qed
  have e0: "env_page (envs c) = Some (pgs 0)" using Suc.prems(8) by (metis add_0_right zero_less_Suc)
  have m0: "page_map h (pg_round_down upage) = None" using Suc.prems(4,7) by (fastforce simp: aligned_round_down)
  obtain h1 where a: "allocation_of_page (envs c) t upage (\<not> writable) vm =
      Some (Some (pgs 0), vm\<lparr>page_tables := (page_tables vm)(t \<mapsto> h1),
        page_heap := (page_heap vm)(pgs 0 \<mapsto> new_page t (\<not> writable) upage)\<rparr>)"
    and h1: "table_ok n h1" "page_map h1 = (page_map h)(upage \<mapsto> pgs 0)"
    using allocation_spec [OF Suc.prems(1,2) e0 m0, of "\<not> writable"] Suc.prems(4) by (metis aligned_round_down)
  define vm1 where "vm1 = vm\<lparr>page_tables := (page_tables vm)(t \<mapsto> h1),
        page_heap := (page_heap vm)(pgs 0 \<mapsto> segment_page t k writable upage (unat ofs) (unat rd))\<rparr>"
  have r0: "r > 0 \<longleftrightarrow> unat rd > 0" using r by (auto simp: word_less_nat_alt)
  have pos: "rd > 0 \<or> zr > 0" using Suc.prems(3) by (auto simp: word_less_nat_alt)
  have st: "(let vm = vm\<lparr>page_tables := (page_tables vm)(t \<mapsto> h1),
        page_heap := (page_heap vm)(pgs 0 \<mapsto> new_page t (\<not> writable) upage)\<rparr> in
       if r > 0 then upd_page (pgs 0) (\<lambda>pg. pg\<lparr>f_ofs := unat ofs, pg_file := Some k, byts_rw_f := unat r\<rparr>) vm else vm) = vm1"
    using r r0 by (simp add: vm1_def upd_page_def segment_page_def new_page_def)
  then have run: "segment_loop envs t k writable c ofs upage rd zr vm =
      segment_loop envs t k writable (c + 1) (ofs + r) (upage + PGSIZE) (rd - r) (zr - z) vm1"
    unfolding segment_loop.simps [of envs t k writable c] r_def [symmetric] z_def [symmetric] Let_def
    using pos st a by (simp add: Let_def del: zero_less_iff_neq_zero)
  have ofs': "unat (ofs + r) = unat ofs + unat r"
  proof -
    have "unat r \<le> 4096" using r by simp
    then have "unat ofs + unat r < 2 ^ LENGTH(32)" using Suc.prems(6) by simp
    then show ?thesis by (rule iffD1 [OF unat_add_lem])
  qed
  have up': "unat (upage + PGSIZE) = unat upage + 4096"
    unfolding pgsize_of_nat using Suc.prems(5) by (intro unat_add_nat) simp
  have "\<exists>vm' h'. segment_loop envs t k writable (c + 1) (ofs + r) (upage + PGSIZE) (rd - r) (zr - z) vm1 = Some (True, c + 1 + n, vm') \<and>
    page_tables vm' = (page_tables vm1)(t \<mapsto> h') \<and> table_ok 0 h' \<and>
    (\<forall>j<n. page_map h' (upage + PGSIZE + of_nat (4096 * j)) = Some (pgs (Suc j)) \<and>
       page_heap vm' (pgs (Suc j)) = Some (segment_page t k writable (upage + PGSIZE + of_nat (4096 * j)) (unat (ofs + r) + 4096 * j) (unat (rd - r) - 4096 * j))) \<and>
    (\<forall>va. (\<forall>j<n. va \<noteq> upage + PGSIZE + of_nat (4096 * j)) \<longrightarrow> page_map h' va = page_map h1 va) \<and>
    (\<forall>q. q \<notin> (\<lambda>j. pgs (Suc j)) ` {..<n} \<longrightarrow> page_heap vm' q = page_heap vm1 q) \<and>
    vm_files vm' = vm_files vm1 \<and> frame_mem vm' = frame_mem vm1 \<and> swap_dev vm' = swap_dev vm1"
  proof (rule Suc.IH)
    show "page_tables vm1 t = Some h1" by (simp add: vm1_def)
    show "table_ok n h1" by (rule h1)
    show "unat (rd - r) + unat (zr - z) = 4096 * n" using rz r z Suc.prems(3) by auto
    show "pg_ofs (upage + PGSIZE) = 0" using Suc.prems(5) by (intro pg_ofs_next [OF Suc.prems(4)]) simp
    show "unat (upage + PGSIZE) + 4096 * n \<le> 4294967295" using up' Suc.prems(5) by simp
    show "unat (ofs + r) + 4096 * n \<le> 4294967295" using ofs' r Suc.prems(6) by simp
    show "\<forall>j<n. page_map h1 (upage + PGSIZE + of_nat (4096 * j)) = None"
      using Suc.prems(7) ne unfolding nxt h1(2) by (metis Suc_less_eq fun_upd_other)
    show "\<forall>j<n. env_page (envs (c + 1 + j)) = Some (pgs (Suc j))" using Suc.prems(8) by (metis Suc_less_eq add_Suc_right add.assoc plus_1_eq_Suc)
    show "inj_on (\<lambda>j. pgs (Suc j)) {..<n}" using Suc.prems(9) by (auto simp: inj_on_def)
  qed
  then obtain vm' h' where ih: "segment_loop envs t k writable (c + 1) (ofs + r) (upage + PGSIZE) (rd - r) (zr - z) vm1 = Some (True, c + 1 + n, vm')"
    "page_tables vm' = (page_tables vm1)(t \<mapsto> h')" "table_ok 0 h'"
    "\<forall>j<n. page_map h' (upage + of_nat (4096 * Suc j)) = Some (pgs (Suc j)) \<and>
       page_heap vm' (pgs (Suc j)) = Some (segment_page t k writable (upage + of_nat (4096 * Suc j)) (unat (ofs + r) + 4096 * j) (unat (rd - r) - 4096 * j))"
    "\<forall>va. (\<forall>j<n. va \<noteq> upage + of_nat (4096 * Suc j)) \<longrightarrow> page_map h' va = page_map h1 va"
    "\<forall>q. q \<notin> (\<lambda>j. pgs (Suc j)) ` {..<n} \<longrightarrow> page_heap vm' q = page_heap vm1 q"
    "vm_files vm' = vm_files vm1" "frame_mem vm' = frame_mem vm1" "swap_dev vm' = swap_dev vm1"
    unfolding nxt by blast
  have sp: "segment_page t k writable va (unat (ofs + r) + 4096 * j) (unat (rd - r) - 4096 * j) =
      segment_page t k writable va (unat ofs + 4096 * Suc j) (unat rd - 4096 * Suc j)" for va j
    using r by (auto simp: segment_page_def rz ofs')
  have p0: "pgs 0 \<notin> (\<lambda>j. pgs (Suc j)) ` {..<n}" using Suc.prems(9) by (force simp: inj_on_def)
  have each: "page_map h' (upage + of_nat (4096 * j)) = Some (pgs j) \<and>
      page_heap vm' (pgs j) = Some (segment_page t k writable (upage + of_nat (4096 * j)) (unat ofs + 4096 * j) (unat rd - 4096 * j))"
    if "j < Suc n" for j
  proof (cases j)
    case 0
    have "page_map h' upage = page_map h1 upage" using ih(5) ne by metis
    moreover have "page_heap vm' (pgs 0) = page_heap vm1 (pgs 0)" using ih(6) p0 by blast
    ultimately show ?thesis using 0 by (simp add: h1(2) vm1_def)
  next
    case (Suc i)
    then have "i < n" using that by simp
    from ih(4) [THEN spec, THEN mp, OF this] show ?thesis unfolding Suc sp .
  qed
  have others: "page_map h' va = page_map h va" if "\<forall>j<Suc n. va \<noteq> upage + of_nat (4096 * j)" for va
  proof -
    have "va \<noteq> upage" using that [THEN spec, of 0] by simp
    moreover have "\<forall>j<n. va \<noteq> upage + of_nat (4096 * Suc j)" using that Suc_less_eq by blast
    then have "page_map h' va = page_map h1 va" using ih(5) by blast
    ultimately show ?thesis by (simp add: h1(2))
  qed
  have heap: "page_heap vm' q = page_heap vm q" if q: "q \<notin> pgs ` {..<Suc n}" for q
  proof -
    have "q \<notin> (\<lambda>j. pgs (Suc j)) ` {..<n}" "q \<noteq> pgs 0" using q by auto
    then show ?thesis using ih(6) by (simp add: vm1_def)
  qed
  have tb: "page_tables vm' = (page_tables vm)(t \<mapsto> h')" using ih(2) by (simp add: vm1_def)
  have rest: "vm_files vm' = vm_files vm" "frame_mem vm' = frame_mem vm" "swap_dev vm' = swap_dev vm"
    using ih(7-9) by (simp_all add: vm1_def)
  have "segment_loop envs t k writable c ofs upage rd zr vm = Some (True, c + Suc n, vm')" using run ih(1) by simp
  moreover have "\<forall>j<Suc n. page_map h' (upage + of_nat (4096 * j)) = Some (pgs j) \<and>
      page_heap vm' (pgs j) = Some (segment_page t k writable (upage + of_nat (4096 * j)) (unat ofs + 4096 * j) (unat rd - 4096 * j))"
    using each by blast
  moreover have "\<forall>va. (\<forall>j<Suc n. va \<noteq> upage + of_nat (4096 * j)) \<longrightarrow> page_map h' va = page_map h va" using others by blast
  moreover have "\<forall>q. q \<notin> pgs ` {..<Suc n} \<longrightarrow> page_heap vm' q = page_heap vm q" using heap by blast
  ultimately show ?case using tb ih(3) rest by (intro exI [of _ vm'] exI [of _ h'] conjI)
qed


section \<open>The image of a segment\<close>

lemma segment_page_content:
  assumes "x < 4096"
  shows "content_of vm (segment_page t k writable va ofs rd) ! x =
    (if x < rd \<and> ofs + x < length (vm_files vm k) then vm_files vm k ! (ofs + x) else 0)"
  using assms by (auto simp: content_of_def segment_page_def new_page_def backing_def pad_page_def file_bytes_def nth_append)

lemma validate_segmentD:
  assumes "validate_segment ph flen"
  shows "unat (p_offset ph) mod 4096 = unat (p_vaddr ph) mod 4096" "unat (p_filesz ph) \<le> unat (p_memsz ph)" "0 < unat (p_memsz ph)"
    "4096 \<le> unat (p_vaddr ph)" "unat (p_vaddr ph) + unat (p_memsz ph) < 0xc0000000"
proof -
  have a: "pg_ofs (p_offset ph) = pg_ofs (p_vaddr ph)" "p_filesz ph \<le> p_memsz ph" "p_memsz ph \<noteq> 0" "p_vaddr ph < PHYS_BASE"
    "p_vaddr ph + p_memsz ph < PHYS_BASE" "p_vaddr ph \<le> p_vaddr ph + p_memsz ph" "PGSIZE \<le> p_vaddr ph"
    using assms by (auto simp: validate_segment_def pg_ofs_def is_user_vaddr_def not_less split: if_splits)
  then show "unat (p_offset ph) mod 4096 = unat (p_vaddr ph) mod 4096" "unat (p_filesz ph) \<le> unat (p_memsz ph)"
    "0 < unat (p_memsz ph)" "4096 \<le> unat (p_vaddr ph)"
    using unat_pg_ofs by (metis, simp_all add: word_le_nat_alt PGSIZE_def unat_gt_0)
  have "unat (p_vaddr ph + p_memsz ph) = unat (p_vaddr ph) + unat (p_memsz ph)" using a(6) unat_plus_simple by blast
  then show "unat (p_vaddr ph) + unat (p_memsz ph) < 0xc0000000" using a(5) by (simp add: word_less_nat_alt PHYS_BASE_def)
qed

lemma unat_round_down: "unat (pg_round_down va) = unat va - unat va mod 4096"
proof -
  have "unat (pg_ofs va) \<le> unat va" by (simp add: unat_pg_ofs)
  moreover have "pg_round_down va = va - pg_ofs va" using round_down_split [of va] by (simp add: algebra_simps)
  ultimately show ?thesis using unat_sub [of "pg_ofs va" va] by (simp add: unat_pg_ofs word_le_nat_alt)
qed

text \<open>The number of pages, and the byte at offset \<open>i\<close> of a segment that is loaded from a file with the contents \<open>d\<close>.\<close>

definition segment_pages :: "elf32_phdr \<Rightarrow> nat" where
  "segment_pages ph = (unat (p_vaddr ph) mod 4096 + unat (p_memsz ph) + 4095) div 4096"

definition segment_byte :: "elf32_phdr \<Rightarrow> u8 list \<Rightarrow> nat \<Rightarrow> u8" where
  "segment_byte ph d i =
     (if i < unat (p_filesz ph) \<and> unat (p_offset ph) + i < length d then d ! (unat (p_offset ph) + i) else 0)"

lemma round_pages: "(x :: nat) \<le> 4096 * ((x + 4095) div 4096) \<and> 4096 * ((x + 4095) div 4096) \<le> x + 4095"
proof -
  have "4096 * ((x + 4095) div 4096) + (x + 4095) mod 4096 = x + 4095" by (rule mult_div_mod_eq)
  moreover have "(x + 4095) mod 4096 < 4096" by simp
  ultimately show ?thesis by linarith
qed

lemma segment_sizes_spec:
  assumes "validate_segment ph flen"
  obtains rd zr where "segment_sizes ph = (rd, zr)"
    and "unat rd = (if p_filesz ph > 0 then unat (p_vaddr ph) mod 4096 + unat (p_filesz ph) else 0)"
    and "unat rd + unat zr = 4096 * segment_pages ph"
proof -
  let ?P = "unat (p_vaddr ph) mod 4096"
  note v = validate_segmentD [OF assms]
  have pm: "?P + unat (p_memsz ph) < 0xc0000000" using v(5) mod_less_eq_dividend [of "unat (p_vaddr ph)" 4096] by linarith
  have po: "unat (p_vaddr ph AND PGMASK) = ?P" using unat_pg_ofs [of "p_vaddr ph"] by (simp add: pg_ofs_def)
  have um: "unat ((p_vaddr ph AND PGMASK) + p_memsz ph) = ?P + unat (p_memsz ph)"
    using unat_add_lem [of "p_vaddr ph AND PGMASK" "p_memsz ph"] pm by (simp add: po)
  have uf: "unat ((p_vaddr ph AND PGMASK) + p_filesz ph) = ?P + unat (p_filesz ph)"
    using unat_add_lem [of "p_vaddr ph AND PGMASK" "p_filesz ph"] pm v(2) by (simp add: po)
  define T where "T = ROUND_UP (unat ((p_vaddr ph AND PGMASK) + p_memsz ph)) 4096"
  have T: "T = 4096 * segment_pages ph" using pm by (simp add: T_def um ROUND_UP_def segment_pages_def)
  have "?P + unat (p_memsz ph) \<le> T \<and> T \<le> ?P + unat (p_memsz ph) + 4095"
    unfolding T segment_pages_def by (rule round_pages)
  then have Tb: "?P + unat (p_memsz ph) \<le> T" "T < 4294967296" using pm by linarith+
  have ut: "unat (of_nat T :: u32) = T" unfolding unat_of_nat using Tb by simp
  show thesis
  proof (cases "p_filesz ph > 0")
    case True
    let ?rd = "(p_vaddr ph AND PGMASK) + p_filesz ph"
    have "?rd \<le> of_nat T" using Tb v(2) by (simp add: word_le_nat_alt ut uf)
    then have "unat (of_nat T - ?rd) = T - unat ?rd" using ut by (simp add: unat_sub)
    moreover have "segment_sizes ph = (?rd, of_nat T - ?rd)" using True by (simp add: segment_sizes_def T_def Let_def)
    ultimately show thesis using that [of ?rd "of_nat T - ?rd"] True Tb v(2) T uf by simp
  next
    case False
    then have "segment_sizes ph = (0, of_nat T)" by (simp add: segment_sizes_def T_def Let_def)
    then show thesis using that [of 0 "of_nat T"] False T ut by simp
  qed
qed


text \<open>
  C4. Loading a segment that passes the checks maps it where its header says. If the pages are free and the allocations
  succeed, \<^verbatim>\<open>load\<close> gives each address of the segment a page whose byte for that address is the byte of the file up to
  the file size of the segment and zero after it, writable as the flags say, and
  leaves the map at all other pages alone. No assertion fails and the loop over the pages ends.
\<close>

theorem load_phdr_image:
  assumes "p_type ph = PT_LOAD" and val: "validate_segment ph flen"
    and "unat (p_offset ph) + unat (p_memsz ph) < 2147479552"
    and "page_tables vm t = Some h" and "table_ok (segment_pages ph) h"
    and free: "\<forall>j < segment_pages ph. page_map h (pg_round_down (p_vaddr ph) + of_nat (4096 * j)) = None"
    and "\<forall>j < segment_pages ph. env_page (envs (c + j)) = Some (pgs j)" and "inj_on pgs {..<segment_pages ph}"
  shows "\<exists>vm' h'. load_phdr envs t k flen ph c vm = Some (True, c + segment_pages ph, vm') \<and>
    page_tables vm' = (page_tables vm)(t \<mapsto> h') \<and> table_ok 0 h' \<and>
    (\<forall>i<unat (p_memsz ph). \<exists>p pg. page_map h' (pg_round_down (p_vaddr ph + of_nat i)) = Some p \<and> page_heap vm' p = Some pg \<and>
       ro_page pg = (p_flags ph AND PF_W = 0) \<and>
       content_of vm' pg ! unat (pg_ofs (p_vaddr ph + of_nat i)) = segment_byte ph (vm_files vm k) i) \<and>
    (\<forall>va. (\<forall>j < segment_pages ph. va \<noteq> pg_round_down (p_vaddr ph) + of_nat (4096 * j)) \<longrightarrow> page_map h' va = page_map h va)"
proof -
  let ?n = "segment_pages ph" and ?va = "pg_round_down (p_vaddr ph)" and ?ofs = "pg_round_down (p_offset ph)"
    and ?w = "p_flags ph AND PF_W \<noteq> 0"
  define P where "P = unat (p_vaddr ph) mod 4096"
  note v = validate_segmentD [OF val]
  obtain rd zr where sz: "segment_sizes ph = (rd, zr)" and rd: "unat rd = (if p_filesz ph > 0 then P + unat (p_filesz ph) else 0)"
    and sum: "unat rd + unat zr = 4096 * ?n"
    using segment_sizes_spec [OF val] unfolding P_def by blast
  have n: "P + unat (p_memsz ph) \<le> 4096 * ?n \<and> 4096 * ?n \<le> P + unat (p_memsz ph) + 4095"
    unfolding segment_pages_def P_def by (rule round_pages)
  have uva: "unat ?va = unat (p_vaddr ph) - P" by (simp add: unat_round_down P_def)
  have uofs: "unat ?ofs = unat (p_offset ph) - P" using v(1) by (simp add: unat_round_down P_def)
  have Ple: "P \<le> unat (p_vaddr ph)" "P \<le> unat (p_offset ph)" unfolding P_def using v(1) by (simp, metis mod_less_eq_dividend)
  have b1: "unat ?va + 4096 * ?n \<le> 4294967295" using uva Ple n v(5) by linarith
  have b2: "unat ?ofs + 4096 * ?n \<le> 4294967295" using uofs Ple n assms(3) by linarith
  have al: "pg_ofs ?va = 0" by simp
  obtain vm' h' where run: "segment_loop envs t k ?w c ?ofs ?va rd zr vm = Some (True, c + ?n, vm')"
    and tb: "page_tables vm' = (page_tables vm)(t \<mapsto> h')" "table_ok 0 h'"
    and pages: "\<forall>j<?n. page_map h' (?va + of_nat (4096 * j)) = Some (pgs j) \<and>
       page_heap vm' (pgs j) = Some (segment_page t k ?w (?va + of_nat (4096 * j)) (unat ?ofs + 4096 * j) (unat rd - 4096 * j))"
    and others: "\<forall>va. (\<forall>j<?n. va \<noteq> ?va + of_nat (4096 * j)) \<longrightarrow> page_map h' va = page_map h va"
    and files: "vm_files vm' = vm_files vm"
    using segment_loop_spec [OF assms(4,5) sum al b1 b2 free assms(7,8), of k ?w] by blast
  have as: "(rd + zr) mod PGSIZE = 0" "?ofs mod PGSIZE = 0"
  proof -
    have "unat (rd + zr) = (unat rd + unat zr) mod 4294967296" by (simp add: unat_word_ariths)
    then have "unat (rd + zr) mod 4096 = 0" unfolding sum by (simp add: mod_mod_cancel)
    then have "unat ((rd + zr) mod PGSIZE) = 0" by (simp add: unat_mod PGSIZE_def)
    then show "(rd + zr) mod PGSIZE = 0" by (simp only: unat_eq_0)
    have "pg_ofs ?ofs = 0" by simp
    then have "unat (?ofs mod PGSIZE) = 0" unfolding pg_ofs_0_iff by (simp add: unat_mod PGSIZE_def)
    then show "?ofs mod PGSIZE = 0" by (simp only: unat_eq_0)
  qed
  have "load_phdr envs t k flen ph c vm = Some (True, c + ?n, vm')"
    using assms(1) val sz as run al
    by (simp add: load_phdr_def load_segment_def pg_round_down_def [symmetric] PT_LOAD_def PT_DYNAMIC_def PT_INTERP_def PT_SHLIB_def)
  moreover have "\<exists>p pg. page_map h' (pg_round_down (p_vaddr ph + of_nat i)) = Some p \<and> page_heap vm' p = Some pg \<and>
       ro_page pg = (p_flags ph AND PF_W = 0) \<and>
       content_of vm' pg ! unat (pg_ofs (p_vaddr ph + of_nat i)) = segment_byte ph (vm_files vm k) i"
    if i: "i < unat (p_memsz ph)" for i
  proof -
    define j where "j = (P + i) div 4096"
    define x where "x = (P + i) mod 4096"
    have jx: "4096 * j + x = P + i" "x < 4096" by (simp_all add: j_def x_def)
    have j: "j < ?n" using n i jx by linarith
    have ua: "unat (p_vaddr ph + of_nat i) = unat (p_vaddr ph) + i" using i v(5) by (intro unat_add_nat) simp
    have e: "unat (p_vaddr ph) + i = unat ?va + 4096 * j + x" using uva Ple jx by simp
    have m0: "unat ?va mod 4096 = 0" using al pg_ofs_0_iff by blast
    then have xm: "(unat (p_vaddr ph) + i) mod 4096 = x" unfolding e using jx(2) by (metis mod_add_left_eq mod_mult_self2 add_0 mod_less add.assoc add.commute)
    have po: "unat (pg_ofs (p_vaddr ph + of_nat i)) = x" by (simp add: unat_pg_ofs ua xm)
    have "unat (pg_round_down (p_vaddr ph + of_nat i)) = unat (p_vaddr ph) + i - x"
      using unat_round_down [of "p_vaddr ph + of_nat i"] by (simp only: ua xm)
    then have "unat (pg_round_down (p_vaddr ph + of_nat i)) = unat ?va + 4096 * j" using e by linarith
    moreover have "unat (?va + of_nat (4096 * j)) = unat ?va + 4096 * j" using b1 j by (intro unat_add_nat) simp
    ultimately have rdn: "pg_round_down (p_vaddr ph + of_nat i) = ?va + of_nat (4096 * j)" by (metis word_unat_eq_iff)
    let ?pg = "segment_page t k ?w (?va + of_nat (4096 * j)) (unat ?ofs + 4096 * j) (unat rd - 4096 * j)"
    have "page_map h' (pg_round_down (p_vaddr ph + of_nat i)) = Some (pgs j) \<and> page_heap vm' (pgs j) = Some ?pg"
      unfolding rdn using pages j by blast
    moreover have "ro_page ?pg = (p_flags ph AND PF_W = 0)" by (simp add: segment_page_def new_page_def)
    moreover have "content_of vm' ?pg ! x = segment_byte ph (vm_files vm k) i"
    proof -
      have c1: "x < unat rd - 4096 * j \<longleftrightarrow> i < unat (p_filesz ph)" using jx by (auto simp: rd word_less_nat_alt)
      have c2: "unat ?ofs + 4096 * j + x = unat (p_offset ph) + i" using uofs Ple jx by simp
      show ?thesis unfolding segment_page_content [OF jx(2)] c1 c2 files segment_byte_def ..
    qed
    ultimately show ?thesis unfolding po by blast
  qed
  ultimately show ?thesis using tb others by blast
qed


text \<open>A segment of two bytes in the file and four in memory.\<close>

definition small_phdr :: elf32_phdr where
  "small_phdr = \<lparr>p_type = 1, p_offset = 0x10, p_vaddr = 0x0804a010, p_paddr = 0, p_filesz = 2, p_memsz = 4, p_flags = 5, p_align = 0\<rparr>"

theorem load_phdr_image_witness:
  "\<exists>vm' h' p pg. load_phdr (\<lambda>_. \<lparr>env_page = Some 2, env_hash = True, env_pt = True\<rparr>) 1 9 18 small_phdr 0
       ((small_vm 2)\<lparr>vm_files := (\<lambda>_. replicate 16 0 @ [7, 8])\<rparr>) = Some (True, 1, vm') \<and>
     page_map h' 0x0804a000 = Some p \<and> page_heap vm' p = Some pg \<and> ro_page pg \<and> content_of vm' pg ! 17 = 8"
proof -
  have n: "segment_pages small_phdr = 1" by (simp add: segment_pages_def small_phdr_def)
  have val: "validate_segment small_phdr 18" by (simp add: validate_segment_def small_phdr_def PGMASK_def PGSIZE_def is_user_vaddr_def PHYS_BASE_def)
  have rd: "pg_round_down 0x0804a010 = 0x0804a000" "pg_round_down 0x0804a011 = 0x0804a000" "pg_ofs 0x0804a011 = 17"
    by (simp_all add: pg_round_down_def pg_ofs_def PGMASK_def)
  have ok: "table_ok 1 small_table" using small_table_ok by (simp add: table_ok_def)
  have "hash_find small_table \<lparr>pe_vaddr = 0x0804a000, pe_page = 0\<rparr> = None"
    using page_table.hash_find_None [of small_table] small_table_ok by (simp add: page_client page_eqv)
  then have free: "page_map small_table 0x0804a000 = None" by (simp add: page_map_def)
  define vm0 where "vm0 = (small_vm 2)\<lparr>vm_files := (\<lambda>_. replicate 16 0 @ [7, 8])\<rparr>"
  define envs where "envs = (\<lambda>_ :: nat. \<lparr>env_page = Some (2 :: nat), env_hash = True, env_pt = True\<rparr>)"
  have pt: "p_type small_phdr = PT_LOAD" by (simp add: small_phdr_def PT_LOAD_def)
  have sm: "unat (p_offset small_phdr) + unat (p_memsz small_phdr) < 2147479552" by (simp add: small_phdr_def)
  have tab: "page_tables vm0 1 = Some small_table" 
  proof -
    have "page_tables vm0 = page_tables (small_vm 2)" by (simp add: vm0_def)
    then show ?thesis using small_table_ok(1) by metis
  qed
  have ok': "table_ok (segment_pages small_phdr) small_table" unfolding n by (rule ok)
  have free': "\<forall>j < segment_pages small_phdr. page_map small_table (pg_round_down (p_vaddr small_phdr) + of_nat (4096 * j)) = None"
    unfolding n by (simp add: small_phdr_def rd free)
  have env': "\<forall>j < segment_pages small_phdr. env_page (envs (0 + j)) = Some ((\<lambda>_. 2) j)" by (simp add: envs_def)
  have inj': "inj_on (\<lambda>_ :: nat. 2 :: nat) {..<segment_pages small_phdr}" unfolding n by (simp add: inj_on_def)
  obtain vm' h' where run: "load_phdr envs 1 9 18 small_phdr 0 vm0 = Some (True, 0 + segment_pages small_phdr, vm')"
    and all: "\<forall>i<unat (p_memsz small_phdr). \<exists>p pg. page_map h' (pg_round_down (p_vaddr small_phdr + of_nat i)) = Some p \<and> page_heap vm' p = Some pg \<and>
       ro_page pg = (p_flags small_phdr AND PF_W = 0) \<and>
       content_of vm' pg ! unat (pg_ofs (p_vaddr small_phdr + of_nat i)) = segment_byte small_phdr (vm_files vm0 9) i"
    using load_phdr_image [OF pt val sm tab ok' free' env' inj', of 9] by blast
  have m: "1 < unat (p_memsz small_phdr)" by (simp add: small_phdr_def)
  have a: "p_vaddr small_phdr + of_nat 1 = 0x0804a011" by (simp add: small_phdr_def)
  have b: "segment_byte small_phdr (vm_files vm0 9) 1 = 8" "p_flags small_phdr AND PF_W = 0"
    by (simp_all add: segment_byte_def small_phdr_def vm0_def PF_W_def nth_append)
  obtain p pg where "page_map h' 0x0804a000 = Some p" "page_heap vm' p = Some pg" "ro_page pg" "content_of vm' pg ! unat (17 :: u32) = 8"
    using all [THEN spec, THEN mp, OF m] unfolding a rd b by blast
  then show ?thesis using run unfolding n vm0_def envs_def by auto
qed

end
