(* ===== verification/Syscall.thy ===== *)
theory Syscall
  imports Process
begin

text \<open>
  The system calls: \<^verbatim>\<open>userprog/syscall.c\<close>, for one process between two points where it can be switched out. The lock
  of the file system is taken to be free and is not part of the state. A process can be stopped at
  many places, by \<^verbatim>\<open>thread_exit\<close> or by a fault in the kernel, which \<^verbatim>\<open>page_fault\<close> answers with \<^verbatim>\<open>thread_exit\<close>; \<open>EXITS\<close>
  is that outcome, \<open>RETURNS\<close> a normal return and \<open>None\<close> a panic.
\<close>

section \<open>State\<close>

record sproc = uproc +
  u_exit_status :: int
  u_output :: "u8 list"
  u_input :: "nat \<Rightarrow> u8"
  u_input_pos :: nat
  u_allocs :: nat

text \<open>
  What the allocators return: a kernel page, a mapping, and the page objects by the number of the request. \<open>se_kbyte\<close>
  are the bytes of kernel memory, \<open>se_junk\<close> the value of an uninitialised local variable and \<open>se_stack\<close> an uninitialised directory entry.
\<close>

record sys_env =
  se_page :: bool
  se_map :: bool
  se_pg :: "nat \<Rightarrow> vm_env"
  se_kbyte :: "u32 \<Rightarrow> u8"
  se_junk :: int
  se_stack :: "u8 list"

datatype 'a outcome = RETURNS 'a sproc | EXITS sproc

definition then_do :: "'a outcome option \<Rightarrow> ('a \<Rightarrow> sproc \<Rightarrow> 'b outcome option) \<Rightarrow> 'b outcome option" where
  "then_do r f = (case r of None \<Rightarrow> None | Some (EXITS p) \<Rightarrow> Some (EXITS p) | Some (RETURNS x p) \<Rightarrow> f x p)"

lemma then_do_simps [simp]:
  "then_do None f = None" "then_do (Some (EXITS p)) f = Some (EXITS p)" "then_do (Some (RETURNS x p)) f = f x p"
  by (simp_all add: then_do_def)

definition set_vm :: "vm \<Rightarrow> sproc \<Rightarrow> sproc" where
  "set_vm vm p = p\<lparr>u_vm := vm\<rparr>"

section \<open>User memory\<close>

text \<open>The frame that thread \<open>t\<close> sees at a user address, and the byte the kernel reads there.\<close>

definition user_frame :: "nat \<Rightarrow> u32 \<Rightarrow> vm \<Rightarrow> nat option" where
  "user_frame t va vm =
     (let e = ptes vm t (pg_round_down va)
      in if e AND PTE_P \<noteq> 0
         then find (\<lambda>i. pte_get_page e = Some (fkbase (s_frame vm ! i))) [0..<length (s_frame vm)] else None)"

definition byte_at :: "sys_env \<Rightarrow> nat \<Rightarrow> vm \<Rightarrow> u32 \<Rightarrow> u8 option" where
  "byte_at env t vm va =
     (if is_kernel_vaddr va then Some (se_kbyte env va)
      else map_option (\<lambda>i. frame_mem vm i ! unat (pg_ofs va)) (user_frame t va vm))"

definition bytes_at :: "sys_env \<Rightarrow> nat \<Rightarrow> vm \<Rightarrow> u32 \<Rightarrow> nat \<Rightarrow> u8 list option" where
  "bytes_at env t vm va n = those (map (\<lambda>j. byte_at env t vm (va + of_nat j)) [0..<n])"

definition word_at :: "sys_env \<Rightarrow> nat \<Rightarrow> vm \<Rightarrow> u32 \<Rightarrow> u32 option" where
  "word_at env t vm va = map_option of_le32 (bytes_at env t vm va 4)"

text \<open>Writing to the page of a user address; the processor marks the entry. A fault gives \<open>None\<close>.\<close>

definition put_bytes :: "nat \<Rightarrow> u32 \<Rightarrow> u8 list \<Rightarrow> vm \<Rightarrow> vm option" where
  "put_bytes t va b vm =
     (if b = [] then Some vm
      else do {
        i \<leftarrow> user_frame t va vm;
        let pg = pg_round_down va;
        Some (vm\<lparr>frame_mem := (frame_mem vm)(i := overlay (frame_mem vm i) (unat (pg_ofs va)) b),
                 ptes := (ptes vm)(t := (ptes vm t)(pg := ptes vm t pg OR PTE_A OR PTE_D))\<rparr>) })"

definition pd_get_page :: "nat \<Rightarrow> u32 \<Rightarrow> vm \<Rightarrow> u32 option" where
  "pd_get_page t va vm = do {
     ASSERT (is_user_vaddr va);
     if ptes vm t (pg_round_down va) AND PTE_P \<noteq> 0
     then do { page \<leftarrow> pte_get_page (ptes vm t (pg_round_down va)); Some (page + pg_ofs va) }
     else Some 0 }"

section \<open>Leaving and checking\<close>

definition exit_thread :: "int \<Rightarrow> sproc \<Rightarrow> 'a outcome option" where
  "exit_thread status p = Some (EXITS (p\<lparr>u_exit_status := status\<rparr>))"

definition is_ptr_in_user_vm_space :: "u32 \<Rightarrow> sproc \<Rightarrow> unit outcome option" where
  "is_ptr_in_user_vm_space vaddr p =
     (if vaddr \<ge> PHYS_BASE \<or> vaddr < 0x08048000 then exit_thread (-1) p else Some (RETURNS () p))"

fun validate_loop :: "u32 \<Rightarrow> nat \<Rightarrow> sproc \<Rightarrow> unit outcome option" where
  "validate_loop buffer 0 p = Some (RETURNS () p)"
| "validate_loop buffer (Suc n) p =
     then_do (is_ptr_in_user_vm_space buffer p) (\<lambda>_ p. validate_loop (buffer + 1) n p)"

definition validate_buffer_pointers :: "u32 \<Rightarrow> u32 \<Rightarrow> sproc \<Rightarrow> unit outcome option" where
  "validate_buffer_pointers buffer sz p =
     then_do (is_ptr_in_user_vm_space buffer p) (\<lambda>_ p. validate_loop buffer (unat sz) p)"

text \<open>Reading a word that may fault.\<close>

definition get_word :: "sys_env \<Rightarrow> nat \<Rightarrow> u32 \<Rightarrow> sproc \<Rightarrow> u32 outcome option" where
  "get_word env t va p = (case word_at env t (u_vm p) va of None \<Rightarrow> Some (EXITS p) | Some w \<Rightarrow> Some (RETURNS w p))"

fun args_from :: "sys_env \<Rightarrow> nat \<Rightarrow> u32 \<Rightarrow> nat \<Rightarrow> nat \<Rightarrow> sproc \<Rightarrow> u32 list outcome option" where
  "args_from env t esp i 0 p = Some (RETURNS [] p)"
| "args_from env t esp i (Suc n) p =
     (let ptr = esp + 4 * of_nat (i + 1)
      in then_do (is_ptr_in_user_vm_space ptr p) (\<lambda>_ p.
         then_do (get_word env t ptr p) (\<lambda>w p.
         then_do (args_from env t esp (i + 1) n p) (\<lambda>ws p. Some (RETURNS (w # ws) p)))))"

definition extract_args :: "sys_env \<Rightarrow> nat \<Rightarrow> u32 \<Rightarrow> nat \<Rightarrow> sproc \<Rightarrow> u32 list outcome option" where
  "extract_args env t esp limit p = args_from env t esp 0 limit p"

section \<open>Strings from user memory\<close>

text \<open>Copying within one page: \<open>n\<close> bytes of it are left.\<close>

datatype copy_state = COPIED "u8 list" | TOO_LONG | NEXT_PAGE u32 "u8 list" | FAULTED

fun copy_page :: "sys_env \<Rightarrow> nat \<Rightarrow> vm \<Rightarrow> nat \<Rightarrow> u32 \<Rightarrow> u8 list \<Rightarrow> copy_state" where
  "copy_page env t vm 0 user_str kernel_str = NEXT_PAGE user_str kernel_str"
| "copy_page env t vm (Suc n) user_str kernel_str =
     (case byte_at env t vm user_str of
        None \<Rightarrow> FAULTED
      | Some b \<Rightarrow>
          if b = 0 then COPIED kernel_str
          else if length kernel_str + 1 \<ge> 4096 then TOO_LONG
          else copy_page env t vm n (user_str + 1) (kernel_str @ [b]))"

definition lock_user_page :: "sys_env \<Rightarrow> nat \<Rightarrow> u32 \<Rightarrow> bool \<Rightarrow> sproc \<Rightarrow> (bool \<times> sproc) option" where
  "lock_user_page env t va to_write p = do {
     (ok, vm) \<leftarrow> lock_this_page (se_pg env (u_allocs p)) t va to_write (u_vm p);
     Some (ok, set_vm vm (p\<lparr>u_allocs := u_allocs p + 1\<rparr>)) }"

definition unlock_user_page :: "sys_env \<Rightarrow> nat \<Rightarrow> u32 \<Rightarrow> sproc \<Rightarrow> sproc option" where
  "unlock_user_page env t va p = do {
     vm \<leftarrow> unlock_this_page (se_pg env (u_allocs p)) t va (u_vm p);
     Some (set_vm vm p) }"

partial_function (option) copy_loop ::
  "sys_env \<Rightarrow> nat \<Rightarrow> u32 \<Rightarrow> u8 list \<Rightarrow> sproc \<Rightarrow> u8 list outcome option" where
  "copy_loop env t user_str kernel_str p = do {
     let usr_pg = pg_round_down user_str;
     (ok, p) \<leftarrow> lock_user_page env t usr_pg False p;
     if \<not> ok then Some (EXITS p)
     else case copy_page env t (u_vm p) (4096 - unat (pg_ofs user_str)) user_str kernel_str of
         FAULTED \<Rightarrow> Some (EXITS p)
       | COPIED s \<Rightarrow> do { p \<leftarrow> unlock_user_page env t usr_pg p; Some (RETURNS s p) }
       | TOO_LONG \<Rightarrow> do { p \<leftarrow> unlock_user_page env t usr_pg p; Some (EXITS p) }
       | NEXT_PAGE va s \<Rightarrow> do { p \<leftarrow> unlock_user_page env t usr_pg p; copy_loop env t va s p } }"

definition copy_commandline_arguments_to_kernel_page ::
  "sys_env \<Rightarrow> nat \<Rightarrow> u32 \<Rightarrow> sproc \<Rightarrow> u8 list outcome option" where
  "copy_commandline_arguments_to_kernel_page env t user_str p =
     (if se_page env then copy_loop env t user_str [] p else Some (EXITS p))"

section \<open>Files\<close>

definition get_file_structure :: "int \<Rightarrow> sproc \<Rightarrow> nat option" where
  "get_file_structure fd p = map_of (u_opened_files p) fd"

text \<open>
  A missing descriptor gives a null pointer, whose use is a fault. \<open>read_char\<close> is one round of the loop that reads the console.
\<close>

definition read_char :: "sys_env \<Rightarrow> nat \<Rightarrow> u32 \<Rightarrow> nat \<Rightarrow> sproc \<Rightarrow> unit outcome option" where
  "read_char env t buf itr p = do {
     let c = u_input p (u_input_pos p);
     (ok, p) \<leftarrow> lock_user_page env t buf True (p\<lparr>u_input_pos := u_input_pos p + 1\<rparr>);
     if \<not> ok then Some (EXITS p)
     else case put_bytes t (buf + of_nat itr) [c] (u_vm p) of
         None \<Rightarrow> Some (EXITS p)
       | Some vm \<Rightarrow> do { p \<leftarrow> unlock_user_page env t buf (set_vm vm p); Some (RETURNS () p) } }"

fun read_console :: "sys_env \<Rightarrow> nat \<Rightarrow> u32 \<Rightarrow> nat \<Rightarrow> nat \<Rightarrow> sproc \<Rightarrow> unit outcome option" where
  "read_console env t buf itr 0 p = Some (RETURNS () p)"
| "read_console env t buf itr (Suc n) p =
     then_do (read_char env t buf itr p) (\<lambda>_ p. read_console env t buf (itr + 1) n p)"

text \<open>The part of one page of \<open>read_file\<close>; the result is \<open>retval\<close>, which reading the console leaves uninitialised.\<close>

definition read_part :: "sys_env \<Rightarrow> nat \<Rightarrow> int \<Rightarrow> nat option \<Rightarrow> u32 \<Rightarrow> nat \<Rightarrow> sproc \<Rightarrow> int outcome option" where
  "read_part env t fd f_d buf r_vol p =
     (if fd \<noteq> 0
      then do {
        (ok, p) \<leftarrow> lock_user_page env t buf True p;
        if \<not> ok then Some (EXITS p)
        else case f_d of
            None \<Rightarrow> Some (EXITS p)
          | Some k \<Rightarrow> do {
              (b, f) \<leftarrow> file_read k (int r_vol) (u_fs p);
              let p = p\<lparr>u_fs := f\<rparr>;
              case put_bytes t buf b (u_vm p) of
                None \<Rightarrow> Some (EXITS p)
              | Some vm \<Rightarrow> do { p \<leftarrow> unlock_user_page env t buf (set_vm vm p); Some (RETURNS (int (length b)) p) } } }
      else then_do (read_console env t buf 0 r_vol p) (\<lambda>_ p. Some (RETURNS (se_junk env) p)))"

partial_function (option) read_file_loop ::
  "sys_env \<Rightarrow> nat \<Rightarrow> int \<Rightarrow> nat option \<Rightarrow> u32 \<Rightarrow> u32 \<Rightarrow> int \<Rightarrow> sproc \<Rightarrow> int outcome option" where
  "read_file_loop env t fd f_d buf sz amount p =
     (if sz > 0
      then let rem_page_size = PGSIZE - pg_ofs buf; r_vol = (if sz < rem_page_size then sz else rem_page_size)
        in case read_part env t fd f_d buf (unat r_vol) p of
             None \<Rightarrow> None
           | Some r \<Rightarrow> (case r of
               EXITS p \<Rightarrow> Some (EXITS p)
             | RETURNS retval p \<Rightarrow>
                 let amount = (if fd = 0 then sint r_vol else amount)
                 in if retval < 0 then Some (RETURNS (if amount = 0 then -1 else amount) p)
                    else if retval \<noteq> sint r_vol then Some (RETURNS (amount + retval) p)
                    else read_file_loop env t fd f_d (buf + of_int retval) (sz - of_int retval) (amount + retval) p)
      else Some (RETURNS amount p))"

definition read_file :: "sys_env \<Rightarrow> nat \<Rightarrow> int \<Rightarrow> u32 \<Rightarrow> u32 \<Rightarrow> sproc \<Rightarrow> int outcome option" where
  "read_file env t fd buffer sz p = read_file_loop env t fd (get_file_structure fd p) buffer sz 0 p"

text \<open>The part of one page of \<open>write_file\<close>: reading the buffer can fault while the page is held.\<close>

definition write_part :: "sys_env \<Rightarrow> nat \<Rightarrow> int \<Rightarrow> nat option \<Rightarrow> u32 \<Rightarrow> nat \<Rightarrow> sproc \<Rightarrow> int outcome option" where
  "write_part env t fd f_d buf w_vol p = do {
     (ok, p) \<leftarrow> lock_user_page env t buf False p;
     if \<not> ok then Some (EXITS p)
     else case bytes_at env t (u_vm p) buf w_vol of
         None \<Rightarrow> Some (EXITS p)
       | Some b \<Rightarrow>
           if fd = 1
           then do {
             p \<leftarrow> unlock_user_page env t buf (p\<lparr>u_output := u_output p @ b\<rparr>);
             Some (RETURNS (int w_vol) p) }
           else (case f_d of
               None \<Rightarrow> Some (EXITS p)
             | Some k \<Rightarrow> do {
                 (n, f) \<leftarrow> file_write k b (int w_vol) (u_fs p);
                 p \<leftarrow> unlock_user_page env t buf (p\<lparr>u_fs := f\<rparr>);
                 Some (RETURNS (int n) p) }) }"

partial_function (option) write_file_loop ::
  "sys_env \<Rightarrow> nat \<Rightarrow> int \<Rightarrow> nat option \<Rightarrow> u32 \<Rightarrow> u32 \<Rightarrow> int \<Rightarrow> sproc \<Rightarrow> int outcome option" where
  "write_file_loop env t fd f_d buf sz amount p =
     (if sz > 0
      then let rem_page_size = PGSIZE - pg_ofs buf; w_vol = (if sz < rem_page_size then sz else rem_page_size)
        in case write_part env t fd f_d buf (unat w_vol) p of
             None \<Rightarrow> None
           | Some r \<Rightarrow> (case r of
               EXITS p \<Rightarrow> Some (EXITS p)
             | RETURNS retval p \<Rightarrow>
                 if retval < 0 then Some (RETURNS (if amount = 0 then -1 else amount) p)
                 else if retval \<noteq> sint w_vol then Some (RETURNS (amount + retval) p)
                 else write_file_loop env t fd f_d (buf + of_int retval) (sz - of_int retval) (amount + retval) p)
      else Some (RETURNS amount p))"

definition write_file :: "sys_env \<Rightarrow> nat \<Rightarrow> int \<Rightarrow> u32 \<Rightarrow> u32 \<Rightarrow> sproc \<Rightarrow> int outcome option" where
  "write_file env t fd buffer sz p =
     write_file_loop env t fd (if fd \<noteq> 1 then get_file_structure fd p else None) buffer sz 0 p"

text \<open>The page for the new descriptor is used without a check. The next descriptor is an \<^verbatim>\<open>int\<close>, here and in \<open>memory_map\<close>: counting it past
  its largest value has no result.\<close>

definition open_file :: "sys_env \<Rightarrow> u8 list \<Rightarrow> sproc \<Rightarrow> int outcome option" where
  "open_file env file_name p = do {
     (file, f) \<leftarrow> filesys_open file_name (u_fs p);
     let p = p\<lparr>u_fs := f\<rparr>;
     case file of
       None \<Rightarrow> Some (RETURNS (-1) p)
     | Some k \<Rightarrow>
         if \<not> se_page env then Some (EXITS p)
         else do {
           ASSERT (u_thread_fd p < 2147483647);
           Some (RETURNS (u_thread_fd p)
             (p\<lparr>u_opened_files := u_opened_files p @ [(u_thread_fd p, k)], u_thread_fd := u_thread_fd p + 1\<rparr>)) } }"

definition close_files :: "int \<Rightarrow> sproc \<Rightarrow> unit outcome option" where
  "close_files fd p =
     (case get_file_structure fd p of
        None \<Rightarrow> Some (RETURNS () p)
      | Some k \<Rightarrow> do {
          f \<leftarrow> file_close (Some k) (u_fs p);
          Some (RETURNS () (p\<lparr>u_fs := f, u_opened_files := remove1 (fd, k) (u_opened_files p)\<rparr>)) })"

definition filesize :: "int \<Rightarrow> sproc \<Rightarrow> int outcome option" where
  "filesize fd p =
     (case get_file_structure fd p of
        None \<Rightarrow> Some (RETURNS (-1) p)
      | Some k \<Rightarrow> do { n \<leftarrow> file_length k (u_fs p); Some (RETURNS n p) })"

definition fileseek :: "int \<Rightarrow> u32 \<Rightarrow> sproc \<Rightarrow> unit outcome option" where
  "fileseek fd ps p =
     (case get_file_structure fd p of
        None \<Rightarrow> Some (RETURNS () p)
      | Some k \<Rightarrow> do { f \<leftarrow> file_seek k (sint ps) (u_fs p); Some (RETURNS () (p\<lparr>u_fs := f\<rparr>)) })"

definition filetell :: "int \<Rightarrow> sproc \<Rightarrow> u32 outcome option" where
  "filetell fd p =
     (case get_file_structure fd p of
        None \<Rightarrow> Some (RETURNS (-1) p)
      | Some k \<Rightarrow> do { n \<leftarrow> file_tell k (u_fs p); Some (RETURNS (of_nat n) p) })"


section \<open>Mapped files\<close>

definition get_map :: "int \<Rightarrow> sproc \<Rightarrow> mmap outcome option" where
  "get_map i p = (case find (\<lambda>mp. map_id mp = i) (u_map_list p) of
     Some mp \<Rightarrow> Some (RETURNS mp p) | None \<Rightarrow> Some (EXITS p))"

fun unmap_pages :: "sys_env \<Rightarrow> nat \<Rightarrow> u32 \<Rightarrow> nat \<Rightarrow> sproc \<Rightarrow> sproc option" where
  "unmap_pages env t vaddr 0 p = Some p"
| "unmap_pages env t vaddr (Suc n) p = do {
     vm \<leftarrow> deallocation_of_page (se_pg env (u_allocs p)) t vaddr (u_vm p);
     unmap_pages env t (vaddr + PGSIZE) n (set_vm vm (p\<lparr>u_allocs := u_allocs p + 1\<rparr>)) }"

text \<open>Identifiers of mappings are distinct, so that one names the list element to remove.\<close>

definition unmap :: "sys_env \<Rightarrow> nat \<Rightarrow> mmap \<Rightarrow> sproc \<Rightarrow> sproc option" where
  "unmap env t mapping p = do {
     p \<leftarrow> unmap_pages env t (start_addr mapping) (num_of_pages mapping) p;
     Some (p\<lparr>u_map_list := filter (\<lambda>mp. map_id mp \<noteq> map_id mapping) (u_map_list p)\<rparr>) }"

definition memory_unmap :: "sys_env \<Rightarrow> nat \<Rightarrow> int \<Rightarrow> sproc \<Rightarrow> int outcome option" where
  "memory_unmap env t mapping p =
     then_do (get_map mapping p) (\<lambda>mp p. do { p \<leftarrow> unmap env t mp p; Some (RETURNS 0 p) })"

definition count_page :: "int \<Rightarrow> sproc \<Rightarrow> sproc" where
  "count_page i p = p\<lparr>u_map_list :=
     map (\<lambda>mp. if map_id mp = i then mp\<lparr>num_of_pages := num_of_pages mp + 1\<rparr> else mp) (u_map_list p)\<rparr>"

text \<open>The loop over the pages of the file: \<open>len\<close> bytes are left, from \<open>offs\<close> on.\<close>

function map_loop :: "sys_env \<Rightarrow> nat \<Rightarrow> mmap \<Rightarrow> nat \<Rightarrow> int \<Rightarrow> sproc \<Rightarrow> int outcome option" where
  "map_loop env t mp offs len p =
     (if len > 0
      then do {
        (pg, vm) \<leftarrow> allocation_of_page (se_pg env (u_allocs p)) t (start_addr mp + of_nat offs) False (u_vm p);
        let p = set_vm vm (p\<lparr>u_allocs := u_allocs p + 1\<rparr>);
        case pg of
          None \<Rightarrow> do { p \<leftarrow> unmap env t mp p; Some (RETURNS (-1) p) }
        | Some q \<Rightarrow>
            let n = (if len \<ge> 4096 then 4096 else nat len);
                vm = upd_page q (\<lambda>pg. pg\<lparr>pg_file := Some (map_file mp), pg_private := False, f_ofs := offs, byts_rw_f := n\<rparr>) (u_vm p)
            in map_loop env t (mp\<lparr>num_of_pages := num_of_pages mp + 1\<rparr>) (offs + n) (len - int n)
                 (count_page (map_id mp) (set_vm vm p)) }
      else Some (RETURNS (map_id mp) p))"
  by pat_completeness auto
termination
  by (relation "measure (\<lambda>(env, t, mp, offs, len, p). nat len)") (auto simp: Let_def split: if_splits)

declare map_loop.simps [simp del]

text \<open>A missing descriptor is a null pointer here too. A mapping that is not used is not freed.\<close>

definition memory_map :: "sys_env \<Rightarrow> nat \<Rightarrow> int \<Rightarrow> u32 \<Rightarrow> sproc \<Rightarrow> int outcome option" where
  "memory_map env t fd address p =
     (if \<not> se_map env \<or> address = 0 \<or> pg_ofs address \<noteq> 0 then Some (RETURNS (-1) p)
      else do {
        ASSERT (u_thread_fd p < 2147483647);
        let i = u_thread_fd p; f_d = get_file_structure fd p; p = p\<lparr>u_thread_fd := u_thread_fd p + 1\<rparr>
        in case f_d of
             None \<Rightarrow> Some (EXITS p)
           | Some k \<Rightarrow> do {
               (file, f) \<leftarrow> file_reopen k (u_fs p);
               let p = p\<lparr>u_fs := f\<rparr>;
               case file of
                 None \<Rightarrow> Some (RETURNS (-1) p)
               | Some q \<Rightarrow> do {
                   let mp = \<lparr>map_id = i, map_file = q, num_of_pages = 0, start_addr = address\<rparr>;
                   len \<leftarrow> file_length q (u_fs p);
                   map_loop env t mp 0 len (p\<lparr>u_map_list := mp # u_map_list p\<rparr>) } } })"

section \<open>The handler\<close>

definition SYS_HALT :: u32 where "SYS_HALT = 0"
definition SYS_EXIT :: u32 where "SYS_EXIT = 1"
definition SYS_EXEC :: u32 where "SYS_EXEC = 2"
definition SYS_WAIT :: u32 where "SYS_WAIT = 3"
definition SYS_CREATE :: u32 where "SYS_CREATE = 4"
definition SYS_REMOVE :: u32 where "SYS_REMOVE = 5"
definition SYS_OPEN :: u32 where "SYS_OPEN = 6"
definition SYS_FILESIZE :: u32 where "SYS_FILESIZE = 7"
definition SYS_READ :: u32 where "SYS_READ = 8"
definition SYS_WRITE :: u32 where "SYS_WRITE = 9"
definition SYS_SEEK :: u32 where "SYS_SEEK = 10"
definition SYS_TELL :: u32 where "SYS_TELL = 11"
definition SYS_CLOSE :: u32 where "SYS_CLOSE = 12"
definition SYS_MMAP :: u32 where "SYS_MMAP = 13"
definition SYS_MUNMAP :: u32 where "SYS_MUNMAP = 14"

lemmas sys_defs = SYS_HALT_def SYS_EXIT_def SYS_EXEC_def SYS_WAIT_def SYS_CREATE_def SYS_REMOVE_def SYS_OPEN_def
  SYS_FILESIZE_def SYS_READ_def SYS_WRITE_def SYS_SEEK_def SYS_TELL_def SYS_CLOSE_def SYS_MMAP_def SYS_MUNMAP_def

text \<open>
  What the handler leaves: a new value of \<open>eax\<close>, the old one, or a call that goes on in the thread model, where
  \<open>exec_process\<close> and \<open>process_wait\<close> are.
\<close>

datatype reply = EAX u32 | KEPT | HALTED | EXEC "u8 list" | WAIT int

definition reply_of :: "('a \<Rightarrow> u32) \<Rightarrow> 'a outcome option \<Rightarrow> reply outcome option" where
  "reply_of w r = then_do r (\<lambda>x p. Some (RETURNS (EAX (w x)) p))"

definition kept :: "'a outcome option \<Rightarrow> reply outcome option" where
  "kept r = then_do r (\<lambda>x p. Some (RETURNS KEPT p))"

definition bool_word :: "bool \<Rightarrow> u32" where
  "bool_word b = (if b then 1 else 0)"

text \<open>The buffer or name of a call is replaced by the kernel address of its page; without a page the process exits.\<close>

definition kernel_arg :: "nat \<Rightarrow> u32 \<Rightarrow> sproc \<Rightarrow> u32 outcome option" where
  "kernel_arg t va p = do {
     k \<leftarrow> pd_get_page t va (u_vm p);
     if k = 0 then exit_thread (-1) p else Some (RETURNS k p) }"

definition sys_create :: "sys_env \<Rightarrow> nat \<Rightarrow> u32 \<Rightarrow> u32 \<Rightarrow> sproc \<Rightarrow> reply outcome option" where
  "sys_create env t name initial_size p =
     then_do (kernel_arg t name p) (\<lambda>k p.
     then_do (copy_commandline_arguments_to_kernel_page env t k p) (\<lambda>filename p. do {
       (ok, f) \<leftarrow> filesys_create (se_stack env) filename (sint initial_size) (u_fs p);
       Some (RETURNS (EAX (bool_word ok)) (p\<lparr>u_fs := f\<rparr>)) }))"

definition sys_remove :: "sys_env \<Rightarrow> nat \<Rightarrow> u32 \<Rightarrow> sproc \<Rightarrow> reply outcome option" where
  "sys_remove env t name p =
     then_do (copy_commandline_arguments_to_kernel_page env t name p) (\<lambda>filename p. do {
       (ok, f) \<leftarrow> filesys_remove filename (u_fs p);
       Some (RETURNS (EAX (bool_word ok)) (p\<lparr>u_fs := f\<rparr>)) })"

definition sys_open :: "sys_env \<Rightarrow> nat \<Rightarrow> u32 \<Rightarrow> sproc \<Rightarrow> reply outcome option" where
  "sys_open env t name p =
     then_do (kernel_arg t name p) (\<lambda>k p.
     then_do (copy_commandline_arguments_to_kernel_page env t k p) (\<lambda>filename p. reply_of of_int (open_file env filename p)))"

definition sys_read :: "sys_env \<Rightarrow> nat \<Rightarrow> int \<Rightarrow> u32 \<Rightarrow> u32 \<Rightarrow> sproc \<Rightarrow> reply outcome option" where
  "sys_read env t fd buffer sz p =
     then_do (validate_buffer_pointers buffer sz p) (\<lambda>_ p.
     then_do (kernel_arg t buffer p) (\<lambda>k p. reply_of of_int (read_file env t fd k sz p)))"

definition sys_write :: "sys_env \<Rightarrow> nat \<Rightarrow> int \<Rightarrow> u32 \<Rightarrow> u32 \<Rightarrow> sproc \<Rightarrow> reply outcome option" where
  "sys_write env t fd buffer sz p =
     then_do (validate_buffer_pointers buffer sz p) (\<lambda>_ p.
     then_do (kernel_arg t buffer p) (\<lambda>k p. reply_of of_int (write_file env t fd k sz p)))"

text \<open>One case of the switch, with the arguments it extracts.\<close>

definition with_args ::
  "sys_env \<Rightarrow> nat \<Rightarrow> u32 \<Rightarrow> nat \<Rightarrow> (u32 list \<Rightarrow> sproc \<Rightarrow> reply outcome option) \<Rightarrow> sproc \<Rightarrow> reply outcome option" where
  "with_args env t esp limit f p = then_do (extract_args env t esp limit p) f"

definition dispatch :: "sys_env \<Rightarrow> nat \<Rightarrow> u32 \<Rightarrow> u32 \<Rightarrow> sproc \<Rightarrow> reply outcome option" where
  "dispatch env t esp n p =
     (if n = SYS_HALT then Some (RETURNS HALTED p)
      else if n = SYS_EXIT then with_args env t esp 1 (\<lambda>a p. exit_thread (sint (a ! 0)) p) p
      else if n = SYS_EXEC then with_args env t esp 1 (\<lambda>a p.
        then_do (copy_commandline_arguments_to_kernel_page env t (a ! 0) p) (\<lambda>s p. Some (RETURNS (EXEC s) p))) p
      else if n = SYS_WAIT then with_args env t esp 1 (\<lambda>a p. Some (RETURNS (WAIT (sint (a ! 0))) p)) p
      else if n = SYS_CREATE then with_args env t esp 2 (\<lambda>a p. sys_create env t (a ! 0) (a ! 1) p) p
      else if n = SYS_REMOVE then with_args env t esp 1 (\<lambda>a p. sys_remove env t (a ! 0) p) p
      else if n = SYS_OPEN then with_args env t esp 1 (\<lambda>a p. sys_open env t (a ! 0) p) p
      else if n = SYS_FILESIZE then with_args env t esp 1 (\<lambda>a p.
        if sint (a ! 0) < 2 then exit_thread (-1) p else reply_of of_int (filesize (sint (a ! 0)) p)) p
      else if n = SYS_READ then with_args env t esp 3 (\<lambda>a p. sys_read env t (sint (a ! 0)) (a ! 1) (a ! 2) p) p
      else if n = SYS_WRITE then with_args env t esp 3 (\<lambda>a p. sys_write env t (sint (a ! 0)) (a ! 1) (a ! 2) p) p
      else if n = SYS_SEEK then with_args env t esp 2 (\<lambda>a p. kept (fileseek (sint (a ! 0)) (a ! 1) p)) p
      else if n = SYS_TELL then with_args env t esp 1 (\<lambda>a p. reply_of id (filetell (sint (a ! 0)) p)) p
      else if n = SYS_CLOSE then with_args env t esp 1 (\<lambda>a p.
        if a ! 0 = 0 \<or> a ! 0 = 1 then Some (RETURNS (EAX 0) p) else kept (close_files (sint (a ! 0)) p)) p
      else if n = SYS_MMAP then with_args env t esp 2 (\<lambda>a p. reply_of of_int (memory_map env t (sint (a ! 0)) (a ! 1) p)) p
      else if n = SYS_MUNMAP then with_args env t esp 1 (\<lambda>a p. kept (memory_unmap env t (sint (a ! 0)) p)) p
      else exit_thread (-1) p)"

definition syscall_handler :: "sys_env \<Rightarrow> nat \<Rightarrow> u32 \<Rightarrow> sproc \<Rightarrow> reply outcome option" where
  "syscall_handler env t esp p =
     then_do (is_ptr_in_user_vm_space esp p) (\<lambda>_ p.
     then_do (get_word env t esp p) (\<lambda>n p. dispatch env t esp n p))"

text \<open>The page fault handler, from the three bits of the error code: a fault of the user at an absent page is paged in.\<close>

datatype fault_reply = RESUMED | KILLED | KERNEL_EXIT

definition page_fault ::
  "sys_env \<Rightarrow> nat \<Rightarrow> u32 \<Rightarrow> bool \<Rightarrow> bool \<Rightarrow> sproc \<Rightarrow> (fault_reply \<times> sproc) option" where
  "page_fault env t fault_addr not_present user p =
     (if user \<and> not_present
      then do {
        (ok, vm) \<leftarrow> page_in (se_pg env (u_allocs p)) t fault_addr (u_vm p);
        Some (if ok then RESUMED else KILLED, set_vm vm (p\<lparr>u_allocs := u_allocs p + 1\<rparr>)) }
      else if \<not> user then Some (KERNEL_EXIT, p)
      else Some (KILLED, p))"

end
