(* ===== verification/Syscall_Props.thy ===== *)
theory Syscall_Props
  imports Syscall Process_Props Inode_Props
begin

text \<open>
  The system calls: what the handler does with the buffers of a process, the table of descriptors, and writing to the console.
\<close>

lemma those_Some: "(\<And>x. x \<in> set xs \<Longrightarrow> f x = Some (g x)) \<Longrightarrow> those (map f xs) = Some (map g xs)"
  by (induction xs) simp_all

lemma bytes_atI: "(\<And>j. j < n \<Longrightarrow> byte_at env t vm (va + of_nat j) = Some (g j)) \<Longrightarrow> bytes_at env t vm va n = Some (map g [0..<n])"
  unfolding bytes_at_def by (rule those_Some) simp

lemma slice: "k + n \<le> length xs \<Longrightarrow> map (\<lambda>j. xs ! (k + j)) [0..<n] = take n (drop k xs)"
  by (intro nth_equalityI) simp_all

section \<open>Arguments\<close>

text \<open>A process that exits with its files, its console output and its memory as they were.\<close>

definition stopped :: "sproc \<Rightarrow> 'a outcome option \<Rightarrow> bool" where
  "stopped p r \<longleftrightarrow> (\<exists>p'. r = Some (EXITS p') \<and> u_fs p' = u_fs p \<and> u_output p' = u_output p \<and> u_vm p' = u_vm p \<and>
     u_opened_files p' = u_opened_files p \<and> u_map_list p' = u_map_list p)"

lemma stopped_exit [simp]: "stopped p (exit_thread st p)" "stopped p (Some (EXITS p))"
  by (simp_all add: stopped_def exit_thread_def)

lemma stopped_then: "stopped p r \<Longrightarrow> stopped p (then_do r f)"
  by (auto simp: stopped_def)

lemma check_cases:
  obtains "is_ptr_in_user_vm_space va p = exit_thread (-1) p"
  | "is_ptr_in_user_vm_space va p = Some (RETURNS () p)" "0x08048000 \<le> va" "va < PHYS_BASE"
  by (cases "va \<ge> PHYS_BASE \<or> va < 0x08048000") (auto simp: is_ptr_in_user_vm_space_def not_le not_less)

lemma check_then:
  assumes "0x08048000 \<le> va \<Longrightarrow> va < PHYS_BASE \<Longrightarrow> stopped p (f () p)"
  shows "stopped p (then_do (is_ptr_in_user_vm_space va p) f)"
  by (rule check_cases [of va p]) (use assms in \<open>auto intro: stopped_then\<close>)

lemma args_from_cases:
  "stopped p (args_from env t esp i n p) \<or>
   (\<exists>ws. args_from env t esp i n p = Some (RETURNS ws p) \<and> length ws = n \<and>
     (\<forall>j<n. word_at env t (u_vm p) (esp + 4 * of_nat (i + 1 + j)) = Some (ws ! j)))"
proof (induction n arbitrary: i)
  case (Suc n)
  let ?ptr = "esp + 4 * of_nat (i + 1)"
  show ?case
  proof (rule check_cases [of ?ptr p])
    assume "is_ptr_in_user_vm_space ?ptr p = exit_thread (-1) p"
    then have "stopped p (args_from env t esp i (Suc n) p)" by (simp add: exit_thread_def) (simp add: stopped_def)
    then show ?thesis ..
  next
    assume c: "is_ptr_in_user_vm_space ?ptr p = Some (RETURNS () p)"
    show ?thesis
    proof (cases "word_at env t (u_vm p) ?ptr")
      case None
      then have "stopped p (args_from env t esp i (Suc n) p)" using c by (simp add: get_word_def)
      then show ?thesis ..
    next
      case (Some w)
      then have e: "args_from env t esp i (Suc n) p =
          then_do (args_from env t esp (i + 1) n p) (\<lambda>ws p. Some (RETURNS (w # ws) p))"
        using c by (simp add: get_word_def)
      from Suc.IH [of "i + 1"] show ?thesis
      proof
        assume "stopped p (args_from env t esp (i + 1) n p)"
        then show ?thesis unfolding e using stopped_then by blast
      next
        assume "\<exists>ws. args_from env t esp (i + 1) n p = Some (RETURNS ws p) \<and> length ws = n \<and>
          (\<forall>j<n. word_at env t (u_vm p) (esp + 4 * of_nat (i + 1 + 1 + j)) = Some (ws ! j))"
        then obtain ws where ws: "args_from env t esp (i + 1) n p = Some (RETURNS ws p)" "length ws = n"
          "\<forall>j<n. word_at env t (u_vm p) (esp + 4 * of_nat (i + 1 + 1 + j)) = Some (ws ! j)" by blast
        have "\<forall>j<Suc n. word_at env t (u_vm p) (esp + 4 * of_nat (i + 1 + j)) = Some ((w # ws) ! j)"
        proof (intro allI impI)
          fix j assume "j < Suc n"
          then show "word_at env t (u_vm p) (esp + 4 * of_nat (i + 1 + j)) = Some ((w # ws) ! j)"
            using Some ws(3) [THEN spec, of "j - 1"] by (cases j) simp_all
        qed
        then have "args_from env t esp i (Suc n) p = Some (RETURNS (w # ws) p) \<and> length (w # ws) = Suc n \<and>
            (\<forall>j<Suc n. word_at env t (u_vm p) (esp + 4 * of_nat (i + 1 + j)) = Some ((w # ws) ! j))"
          unfolding e using ws by simp
        then show ?thesis by blast
      qed
    qed
  qed
qed simp

lemma with_args_stopped:
  assumes "\<And>ws. length ws = n \<Longrightarrow> (\<forall>j<n. word_at env t (u_vm p) (esp + 4 * of_nat (1 + j)) = Some (ws ! j)) \<Longrightarrow> stopped p (f ws p)"
  shows "stopped p (with_args env t esp n f p)"
  using args_from_cases [of p env t esp 0 n]
proof
  assume "stopped p (args_from env t esp 0 n p)"
  then show ?thesis unfolding with_args_def extract_args_def by (rule stopped_then)
next
  assume "\<exists>ws. args_from env t esp 0 n p = Some (RETURNS ws p) \<and> length ws = n \<and>
     (\<forall>j<n. word_at env t (u_vm p) (esp + 4 * of_nat (0 + 1 + j)) = Some (ws ! j))"
  then show ?thesis using assms by (auto simp: with_args_def extract_args_def)
qed

section \<open>Buffers at kernel addresses\<close>

text \<open>The entries of the page directory lead to pages in kernel memory.\<close>

definition kernel_frames :: "nat \<Rightarrow> vm \<Rightarrow> bool" where
  "kernel_frames t vm \<longleftrightarrow> (\<forall>va. ptes vm t va AND PTE_P \<noteq> 0 \<longrightarrow>
     (\<exists>k. pte_get_page (ptes vm t va) = Some k \<and> PHYS_BASE \<le> k \<and> pg_ofs k = 0))"

lemma page_plus_offset:
  assumes "PHYS_BASE \<le> k" and "pg_ofs k = 0"
  shows "PHYS_BASE \<le> k + pg_ofs va"
proof -
  have "unat k mod 4096 = 0" using assms(2) pg_ofs_0_iff by blast
  then have "4096 dvd unat k" by (simp add: dvd_eq_mod_eq_0)
  then obtain q where q: "unat k = 4096 * q" by (elim dvdE)
  moreover have "unat k < 4294967296" using unsigned_less [of k] by simp
  ultimately have "q \<le> 1048575" by simp
  then have "unat k + 4096 \<le> 4294967296" using q by simp
  moreover have "unat (pg_ofs va) < 4096" by (simp add: unat_pg_ofs)
  ultimately have "unat (k + pg_ofs va) = unat k + unat (pg_ofs va)" using unat_add_lem [of k "pg_ofs va"] by simp
  then show ?thesis using assms(1) by (simp add: word_le_nat_alt)
qed

lemma kernel_arg_cases:
  assumes "kernel_frames t (u_vm p)" and "va < PHYS_BASE"
  shows "stopped p (kernel_arg t va p) \<or> (\<exists>k. kernel_arg t va p = Some (RETURNS k p) \<and> PHYS_BASE \<le> k)"
proof (cases "ptes (u_vm p) t (pg_round_down va) AND PTE_P = 0")
  case True
  then show ?thesis using assms(2) by (simp add: kernel_arg_def pd_get_page_def is_user_vaddr_def)
next
  case False
  then obtain k where k: "pte_get_page (ptes (u_vm p) t (pg_round_down va)) = Some k" "PHYS_BASE \<le> k" "pg_ofs k = 0"
    using assms(1) unfolding kernel_frames_def by blast
  have g: "PHYS_BASE \<le> k + pg_ofs va" by (rule page_plus_offset [OF k(2,3)])
  have "\<not> PHYS_BASE \<le> 0" by (simp add: PHYS_BASE_def)
  then have "k + pg_ofs va \<noteq> 0" using g by metis
  then have "kernel_arg t va p = Some (RETURNS (k + pg_ofs va) p)"
    using False k(1) assms(2) by (simp add: kernel_arg_def pd_get_page_def is_user_vaddr_def)
  then show ?thesis using g by blast
qed

lemma kernel_page: "PHYS_BASE \<le> va \<Longrightarrow> PHYS_BASE \<le> pg_round_down va"
proof -
  assume "PHYS_BASE \<le> va"
  then have "3221225472 \<le> unat va" by (simp add: word_le_nat_alt PHYS_BASE_def)
  then have "786432 \<le> unat va div 4096" using div_le_mono [of 3221225472 "unat va" 4096] by simp
  moreover have "4096 * (unat va div 4096) + unat va mod 4096 = unat va" by simp
  ultimately have "3221225472 \<le> unat va - unat va mod 4096" by linarith
  then show ?thesis by (simp add: word_le_nat_alt PHYS_BASE_def unat_round_down)
qed

lemma lock_kernel_page:
  assumes "PHYS_BASE \<le> va"
  shows "lock_user_page env t va w p = Some (False, set_vm (u_vm p) (p\<lparr>u_allocs := u_allocs p + 1\<rparr>))"
  using assms by (auto simp: lock_user_page_def lock_this_page_def page_for_addr_def)

lemma copy_kernel:
  assumes "PHYS_BASE \<le> k"
  shows "stopped p (copy_commandline_arguments_to_kernel_page env t k p)"
  using lock_kernel_page [OF kernel_page [OF assms]]
  by (auto simp: copy_commandline_arguments_to_kernel_page_def copy_loop.simps stopped_def set_vm_def)

lemma read_kernel:
  assumes "PHYS_BASE \<le> k" and "sz \<noteq> 0"
  shows "stopped p (read_file env t fd k sz p)"
proof -
  have pos: "sz > 0" using assms(2) by (simp add: word_gt_0)
  define r where "r = (if sz < PGSIZE - pg_ofs k then sz else PGSIZE - pg_ofs k)"
  have "unat (pg_ofs k) < 4096" by (simp add: unat_pg_ofs)
  then have "pg_ofs k < PGSIZE" by (simp add: word_less_nat_alt PGSIZE_def)
  then have "PGSIZE - pg_ofs k \<noteq> 0" by auto
  then have "r \<noteq> 0" using assms(2) by (simp add: r_def)
  then have "unat r \<noteq> 0" by (simp add: unat_eq_0)
  then obtain n where n: "unat r = Suc n" using not0_implies_Suc by blast
  have "stopped p (read_part env t fd f_d k (unat r) p)" for f_d
  proof (cases "fd = 0")
    case True
    have l: "lock_user_page env t k True (p\<lparr>u_input_pos := u_input_pos p + 1\<rparr>) =
        Some (False, set_vm (u_vm p) (p\<lparr>u_input_pos := u_input_pos p + 1, u_allocs := u_allocs p + 1\<rparr>))"
      using lock_kernel_page [OF assms(1), of env t True "p\<lparr>u_input_pos := u_input_pos p + 1\<rparr>"] by simp
    show ?thesis using True unfolding n by (simp add: read_part_def read_char_def l [simplified]) (simp add: stopped_def set_vm_def)
  next
    case False
    then show ?thesis by (simp add: read_part_def lock_kernel_page [OF assms(1)]) (simp add: stopped_def set_vm_def)
  qed
  then obtain p' where e: "read_part env t fd (get_file_structure fd p) k (unat r) p = Some (EXITS p')"
    and s: "stopped p (Some (EXITS p') :: int outcome option)" unfolding stopped_def by blast
  have "read_file env t fd k sz p = Some (EXITS p')"
    unfolding read_file_def read_file_loop.simps [of env t fd "get_file_structure fd p" k sz] Let_def r_def [symmetric] e using pos by simp
  then show ?thesis using s by simp
qed

lemma write_kernel:
  assumes "PHYS_BASE \<le> k" and "sz \<noteq> 0"
  shows "stopped p (write_file env t fd k sz p)"
proof -
  have pos: "sz > 0" using assms(2) by (simp add: word_gt_0)
  have "write_part env t fd f_d k n p = Some (EXITS (set_vm (u_vm p) (p\<lparr>u_allocs := u_allocs p + 1\<rparr>)))" for f_d n
    by (simp add: write_part_def lock_kernel_page [OF assms(1)])
  then show ?thesis
    using pos by (simp add: write_file_def write_file_loop.simps [of env t fd _ k sz] Let_def stopped_def set_vm_def)
qed


lemma validate_cases:
  "stopped p (validate_loop va n p) \<or> validate_loop va n p = Some (RETURNS () p)"
proof (induction n arbitrary: va)
  case (Suc n)
  show ?case by (rule check_cases [of va p]) (use Suc [of "va + 1"] in \<open>auto intro: stopped_then\<close>)
qed simp

lemma buffer_then:
  assumes "va < PHYS_BASE \<Longrightarrow> stopped p (f () p)"
  shows "stopped p (then_do (validate_buffer_pointers va sz p) f)"
proof (rule check_cases [of va p])
  assume "is_ptr_in_user_vm_space va p = exit_thread (-1) p"
  then show ?thesis by (auto simp: validate_buffer_pointers_def intro!: stopped_then)
next
  assume "is_ptr_in_user_vm_space va p = Some (RETURNS () p)" "va < PHYS_BASE"
  then show ?thesis using validate_cases [of p va "unat sz"] assms
    by (auto simp: validate_buffer_pointers_def intro: stopped_then)
qed

lemma arg_then:
  assumes "kernel_frames t (u_vm p)" and "va < PHYS_BASE" and "\<And>k. PHYS_BASE \<le> k \<Longrightarrow> stopped p (f k p)"
  shows "stopped p (then_do (kernel_arg t va p) f)"
  using kernel_arg_cases [OF assms(1,2)] assms(3) stopped_then by auto

text \<open>
  C8. The handler replaces the buffer of a read or write and the name of a create or open by the kernel address of its page, and
  the functions it calls then look that address up as a user page, which fails for every address of
  the kernel. So these calls never return: reading or writing at least one byte, and opening or creating a file, ends the
  process with nothing read, written, opened or created.
\<close>

theorem data_syscalls_exit:
  assumes "kernel_frames t (u_vm p)" and "word_at env t (u_vm p) esp = Some n"
    and "n \<in> {SYS_OPEN, SYS_CREATE} \<and> (\<forall>a. word_at env t (u_vm p) (esp + 4) = Some a \<longrightarrow> a < PHYS_BASE) \<or>
      n \<in> {SYS_READ, SYS_WRITE} \<and> word_at env t (u_vm p) (esp + 12) \<noteq> Some 0"
  shows "\<exists>p'. syscall_handler env t esp p = Some (EXITS p') \<and> u_fs p' = u_fs p \<and> u_output p' = u_output p \<and> u_vm p' = u_vm p \<and>
    u_opened_files p' = u_opened_files p \<and> u_map_list p' = u_map_list p"
proof -
  have d: "stopped p (dispatch env t esp n p)"
  proof (cases "n \<in> {SYS_OPEN, SYS_CREATE}")
    case True
    have ua: "ws ! 0 < PHYS_BASE" if "length ws = m" "0 < m" "\<forall>j<m. word_at env t (u_vm p) (esp + 4 * of_nat (1 + j)) = Some (ws ! j)" for ws m
      using that(3) [THEN spec, of 0] that(2) assms(3) True by (auto simp: sys_defs)
    have o: "stopped p (sys_open env t (ws ! 0) p)" if "ws ! 0 < PHYS_BASE" for ws
      unfolding sys_open_def by (rule arg_then [OF assms(1) that]) (intro stopped_then copy_kernel)
    have c: "stopped p (sys_create env t (ws ! 0) (ws ! 1) p)" if "ws ! 0 < PHYS_BASE" for ws
      unfolding sys_create_def by (rule arg_then [OF assms(1) that]) (intro stopped_then copy_kernel)
    from True consider "n = SYS_OPEN" | "n = SYS_CREATE" by blast
    then show ?thesis
    proof cases
      case 1
      have "dispatch env t esp n p = with_args env t esp 1 (\<lambda>a p. sys_open env t (a ! 0) p) p"
        unfolding 1 dispatch_def by (simp add: sys_defs)
      also have "stopped p \<dots>" using ua o by (intro with_args_stopped) (metis zero_less_one)
      finally show ?thesis .
    next
      case 2
      have "dispatch env t esp n p = with_args env t esp 2 (\<lambda>a p. sys_create env t (a ! 0) (a ! 1) p) p"
        unfolding 2 dispatch_def by (simp add: sys_defs)
      also have "stopped p \<dots>" using ua c by (intro with_args_stopped) (metis zero_less_numeral)
      finally show ?thesis .
    qed
  next
    case False
    then have rw: "n = SYS_READ \<or> n = SYS_WRITE" "word_at env t (u_vm p) (esp + 12) \<noteq> Some 0" using assms(3) by auto
    have us: "ws ! 2 \<noteq> 0" if "\<forall>j<3. word_at env t (u_vm p) (esp + 4 * of_nat (1 + j)) = Some (ws ! j)" for ws
      using that [THEN spec, of 2] rw(2) by auto
    have r: "stopped p (sys_read env t fd buf sz p)" if "sz \<noteq> 0" for fd buf sz
      unfolding sys_read_def reply_of_def
      by (intro buffer_then arg_then [OF assms(1)] stopped_then read_kernel) (use that in auto)
    have w: "stopped p (sys_write env t fd buf sz p)" if "sz \<noteq> 0" for fd buf sz
      unfolding sys_write_def reply_of_def
      by (intro buffer_then arg_then [OF assms(1)] stopped_then write_kernel) (use that in auto)
    from rw(1) show ?thesis
    proof
      assume n: "n = SYS_READ"
      have "dispatch env t esp n p = with_args env t esp 3 (\<lambda>a p. sys_read env t (sint (a ! 0)) (a ! 1) (a ! 2) p) p"
        unfolding n dispatch_def by (simp add: sys_defs)
      also have "stopped p \<dots>" using us r by (intro with_args_stopped) blast
      finally show ?thesis .
    next
      assume n: "n = SYS_WRITE"
      have "dispatch env t esp n p = with_args env t esp 3 (\<lambda>a p. sys_write env t (sint (a ! 0)) (a ! 1) (a ! 2) p) p"
        unfolding n dispatch_def by (simp add: sys_defs)
      also have "stopped p \<dots>" using us w by (intro with_args_stopped) blast
      finally show ?thesis .
    qed
  qed
  have "stopped p (syscall_handler env t esp p)"
    unfolding syscall_handler_def by (rule check_then) (use d assms(2) in \<open>simp add: get_word_def\<close>)
  then show ?thesis unfolding stopped_def .
qed


text \<open>A process with one page, its stack, that has the words \<open>ws\<close> of a call at its bottom.\<close>

definition call_vm :: "u32 list \<Rightarrow> vm" where
  "call_vm ws = \<lparr>s_frame = [\<lparr>fkbase = 0xc0100000, fr_page = Some 0, fr_lock = None\<rparr>], f_hand = 0, s_lock = None,
     page_heap = (\<lambda>_. None), page_tables = (\<lambda>_. None), ptes = (\<lambda>_ _. 0)(1 := (\<lambda>_. 0)(0xbffff000 := 0x00100007)),
     user_stack_ptr = (\<lambda>_. 0xbffff000),
     frame_mem = (\<lambda>_. concat (map le32 ws) @ replicate (4096 - 4 * length ws) 0),
     swap_dev = (\<lambda>_. []), sw_lock = None, sw_bitmap = \<lparr>bit_cnt = 0, bits = []\<rparr>, vm_files = (\<lambda>_. [])\<rparr>"

definition call_proc :: "u32 list \<Rightarrow> sproc" where
  "call_proc ws = \<lparr>u_fs = small_fs, u_vm = call_vm ws, u_pagedir = True, u_exe_file = None, u_opened_files = [], u_thread_fd = 2, u_map_list = [],
     u_exit_status = -1, u_output = [], u_input = (\<lambda>_. 0), u_input_pos = 0, u_allocs = 0\<rparr>"

definition call_env :: sys_env where
  "call_env = \<lparr>se_page = True, se_map = True, se_pg = (\<lambda>_. \<lparr>env_page = None, env_hash = True, env_pt = True\<rparr>),
     se_kbyte = (\<lambda>_. 0), se_junk = 0, se_stack = []\<rparr>"

lemma call_frame:
  assumes "va AND NOT PGMASK = 0xbffff000"
  shows "user_frame 1 va (call_vm ws) = Some 0"
  using assms by (simp add: user_frame_def pg_round_down_def call_vm_def PTE_P_def pte_get_page_def ptov_def PTE_ADDR_def PHYS_BASE_def)

lemma call_byte:
  assumes "j < 4 * length ws" and "length ws \<le> 1000"
  shows "byte_at call_env 1 (call_vm ws) (0xbffff000 + of_nat j) = Some (concat (map le32 ws) ! j)"
proof -
  have j: "j < 4000" using assms by simp
  have a: "unat (0xbffff000 + of_nat j :: u32) = 3221221376 + j" using j unat_add_nat [of "0xbffff000" j] by simp
  have o: "unat (pg_ofs (0xbffff000 + of_nat j)) = j" unfolding unat_pg_ofs a using j by (simp add: mod_add_eq [symmetric])
  have "unat (pg_round_down (0xbffff000 + of_nat j)) = 3221221376 + j - (3221221376 + j) mod 4096" by (simp only: unat_round_down a)
  also have "\<dots> = 3221221376" using j by (simp add: mod_add_eq [symmetric])
  finally have "(0xbffff000 + of_nat j) AND NOT PGMASK = (0xbffff000 :: u32)" by (simp add: pg_round_down_def [symmetric] word_unat_eq_iff)
  then have u: "user_frame 1 (0xbffff000 + of_nat j) (call_vm ws) = Some 0" by (rule call_frame)
  have "\<not> is_kernel_vaddr (0xbffff000 + of_nat j)" using j by (simp add: is_kernel_vaddr_def word_le_nat_alt a PHYS_BASE_def)
  moreover have "j < length (concat (map le32 ws))" using assms(1) by (simp add: length_concat comp_def sum_list_triv)
  ultimately show ?thesis using u by (simp add: byte_at_def o) (simp add: call_vm_def nth_append)
qed

lemma call_word:
  assumes "i < length ws" and "length ws \<le> 1000"
  shows "word_at call_env 1 (call_vm ws) (0xbffff000 + of_nat (4 * i)) = Some (ws ! i)"
proof -
  have d: "drop (4 * i) (concat (map le32 ws)) = concat (map le32 (drop i ws))" for i
  proof (induction ws arbitrary: i)
    case (Cons w ws)
    then show ?case by (cases i) simp_all
  qed simp
  have "byte_at call_env 1 (call_vm ws) (0xbffff000 + of_nat (4 * i) + of_nat j) = Some (concat (map le32 ws) ! (4 * i + j))" if "j < 4" for j
    using call_byte [of "4 * i + j" ws] that assms by (simp add: add.assoc)
  then have "bytes_at call_env 1 (call_vm ws) (0xbffff000 + of_nat (4 * i)) 4 = Some (map (\<lambda>j. concat (map le32 ws) ! (4 * i + j)) [0..<4])"
    by (rule bytes_atI)
  moreover have "map (\<lambda>j. concat (map le32 ws) ! (4 * i + j)) [0..<4] = take 4 (drop (4 * i) (concat (map le32 ws)))"
    by (rule slice) (use assms(1) in \<open>simp add: length_concat comp_def sum_list_triv\<close>)
  ultimately show ?thesis
    unfolding d Cons_nth_drop_Suc [OF assms(1), symmetric] using of_le32_le32 [of "ws ! i" "[]"] by (simp add: word_at_def)
qed

theorem data_syscalls_exit_witness:
  "\<exists>p'. syscall_handler call_env 1 0xbffff000 (call_proc [9, 1, 0xbffff020, 1]) = Some (EXITS p') \<and> u_output p' = []"
proof -
  have k: "kernel_frames 1 (u_vm (call_proc ws))" for ws
    by (simp add: kernel_frames_def call_proc_def call_vm_def pte_get_page_def ptov_def PTE_ADDR_def PHYS_BASE_def pg_ofs_def PGMASK_def)
  have w: "word_at call_env 1 (u_vm (call_proc [9, 1, 0xbffff020, 1])) (0xbffff000 + of_nat (4 * i)) = Some ([9, 1, 0xbffff020, 1] ! i)" if "i < 4" for i
    using call_word [of i "[9, 1, 0xbffff020, 1]"] that by (simp add: call_proc_def)
  have n: "word_at call_env 1 (u_vm (call_proc [9, 1, 0xbffff020, 1])) 0xbffff000 = Some 9"
    and s: "word_at call_env 1 (u_vm (call_proc [9, 1, 0xbffff020, 1])) (0xbffff000 + 12) \<noteq> Some 0"
    using w [of 0] w [of 3] by simp_all
  from data_syscalls_exit [OF k n] s show ?thesis by (auto simp: sys_defs call_proc_def)
qed


section \<open>The table of descriptors\<close>

text \<open>Descriptors and mappings have different numbers, from 2 on and below the next number to hand out.\<close>

definition fd_ok :: "sproc \<Rightarrow> bool" where
  "fd_ok p \<longleftrightarrow> distinct (map fst (u_opened_files p)) \<and> distinct (map map_id (u_map_list p)) \<and>
     fst ` set (u_opened_files p) \<inter> map_id ` set (u_map_list p) = {} \<and>
     fst ` set (u_opened_files p) \<union> map_id ` set (u_map_list p) \<subseteq> {2..<u_thread_fd p} \<and> 2 \<le> u_thread_fd p"

fun out_state :: "'a outcome \<Rightarrow> sproc" where
  "out_state (RETURNS x p) = p"
| "out_state (EXITS p) = p"

definition good :: "sproc \<Rightarrow> 'a outcome option \<Rightarrow> bool" where
  "good p r \<longleftrightarrow> (\<forall>q. r = Some q \<longrightarrow> fd_ok p \<longrightarrow> fd_ok (out_state q))"

lemma fd_ok_cong: "u_opened_files p' = u_opened_files p \<Longrightarrow> u_thread_fd p' = u_thread_fd p \<Longrightarrow> u_map_list p' = u_map_list p \<Longrightarrow>
    fd_ok p' = fd_ok p"
  by (simp add: fd_ok_def)

lemma fd_ok_simps [simp]: "fd_ok (p\<lparr>u_fs := f\<rparr>) = fd_ok p" "fd_ok (p\<lparr>u_vm := vm\<rparr>) = fd_ok p" "fd_ok (set_vm vm p) = fd_ok p"
  "fd_ok (p\<lparr>u_exit_status := st\<rparr>) = fd_ok p" "fd_ok (p\<lparr>u_output := b\<rparr>) = fd_ok p" "fd_ok (p\<lparr>u_input_pos := n\<rparr>) = fd_ok p"
  "fd_ok (p\<lparr>u_allocs := n\<rparr>) = fd_ok p" "fd_ok (p\<lparr>u_fs := f, u_vm := vm\<rparr>) = fd_ok p"
  by (simp_all add: fd_ok_def set_vm_def)

lemma good_simps [simp]: "good p None" "good p (Some (RETURNS x p)) " "good p (Some (EXITS p))" "good p (exit_thread st p)"
  by (simp_all add: good_def exit_thread_def)

lemma good_then:
  assumes "good p r" and "\<And>x p'. r = Some (RETURNS x p') \<Longrightarrow> good p' (f x p')"
  shows "good p (then_do r f)"
proof (cases r)
  case (Some q)
  then show ?thesis using assms by (cases q) (auto simp: good_def)
qed simp

lemma lock_fd: "lock_user_page env t va w p = Some (ok, p') \<Longrightarrow> fd_ok p' = fd_ok p"
  by (auto simp: lock_user_page_def bind_Some_iff)

lemma unlock_fd: "unlock_user_page env t va p = Some p' \<Longrightarrow> fd_ok p' = fd_ok p"
  by (auto simp: unlock_user_page_def bind_Some_iff)

lemma good_check: "good p (is_ptr_in_user_vm_space va p)"
  by (simp add: is_ptr_in_user_vm_space_def)

lemma good_word: "good p (get_word env t va p)"
  by (simp add: get_word_def split: option.split)

lemma good_args: "good p (args_from env t esp i n p)"
proof (induction n arbitrary: i p)
  case (Suc n)
  show ?case unfolding args_from.simps Let_def by (intro good_then good_check good_word Suc) simp
qed simp

lemma good_validate: "good p (validate_loop va n p)"
proof (induction n arbitrary: va p)
  case (Suc n)
  show ?case unfolding validate_loop.simps by (intro good_then good_check Suc)
qed simp

lemma good_copy: "good p (copy_commandline_arguments_to_kernel_page env t va p)"
proof -
  have "fd_ok p \<longrightarrow> fd_ok (out_state q)" if "copy_loop env t va s p = Some q" for va s p q
  proof (rule copy_loop.raw_induct [OF _ that])
    fix f :: "sys_env \<Rightarrow> nat \<Rightarrow> u32 \<Rightarrow> u8 list \<Rightarrow> sproc \<Rightarrow> u8 list outcome option" and env t va s p q
    assume ih: "\<And>env t va s p q. f env t va s p = Some q \<Longrightarrow> fd_ok p \<longrightarrow> fd_ok (out_state q)"
      and b: "(let usr_pg = pg_round_down va in do {
       (ok, p) \<leftarrow> lock_user_page env t usr_pg False p;
       if \<not> ok then Some (EXITS p)
       else case copy_page env t (u_vm p) (4096 - unat (pg_ofs va)) va s of
         FAULTED \<Rightarrow> Some (EXITS p)
       | COPIED s \<Rightarrow> do { p \<leftarrow> unlock_user_page env t usr_pg p; Some (RETURNS s p) }
       | TOO_LONG \<Rightarrow> do { p \<leftarrow> unlock_user_page env t usr_pg p; Some (EXITS p) }
       | NEXT_PAGE va s \<Rightarrow> do { p \<leftarrow> unlock_user_page env t usr_pg p; f env t va s p } }) = Some q"
    from b obtain ok p1 where l: "lock_user_page env t (pg_round_down va) False p = Some (ok, p1)"
      and r: "(if \<not> ok then Some (EXITS p1)
        else case copy_page env t (u_vm p1) (4096 - unat (pg_ofs va)) va s of
         FAULTED \<Rightarrow> Some (EXITS p1)
       | COPIED s \<Rightarrow> do { p \<leftarrow> unlock_user_page env t (pg_round_down va) p1; Some (RETURNS s p) }
       | TOO_LONG \<Rightarrow> do { p \<leftarrow> unlock_user_page env t (pg_round_down va) p1; Some (EXITS p) }
       | NEXT_PAGE va' s \<Rightarrow> do { p \<leftarrow> unlock_user_page env t (pg_round_down va) p1; f env t va' s p }) = Some q"
      by (auto simp: bind_Some_iff Let_def)
    show "fd_ok p \<longrightarrow> fd_ok (out_state q)"
      using r lock_fd [OF l] ih
      by (auto simp: bind_Some_iff dest!: unlock_fd split: if_splits copy_state.splits)
  qed
  then show ?thesis by (auto simp: good_def copy_commandline_arguments_to_kernel_page_def)
qed


lemma good_lock:
  assumes "\<And>p'. fd_ok p' = fd_ok p \<Longrightarrow> good p' (g p')"
  shows "good p (do { (ok, p) \<leftarrow> lock_user_page env t va w p; if \<not> ok then Some (EXITS p) else g p })"
proof (cases "lock_user_page env t va w p")
  case (Some r)
  obtain ok p' where r: "r = (ok, p')" by (cases r)
  have f: "fd_ok p' = fd_ok p" using lock_fd [of env t va w p ok p'] Some r by simp
  show ?thesis
  proof (cases ok)
    case True
    then have "do { (ok, p) \<leftarrow> lock_user_page env t va w p; if \<not> ok then Some (EXITS p) else g p } = g p'" using Some r by simp
    then show ?thesis using assms [OF f] f by (simp add: good_def)
  next
    case False
    then have "do { (ok, p) \<leftarrow> lock_user_page env t va w p; if \<not> ok then Some (EXITS p) else g p } = Some (EXITS p')" using Some r by simp
    then show ?thesis using f by (simp add: good_def)
  qed
qed simp

lemma good_unlock:
  assumes "fd_ok p0 = fd_ok p"
  shows "good p (do { p \<leftarrow> unlock_user_page env t va p0; Some (RETURNS x p) })"
  using assms by (auto simp: good_def bind_Some_iff dest!: unlock_fd)

lemma good_bind: "(\<And>x. r = Some x \<Longrightarrow> good p (g x)) \<Longrightarrow> good p (Option.bind r g)"
  by (cases r) simp_all

lemma good_read_part: "good p (read_part env t fd f_d buf n p)"
proof -
  have c: "good p (read_char env t buf itr p)" for itr p
  proof -
    have "good p' (case put_bytes t (buf + of_nat itr) [u_input p (u_input_pos p)] (u_vm p') of
         None \<Rightarrow> Some (EXITS p')
       | Some vm \<Rightarrow> do { p \<leftarrow> unlock_user_page env t buf (set_vm vm p'); Some (RETURNS () p) })" for p'
      by (auto split: option.split intro!: good_unlock)
    then have "good (p\<lparr>u_input_pos := u_input_pos p + 1\<rparr>) (read_char env t buf itr p)"
      unfolding read_char_def Let_def by (intro good_lock)
    then show ?thesis by (simp add: good_def)
  qed
  have r: "good p (read_console env t buf itr n p)" for itr n p
  proof (induction n arbitrary: itr p)
    case (Suc n)
    show ?case unfolding read_console.simps by (intro good_then c Suc)
  qed simp
  show ?thesis
  proof (cases "fd = 0")
    case True
    then show ?thesis unfolding read_part_def by (simp add: good_then [OF r])
  next
    case False
    have k: "good p' (do {
              (b, f) \<leftarrow> file_read k (int n) (u_fs p');
              let p = p'\<lparr>u_fs := f\<rparr>;
              case put_bytes t buf b (u_vm p) of
                None \<Rightarrow> Some (EXITS p)
              | Some vm \<Rightarrow> do { p \<leftarrow> unlock_user_page env t buf (set_vm vm p); Some (RETURNS (int (length b)) p) } })" for k p'
    proof (rule good_bind)
      fix x :: "u8 list \<times> fs"
      show "good p' (case x of (b, f) \<Rightarrow> let p = p'\<lparr>u_fs := f\<rparr> in
              case put_bytes t buf b (u_vm p) of
                None \<Rightarrow> Some (EXITS p)
              | Some vm \<Rightarrow> do { p \<leftarrow> unlock_user_page env t buf (set_vm vm p); Some (RETURNS (int (length b)) p) })"
        by (cases x) (auto simp: Let_def good_def [of _ "Some (EXITS _)"] split: option.split intro!: good_unlock)
    qed
    show ?thesis unfolding read_part_def if_P [OF False]
    proof (rule good_lock)
      fix p'
      show "good p' (case f_d of None \<Rightarrow> Some (EXITS p') | Some k \<Rightarrow> do {
              (b, f) \<leftarrow> file_read k (int n) (u_fs p');
              let p = p'\<lparr>u_fs := f\<rparr>;
              case put_bytes t buf b (u_vm p) of
                None \<Rightarrow> Some (EXITS p)
              | Some vm \<Rightarrow> do { p \<leftarrow> unlock_user_page env t buf (set_vm vm p); Some (RETURNS (int (length b)) p) } })"
        using k by (cases f_d) (simp_all only: option.case good_simps)
    qed
  qed
qed

lemma good_write_part: "good p (write_part env t fd f_d buf n p)"
proof -
  have k: "good p' (do {
        (n', f) \<leftarrow> file_write k b (int n) (u_fs p');
        p \<leftarrow> unlock_user_page env t buf (p'\<lparr>u_fs := f\<rparr>);
        Some (RETURNS (int n') p) })" for k b p'
  proof (rule good_bind)
    fix x :: "nat \<times> fs"
    show "good p' (case x of (n', f) \<Rightarrow> do {
        p \<leftarrow> unlock_user_page env t buf (p'\<lparr>u_fs := f\<rparr>); Some (RETURNS (int n') p) })"
      by (cases x) (auto intro!: good_unlock)
  qed
  have o: "good p' (do { p \<leftarrow> unlock_user_page env t buf (p'\<lparr>u_output := u_output p' @ b\<rparr>); Some (RETURNS (int n) p) })" for b p'
    by (rule good_unlock) simp
  show ?thesis unfolding write_part_def
  proof (rule good_lock)
    fix p'
    show "good p' (case bytes_at env t (u_vm p') buf n of
         None \<Rightarrow> Some (EXITS p')
       | Some b \<Rightarrow>
           if fd = 1
           then do {
             p \<leftarrow> unlock_user_page env t buf (p'\<lparr>u_output := u_output p' @ b\<rparr>);
             Some (RETURNS (int n) p) }
           else (case f_d of
               None \<Rightarrow> Some (EXITS p')
             | Some k \<Rightarrow> do {
                 (n, f) \<leftarrow> file_write k b (int n) (u_fs p');
                 p \<leftarrow> unlock_user_page env t buf (p'\<lparr>u_fs := f\<rparr>);
                 Some (RETURNS (int n) p) }))"
    proof (cases "bytes_at env t (u_vm p') buf n")
      case None
      then show ?thesis by (simp only: option.case good_simps)
    next
      case (Some b)
      show ?thesis unfolding Some option.case
      proof (split if_split, intro conjI impI)
        show "good p' (do { p \<leftarrow> unlock_user_page env t buf (p'\<lparr>u_output := u_output p' @ b\<rparr>); Some (RETURNS (int n) p) })"
          by (rule o)
        show "good p' (case f_d of None \<Rightarrow> Some (EXITS p') | Some k \<Rightarrow> do {
                 (n, f) \<leftarrow> file_write k b (int n) (u_fs p');
                 p \<leftarrow> unlock_user_page env t buf (p'\<lparr>u_fs := f\<rparr>);
                 Some (RETURNS (int n) p) })"
          using k by (cases f_d) (simp_all only: option.case good_simps)
      qed
    qed
  qed
qed

lemma good_read: "good p (read_file env t fd buf sz p)"
proof -
  have "fd_ok p \<longrightarrow> fd_ok (out_state q)" if "read_file_loop env t fd f_d buf sz a p = Some q" for env t fd f_d buf sz a p q
  proof (rule read_file_loop.raw_induct [OF _ that], goal_cases)
    case (1 f env t fd f_d buf sz a p q)
    show ?case
    proof (cases "sz > 0")
      case False
      then show ?thesis using 1(2) by auto
    next
      case True
      define r where "r = (if sz < PGSIZE - pg_ofs buf then sz else PGSIZE - pg_ofs buf)"
      have "good p (read_part env t fd f_d buf (unat r) p)" by (rule good_read_part)
      then show ?thesis using 1 True
        by (auto simp: Let_def good_def r_def split: option.splits outcome.splits if_splits)
    qed
  qed
  then show ?thesis by (simp add: good_def read_file_def)
qed

lemma good_write: "good p (write_file env t fd buf sz p)"
proof -
  have "fd_ok p \<longrightarrow> fd_ok (out_state q)" if "write_file_loop env t fd f_d buf sz a p = Some q" for env t fd f_d buf sz a p q
  proof (rule write_file_loop.raw_induct [OF _ that], goal_cases)
    case (1 f env t fd f_d buf sz a p q)
    show ?case
    proof (cases "sz > 0")
      case False
      then show ?thesis using 1(2) by auto
    next
      case True
      define r where "r = (if sz < PGSIZE - pg_ofs buf then sz else PGSIZE - pg_ofs buf)"
      have "good p (write_part env t fd f_d buf (unat r) p)" by (rule good_write_part)
      then show ?thesis using 1 True
        by (auto simp: Let_def good_def r_def split: option.splits outcome.splits if_splits)
    qed
  qed
  then show ?thesis by (simp add: good_def write_file_def)
qed

lemma fd_ok_mono:
  assumes "fd_ok p" and "distinct (map fst (u_opened_files p'))" and "fst ` set (u_opened_files p') \<subseteq> fst ` set (u_opened_files p)"
    and "u_map_list p' = u_map_list p" and "u_thread_fd p' = u_thread_fd p"
  shows "fd_ok p'"
proof -
  have "fst ` set (u_opened_files p') \<inter> map_id ` set (u_map_list p') = {}"
    using assms(1,3) unfolding assms(4) fd_ok_def by blast
  moreover have "fst ` set (u_opened_files p') \<union> map_id ` set (u_map_list p') \<subseteq> {2..<u_thread_fd p'}"
    using assms(1,3) unfolding assms(4,5) fd_ok_def by (meson le_sup_iff order_trans)
  ultimately show ?thesis using assms(1,2) unfolding assms(4,5) fd_ok_def by blast
qed

lemma fd_ok_open: "fd_ok p \<Longrightarrow> fd_ok (p\<lparr>u_opened_files := u_opened_files p @ [(u_thread_fd p, k)], u_thread_fd := u_thread_fd p + 1\<rparr>)"
proof -
  assume ok: "fd_ok p"
  define F where "F = fst ` set (u_opened_files p)"
  define M where "M = map_id ` set (u_map_list p)"
  define d where "d = u_thread_fd p"
  have sub: "F \<union> M \<subseteq> {2..<d}" "2 \<le> d" "F \<inter> M = {}" using ok by (simp_all add: fd_ok_def F_def M_def d_def)
  then have fresh: "d \<notin> F" "d \<notin> M" by auto
  have "insert d F \<union> M \<subseteq> {2..<d + 1}" "insert d F \<inter> M = {}" using sub fresh by auto
  moreover have "distinct (map fst (u_opened_files p @ [(d, k)]))" "distinct (map map_id (u_map_list p))"
    using ok fresh(1) by (simp_all add: fd_ok_def F_def)
  ultimately show ?thesis using sub(2) by (simp add: fd_ok_def F_def M_def d_def)
qed

lemma fd_ok_next: "fd_ok p \<Longrightarrow> fd_ok (p\<lparr>u_thread_fd := u_thread_fd p + 1\<rparr>)"
  unfolding fd_ok_def by auto

lemma fd_ok_map:
  assumes ok: "fd_ok p" and "map_id mp = u_thread_fd p"
  shows "fd_ok (p\<lparr>u_thread_fd := u_thread_fd p + 1, u_map_list := mp # u_map_list p\<rparr>)"
proof -
  define F where "F = fst ` set (u_opened_files p)"
  define M where "M = map_id ` set (u_map_list p)"
  define d where "d = u_thread_fd p"
  have sub: "F \<union> M \<subseteq> {2..<d}" "2 \<le> d" "F \<inter> M = {}" using ok by (simp_all add: fd_ok_def F_def M_def d_def)
  then have fresh: "d \<notin> F" "d \<notin> M" by auto
  have "F \<union> insert d M \<subseteq> {2..<d + 1}" "F \<inter> insert d M = {}" using sub fresh by auto
  moreover have "distinct (map fst (u_opened_files p))" "distinct (map map_id (mp # u_map_list p))"
    using ok fresh(2) assms(2) by (simp_all add: fd_ok_def M_def d_def)
  ultimately show ?thesis
    using sub(2) assms(2) by (simp_all add: fd_ok_def F_def M_def d_def)
qed

lemma good_open: "good p (open_file env name p)"
  using fd_ok_open [of "p\<lparr>u_fs := f\<rparr>" for f]
  by (auto simp: good_def open_file_def bind_Some_iff Let_def split: option.splits if_splits)

lemma set_remove1_sub: "set (remove1 x xs) \<subseteq> set xs"
  by (induction xs) auto

lemma distinct_fst_remove1: "distinct (map fst xs) \<Longrightarrow> distinct (map fst (remove1 x xs))"
  using set_remove1_sub by (induction xs) fastforce+

lemma good_close: "good p (close_files fd p)"
proof -
  have "fd_ok (p\<lparr>u_fs := f, u_opened_files := remove1 (fd, k) (u_opened_files p)\<rparr>)" if ok: "fd_ok p" for f k
  proof -
    have "fst ` set (remove1 (fd, k) (u_opened_files p)) \<subseteq> fst ` set (u_opened_files p)"
      using set_remove1_sub by (rule image_mono)
    moreover have "distinct (map fst (remove1 (fd, k) (u_opened_files p)))"
      using ok distinct_fst_remove1 unfolding fd_ok_def by blast
    ultimately show ?thesis using ok by (intro fd_ok_mono [OF ok]) simp_all
  qed
  then show ?thesis by (auto simp: good_def close_files_def bind_Some_iff split: option.splits)
qed

lemma good_files: "good p (filesize fd p)" "good p (fileseek fd ps p)" "good p (filetell fd p)"
  by (auto simp: good_def filesize_def fileseek_def filetell_def bind_Some_iff split: option.splits)

lemma unmap_fd:
  assumes "unmap env t mp p = Some p'"
  shows "fd_ok p \<longrightarrow> fd_ok p'"
proof -
  have u: "unmap_pages env t va n p = Some p1 \<Longrightarrow> u_opened_files p1 = u_opened_files p \<and> u_thread_fd p1 = u_thread_fd p \<and> u_map_list p1 = u_map_list p"
    for va n p p1
  proof (induction n arbitrary: va p)
    case (Suc n)
    then obtain vm where "unmap_pages env t (va + PGSIZE) n (set_vm vm (p\<lparr>u_allocs := u_allocs p + 1\<rparr>)) = Some p1"
      by (auto simp: bind_Some_iff)
    from Suc.IH [OF this] show ?case by (simp add: set_vm_def)
  qed simp
  obtain p1 where "unmap_pages env t (start_addr mp) (num_of_pages mp) p = Some p1"
    "p' = p1\<lparr>u_map_list := filter (\<lambda>m. map_id m \<noteq> map_id mp) (u_map_list p1)\<rparr>"
    using assms by (auto simp: unmap_def bind_Some_iff)
  then show ?thesis using u by (auto simp: fd_ok_def distinct_map_filter)
qed

lemma count_fd [simp]: "fd_ok (count_page i p) = fd_ok p"
proof -
  have m: "map map_id (u_map_list (count_page i p)) = map map_id (u_map_list p)" by (simp add: count_page_def)
  then have "map_id ` set (u_map_list (count_page i p)) = map_id ` set (u_map_list p)" by (metis set_map)
  then show ?thesis using m by (simp add: fd_ok_def) (simp add: count_page_def)
qed

lemma good_unmap: "good p (do { p \<leftarrow> unmap env t mp p; Some (RETURNS x p) })"
  by (auto simp: good_def bind_Some_iff dest!: unmap_fd)

lemma good_cong: "fd_ok p' = fd_ok p \<Longrightarrow> good p' r \<Longrightarrow> good p r"
  by (simp add: good_def)

lemma good_map_loop: "good p (map_loop env t mp offs len p)"
proof (induction env t mp offs len p rule: map_loop.induct)
  case (1 env t mp offs len p)
  show ?case
  proof (cases "len > 0")
    case True
    show ?thesis
      unfolding map_loop.simps [of env t mp offs len p] if_P [OF True]
    proof (rule good_bind)
      fix x :: "nat option \<times> vm"
      assume a: "allocation_of_page (se_pg env (u_allocs p)) t (start_addr mp + of_nat offs) False (u_vm p) = Some x"
      obtain pg vm where x: "x = (pg, vm)" by (cases x)
      show "good p (case x of (pg, vm) \<Rightarrow> let p = set_vm vm (p\<lparr>u_allocs := u_allocs p + 1\<rparr>) in
        case pg of
          None \<Rightarrow> do { p \<leftarrow> unmap env t mp p; Some (RETURNS (-1) p) }
        | Some q \<Rightarrow>
            let n = (if len \<ge> 4096 then 4096 else nat len);
                vm = upd_page q (\<lambda>pg. pg\<lparr>pg_file := Some (mmap.map_file mp), pg_private := False, f_ofs := offs, byts_rw_f := n\<rparr>) (u_vm p)
            in map_loop env t (mp\<lparr>num_of_pages := num_of_pages mp + 1\<rparr>) (offs + n) (len - int n)
                 (count_page (map_id mp) (set_vm vm p)))"
      proof (cases pg)
        case None
        show ?thesis unfolding x None prod.case Let_def option.case
          by (rule good_cong [OF _ good_unmap]) simp
      next
        case (Some q)
        show ?thesis unfolding x Some prod.case Let_def option.case
          by (rule good_cong [OF _ 1 [OF True a x [symmetric] refl Some refl refl, unfolded Let_def]]) simp
      qed
    qed
  qed (simp add: map_loop.simps)
qed

lemma fd_ok_swap: "p\<lparr>u_thread_fd := d, u_fs := f, u_map_list := ms\<rparr> = p\<lparr>u_thread_fd := d, u_map_list := ms, u_fs := f\<rparr>"
  by simp

lemma good_map: "good p (memory_map env t fd address p)"
proof (cases "(\<not> se_map env \<or> address = 0 \<or> pg_ofs address \<noteq> 0) \<or> \<not> u_thread_fd p < 2147483647")
  case False
  let ?p = "p\<lparr>u_thread_fd := u_thread_fd p + 1\<rparr>"
  show ?thesis
  proof (cases "get_file_structure fd p")
    case None
    then show ?thesis using False fd_ok_next by (simp add: memory_map_def good_def Let_def)
  next
    case (Some k)
    have e: "memory_map env t fd address p = do {
             (file, f) \<leftarrow> file_reopen k (u_fs ?p);
             case file of
               None \<Rightarrow> Some (RETURNS (-1) (?p\<lparr>u_fs := f\<rparr>))
             | Some q \<Rightarrow> do {
                 len \<leftarrow> file_length q f;
                 map_loop env t \<lparr>map_id = u_thread_fd p, map_file = q, num_of_pages = 0, start_addr = address\<rparr> 0 len
                   (?p\<lparr>u_fs := f, u_map_list := \<lparr>map_id = u_thread_fd p, map_file = q, num_of_pages = 0, start_addr = address\<rparr> # u_map_list p\<rparr>) } }"
      using False Some by (simp add: memory_map_def Let_def cong: option.case_cong)
    show ?thesis unfolding e
    proof (rule good_bind)
      fix x :: "nat option \<times> fs"
      obtain fo f where x: "x = (fo, f)" by (cases x)
      show "good p (case x of (fo, f) \<Rightarrow> case fo of
               None \<Rightarrow> Some (RETURNS (-1) (?p\<lparr>u_fs := f\<rparr>))
             | Some q \<Rightarrow> do {
                 len \<leftarrow> file_length q f;
                 map_loop env t \<lparr>map_id = u_thread_fd p, map_file = q, num_of_pages = 0, start_addr = address\<rparr> 0 len
                   (?p\<lparr>u_fs := f, u_map_list := \<lparr>map_id = u_thread_fd p, map_file = q, num_of_pages = 0, start_addr = address\<rparr> # u_map_list p\<rparr>) })"
      proof (cases fo)
        case None
        show ?thesis unfolding x None prod.case option.case using fd_ok_next by (simp add: good_def)
      next
        case fq: (Some q)
        define mp where "mp = \<lparr>map_id = u_thread_fd p, map_file = q, num_of_pages = 0, start_addr = address\<rparr>"
        have "fd_ok (p\<lparr>u_thread_fd := u_thread_fd p + 1, u_fs := f, u_map_list := mp # u_map_list p\<rparr>)" if "fd_ok p"
          using fd_ok_map [OF that, of mp] fd_ok_simps(1) unfolding fd_ok_swap by (simp add: mp_def)
        then have "good p (map_loop env t mp 0 len (?p\<lparr>u_fs := f, u_map_list := mp # u_map_list p\<rparr>))" for len
          using good_map_loop unfolding good_def by blast
        then show ?thesis unfolding x fq prod.case option.case mp_def by (rule good_bind)
      qed
    qed
  qed
next
  case True
  then show ?thesis
    by (cases "\<not> se_map env \<or> address = 0 \<or> pg_ofs address \<noteq> 0") (simp_all add: memory_map_def)
qed

lemma good_munmap: "good p (memory_unmap env t i p)"
  unfolding memory_unmap_def get_map_def by (intro good_then) (auto split: option.split intro: good_unmap)

lemma good_kernel_arg: "good p (kernel_arg t va p)"
  by (auto simp: kernel_arg_def good_def bind_Some_iff exit_thread_def)

lemma good_reply: "good p r \<Longrightarrow> good p (reply_of w r)" and good_kept: "good p r \<Longrightarrow> good p (kept r)"
  unfolding reply_of_def kept_def by (auto intro: good_then)

lemma good_fs: "good p (Some (RETURNS x (p\<lparr>u_fs := f\<rparr>)))"
  by (simp add: good_def)

lemma good_name: "good p (sys_create env t a b p)" "good p (sys_remove env t a p)" "good p (sys_open env t a p)"
  unfolding sys_create_def sys_remove_def sys_open_def
  by (auto intro!: good_then good_kernel_arg good_copy good_bind good_reply good_open good_fs split: prod.split simp del: good_simps)

lemma good_data: "good p (sys_read env t fd a n p)" "good p (sys_write env t fd a n p)"
  unfolding sys_read_def sys_write_def validate_buffer_pointers_def
  by (auto intro!: good_then good_kernel_arg good_check good_validate good_reply good_read good_write)

lemma good_with_args: "(\<And>a p. good p (f a p)) \<Longrightarrow> good p (with_args env t esp n f p)"
  unfolding with_args_def extract_args_def by (intro good_then good_args)

lemma good_if: "good p x \<Longrightarrow> good p y \<Longrightarrow> good p (if b then x else y)"
  by simp

lemma good_dispatch: "good p (dispatch env t esp n p)"
  unfolding dispatch_def
  by (intro good_if good_with_args good_reply good_kept good_then good_copy good_name good_data
      good_files good_close good_map good_munmap good_simps)

text \<open>
  C7. Whatever a system call does, whether it returns to the process or ends it, it leaves the process with one entry for each descriptor
  and each mapping, no number used twice, 0 and 1 never given away, and every number below the next one to hand out.
\<close>

theorem fd_table_invariant:
  assumes "fd_ok p" and "syscall_handler env t esp p = Some r"
  shows "fd_ok (out_state r)"
proof -
  have "good p (syscall_handler env t esp p)"
    unfolding syscall_handler_def by (intro good_then good_check good_word good_dispatch)
  then show ?thesis using assms by (simp add: good_def)
qed

theorem fd_table_invariant_witness:
  "\<exists>r. syscall_handler call_env 1 0xbffff000 ((call_proc [14, 3, 0])\<lparr>u_opened_files := [(2, 0)], u_thread_fd := 4,
      u_map_list := [\<lparr>map_id = 3, map_file = 0, num_of_pages = 0, start_addr = 0x10000000\<rparr>]\<rparr>) = Some r \<and>
    fd_ok (out_state r) \<and> u_map_list (out_state r) = []"
proof -
  define mp where "mp = \<lparr>map_id = 3, map_file = 0, num_of_pages = 0, start_addr = (0x10000000 :: u32)\<rparr>"
  define p where "p = (call_proc [14, 3, 0])\<lparr>u_opened_files := [(2, 0)], u_thread_fd := 4, u_map_list := [mp]\<rparr>"
  have ok: "fd_ok p" by (auto simp: fd_ok_def p_def mp_def)
  have w: "word_at call_env 1 (u_vm p) (0xbffff000 + of_nat (4 * i)) = Some ([14, 3, 0] ! i)" if "i < 3" for i
    using call_word [of i "[14, 3, 0]"] that by (simp add: call_proc_def p_def)
  have c: "is_ptr_in_user_vm_space 0xbffff000 q = Some (RETURNS () q)" "is_ptr_in_user_vm_space 0xbffff004 q = Some (RETURNS () q)" for q
    by (simp_all add: is_ptr_in_user_vm_space_def PHYS_BASE_def)
  have "extract_args call_env 1 0xbffff000 1 p = Some (RETURNS [3] p)"
    using w [of 1] by (simp add: extract_args_def c get_word_def)
  then have a: "with_args call_env 1 0xbffff000 1 f p = f [3] p" for f by (simp add: with_args_def)
  have "syscall_handler call_env 1 0xbffff000 p = dispatch call_env 1 0xbffff000 14 p"
    using w [of 0] by (simp add: syscall_handler_def c get_word_def)
  also have "\<dots> = kept (memory_unmap call_env 1 3 p)" unfolding dispatch_def a by (simp add: sys_defs)
  also have "\<dots> = Some (RETURNS KEPT (p\<lparr>u_map_list := []\<rparr>))"
    by (simp add: kept_def memory_unmap_def get_map_def unmap_def p_def mp_def)
  finally have h: "syscall_handler call_env 1 0xbffff000 p = Some (RETURNS KEPT (p\<lparr>u_map_list := []\<rparr>))" .
  show ?thesis unfolding mp_def [symmetric] p_def [symmetric] h using fd_table_invariant [OF ok h] by simp
qed

end
