(* ===== verification/Palloc.thy ===== *)
theory Palloc
  imports Bitmap Kernel_String
begin

text \<open>
  The page allocator, \<^verbatim>\<open>threads/palloc.c\<close>. An address is the number of its byte, 0 the null pointer. The lock of a pool is
  free: an operation is not interleaved with another one on the same pool.
\<close>

section \<open>Model\<close>

definition PAL_ASSERT :: u32 where "PAL_ASSERT = 1"
definition PAL_ZERO :: u32 where "PAL_ZERO = 2"
definition PAL_USER :: u32 where "PAL_USER = 4"

record pool =
  used_map :: bitmap
  pool_base :: nat

record kmem =
  kernel_pool :: pool
  user_pool :: pool
  kbytes :: memory

definition get_pool :: "bool \<Rightarrow> kmem \<Rightarrow> pool" where
  "get_pool user s = (if user then user_pool s else kernel_pool s)"

definition set_pool :: "bool \<Rightarrow> pool \<Rightarrow> kmem \<Rightarrow> kmem" where
  "set_pool user p s = (if user then s\<lparr>user_pool := p\<rparr> else s\<lparr>kernel_pool := p\<rparr>)"

definition page_from_pool :: "pool \<Rightarrow> nat \<Rightarrow> bool" where
  "page_from_pool pool page =
     (let page_no = page div 4096; start_page = pool_base pool div 4096;
          end_page = wrap32 (start_page + bitmap_size (used_map pool))
      in page_no \<ge> start_page \<and> page_no < end_page)"

definition palloc_get_multiple :: "u32 \<Rightarrow> nat \<Rightarrow> kmem \<Rightarrow> (nat \<times> kmem) option" where
  "palloc_get_multiple flags page_cnt s =
     (let user = flags AND PAL_USER \<noteq> 0; pool = get_pool user s
      in if page_cnt = 0 then Some (0, s)
         else do {
           (page_idx, used) \<leftarrow> bitmap_scan_and_flip (used_map pool) 0 page_cnt False;
           let s = set_pool user (pool\<lparr>used_map := used\<rparr>) s;
           let pages = (if page_idx \<noteq> BITMAP_ERROR then wrap32 (pool_base pool + 4096 * page_idx) else 0);
           if pages \<noteq> 0
           then if flags AND PAL_ZERO \<noteq> 0
                then do {
                  (_, m) \<leftarrow> memset (kbytes s) pages 0 (wrap32 (4096 * page_cnt));
                  Some (pages, s\<lparr>kbytes := m\<rparr>) }
                else Some (pages, s)
           else do { ASSERT (flags AND PAL_ASSERT = 0); Some (0, s) } })"

definition palloc_get_page :: "u32 \<Rightarrow> kmem \<Rightarrow> (nat \<times> kmem) option" where
  "palloc_get_page flags s = palloc_get_multiple flags 1 s"

definition palloc_free_multiple :: "nat \<Rightarrow> nat \<Rightarrow> kmem \<Rightarrow> kmem option" where
  "palloc_free_multiple pages page_cnt s = do {
     ASSERT (pages mod 4096 = 0);
     if pages = 0 \<or> page_cnt = 0 then Some s
     else do {
       user \<leftarrow> (if page_from_pool (kernel_pool s) pages then Some False
                else if page_from_pool (user_pool s) pages then Some True else None);
       let pool = get_pool user s;
       let page_idx = pages div 4096 - pool_base pool div 4096;
       (_, m) \<leftarrow> memset (kbytes s) pages 0xcc (wrap32 (4096 * page_cnt));
       used \<leftarrow> bitmap_all (used_map pool) page_idx page_cnt;
       ASSERT used;
       b \<leftarrow> bitmap_set_multiple (used_map pool) page_idx page_cnt False;
       Some (set_pool user (pool\<lparr>used_map := b\<rparr>) (s\<lparr>kbytes := m\<rparr>)) } }"

definition palloc_free_page :: "nat \<Rightarrow> kmem \<Rightarrow> kmem option" where
  "palloc_free_page page s = palloc_free_multiple page 1 s"

text \<open>The bitmap of a pool lies in its first pages, after the two words of the bitmap itself.\<close>

definition init_pool :: "nat \<Rightarrow> nat \<Rightarrow> memory \<Rightarrow> pool option" where
  "init_pool base page_cnt m = do {
     let bm_pages = DIV_ROUND_UP (bitmap_buf_size page_cnt) 4096;
     ASSERT (bm_pages \<le> page_cnt);
     let page_cnt = page_cnt - bm_pages;
     b \<leftarrow> bitmap_create_in_buf page_cnt (map (\<lambda>i. of_le32 (map m [base + 8 + 4 * i..<base + 12 + 4 * i])) [0..<elem_cnt page_cnt])
            (wrap32 (bm_pages * 4096));
     Some \<lparr>used_map = b, pool_base = wrap32 (base + bm_pages * 4096)\<rparr> }"

text \<open>Memory from 1 MB to the end of RAM; \<^verbatim>\<open>ptov\<close> asserts that a physical address is below \<^verbatim>\<open>PHYS_BASE\<close>.\<close>

definition palloc_init :: "nat \<Rightarrow> nat \<Rightarrow> memory \<Rightarrow> kmem option" where
  "palloc_init init_ram_pages user_page_limit m = do {
     ASSERT (wrap32 (init_ram_pages * 4096) < 0xc0000000);
     let free_start = 0xc0000000 + 1024 * 1024;
     let free_end = wrap32 (0xc0000000 + wrap32 (init_ram_pages * 4096));
     let bytes = signed_take_bit 31 (int free_end - int free_start);
     let free_pages = nat ((sgn bytes * (\<bar>bytes\<bar> div 4096)) mod 2 ^ 32);
     let user_pages = min (free_pages div 2) user_page_limit;
     let kernel_pages = free_pages - user_pages;
     k \<leftarrow> init_pool free_start kernel_pages m;
     u \<leftarrow> init_pool (wrap32 (free_start + kernel_pages * 4096)) user_pages m;
     Some \<lparr>kernel_pool = k, user_pool = u, kbytes = m\<rparr> }"

section \<open>Pages in use\<close>

text \<open>A page is named by its number, its address divided by the size of a page.\<close>

definition pool_ok :: "pool \<Rightarrow> bool" where
  "pool_ok p \<longleftrightarrow> bm_inv (used_map p) \<and> pool_base p mod 4096 = 0 \<and> 0 < pool_base p \<and>
     pool_base p + 4096 * bit_cnt (used_map p) < 4294967296"

definition mem_inv :: "kmem \<Rightarrow> bool" where
  "mem_inv s \<longleftrightarrow> pool_ok (kernel_pool s) \<and> pool_ok (user_pool s) \<and>
     pool_base (kernel_pool s) + 4096 * bit_cnt (used_map (kernel_pool s)) \<le> pool_base (user_pool s)"

definition pool_pages :: "pool \<Rightarrow> nat set" where
  "pool_pages p = {pool_base p div 4096..<pool_base p div 4096 + bit_cnt (used_map p)}"

definition pool_used :: "pool \<Rightarrow> nat set" where
  "pool_used p = (+) (pool_base p div 4096) ` bm_used (used_map p)"

definition in_use :: "kmem \<Rightarrow> nat set" where
  "in_use s = pool_used (kernel_pool s) \<union> pool_used (user_pool s)"

definition pages_of :: "nat \<Rightarrow> nat \<Rightarrow> nat set" where
  "pages_of p n = {p div 4096..<p div 4096 + n}"

lemma in_use_pool: "in_use s = pool_used (get_pool user s) \<union> pool_used (get_pool (\<not> user) s)"
  by (auto simp: in_use_def get_pool_def)

lemma get_set_pool [simp]: "get_pool u (set_pool u' p s) = (if u = u' then p else get_pool u s)"
  "kbytes (set_pool u p s) = kbytes s" "get_pool u (s\<lparr>kbytes := m\<rparr>) = get_pool u s"
  "set_pool u p (s\<lparr>kbytes := m\<rparr>) = (set_pool u p s)\<lparr>kbytes := m\<rparr>"
  by (auto simp: get_pool_def set_pool_def)

lemma mem_inv_pool: "mem_inv s \<Longrightarrow> pool_ok (get_pool u s)"
  by (simp add: mem_inv_def get_pool_def)

lemma mem_inv_set:
  assumes "mem_inv s" and "pool_ok p" and "pool_base p = pool_base (get_pool u s)" and "bit_cnt (used_map p) = bit_cnt (used_map (get_pool u s))"
  shows "mem_inv ((set_pool u p s)\<lparr>kbytes := m\<rparr>)"
  using assms by (auto simp: mem_inv_def get_pool_def set_pool_def)

lemma pool_used_sub: "pool_used p \<subseteq> pool_pages p"
  by (auto simp: pool_used_def pool_pages_def bm_used_def)

lemma pools_disjoint:
  assumes "mem_inv s"
  shows "pool_pages (get_pool u s) \<inter> pool_pages (get_pool (\<not> u) s) = {}"
proof -
  let ?k = "kernel_pool s" and ?u = "user_pool s"
  have m: "pool_base ?k mod 4096 = 0" "pool_base ?k + 4096 * bit_cnt (used_map ?k) \<le> pool_base ?u"
    using assms by (auto simp: mem_inv_def pool_ok_def)
  then have "pool_base ?k div 4096 + bit_cnt (used_map ?k) \<le> pool_base ?u div 4096"
    using div_le_mono [OF m(2), of 4096] by simp
  then show ?thesis by (cases u) (auto simp: get_pool_def pool_pages_def)
qed

section \<open>Obtaining pages\<close>

lemma pool_get:
  assumes "pool_ok p" and "0 < n"
  obtains (some) i b where "bitmap_scan_and_flip (used_map p) 0 n False = Some (i, b)" "i \<noteq> BITMAP_ERROR"
      "wrap32 (pool_base p + 4096 * i) = pool_base p + 4096 * i" "i + n \<le> bit_cnt (used_map p)"
      "pool_ok (p\<lparr>used_map := b\<rparr>)" "bit_cnt b = bit_cnt (used_map p)"
      "pages_of (pool_base p + 4096 * i) n \<inter> pool_used p = {}" "pages_of (pool_base p + 4096 * i) n \<subseteq> pool_pages p"
      "pool_used (p\<lparr>used_map := b\<rparr>) = pool_used p \<union> pages_of (pool_base p + 4096 * i) n"
    | (none) "bitmap_scan_and_flip (used_map p) 0 n False = Some (BITMAP_ERROR, used_map p)"
      "\<forall>q. {q..<q + n} \<subseteq> pool_pages p \<longrightarrow> {q..<q + n} \<inter> pool_used p \<noteq> {}"
proof -
  have inv: "bm_inv (used_map p)" and al: "pool_base p mod 4096 = 0" and top: "pool_base p + 4096 * bit_cnt (used_map p) < 4294967296"
    using assms(1) by (auto simp: pool_ok_def)
  from inv show ?thesis
  proof (cases rule: bm_grab_cases [where n = n])
    case (some i b)
    have d: "(pool_base p + 4096 * i) div 4096 = pool_base p div 4096 + i" by simp
    have img: "(+) (pool_base p div 4096) ` {i..<i + n} = pages_of (pool_base p + 4096 * i) n"
      unfolding pages_of_def d by (simp add: image_add_atLeastLessThan ac_simps)
    have "pages_of (pool_base p + 4096 * i) n \<inter> pool_used p = {}"
      unfolding img [symmetric] pool_used_def using some(6) by auto
    moreover have "pool_used (p\<lparr>used_map := b\<rparr>) = pool_used p \<union> pages_of (pool_base p + 4096 * i) n"
      unfolding img [symmetric] using some(7) by (simp add: pool_used_def image_Un)
    moreover have "pages_of (pool_base p + 4096 * i) n \<subseteq> pool_pages p"
      using some(5) by (auto simp: pages_of_def pool_pages_def)
    moreover have "pool_ok (p\<lparr>used_map := b\<rparr>)" using assms(1) some(3,4) by (simp add: pool_ok_def)
    ultimately show ?thesis using that(1) some top assms(2) by simp
  next
    case none
    have "{q..<q + n} \<inter> pool_used p \<noteq> {}" if "{q..<q + n} \<subseteq> pool_pages p" for q
    proof -
      have "pool_base p div 4096 \<le> q" "q + n - 1 < pool_base p div 4096 + bit_cnt (used_map p)"
        using subsetD [OF that, of q] subsetD [OF that, of "q + n - 1"] assms(2) by (auto simp: pool_pages_def)
      moreover define i where "i = q - pool_base p div 4096"
      ultimately have q: "q = pool_base p div 4096 + i" "i + n \<le> bit_cnt (used_map p)" using assms(2) by auto
      then obtain j where "j \<in> {i..<i + n}" "j \<in> bm_used (used_map p)" using none(2) by blast
      then have "pool_base p div 4096 + j \<in> {q..<q + n} \<inter> pool_used p" using q(1) by (auto simp: pool_used_def)
      then show ?thesis by blast
    qed
    then show ?thesis using that(2) none(1) by blast
  qed
qed

lemma pool_pages_set [simp]: "bit_cnt b = bit_cnt (used_map p) \<Longrightarrow> pool_pages (p\<lparr>used_map := b\<rparr>) = pool_pages p"
  by (simp add: pool_pages_def)

text \<open>What a client relies on: \<open>got\<close> relates a request, the pages it returns and the two states.\<close>

definition got :: "u32 \<Rightarrow> nat \<Rightarrow> kmem \<Rightarrow> nat \<Rightarrow> kmem \<Rightarrow> bool" where
  "got flags n s p s' \<longleftrightarrow> p \<noteq> 0 \<and> p mod 4096 = 0 \<and> pages_of p n \<subseteq> pool_pages (get_pool (flags AND PAL_USER \<noteq> 0) s) \<and>
     pages_of p n \<inter> in_use s = {} \<and> in_use s' = in_use s \<union> pages_of p n \<and> mem_inv s' \<and>
     (\<forall>u. pool_pages (get_pool u s') = pool_pages (get_pool u s)) \<and> p + 4096 * n < 4294967296 \<and>
     (\<forall>a. kbytes s' a = (if flags AND PAL_ZERO \<noteq> 0 \<and> p \<le> a \<and> a < p + 4096 * n then 0 else kbytes s a))"

lemma palloc_get_cases:
  assumes "mem_inv s" and "0 < n" and "flags AND PAL_ASSERT = 0"
  obtains (some) p s' where "palloc_get_multiple flags n s = Some (p, s')" "got flags n s p s'"
    | (none) "palloc_get_multiple flags n s = Some (0, s)"
      "\<forall>q. {q..<q + n} \<subseteq> pool_pages (get_pool (flags AND PAL_USER \<noteq> 0) s) \<longrightarrow> {q..<q + n} \<inter> in_use s \<noteq> {}"
proof -
  define u where "u = (flags AND PAL_USER \<noteq> 0)"
  define P where "P = get_pool u s"
  have ok: "pool_ok P" using assms(1) by (simp add: P_def mem_inv_pool)
  have disj: "pool_pages P \<inter> pool_used (get_pool (\<not> u) s) = {}"
    using pools_disjoint [OF assms(1), of u] pool_used_sub unfolding P_def by blast
  have n0: "(n = 0) = False" using assms(2) by simp
  from ok assms(2) show ?thesis
  proof (cases rule: pool_get)
    case (some i b)
    let ?p = "pool_base P + 4096 * i"
    have p0: "?p \<noteq> 0" using ok by (simp add: pool_ok_def)
    have al: "?p mod 4096 = 0" using ok by (simp add: pool_ok_def)
    have "pool_base P + 4096 * (i + n) \<le> pool_base P + 4096 * bit_cnt (used_map P)" using some(4) by simp
    then have w: "wrap32 (4096 * n) = 4096 * n" using ok by (simp add: pool_ok_def)
    define m where "m = (if flags AND PAL_ZERO \<noteq> 0 then fill_up (kbytes s) ?p 0 (4096 * n) else kbytes s)"
    define s' where "s' = (set_pool u (P\<lparr>used_map := b\<rparr>) s)\<lparr>kbytes := m\<rparr>"
    have sk: "(set_pool u (P\<lparr>used_map := b\<rparr>) s)\<lparr>kbytes := kbytes s\<rparr> = set_pool u (P\<lparr>used_map := b\<rparr>) s"
      by (simp add: set_pool_def)
    have r: "palloc_get_multiple flags n s = Some (?p, s')"
      unfolding palloc_get_multiple_def u_def [symmetric] Let_def P_def [symmetric] n0 if_False some(1) bind.bind_lunit prod.case some(3)
      using some(2) p0 sk by (simp add: some(3) w memset_def m_def s'_def)
    have inv: "mem_inv s'" unfolding s'_def by (rule mem_inv_set [OF assms(1)]) (use some in \<open>simp_all add: P_def\<close>)
    have use: "in_use s' = in_use s \<union> pages_of ?p n"
      unfolding in_use_pool [of _ u] using some(9) by (auto simp: s'_def P_def)
    have free: "pages_of ?p n \<inter> in_use s = {}"
      unfolding in_use_pool [of _ u] using some(7,8) disj by (auto simp: P_def)
    have bytes: "kbytes s' a = (if flags AND PAL_ZERO \<noteq> 0 \<and> ?p \<le> a \<and> a < ?p + 4096 * n then 0 else kbytes s a)" for a
      by (simp add: s'_def m_def fill_up_apply)
    have ext: "pool_pages (get_pool v s') = pool_pages (get_pool v s)" for v
      using some(6) by (cases "v = u") (simp_all add: s'_def P_def)
    have top: "?p + 4096 * n < 4294967296"
      using \<open>pool_base P + 4096 * (i + n) \<le> pool_base P + 4096 * bit_cnt (used_map P)\<close> ok by (simp add: pool_ok_def)
    have "got flags n s ?p s'"
      unfolding got_def u_def [symmetric] P_def [symmetric] using p0 al some(8) free use inv ext top bytes by blast
    then show ?thesis using that(1) r by blast
  next
    case none
    have "set_pool u (P\<lparr>used_map := used_map P\<rparr>) s = s" by (simp add: set_pool_def P_def get_pool_def)
    then have r: "palloc_get_multiple flags n s = Some (0, s)"
      unfolding palloc_get_multiple_def u_def [symmetric] Let_def P_def [symmetric] n0 if_False none(1) bind.bind_lunit prod.case
      using assms(3) by simp
    have "{q..<q + n} \<inter> in_use s \<noteq> {}" if "{q..<q + n} \<subseteq> pool_pages P" for q
      using none(2) that unfolding in_use_pool [of _ u] P_def by blast
    then show ?thesis using that(2) r unfolding u_def [symmetric] P_def [symmetric] by blast
  qed
qed

section \<open>Returning pages\<close>

lemma palloc_free_ok:
  assumes "mem_inv s" and "p mod 4096 = 0" and "0 < n" and "pages_of p n \<subseteq> pool_pages (get_pool u s)" and "pages_of p n \<subseteq> in_use s"
  obtains s' where "palloc_free_multiple p n s = Some s'" "mem_inv s'" "in_use s' = in_use s - pages_of p n"
    "\<forall>v. pool_pages (get_pool v s') = pool_pages (get_pool v s)"
    "\<forall>a. kbytes s' a = (if p \<le> a \<and> a < p + 4096 * n then 0xcc else kbytes s a)"
proof -
  define P where "P = get_pool u s"
  have ok: "pool_ok P" using assms(1) by (simp add: P_def mem_inv_pool)
  then have inv: "bm_inv (used_map P)" by (simp add: pool_ok_def)
  have other: "pool_pages P \<inter> pool_used (get_pool (\<not> u) s) = {}"
    using pools_disjoint [OF assms(1), of u] pool_used_sub unfolding P_def by blast
  have "p div 4096 \<in> pages_of p n" "p div 4096 + (n - 1) \<in> pages_of p n" using assms(3) by (auto simp: pages_of_def)
  then have pg: "pool_base P div 4096 \<le> p div 4096" "p div 4096 + (n - 1) < pool_base P div 4096 + bit_cnt (used_map P)"
    using assms(4) unfolding P_def [symmetric] pool_pages_def by (meson atLeastLessThan_iff subsetD)+
  define i where "i = p div 4096 - pool_base P div 4096"
  have i: "p div 4096 = pool_base P div 4096 + i" "i + n \<le> bit_cnt (used_map P)" using pg assms(3) by (auto simp: i_def)
  have p: "p = pool_base P + 4096 * i"
    using i(1) assms(2) ok div_mult_mod_eq [of p 4096] div_mult_mod_eq [of "pool_base P" 4096] by (simp add: pool_ok_def)
  have top: "pool_base P + 4096 * bit_cnt (used_map P) < 4294967296" "0 < pool_base P" using ok by (auto simp: pool_ok_def)
  have "pool_base P + 4096 * (i + n) \<le> pool_base P + 4096 * bit_cnt (used_map P)" using i(2) by simp
  then have w: "wrap32 (4096 * n) = 4096 * n" using top by simp
  have img: "(+) (pool_base P div 4096) ` {i..<i + n} = pages_of p n"
    unfolding pages_of_def i(1) by (simp add: image_add_atLeastLessThan ac_simps)
  have "pages_of p n \<subseteq> pool_used P"
    using assms(4,5) other unfolding in_use_pool [of s u] P_def by blast
  then have held: "{i..<i + n} \<subseteq> bm_used (used_map P)"
    unfolding img [symmetric] pool_used_def by (rule inj_image_subset_iff [OF inj_on_add, THEN iffD1])
  then have run: "bm_run (used_map P) i n True" using bm_run_used_iff [OF i(2)] by blast
  obtain b where b: "bitmap_set_multiple (used_map P) i n False = Some b" "bm_inv b" "bit_cnt b = bit_cnt (used_map P)"
    "bm_used b = bm_used (used_map P) - {i..<i + n}"
    using bitmap_set_multiple_used [OF inv i(2), of False] by auto
  have from_pool: "page_from_pool (get_pool v s) p \<longleftrightarrow> p div 4096 \<in> pool_pages (get_pool v s)" for v
  proof -
    have "pool_ok (get_pool v s)" using assms(1) by (rule mem_inv_pool)
    then have "pool_base (get_pool v s) + 4096 * bit_cnt (used_map (get_pool v s)) < 4294967296" by (simp add: pool_ok_def)
    then have "pool_base (get_pool v s) div 4096 + bit_cnt (used_map (get_pool v s)) < 4294967296"
      using div_le_dividend [of "pool_base (get_pool v s)" 4096] by linarith
    then show ?thesis by (auto simp: page_from_pool_def Let_def bitmap_size_def pool_pages_def)
  qed
  have here: "p div 4096 \<in> pool_pages (get_pool u s)" using assms(4) \<open>p div 4096 \<in> pages_of p n\<close> by blast
  then have "p div 4096 \<notin> pool_pages (get_pool (\<not> u) s)" using pools_disjoint [OF assms(1), of u] by blast
  then have which: "(if page_from_pool (kernel_pool s) p then Some False else if page_from_pool (user_pool s) p then Some True else None) = Some u"
    using here from_pool [of True] from_pool [of False] by (cases u) (simp_all add: get_pool_def)
  define s' where "s' = (set_pool u (P\<lparr>used_map := b\<rparr>) s)\<lparr>kbytes := fill_up (kbytes s) p 0xcc (4096 * n)\<rparr>"
  have "p \<noteq> 0" "n \<noteq> 0" using p top assms(3) by simp_all
  then have r: "palloc_free_multiple p n s = Some s'"
    unfolding palloc_free_multiple_def which bind.bind_lunit P_def [symmetric] Let_def i_def [symmetric] bitmap_all_eq [OF inv i(2)] b(1)
    using assms(2) by (simp add: w memset_def run s'_def)
  have "(+) (pool_base P div 4096) ` (bm_used (used_map P) - {i..<i + n}) = pool_used P - pages_of p n"
    unfolding img [symmetric] pool_used_def by (rule image_set_diff) simp
  then have "pool_used (P\<lparr>used_map := b\<rparr>) = pool_used P - pages_of p n" by (simp add: pool_used_def b(4))
  then have use: "in_use s' = in_use s - pages_of p n"
    unfolding in_use_pool [of _ u] using other assms(4) by (auto simp: s'_def P_def)
  have "mem_inv s'" unfolding s'_def by (rule mem_inv_set [OF assms(1)]) (use b ok in \<open>simp_all add: P_def pool_ok_def\<close>)
  moreover have "pool_pages (get_pool v s') = pool_pages (get_pool v s)" for v
    using b(3) by (cases "v = u") (simp_all add: s'_def P_def)
  moreover have "kbytes s' a = (if p \<le> a \<and> a < p + 4096 * n then 0xcc else kbytes s a)" for a
    by (simp add: s'_def fill_up_apply)
  ultimately show ?thesis using that r use by blast
qed

text \<open>
  C10. Obtaining pages from a pool: the result is a run of pages of that pool that nobody has, they and no others
  become used, and with \<^verbatim>\<open>PAL_ZERO\<close> they are filled with zeros while the rest of the memory stays as it was; giving them back
  makes the pages in use what they were. A null pointer comes back, with nothing changed, exactly when the pool has no such run.
\<close>

theorem palloc_get_multiple_fresh:
  assumes "mem_inv s" and "0 < n" and "flags AND PAL_ASSERT = 0"
  shows "\<exists>p s'. palloc_get_multiple flags n s = Some (p, s') \<and>
    (if p = 0
     then s' = s \<and> (\<forall>q. {q..<q + n} \<subseteq> pool_pages (get_pool (flags AND PAL_USER \<noteq> 0) s) \<longrightarrow> {q..<q + n} \<inter> in_use s \<noteq> {})
     else p mod 4096 = 0 \<and> pages_of p n \<subseteq> pool_pages (get_pool (flags AND PAL_USER \<noteq> 0) s) \<and>
       pages_of p n \<inter> in_use s = {} \<and> in_use s' = in_use s \<union> pages_of p n \<and>
       (\<forall>a. kbytes s' a = (if flags AND PAL_ZERO \<noteq> 0 \<and> p \<le> a \<and> a < p + 4096 * n then 0 else kbytes s a)) \<and>
       (\<exists>s''. palloc_free_multiple p n s' = Some s'' \<and> in_use s'' = in_use s))"
  using assms
proof (cases rule: palloc_get_cases)
  case (some p s')
  note g = some(2) [unfolded got_def]
  have "pages_of p n \<subseteq> pool_pages (get_pool (flags AND PAL_USER \<noteq> 0) s')" "pages_of p n \<subseteq> in_use s'" using g by auto
  then obtain s'' where "palloc_free_multiple p n s' = Some s''" "in_use s'' = in_use s' - pages_of p n"
    using palloc_free_ok [of s' p n] g assms(2) by metis
  moreover have "in_use s' - pages_of p n = in_use s" using g by auto
  ultimately show ?thesis using some(1) g by (intro exI [of _ p] exI [of _ s']) auto
next
  case none
  then show ?thesis by (intro exI [of _ 0] exI [of _ s]) simp
qed

text \<open>A machine with four pages in each pool, the first page of the kernel pool taken.\<close>

definition small_mem :: kmem where
  "small_mem = \<lparr>kernel_pool = \<lparr>used_map = \<lparr>bit_cnt = 4, bits = [1]\<rparr>, pool_base = 0xc0101000\<rparr>,
     user_pool = \<lparr>used_map = \<lparr>bit_cnt = 4, bits = [0]\<rparr>, pool_base = 0xc0106000\<rparr>, kbytes = (\<lambda>_. 7)\<rparr>"

lemma small_mem_ok: "mem_inv small_mem"
  by (simp add: mem_inv_def pool_ok_def small_mem_def bm_inv_def BITMAP_ERROR_def)

theorem palloc_get_multiple_fresh_witness:
  "\<exists>p s'. palloc_get_multiple PAL_ZERO 2 small_mem = Some (p, s') \<and> (p \<noteq> 0 \<longrightarrow> pages_of p 2 \<inter> in_use small_mem = {})"
  using palloc_get_multiple_fresh [OF small_mem_ok, of 2 PAL_ZERO] by (auto simp: PAL_ZERO_def PAL_ASSERT_def split: if_splits)

section \<open>Start-up\<close>

lemma buf_size:
  assumes "n \<le> 1048576"
  shows "bitmap_buf_size n = 8 + 4 * ((n + 31) div 32)"
proof -
  have "(n + 31) div 32 \<le> 32769" using assms div_le_mono [of "n + 31" 1048607 32] by simp
  then show ?thesis using assms by (simp add: bitmap_buf_size_def byte_cnt_def elem_cnt_def DIV_ROUND_UP_def ELEM_BITS_def)
qed

lemma init_pool_ok:
  assumes "0 < n" and "n \<le> 262144" and "base mod 4096 = 0" and "base + 4096 * n < 4294967296"
  obtains p where "init_pool base n m = Some p" "pool_ok p" "pool_used p = {}" "pool_base p \<ge> base"
    "pool_base p + 4096 * bit_cnt (used_map p) = base + 4096 * n"
proof -
  define k where "k = DIV_ROUND_UP (bitmap_buf_size n) 4096"
  define sz where "sz = bitmap_buf_size n"
  have sz: "sz = 8 + 4 * ((n + 31) div 32)" using buf_size [of n] assms(2) by (simp add: sz_def)
  have d: "(n + 31) div 32 \<le> 8192" using assms(2) div_le_mono [of "n + 31" 262175 32] by simp
  have k: "k = (sz + 4095) div 4096" using sz d by (simp add: k_def sz_def [symmetric] DIV_ROUND_UP_def)
  have k1: "0 < k" using sz by (simp add: k)
  have kn: "k \<le> n"
  proof (cases "n \<le> 32704")
    case True
    then have "(n + 31) div 32 \<le> 1022" using div_le_mono [of "n + 31" 32735 32] by simp
    then have "k \<le> 1" using sz div_le_mono [of "sz + 4095" 8191 4096] by (simp add: k)
    then show ?thesis using assms(1) by simp
  next
    case False
    have "k \<le> 9" using sz d div_le_mono [of "sz + 4095" 36871 4096] by (simp add: k)
    then show ?thesis using False by simp
  qed
  have cover: "sz \<le> k * 4096" using dividend_less_times_div [of 4096 "sz + 4095"] by (simp add: k)
  have "bitmap_buf_size (n - k) \<le> sz"
    using buf_size [of "n - k"] assms(2) sz div_le_mono [of "n - k + 31" "n + 31" 32] by simp
  then have fits: "bitmap_buf_size (n - k) \<le> wrap32 (k * 4096)" using cover kn assms(2) by (simp add: wrap32_def)
  define ws where "ws = map (\<lambda>i. of_le32 (map m [base + 8 + 4 * i..<base + 12 + 4 * i])) [0..<elem_cnt (n - k)]"
  have "bm_inv \<lparr>bit_cnt = n - k, bits = ws\<rparr>"
    using elem_cnt_enough [of "n - k"] assms(2) by (simp add: bm_inv_def ws_def BITMAP_ERROR_def)
  from bitmap_set_all_used [OF this, of False]
  obtain b where b: "bitmap_set_all \<lparr>bit_cnt = n - k, bits = ws\<rparr> False = Some b" "bm_inv b" "bit_cnt b = n - k" "bm_used b = {}" by auto
  define p where "p = \<lparr>used_map = b, pool_base = base + k * 4096\<rparr>"
  have le: "base + k * 4096 + 4096 * (n - k) = base + 4096 * n" using kn by (simp add: diff_mult_distrib2)
  have w: "wrap32 (base + k * 4096) = base + k * 4096" using assms(4) le by (simp add: wrap32_def)
  have "init_pool base n m = Some p"
    unfolding init_pool_def Let_def k_def [symmetric] ws_def [symmetric] w
    using kn fits b(1) by (simp add: bitmap_create_in_buf_def p_def)
  moreover have "pool_ok p" using b assms(3,4) le k1 by (simp add: pool_ok_def p_def)
  moreover have "pool_used p = {}" by (simp add: pool_used_def p_def b(4))
  moreover have "pool_base p + 4096 * bit_cnt (used_map p) = base + 4096 * n" using le by (simp add: p_def b(3))
  ultimately show ?thesis using that by (simp add: p_def)
qed

text \<open>With at least two pages above 1 MB and at most 768 MB of memory, start-up succeeds and no page is in use.\<close>

lemma palloc_init_ok:
  assumes "258 \<le> ram" and "ram \<le> 196608" and "0 < limit"
  obtains s where "palloc_init ram limit m = Some s" "mem_inv s" "in_use s = {}" "kbytes s = m"
proof -
  define f where "f = ram - 256"
  define u where "u = min (f div 2) limit"
  have f: "2 \<le> f" "f \<le> 196352" using assms by (simp_all add: f_def)
  have u: "0 < u" "u < f" using f assms(3) by (auto simp: u_def)
  have fu: "f - u \<le> 196352" "0 < f - u" using f u by simp_all
  have fp: "nat ((sgn (int (4096 * f)) * (\<bar>int (4096 * f)\<bar> div 4096)) mod 2 ^ 32) = f"
    using f by simp
  obtain k where k: "init_pool (3221225472 + 1048576) (f - u) m = Some k" "pool_ok k" "pool_used k = {}" "pool_base k \<ge> 3221225472 + 1048576"
    "pool_base k + 4096 * bit_cnt (used_map k) = 3221225472 + 1048576 + 4096 * (f - u)"
    using init_pool_ok [of "f - u" "3221225472 + 1048576" m] fu by auto
  have sum: "3221225472 + 1048576 + (f - u) * 4096 + 4096 * u = 3221225472 + 1048576 + 4096 * f" using u by (simp add: diff_mult_distrib)
  obtain p where p: "init_pool (3221225472 + 1048576 + (f - u) * 4096) u m = Some p" "pool_ok p" "pool_used p = {}"
    "pool_base p \<ge> 3221225472 + 1048576 + (f - u) * 4096"
    using init_pool_ok [of u "3221225472 + 1048576 + (f - u) * 4096" m] f u sum by auto
  define s where "s = \<lparr>kernel_pool = k, user_pool = p, kbytes = m\<rparr>"
  have w: "wrap32 (3221225472 + wrap32 (ram * 4096)) = 3221225472 + 4096 * ram" using assms(2) by simp
  have sg: "signed_take_bit 31 (int (3221225472 + 4096 * ram) - int (3221225472 + 1024 * 1024)) = int (4096 * f)"
    using f by (simp add: f_def signed_take_bit_int_eq_self of_nat_diff)
  have ww: "wrap32 (3221225472 + 1024 * 1024 + (f - u) * 4096) = 3221225472 + 1048576 + (f - u) * 4096" using f u by simp
  have a: "wrap32 (ram * 4096) < 3221225472" using assms(2) by simp
  have r: "palloc_init ram limit m = Some s"
    unfolding palloc_init_def Let_def w sg fp u_def [symmetric] ww using a k(1) p(1) by (simp add: s_def)
  have "pool_base k + 4096 * bit_cnt (used_map k) \<le> pool_base p" using k(5) p(4) by simp
  then have "mem_inv s" using k(2) p(2) by (simp add: mem_inv_def s_def)
  then show ?thesis using that r k(3) p(3) by (simp add: in_use_def s_def)
qed

end
