(* ===== verification/Malloc.thy ===== *)
theory Malloc
  imports Palloc
begin

text \<open>
  The kernel heap, \<^verbatim>\<open>threads/malloc.c\<close>: descriptors with their lists of free blocks, arenas of one page divided into blocks, and big
  blocks of whole pages. A block is named by its address. An arena exists while its page has the magic number: freeing the page
  overwrites it. The links of the free lists and the headers of the arenas are not among the bytes of the state.
\<close>

section \<open>Model\<close>

record desc =
  block_size :: nat
  blocks_per_arena :: nat
  free_list :: "nat list"

record arena =
  a_desc :: "nat option"
  a_free_cnt :: nat

record heap =
  hmem :: kmem
  descs :: "desc list"
  arenas :: "nat \<Rightarrow> arena option"

partial_function (option) init_descs :: "nat \<Rightarrow> desc list \<Rightarrow> desc list option" where
  "init_descs sz ds =
     (if sz < 4096 div 2
      then do {
        ASSERT (length ds + 1 \<le> 10);
        init_descs (sz * 2) (ds @ [\<lparr>block_size = sz, blocks_per_arena = (4096 - 12) div sz, free_list = []\<rparr>]) }
      else Some ds)"

definition malloc_init :: "kmem \<Rightarrow> heap option" where
  "malloc_init m = do {
     ds \<leftarrow> init_descs 16 [];
     Some \<lparr>hmem = m, descs = ds, arenas = (\<lambda>_. None)\<rparr> }"

definition pg_start :: "nat \<Rightarrow> nat" where
  "pg_start b = b - b mod 4096"

definition block_to_arena :: "nat \<Rightarrow> heap \<Rightarrow> (nat \<times> arena) option" where
  "block_to_arena b h = do {
     let a = pg_start b;
     ASSERT (a \<noteq> 0);
     ar \<leftarrow> arenas h a;
     ASSERT (case a_desc ar of None \<Rightarrow> b mod 4096 = 12
             | Some k \<Rightarrow> wrap32 (b mod 4096 + (2 ^ 32 - 12)) mod block_size (descs h ! k) = 0);
     Some (a, ar) }"

definition arena_to_block :: "nat \<Rightarrow> nat \<Rightarrow> heap \<Rightarrow> nat option" where
  "arena_to_block a idx h = do {
     ASSERT (a \<noteq> 0);
     ar \<leftarrow> arenas h a;
     k \<leftarrow> a_desc ar;
     ASSERT (idx < blocks_per_arena (descs h ! k));
     Some (a + 12 + idx * block_size (descs h ! k)) }"

definition set_free :: "nat \<Rightarrow> nat list \<Rightarrow> heap \<Rightarrow> heap" where
  "set_free k bs h = h\<lparr>descs := (descs h)[k := (descs h ! k)\<lparr>free_list := bs\<rparr>]\<rparr>"

definition set_arena :: "nat \<Rightarrow> arena option \<Rightarrow> heap \<Rightarrow> heap" where
  "set_arena a ar h = h\<lparr>arenas := (arenas h)(a := ar)\<rparr>"

fun add_blocks :: "nat \<Rightarrow> nat \<Rightarrow> nat \<Rightarrow> nat \<Rightarrow> heap \<Rightarrow> heap option" where
  "add_blocks a k i 0 h = Some h"
| "add_blocks a k i (Suc n) h = do {
     b \<leftarrow> arena_to_block a i h;
     add_blocks a k (i + 1) n (set_free k (free_list (descs h ! k) @ [b]) h) }"

text \<open>A new arena for an empty descriptor.\<close>

definition new_arena :: "nat \<Rightarrow> heap \<Rightarrow> (bool \<times> heap) option" where
  "new_arena k h = do {
     (a, m) \<leftarrow> palloc_get_page 0 (hmem h);
     let h = h\<lparr>hmem := m\<rparr>;
     if a = 0 then Some (False, h)
     else do {
       let n = blocks_per_arena (descs h ! k);
       h \<leftarrow> add_blocks a k 0 n (set_arena a (Some \<lparr>a_desc = Some k, a_free_cnt = n\<rparr>) h);
       Some (True, h) } }"

definition pop_block :: "nat \<Rightarrow> heap \<Rightarrow> (nat \<times> heap) option" where
  "pop_block k h =
     (case free_list (descs h ! k) of
        [] \<Rightarrow> None
      | b # bs \<Rightarrow> do {
          let h = set_free k bs h;
          (a, ar) \<leftarrow> block_to_arena b h;
          Some (b, set_arena a (Some (ar\<lparr>a_free_cnt := wrap32 (a_free_cnt ar + 4294967295)\<rparr>)) h) })"

definition find_desc :: "nat \<Rightarrow> heap \<Rightarrow> nat option" where
  "find_desc sz h = find (\<lambda>k. block_size (descs h ! k) \<ge> sz) [0..<length (descs h)]"

definition malloc :: "nat \<Rightarrow> heap \<Rightarrow> (nat \<times> heap) option" where
  "malloc sz h =
     (if sz = 0 then Some (0, h)
      else case find_desc sz h of
        None \<Rightarrow> do {
          let page_cnt = DIV_ROUND_UP (wrap32 (sz + 12)) 4096;
          (a, m) \<leftarrow> palloc_get_multiple 0 page_cnt (hmem h);
          let h = h\<lparr>hmem := m\<rparr>;
          if a = 0 then Some (0, h)
          else Some (a + 12, set_arena a (Some \<lparr>a_desc = None, a_free_cnt = page_cnt\<rparr>) h) }
      | Some k \<Rightarrow> do {
          (ok, h) \<leftarrow> (if free_list (descs h ! k) = [] then new_arena k h else Some (True, h));
          if ok then pop_block k h else Some (0, h) })"

definition set_bytes :: "memory \<Rightarrow> heap \<Rightarrow> heap" where
  "set_bytes m h = h\<lparr>hmem := (hmem h)\<lparr>kbytes := m\<rparr>\<rparr>"

definition calloc :: "nat \<Rightarrow> nat \<Rightarrow> heap \<Rightarrow> (nat \<times> heap) option" where
  "calloc a b h =
     (let sz = wrap32 (a * b)
      in if sz < a \<or> sz < b then Some (0, h)
         else do {
           (p, h) \<leftarrow> malloc sz h;
           if p \<noteq> 0 then do { (_, m) \<leftarrow> memset (kbytes (hmem h)) p 0 sz; Some (p, set_bytes m h) }
           else Some (p, h) })"

definition size_of_block :: "nat \<Rightarrow> heap \<Rightarrow> nat option" where
  "size_of_block b h = do {
     (a, ar) \<leftarrow> block_to_arena b h;
     Some (case a_desc ar of Some k \<Rightarrow> block_size (descs h ! k) | None \<Rightarrow> wrap32 (4096 * a_free_cnt ar - b mod 4096)) }"

fun remove_blocks :: "nat \<Rightarrow> nat \<Rightarrow> nat \<Rightarrow> nat \<Rightarrow> heap \<Rightarrow> heap option" where
  "remove_blocks a k i 0 h = Some h"
| "remove_blocks a k i (Suc n) h = do {
     b \<leftarrow> arena_to_block a i h;
     ASSERT (b \<in> set (free_list (descs h ! k)));
     remove_blocks a k (i + 1) n (set_free k (remove1 b (free_list (descs h ! k))) h) }"

definition free_block :: "nat \<Rightarrow> heap \<Rightarrow> heap option" where
  "free_block p h =
     (if p = 0 then Some h
      else do {
        (a, ar) \<leftarrow> block_to_arena p h;
        case a_desc ar of
          Some k \<Rightarrow> do {
            let d = descs h ! k;
            (_, m) \<leftarrow> memset (kbytes (hmem h)) p 0xcc (block_size d);
            let cnt = wrap32 (a_free_cnt ar + 1);
            let h = set_arena a (Some (ar\<lparr>a_free_cnt := cnt\<rparr>)) (set_free k (p # free_list d) (set_bytes m h));
            if cnt \<ge> blocks_per_arena d
            then do {
              ASSERT (cnt = blocks_per_arena d);
              h \<leftarrow> remove_blocks a k 0 (blocks_per_arena d) h;
              m \<leftarrow> palloc_free_page a (hmem h);
              Some (set_arena a None (h\<lparr>hmem := m\<rparr>)) }
            else Some h }
        | None \<Rightarrow> do {
            m \<leftarrow> palloc_free_multiple a (a_free_cnt ar) (hmem h);
            Some (set_arena a None (h\<lparr>hmem := m\<rparr>)) } })"

definition realloc :: "nat \<Rightarrow> nat \<Rightarrow> heap \<Rightarrow> (nat \<times> heap) option" where
  "realloc old_block new_size h =
     (if new_size = 0 then do { h \<leftarrow> free_block old_block h; Some (0, h) }
      else do {
        (new_block, h) \<leftarrow> malloc new_size h;
        if old_block \<noteq> 0 \<and> new_block \<noteq> 0
        then do {
          old_size \<leftarrow> size_of_block old_block h;
          (_, m) \<leftarrow> memcpy (kbytes (hmem h)) new_block old_block (min new_size old_size);
          h \<leftarrow> free_block old_block (set_bytes m h);
          Some (new_block, h) }
        else Some (new_block, h) })"

section \<open>Blocks\<close>

definition bsz :: "nat \<Rightarrow> nat" where "bsz k = 16 * 2 ^ k"
definition bpa :: "nat \<Rightarrow> nat" where "bpa k = 4084 div bsz k"

definition block :: "nat \<Rightarrow> nat \<Rightarrow> nat \<Rightarrow> nat" where
  "block k a i = a + 12 + i * bsz k"

definition blocks :: "nat \<Rightarrow> nat \<Rightarrow> nat set" where
  "blocks k a = block k a ` {..<bpa k}"

lemma bpa_pos: "k < 7 \<Longrightarrow> 0 < bpa k"
proof -
  assume "k < 7"
  then have "(2::nat) ^ k \<le> 2 ^ 6" by (intro power_increasing) auto
  then show ?thesis by (simp add: bpa_def bsz_def div_greater_zero_iff)
qed

lemma bsz_pos [simp]: "0 < bsz k" by (simp add: bsz_def)

lemma bpa_bsz: "i < bpa k \<Longrightarrow> i * bsz k + bsz k \<le> 4084"
proof -
  assume "i < bpa k"
  then have "(i + 1) * bsz k \<le> bpa k * bsz k" by (intro mult_le_mono1) simp
  also have "\<dots> \<le> 4084" by (simp add: bpa_def)
  finally show ?thesis by simp
qed

lemma block_mod:
  assumes "a mod 4096 = 0" and "i < bpa k"
  shows "block k a i mod 4096 = 12 + i * bsz k" and "pg_start (block k a i) = a" and "a < block k a i" and "block k a i + bsz k \<le> a + 4096"
proof -
  have b: "12 + i * bsz k < 4096" using bpa_bsz [OF assms(2)] bsz_pos [of k] by linarith
  have "block k a i mod 4096 = (a mod 4096 + (12 + i * bsz k)) mod 4096"
    unfolding block_def add.assoc by (rule mod_add_left_eq [symmetric])
  also have "\<dots> = 12 + i * bsz k" using b assms(1) by simp
  finally show m: "block k a i mod 4096 = 12 + i * bsz k" .
  then show "pg_start (block k a i) = a" by (simp add: pg_start_def block_def)
  show "a < block k a i" by (simp add: block_def)
  show "block k a i + bsz k \<le> a + 4096" using bpa_bsz [OF assms(2)] by (simp add: block_def)
qed

lemma block_inj: "block k a i = block k a j \<longleftrightarrow> i = j"
  using bsz_pos [of k] unfolding block_def by (metis add_left_cancel mult_cancel2 less_irrefl)

lemma card_blocks [simp]: "card (blocks k a) = bpa k" "finite (blocks k a)"
  by (auto simp: blocks_def card_image inj_on_def block_inj)

lemma blocks_pg: "a mod 4096 = 0 \<Longrightarrow> b \<in> blocks k a \<Longrightarrow> pg_start b = a"
  using block_mod(2) by (auto simp: blocks_def)

section \<open>The invariant\<close>

text \<open>
  The pages of arenas are pages of the kernel pool that are in use, those of two arenas are different, and a free list has the blocks of
  arenas of its descriptor, each once. \<open>fl\<close> gives the free list of each descriptor.
\<close>

definition arena_pages :: "nat \<Rightarrow> arena \<Rightarrow> nat set" where
  "arena_pages a ar = pages_of a (case a_desc ar of None \<Rightarrow> a_free_cnt ar | Some k \<Rightarrow> 1)"

definition arena_ok :: "kmem \<Rightarrow> (nat \<Rightarrow> nat list) \<Rightarrow> nat \<Rightarrow> arena \<Rightarrow> bool" where
  "arena_ok m fl a ar \<longleftrightarrow> a mod 4096 = 0 \<and> a \<noteq> 0 \<and> a < 4294967296 \<and>
     arena_pages a ar \<subseteq> pool_pages (get_pool False m) \<and> arena_pages a ar \<subseteq> in_use m \<and>
     (case a_desc ar of None \<Rightarrow> 0 < a_free_cnt ar \<and> a + 4096 * a_free_cnt ar < 4294967296
      | Some k \<Rightarrow> k < 7 \<and> a_free_cnt ar = card (blocks k a \<inter> set (fl k)))"

definition hinv :: "kmem \<Rightarrow> (nat \<Rightarrow> nat list) \<Rightarrow> (nat \<Rightarrow> arena option) \<Rightarrow> bool" where
  "hinv m fl ars \<longleftrightarrow> mem_inv m \<and> (\<forall>a ar. ars a = Some ar \<longrightarrow> arena_ok m fl a ar) \<and>
     (\<forall>a ar a' ar'. ars a = Some ar \<longrightarrow> ars a' = Some ar' \<longrightarrow> a \<noteq> a' \<longrightarrow> arena_pages a ar \<inter> arena_pages a' ar' = {}) \<and>
     (\<forall>k<7. distinct (fl k) \<and> (\<forall>b\<in>set (fl k). \<exists>a ar. ars a = Some ar \<and> a_desc ar = Some k \<and> b \<in> blocks k a))"

definition desc_ok :: "desc list \<Rightarrow> bool" where
  "desc_ok ds \<longleftrightarrow> length ds = 7 \<and> (\<forall>k<7. block_size (ds ! k) = bsz k \<and> blocks_per_arena (ds ! k) = bpa k)"

definition free_of :: "heap \<Rightarrow> nat \<Rightarrow> nat list" where
  "free_of h k = free_list (descs h ! k)"

definition heap_inv :: "heap \<Rightarrow> bool" where
  "heap_inv h \<longleftrightarrow> desc_ok (descs h) \<and> hinv (hmem h) (free_of h) (arenas h)"

text \<open>The blocks that clients have, and the addresses of a block.\<close>

definition arena_live :: "(nat \<Rightarrow> nat list) \<Rightarrow> nat \<Rightarrow> arena \<Rightarrow> nat set" where
  "arena_live fl a ar = (case a_desc ar of None \<Rightarrow> {a + 12} | Some k \<Rightarrow> blocks k a - set (fl k))"

definition live_in :: "(nat \<Rightarrow> nat list) \<Rightarrow> (nat \<Rightarrow> arena option) \<Rightarrow> nat set" where
  "live_in fl ars = {b. \<exists>a ar. ars a = Some ar \<and> b \<in> arena_live fl a ar}"

definition live :: "heap \<Rightarrow> nat set" where
  "live h = live_in (free_of h) (arenas h)"

definition extent_in :: "(nat \<Rightarrow> arena option) \<Rightarrow> nat \<Rightarrow> nat set" where
  "extent_in ars b = (case ars (pg_start b) of None \<Rightarrow> {} | Some ar \<Rightarrow>
     {b..<b + (case a_desc ar of None \<Rightarrow> 4096 * a_free_cnt ar - 12 | Some k \<Rightarrow> bsz k)})"

definition extent :: "heap \<Rightarrow> nat \<Rightarrow> nat set" where
  "extent h b = extent_in (arenas h) b"

lemma live_in_cong: "(\<And>a ar. ars a = Some ar \<Longrightarrow> arena_live fl a ar = arena_live fl' a ar) \<Longrightarrow> live_in fl ars = live_in fl' ars"
  unfolding live_in_def by blast

lemma live_in_add: "ars a = None \<Longrightarrow> live_in fl (ars(a \<mapsto> ar)) = live_in fl ars \<union> arena_live fl a ar"
  unfolding live_in_def by (auto simp: fun_upd_def) (metis option.distinct(1))

lemma live_in_split: "ars a = Some ar \<Longrightarrow> live_in fl ars = live_in fl (ars(a := None)) \<union> arena_live fl a ar"
  using live_in_add [of "ars(a := None)" a fl ar] by (simp add: fun_upd_idem)

lemma live_inE:
  assumes "hinv m fl ars" and "b \<in> live_in fl ars"
  obtains a ar where "ars a = Some ar" "arena_ok m fl a ar" "pg_start b = a"
    "case a_desc ar of None \<Rightarrow> b = a + 12 | Some k \<Rightarrow> b \<in> blocks k a - set (fl k)"
proof -
  from assms(2) obtain a ar where a: "ars a = Some ar" "case a_desc ar of None \<Rightarrow> b = a + 12 | Some k \<Rightarrow> b \<in> blocks k a - set (fl k)"
    unfolding live_in_def arena_live_def by (auto split: option.splits)
  then have ok: "arena_ok m fl a ar" using assms(1) by (simp add: hinv_def)
  then have "a mod 4096 = 0" by (simp add: arena_ok_def)
  then have "pg_start b = a"
  proof (cases "a_desc ar")
    case None
    have "(a + 12) mod 4096 = 12" using \<open>a mod 4096 = 0\<close> by (simp add: mod_add_left_eq [symmetric])
    then show ?thesis using a(2) None by (simp add: pg_start_def)
  next
    case (Some k)
    then show ?thesis using a(2) blocks_pg [OF \<open>a mod 4096 = 0\<close>, of b k] by simp
  qed
  then show ?thesis using that a ok by blast
qed

text \<open>A block lies in the pages of its arena, so that blocks do not overlap.\<close>

lemma extent_pages:
  assumes "arena_ok m fl a ar" and "ars a = Some ar" and "pg_start b = a"
    and "case a_desc ar of None \<Rightarrow> b = a + 12 | Some k \<Rightarrow> b \<in> blocks k a" and "x \<in> extent_in ars b"
  shows "x div 4096 \<in> arena_pages a ar" and "a \<le> x"
proof -
  have al: "a mod 4096 = 0" using assms(1) by (simp add: arena_ok_def)
  have "a \<le> x \<and> x < a + 4096 * (case a_desc ar of None \<Rightarrow> a_free_cnt ar | Some k \<Rightarrow> 1)"
  proof (cases "a_desc ar")
    case None
    then show ?thesis using assms(1,2,3,4,5) by (auto simp: extent_in_def arena_ok_def)
  next
    case (Some k)
    then obtain i where "i < bpa k" "b = block k a i" using assms(4) by (auto simp: blocks_def)
    then show ?thesis using block_mod(3,4) [OF al] Some assms(2,3,5) by (fastforce simp: extent_in_def)
  qed
  then have x: "a \<le> x" "x < a + 4096 * (case a_desc ar of None \<Rightarrow> a_free_cnt ar | Some k \<Rightarrow> 1)" by auto
  show "a \<le> x" by (rule x)
  have "a div 4096 \<le> x div 4096" using x(1) by (rule div_le_mono)
  moreover have "x < 4096 * (a div 4096 + (case a_desc ar of None \<Rightarrow> a_free_cnt ar | Some k \<Rightarrow> 1))"
    using x(2) al div_mult_mod_eq [of a 4096] by (simp add: algebra_simps)
  then have "x div 4096 < a div 4096 + (case a_desc ar of None \<Rightarrow> a_free_cnt ar | Some k \<Rightarrow> 1)"
    by (simp add: less_mult_imp_div_less mult.commute)
  ultimately show "x div 4096 \<in> arena_pages a ar" by (simp add: arena_pages_def pages_of_def)
qed

lemma extents_disjoint:
  assumes inv: "hinv m fl ars" and b: "b \<in> live_in fl ars" and c: "c \<in> live_in fl ars" and ne: "b \<noteq> c"
  shows "extent_in ars b \<inter> extent_in ars c = {}"
proof -
  obtain a ar where a: "ars a = Some ar" "arena_ok m fl a ar" "pg_start b = a"
    "case a_desc ar of None \<Rightarrow> b = a + 12 | Some k \<Rightarrow> b \<in> blocks k a - set (fl k)" by (rule live_inE [OF inv b])
  obtain a' ar' where a': "ars a' = Some ar'" "arena_ok m fl a' ar'" "pg_start c = a'"
    "case a_desc ar' of None \<Rightarrow> c = a' + 12 | Some k \<Rightarrow> c \<in> blocks k a' - set (fl k)" by (rule live_inE [OF inv c])
  have w: "case a_desc ar of None \<Rightarrow> b = a + 12 | Some k \<Rightarrow> b \<in> blocks k a"
    "case a_desc ar' of None \<Rightarrow> c = a' + 12 | Some k \<Rightarrow> c \<in> blocks k a'"
    using a(4) a'(4) by (auto split: option.splits)
  show ?thesis
  proof (cases "a = a'")
    case False
    then have "arena_pages a ar \<inter> arena_pages a' ar' = {}" using inv a(1) a'(1) unfolding hinv_def by blast
    then show ?thesis using extent_pages(1) [OF a(2), of ars b, OF a(1,3) w(1)] extent_pages(1) [OF a'(2), of ars c, OF a'(1,3) w(2)] by blast
  next
    case True
    then have eq: "ar' = ar" using a(1) a'(1) by simp
    show ?thesis
    proof (cases "a_desc ar")
      case None
      then show ?thesis using a(4) a'(4) eq True ne by simp
    next
      case (Some k)
      obtain i j where ij: "b = block k a i" "c = block k a j" using w Some eq True by (auto simp: blocks_def)
      then have "i < j \<or> j < i" using ne by (auto simp: block_inj)
      then have "i * bsz k + bsz k \<le> j * bsz k \<or> j * bsz k + bsz k \<le> i * bsz k"
        using mult_le_mono1 [of "i + 1" j "bsz k"] mult_le_mono1 [of "j + 1" i "bsz k"] by auto
      then have "b + bsz k \<le> c \<or> c + bsz k \<le> b" unfolding ij block_def by linarith
      then show ?thesis using a(1,3) a'(1,3) eq True Some by (auto simp: extent_in_def)
    qed
  qed
qed

section \<open>Steps\<close>

lemma blocks_disjoint: "a mod 4096 = 0 \<Longrightarrow> a' mod 4096 = 0 \<Longrightarrow> a \<noteq> a' \<Longrightarrow> blocks k a \<inter> blocks k' a' = {}"
proof -
  assume "a mod 4096 = 0" "a' mod 4096 = 0" "a \<noteq> a'"
  then show "blocks k a \<inter> blocks k' a' = {}" using blocks_pg by (metis disjoint_iff)
qed

lemma arena_ok_cong:
  assumes "arena_ok m fl a ar" and "pool_pages (get_pool False m') = pool_pages (get_pool False m)"
    and "arena_pages a ar \<subseteq> in_use m'" and "\<And>k. a_desc ar = Some k \<Longrightarrow> blocks k a \<inter> set (fl' k) = blocks k a \<inter> set (fl k)"
  shows "arena_ok m' fl' a ar"
  using assms by (auto simp: arena_ok_def split: option.splits)

lemma hinvD:
  assumes "hinv m fl ars"
  shows "mem_inv m" and "ars a = Some ar \<Longrightarrow> arena_ok m fl a ar"
    and "ars a = Some ar \<Longrightarrow> ars a' = Some ar' \<Longrightarrow> a \<noteq> a' \<Longrightarrow> arena_pages a ar \<inter> arena_pages a' ar' = {}"
    and "k < 7 \<Longrightarrow> distinct (fl k)"
    and "k < 7 \<Longrightarrow> b \<in> set (fl k) \<Longrightarrow> \<exists>a ar. ars a = Some ar \<and> a_desc ar = Some k \<and> b \<in> blocks k a"
  using assms unfolding hinv_def by blast+

lemma arena_page: "arena_ok m fl a ar \<Longrightarrow> a div 4096 \<in> arena_pages a ar"
  by (auto simp: arena_ok_def arena_pages_def pages_of_def split: option.splits)

lemma fresh_arena:
  assumes inv: "hinv m fl ars" and g: "got 0 n m a m'" and "0 < n"
  shows "ars a = None" and "ars a' = Some ar \<Longrightarrow> arena_pages a' ar \<inter> pages_of a n = {}"
    and "ars a' = Some ar \<Longrightarrow> arena_ok m' fl a' ar"
proof -
  have use: "pages_of a n \<inter> in_use m = {}" "in_use m' = in_use m \<union> pages_of a n"
    and pools: "\<forall>u. pool_pages (get_pool u m') = pool_pages (get_pool u m)"
    using g unfolding got_def by blast+
  show d: "arena_pages a' ar \<inter> pages_of a n = {}" if "ars a' = Some ar" for a' ar
  proof -
    have "arena_pages a' ar \<subseteq> in_use m" using hinvD(2) [OF inv that] by (simp add: arena_ok_def)
    then show ?thesis using use(1) by blast
  qed
  show "ars a = None"
  proof (cases "ars a")
    case (Some ar)
    have "a div 4096 \<in> pages_of a n" using assms(3) by (simp add: pages_of_def)
    then show ?thesis using d [OF Some] arena_page [OF hinvD(2) [OF inv Some]] by blast
  qed simp
  show "arena_ok m' fl a' ar" if "ars a' = Some ar"
  proof (rule arena_ok_cong [OF hinvD(2) [OF inv that]])
    show "pool_pages (get_pool False m') = pool_pages (get_pool False m)" using pools by blast
    show "arena_pages a' ar \<subseteq> in_use m'" using hinvD(2) [OF inv that] use(2) by (auto simp: arena_ok_def)
  qed simp
qed

lemma got_facts:
  assumes "got 0 n m a m'"
  shows "mem_inv m'" "a \<noteq> 0" "a mod 4096 = 0" "pages_of a n \<subseteq> pool_pages (get_pool False m')" "pages_of a n \<subseteq> in_use m'"
    "a + 4096 * n < 4294967296" "kbytes m' = kbytes m"
  using assms unfolding got_def by (auto simp: PAL_USER_def PAL_ZERO_def)

lemma add_big:
  assumes inv: "hinv m fl ars" and g: "got 0 n m a m'" and "0 < n"
  shows "hinv m' fl (ars(a \<mapsto> \<lparr>a_desc = None, a_free_cnt = n\<rparr>))"
    and "live_in fl (ars(a \<mapsto> \<lparr>a_desc = None, a_free_cnt = n\<rparr>)) = insert (a + 12) (live_in fl ars)" and "a + 12 \<notin> live_in fl ars"
proof -
  define ar where "ar = \<lparr>a_desc = None, a_free_cnt = n\<rparr>"
  note f = fresh_arena [OF inv g assms(3)] and gf = got_facts [OF g]
  have pg: "arena_pages a ar = pages_of a n" by (simp add: ar_def arena_pages_def)
  have new: "arena_ok m' fl a ar" unfolding arena_ok_def pg using gf assms(3) by (simp add: ar_def)
  show "hinv m' fl (ars(a \<mapsto> \<lparr>a_desc = None, a_free_cnt = n\<rparr>))"
    unfolding ar_def [symmetric] hinv_def
  proof (intro conjI allI impI)
    show "arena_ok m' fl a' ar'" if "(ars(a \<mapsto> ar)) a' = Some ar'" for a' ar'
      using that new f(3) by (auto split: if_splits)
    show "arena_pages a1 r1 \<inter> arena_pages a2 r2 = {}"
      if "(ars(a \<mapsto> ar)) a1 = Some r1" "(ars(a \<mapsto> ar)) a2 = Some r2" "a1 \<noteq> a2" for a1 r1 a2 r2
      using that f(2) [of a1 r1] f(2) [of a2 r2] hinvD(3) [OF inv, of a1 r1 a2 r2] pg by (auto split: if_splits)
    show "distinct (fl k)" if "k < 7" for k using hinvD(4) [OF inv that] .
    show "\<forall>b\<in>set (fl k). \<exists>a' ar'. (ars(a \<mapsto> ar)) a' = Some ar' \<and> a_desc ar' = Some k \<and> b \<in> blocks k a'" if "k < 7" for k
    proof
      fix b assume "b \<in> set (fl k)"
      then obtain a' ar' where "ars a' = Some ar'" "a_desc ar' = Some k" "b \<in> blocks k a'" using hinvD(5) [OF inv \<open>k < 7\<close>] by blast
      moreover from this have "a' \<noteq> a" using f(1) by auto
      ultimately show "\<exists>a' ar'. (ars(a \<mapsto> ar)) a' = Some ar' \<and> a_desc ar' = Some k \<and> b \<in> blocks k a'" by (intro exI [of _ a'] exI [of _ ar']) simp
    qed
  qed (rule gf)
  show "live_in fl (ars(a \<mapsto> \<lparr>a_desc = None, a_free_cnt = n\<rparr>)) = insert (a + 12) (live_in fl ars)"
    using live_in_add [of ars a fl ar] f(1) by (simp add: ar_def arena_live_def)
  show "a + 12 \<notin> live_in fl ars"
  proof
    assume "a + 12 \<in> live_in fl ars"
    then have "ars (pg_start (a + 12)) \<noteq> None" by (rule live_inE [OF inv]) simp
    moreover have "pg_start (a + 12) = a" using mod_add_left_eq [of a 4096 12] gf(3) by (simp add: pg_start_def)
    ultimately show False using f(1) by simp
  qed
qed

lemma add_small:
  assumes inv: "hinv m fl ars" and g: "got 0 1 m a m'" and k: "k < 7"
  shows "hinv m' (fl(k := fl k @ map (block k a) [0..<bpa k])) (ars(a \<mapsto> \<lparr>a_desc = Some k, a_free_cnt = bpa k\<rparr>))"
    and "live_in (fl(k := fl k @ map (block k a) [0..<bpa k])) (ars(a \<mapsto> \<lparr>a_desc = Some k, a_free_cnt = bpa k\<rparr>)) = live_in fl ars"
proof -
  define ar where "ar = \<lparr>a_desc = Some k, a_free_cnt = bpa k\<rparr>"
  define fl' where "fl' = fl(k := fl k @ map (block k a) [0..<bpa k])"
  note f = fresh_arena [OF inv g zero_less_one] and gf = got_facts [OF g]
  have set_k: "set (fl' k) = set (fl k) \<union> blocks k a" and set_o: "j \<noteq> k \<Longrightarrow> fl' j = fl j" for j
    by (auto simp: fl'_def blocks_def atLeast0LessThan)
  have pg: "arena_pages a ar = pages_of a 1" by (simp add: ar_def arena_pages_def)
  have "blocks k a \<inter> set (fl' k) = blocks k a" unfolding set_k by blast
  then have new: "arena_ok m' fl' a ar" unfolding arena_ok_def pg using gf k by (simp add: ar_def)
  have al: "a' mod 4096 = 0" "a' \<noteq> a" if "ars a' = Some r" for a' r
    using hinvD(2) [OF inv that] f(1) that by (auto simp: arena_ok_def)
  have old: "arena_ok m' fl' a' r" if "ars a' = Some r" for a' r
  proof (rule arena_ok_cong [OF f(3) [OF that]])
    show "arena_pages a' r \<subseteq> in_use m'" using f(3) [OF that] by (simp add: arena_ok_def)
    show "blocks j a' \<inter> set (fl' j) = blocks j a' \<inter> set (fl j)" for j
      using blocks_disjoint [OF al(1) [OF that] gf(3) al(2) [OF that], of j k] set_k set_o [of j] by (cases "j = k") auto
  qed simp
  have fresh: "blocks k a \<inter> set (fl k) = {}"
  proof -
    have False if b: "b \<in> blocks k a" "b \<in> set (fl k)" for b
    proof -
      obtain a' r where "ars a' = Some r" "b \<in> blocks k a'" using hinvD(5) [OF inv k b(2)] by blast
      then show False using blocks_disjoint [OF al(1) gf(3) al(2), of a' r] b(1) by blast
    qed
    then show ?thesis by blast
  qed
  show "hinv m' (fl(k := fl k @ map (block k a) [0..<bpa k])) (ars(a \<mapsto> \<lparr>a_desc = Some k, a_free_cnt = bpa k\<rparr>))"
    unfolding ar_def [symmetric] fl'_def [symmetric] hinv_def
  proof (intro conjI allI impI)
    show "arena_ok m' fl' a' ar'" if "(ars(a \<mapsto> ar)) a' = Some ar'" for a' ar'
      using that new old by (auto split: if_splits)
    show "arena_pages a1 r1 \<inter> arena_pages a2 r2 = {}"
      if "(ars(a \<mapsto> ar)) a1 = Some r1" "(ars(a \<mapsto> ar)) a2 = Some r2" "a1 \<noteq> a2" for a1 r1 a2 r2
      using that f(2) [of a1 r1] f(2) [of a2 r2] hinvD(3) [OF inv, of a1 r1 a2 r2] pg by (auto split: if_splits)
    show "distinct (fl' j)" if "j < 7" for j
    proof (cases "j = k")
      case True
      have "distinct (map (block k a) [0..<bpa k])" by (simp add: distinct_map inj_on_def block_inj)
      moreover have "set (map (block k a) [0..<bpa k]) = blocks k a" by (simp add: blocks_def atLeast0LessThan)
      ultimately show ?thesis using hinvD(4) [OF inv k] fresh unfolding True fl'_def fun_upd_same distinct_append by blast
    next
      case False
      then show ?thesis using hinvD(4) [OF inv that] set_o by simp
    qed
    show "\<forall>b\<in>set (fl' j). \<exists>a' ar'. (ars(a \<mapsto> ar)) a' = Some ar' \<and> a_desc ar' = Some j \<and> b \<in> blocks j a'" if "j < 7" for j
    proof
      fix b assume b: "b \<in> set (fl' j)"
      show "\<exists>a' ar'. (ars(a \<mapsto> ar)) a' = Some ar' \<and> a_desc ar' = Some j \<and> b \<in> blocks j a'"
      proof (cases "j = k \<and> b \<in> blocks k a")
        case True
        then show ?thesis by (intro exI [of _ a] exI [of _ ar]) (simp add: ar_def)
      next
        case False
        then have "b \<in> set (fl j)" using b set_k set_o by (cases "j = k") auto
        then obtain a' ar' where "ars a' = Some ar'" "a_desc ar' = Some j" "b \<in> blocks j a'" using hinvD(5) [OF inv \<open>j < 7\<close>] by blast
        then show ?thesis using al(2) by (intro exI [of _ a'] exI [of _ ar']) simp
      qed
    qed
  qed (rule gf)
  show "live_in fl' (ars(a \<mapsto> ar)) = live_in fl ars"
  proof -
    have e: "arena_live fl' a ar = {}" using set_k by (simp add: arena_live_def ar_def)
    have "live_in fl' ars = live_in fl ars"
    proof (rule live_in_cong)
      fix a' r assume r: "ars a' = Some r"
      have "blocks j a' - set (fl' j) = blocks j a' - set (fl j)" for j
        using blocks_disjoint [OF al(1) [OF r] gf(3) al(2) [OF r], of j k] set_k set_o [of j] by (cases "j = k") auto
      then show "arena_live fl' a' r = arena_live fl a' r" by (simp add: arena_live_def split: option.split)
    qed
    then show ?thesis using live_in_add [of ars a fl' ar] f(1) e by simp
  qed
qed

lemma arena_live_pg:
  assumes "hinv m fl ars" and "ars a = Some ar" and "b \<in> arena_live fl' a ar"
  shows "pg_start b = a"
proof -
  have al: "a mod 4096 = 0" using hinvD(2) [OF assms(1,2)] by (simp add: arena_ok_def)
  show ?thesis
  proof (cases "a_desc ar")
    case None
    have "(a + 12) mod 4096 = 12" using mod_add_left_eq [of a 4096 12] al by simp
    then show ?thesis using assms(3) None by (simp add: arena_live_def pg_start_def)
  next
    case (Some j)
    then show ?thesis using assms(3) blocks_pg [OF al, of b j] by (simp add: arena_live_def)
  qed
qed

lemma live_sep:
  assumes "hinv m fl ars" and "ars a = Some ar"
  shows "live_in fl1 (ars(a := None)) \<inter> arena_live fl2 a ar = {}"
proof -
  have False if "b \<in> arena_live fl2 a ar" "b \<in> arena_live fl1 a' r" "ars a' = Some r" "a' \<noteq> a" for b a' r
    using arena_live_pg [OF assms that(1)] arena_live_pg [OF assms(1) that(3,2)] that(4) by simp
  then show ?thesis unfolding live_in_def by (auto split: if_splits)
qed

text \<open>Changing the free list of one descriptor and the counter of one of its arenas, and removing an arena.\<close>

lemma change_free:
  assumes inv: "hinv m fl ars" and a: "ars a = Some ar" "a_desc ar = Some k"
    and same: "\<And>a' j. a' mod 4096 = 0 \<Longrightarrow> a' \<noteq> a \<or> j \<noteq> k \<Longrightarrow> blocks j a' \<inter> set (fl' j) = blocks j a' \<inter> set (fl j)"
    and dist: "distinct (fl' k)" and other: "\<And>j. j \<noteq> k \<Longrightarrow> fl' j = fl j" and sub: "set (fl' k) \<subseteq> set (fl k) \<union> blocks k a"
    and n: "n = card (blocks k a \<inter> set (fl' k))"
  shows "hinv m fl' (ars(a \<mapsto> ar\<lparr>a_free_cnt := n\<rparr>))"
    and "live_in fl' (ars(a \<mapsto> ar\<lparr>a_free_cnt := n\<rparr>)) = (live_in fl ars - arena_live fl a ar) \<union> arena_live fl' a ar"
proof -
  let ?ar = "ar\<lparr>a_free_cnt := n\<rparr>"
  have k: "k < 7" using hinvD(2) [OF inv a(1)] a(2) by (simp add: arena_ok_def)
  have al: "a' mod 4096 = 0" if "ars a' = Some r" for a' r using hinvD(2) [OF inv that] by (simp add: arena_ok_def)
  have pg: "arena_pages a ?ar = arena_pages a ar" using a(2) by (simp add: arena_pages_def)
  have new: "arena_ok m fl' a ?ar"
    using hinvD(2) [OF inv a(1)] a(2) n pg by (simp add: arena_ok_def)
  have old: "arena_ok m fl' a' r" if "ars a' = Some r" "a' \<noteq> a" for a' r
    by (rule arena_ok_cong [OF hinvD(2) [OF inv that(1)]])
      (use hinvD(2) [OF inv that(1)] same [OF al [OF that(1)]] that(2) in \<open>simp_all add: arena_ok_def\<close>)
  show "hinv m fl' (ars(a \<mapsto> ?ar))"
    unfolding hinv_def
  proof (intro conjI allI impI)
    show "arena_ok m fl' a' r" if "(ars(a \<mapsto> ?ar)) a' = Some r" for a' r using that new old by (auto split: if_splits)
    show "arena_pages a1 r1 \<inter> arena_pages a2 r2 = {}"
      if "(ars(a \<mapsto> ?ar)) a1 = Some r1" "(ars(a \<mapsto> ?ar)) a2 = Some r2" "a1 \<noteq> a2" for a1 r1 a2 r2
      using that pg hinvD(3) [OF inv a(1), of a2 r2] hinvD(3) [OF inv _ a(1), of a1 r1] hinvD(3) [OF inv, of a1 r1 a2 r2] by (auto split: if_splits)
    show "distinct (fl' j)" if "j < 7" for j using dist other hinvD(4) [OF inv that] by (cases "j = k") simp_all
    show "\<forall>b\<in>set (fl' j). \<exists>a' r. (ars(a \<mapsto> ?ar)) a' = Some r \<and> a_desc r = Some j \<and> b \<in> blocks j a'" if "j < 7" for j
    proof
      fix b assume b: "b \<in> set (fl' j)"
      show "\<exists>a' r. (ars(a \<mapsto> ?ar)) a' = Some r \<and> a_desc r = Some j \<and> b \<in> blocks j a'"
      proof (cases "j = k \<and> b \<in> blocks k a")
        case True
        then show ?thesis by (intro exI [of _ a] exI [of _ ?ar]) (simp add: a(2))
      next
        case False
        then have "b \<in> set (fl j)" using b sub other by (cases "j = k") auto
        then obtain a' r where r: "ars a' = Some r" "a_desc r = Some j" "b \<in> blocks j a'" using hinvD(5) [OF inv \<open>j < 7\<close>] by blast
        then show ?thesis using False a by (intro exI [of _ a'] exI [of _ r]) auto
      qed
    qed
  qed (rule hinvD(1) [OF inv])
  have e: "arena_live fl' a' r = arena_live fl a' r" if "ars a' = Some r" "a' \<noteq> a" for a' r
  proof -
    have "blocks j a' - set (fl' j) = blocks j a' - set (fl j)" for j using same [OF al [OF that(1)], of j] that(2) by blast
    then show ?thesis by (simp add: arena_live_def split: option.split)
  qed
  have rest: "live_in fl' (ars(a := None)) = live_in fl (ars(a := None))"
    by (rule live_in_cong) (use e in \<open>auto split: if_splits\<close>)
  have sep: "live_in fl (ars(a := None)) \<inter> arena_live fl a ar = {}" by (rule live_sep [OF inv a(1)])
  have l1: "live_in fl' (ars(a \<mapsto> ?ar)) = live_in fl' (ars(a := None)) \<union> arena_live fl' a ?ar"
    using live_in_add [of "ars(a := None)" a fl' ?ar] by simp
  have l2: "arena_live fl' a ?ar = arena_live fl' a ar" by (simp add: arena_live_def)
  show "live_in fl' (ars(a \<mapsto> ?ar)) = (live_in fl ars - arena_live fl a ar) \<union> arena_live fl' a ar"
    unfolding l1 l2 rest live_in_split [of ars a ar fl, OF a(1)] using sep by blast
qed

lemma take_block:
  assumes inv: "hinv m fl ars" and fl: "fl k = b # bs" and k: "k < 7"
  obtains a ar where "ars a = Some ar" "a_desc ar = Some k" "b \<in> blocks k a" "a mod 4096 = 0" "a \<noteq> 0" "0 < a_free_cnt ar" "a_free_cnt ar \<le> bpa k"
    "hinv m (fl(k := bs)) (ars(a \<mapsto> ar\<lparr>a_free_cnt := a_free_cnt ar - 1\<rparr>))"
    "live_in (fl(k := bs)) (ars(a \<mapsto> ar\<lparr>a_free_cnt := a_free_cnt ar - 1\<rparr>)) = insert b (live_in fl ars)" "b \<notin> live_in fl ars"
proof -
  obtain a ar where a: "ars a = Some ar" "a_desc ar = Some k" "b \<in> blocks k a" using hinvD(5) [OF inv k, of b] fl by auto
  have ok: "a mod 4096 = 0" "a \<noteq> 0" "a_free_cnt ar = card (blocks k a \<inter> set (fl k))"
    using hinvD(2) [OF inv a(1)] a(2) by (auto simp: arena_ok_def)
  have d: "distinct (b # bs)" using hinvD(4) [OF inv k] fl by simp
  then have card: "card (blocks k a \<inter> set (fl k)) = Suc (card (blocks k a \<inter> set bs))" using a(3) fl by simp
  have le: "card (blocks k a \<inter> set (fl k)) \<le> bpa k" using card_mono [of "blocks k a" "blocks k a \<inter> set (fl k)"] by simp
  have same: "blocks j a' \<inter> set ((fl(k := bs)) j) = blocks j a' \<inter> set (fl j)" if "a' mod 4096 = 0" "a' \<noteq> a \<or> j \<noteq> k" for a' j
    using blocks_disjoint [OF that(1) ok(1), of j k] that(2) a(3) fl by (cases "j = k") auto
  have n: "a_free_cnt ar - 1 = card (blocks k a \<inter> set ((fl(k := bs)) k))" using card ok(3) by simp
  note c = change_free [OF inv a(1,2) same _ _ _ n]
  have nl: "b \<notin> live_in fl ars"
  proof
    assume "b \<in> live_in fl ars"
    then obtain a' r where r: "ars a' = Some r" "b \<in> arena_live fl a' r" by (auto simp: live_in_def)
    have "a' = a" using arena_live_pg [OF inv r] blocks_pg [OF ok(1) a(3)] by simp
    then show False using r a(1,2) fl by (simp add: arena_live_def)
  qed
  have al: "arena_live (fl(k := bs)) a ar = insert b (arena_live fl a ar)"
    using a(2,3) d fl by (auto simp: arena_live_def)
  have sub: "arena_live fl a ar \<subseteq> live_in fl ars" using a(1) by (auto simp: live_in_def)
  show ?thesis
  proof (rule that [OF a ok(1,2) _ _ _ _ nl])
    show "0 < a_free_cnt ar" "a_free_cnt ar \<le> bpa k" using card ok(3) le by simp_all
    show "hinv m (fl(k := bs)) (ars(a \<mapsto> ar\<lparr>a_free_cnt := a_free_cnt ar - 1\<rparr>))" by (rule c(1)) (use d fl in auto)
    have "live_in (fl(k := bs)) (ars(a \<mapsto> ar\<lparr>a_free_cnt := a_free_cnt ar - 1\<rparr>)) =
        (live_in fl ars - arena_live fl a ar) \<union> arena_live (fl(k := bs)) a ar" by (rule c(2)) (use d fl in auto)
    then show "live_in (fl(k := bs)) (ars(a \<mapsto> ar\<lparr>a_free_cnt := a_free_cnt ar - 1\<rparr>)) = insert b (live_in fl ars)"
      unfolding al using sub by blast
  qed
qed

lemma put_block:
  assumes inv: "hinv m fl ars" and a: "ars a = Some ar" "a_desc ar = Some k" and b: "b \<in> blocks k a" "b \<notin> set (fl k)"
  shows "hinv m (fl(k := b # fl k)) (ars(a \<mapsto> ar\<lparr>a_free_cnt := a_free_cnt ar + 1\<rparr>))"
    and "live_in (fl(k := b # fl k)) (ars(a \<mapsto> ar\<lparr>a_free_cnt := a_free_cnt ar + 1\<rparr>)) = live_in fl ars - {b}"
    and "a_free_cnt ar + 1 = card (blocks k a \<inter> set (b # fl k))" and "a_free_cnt ar < bpa k"
proof -
  have ok: "a mod 4096 = 0" "k < 7" "a_free_cnt ar = card (blocks k a \<inter> set (fl k))"
    using hinvD(2) [OF inv a(1)] a(2) by (auto simp: arena_ok_def)
  have "blocks k a \<inter> set (b # fl k) = insert b (blocks k a \<inter> set (fl k))" using b(1) by auto
  then have "card (blocks k a \<inter> set (b # fl k)) = Suc (card (blocks k a \<inter> set (fl k)))" using b(2) by simp
  then show card: "a_free_cnt ar + 1 = card (blocks k a \<inter> set (b # fl k))" using ok(3) by simp
  have "card (blocks k a \<inter> set (b # fl k)) \<le> bpa k" using card_mono [of "blocks k a" "blocks k a \<inter> set (b # fl k)"] by simp
  then show "a_free_cnt ar < bpa k" using card by simp
  have same: "blocks j a' \<inter> set ((fl(k := b # fl k)) j) = blocks j a' \<inter> set (fl j)" if "a' mod 4096 = 0" "a' \<noteq> a \<or> j \<noteq> k" for a' j
    using blocks_disjoint [OF that(1) ok(1), of j k] that(2) b(1) by (cases "j = k") auto
  have n: "a_free_cnt ar + 1 = card (blocks k a \<inter> set ((fl(k := b # fl k)) k))" using card by simp
  note c = change_free [OF inv a same _ _ _ n]
  have d: "distinct (b # fl k)" using hinvD(4) [OF inv ok(2)] b(2) by simp
  show "hinv m (fl(k := b # fl k)) (ars(a \<mapsto> ar\<lparr>a_free_cnt := a_free_cnt ar + 1\<rparr>))" by (rule c(1)) (use d b(1) in auto)
  have l: "live_in (fl(k := b # fl k)) (ars(a \<mapsto> ar\<lparr>a_free_cnt := a_free_cnt ar + 1\<rparr>)) =
      (live_in fl ars - arena_live fl a ar) \<union> arena_live (fl(k := b # fl k)) a ar" by (rule c(2)) (use d b(1) in auto)
  have "arena_live (fl(k := b # fl k)) a ar = arena_live fl a ar - {b}" using a(2) by (auto simp: arena_live_def)
  moreover have "arena_live fl a ar \<subseteq> live_in fl ars" using a(1) by (auto simp: live_in_def)
  moreover have "b \<in> arena_live fl a ar" using a(2) b by (simp add: arena_live_def)
  ultimately show "live_in (fl(k := b # fl k)) (ars(a \<mapsto> ar\<lparr>a_free_cnt := a_free_cnt ar + 1\<rparr>)) = live_in fl ars - {b}"
    unfolding l by blast
qed

lemma drop_arena:
  assumes inv: "hinv m fl ars" and a: "ars a = Some ar" and none: "\<And>k. a_desc ar = Some k \<Longrightarrow> blocks k a \<inter> set (fl k) = {}"
    and m': "mem_inv m'" "in_use m' = in_use m - arena_pages a ar" "\<forall>u. pool_pages (get_pool u m') = pool_pages (get_pool u m)"
  shows "hinv m' fl (ars(a := None))" and "live_in fl (ars(a := None)) = live_in fl ars - arena_live fl a ar"
proof -
  show "hinv m' fl (ars(a := None))"
    unfolding hinv_def
  proof (intro conjI allI impI)
    show "arena_ok m' fl a' r" if "(ars(a := None)) a' = Some r" for a' r
    proof -
      have r: "ars a' = Some r" "a' \<noteq> a" using that by (auto split: if_splits)
      have "arena_pages a' r \<subseteq> in_use m" using hinvD(2) [OF inv r(1)] by (simp add: arena_ok_def)
      then have "arena_pages a' r \<subseteq> in_use m'" using hinvD(3) [OF inv r(1) a r(2)] m'(2) by blast
      then show ?thesis using arena_ok_cong [OF hinvD(2) [OF inv r(1)], of m' fl] m'(3) by simp
    qed
    show "arena_pages a1 r1 \<inter> arena_pages a2 r2 = {}"
      if "(ars(a := None)) a1 = Some r1" "(ars(a := None)) a2 = Some r2" "a1 \<noteq> a2" for a1 r1 a2 r2
      using that hinvD(3) [OF inv, of a1 r1 a2 r2] by (auto split: if_splits)
    show "distinct (fl k)" if "k < 7" for k using hinvD(4) [OF inv that] .
    show "\<forall>b\<in>set (fl k). \<exists>a' r. (ars(a := None)) a' = Some r \<and> a_desc r = Some k \<and> b \<in> blocks k a'" if "k < 7" for k
    proof
      fix b assume b: "b \<in> set (fl k)"
      then obtain a' r where r: "ars a' = Some r" "a_desc r = Some k" "b \<in> blocks k a'" using hinvD(5) [OF inv \<open>k < 7\<close>] by blast
      then have "a' \<noteq> a" using none [of k] a b by auto
      then show "\<exists>a' r. (ars(a := None)) a' = Some r \<and> a_desc r = Some k \<and> b \<in> blocks k a'" using r by (intro exI [of _ a'] exI [of _ r]) simp
    qed
  qed (rule m')
  show "live_in fl (ars(a := None)) = live_in fl ars - arena_live fl a ar"
    using live_in_split [of ars a ar fl, OF a] live_sep [OF inv a, of fl fl] by blast
qed

end
