(* ===== verification/Malloc_Props.thy ===== *)
theory Malloc_Props
  imports Malloc
begin

text \<open>
  The kernel heap gives out blocks that do not overlap, and freeing one keeps the others and their bytes. The sections follow the
  operations: the blocks of an arena, a new arena, taking a block, big blocks, freeing.
\<close>

section \<open>The operations on the heap\<close>

lemma heap_sel [simp]:
  "hmem (set_free k bs h) = hmem h" "arenas (set_free k bs h) = arenas h" "hmem (set_arena a ar h) = hmem h"
  "descs (set_arena a ar h) = descs h" "arenas (set_arena a ar h) = (arenas h)(a := ar)" "descs (set_bytes m h) = descs h"
  "arenas (set_bytes m h) = arenas h" "hmem (set_bytes m h) = (hmem h)\<lparr>kbytes := m\<rparr>" "free_of (set_arena a ar h) = free_of h"
  "free_of (set_bytes m h) = free_of h" "free_of (h\<lparr>hmem := mm\<rparr>) = free_of h"
  by (simp_all add: set_free_def set_arena_def set_bytes_def free_of_def fun_eq_iff)

lemma set_free_twice [simp]: "set_free k bs (set_free k cs h) = set_free k bs h"
  by (cases "k < length (descs h)") (simp_all add: set_free_def list_update_beyond)

lemma set_free_id [simp]: "set_free k (free_of h k) h = h"
  by (simp add: set_free_def free_of_def)

lemma free_of_set_free: "desc_ok (descs h) \<Longrightarrow> k < 7 \<Longrightarrow> free_of (set_free k bs h) = (free_of h)(k := bs)"
  by (auto simp: set_free_def free_of_def desc_ok_def fun_eq_iff nth_list_update)

lemma desc_ok_set_free [simp]: "desc_ok (descs h) \<Longrightarrow> desc_ok (descs (set_free k bs h))"
  by (cases "k < 7") (simp_all add: set_free_def desc_ok_def nth_list_update list_update_beyond)

lemma desc_okD: "desc_ok (descs h) \<Longrightarrow> k < 7 \<Longrightarrow> block_size (descs h ! k) = bsz k \<and> blocks_per_arena (descs h ! k) = bpa k"
  by (simp add: desc_ok_def)

lemma find_desc_Some: "desc_ok (descs h) \<Longrightarrow> find_desc sz h = Some k \<Longrightarrow> k < 7 \<and> sz \<le> bsz k"
  by (auto simp: find_desc_def find_Some_iff desc_ok_def)

lemma block_arena_small:
  assumes "desc_ok (descs h)" and "arenas h a = Some ar" and "a_desc ar = Some k" and "k < 7" and "a mod 4096 = 0" and "a \<noteq> 0" and "b \<in> blocks k a"
  shows "block_to_arena b h = Some (a, ar)"
proof -
  obtain i where i: "i < bpa k" "b = block k a i" using assms(7) by (auto simp: blocks_def)
  have m: "b mod 4096 = 12 + i * bsz k" "pg_start b = a" using block_mod [OF assms(5) i(1)] i(2) by auto
  have "i * bsz k < 4096" using bpa_bsz [OF i(1)] by linarith
  then have "wrap32 (b mod 4096 + (2 ^ 32 - 12)) = i * bsz k" unfolding m by (simp add: wrap32_def)
  then show ?thesis using assms m(2) desc_okD [OF assms(1,4)] by (simp add: block_to_arena_def)
qed

lemma block_arena_big:
  assumes "arenas h a = Some ar" and "a_desc ar = None" and "a mod 4096 = 0" and "a \<noteq> 0"
  shows "block_to_arena (a + 12) h = Some (a, ar)"
  using assms mod_add_left_eq [of a 4096 12] by (simp add: block_to_arena_def pg_start_def)

lemma arena_to_block_small:
  assumes "desc_ok (descs h)" and "arenas h a = Some ar" and "a_desc ar = Some k" and "k < 7" and "a \<noteq> 0" and "i < bpa k"
  shows "arena_to_block a i h = Some (block k a i)"
  using assms desc_okD [OF assms(1,4)] by (simp add: arena_to_block_def block_def)

lemma add_blocks_eq:
  assumes "desc_ok (descs h)" and "arenas h a = Some ar" and "a_desc ar = Some k" and "k < 7" and "a \<noteq> 0" and "i + n \<le> bpa k"
  shows "add_blocks a k i n h = Some (set_free k (free_of h k @ map (block k a) [i..<i + n]) h)"
  using assms(1,2,6)
proof (induction n arbitrary: i h)
  case (Suc n)
  let ?h = "set_free k (free_of h k @ [block k a i]) h"
  have f: "free_of ?h k = free_of h k @ [block k a i]" using free_of_set_free [OF Suc.prems(1) assms(4)] by simp
  have b: "arena_to_block a i h = Some (block k a i)"
    using arena_to_block_small [OF Suc.prems(1,2) assms(3-5)] Suc.prems(3) by simp
  have "add_blocks a k i (Suc n) h = add_blocks a k (i + 1) n ?h" by (simp add: b free_of_def)
  also have "\<dots> = Some (set_free k (free_of ?h k @ map (block k a) [i + 1..<i + 1 + n]) ?h)"
    by (rule Suc.IH) (use Suc.prems in simp_all)
  also have "\<dots> = Some (set_free k (free_of h k @ map (block k a) [i..<i + Suc n]) h)"
    unfolding f using upt_conv_Cons [of i "i + Suc n"] by simp
  finally show ?case .
qed simp

lemma remove_blocks_eq:
  assumes "desc_ok (descs h)" and "arenas h a = Some ar" and "a_desc ar = Some k" and "k < 7" and "a \<noteq> 0" and "i + n \<le> bpa k"
    and "distinct (free_of h k)" and "block k a ` {i..<i + n} \<subseteq> set (free_of h k)"
  shows "\<exists>bs. remove_blocks a k i n h = Some (set_free k bs h) \<and> distinct bs \<and> set bs = set (free_of h k) - block k a ` {i..<i + n}"
  using assms(1,2,6-)
proof (induction n arbitrary: i h)
  case 0
  then show ?case by (intro exI [of _ "free_of h k"]) simp
next
  case (Suc n)
  let ?h = "set_free k (remove1 (block k a i) (free_of h k)) h"
  have f: "free_of ?h k = remove1 (block k a i) (free_of h k)" using free_of_set_free [OF Suc.prems(1) assms(4)] by simp
  have b: "arena_to_block a i h = Some (block k a i)"
    using arena_to_block_small [OF Suc.prems(1,2) assms(3-5)] Suc.prems(3) by simp
  have r: "set (free_of ?h k) = set (free_of h k) - {block k a i}" unfolding f using Suc.prems(4) by (simp add: set_remove1_eq)
  have "{i..<i + Suc n} = insert i {i + 1..<i + 1 + n}" by auto
  then have img: "block k a ` {i..<i + Suc n} = insert (block k a i) (block k a ` {i + 1..<i + 1 + n})" by simp
  have ni: "block k a i \<notin> block k a ` {i + 1..<i + 1 + n}" by (auto simp: block_inj)
  have "block k a ` {i + 1..<i + 1 + n} \<subseteq> set (free_of ?h k)" unfolding r using Suc.prems(5) img ni by blast
  moreover have "distinct (free_of ?h k)" unfolding f using Suc.prems(4) by simp
  ultimately obtain bs where bs: "remove_blocks a k (i + 1) n ?h = Some (set_free k bs ?h)" "distinct bs"
    "set bs = set (free_of ?h k) - block k a ` {i + 1..<i + 1 + n}"
    using Suc.IH [of ?h "i + 1"] Suc.prems(1-3) by auto
  have "block k a i \<in> set (free_of h k)" using Suc.prems(5) img by blast
  then have "remove_blocks a k i (Suc n) h = Some (set_free k bs h)" using bs(1) b by (simp add: free_of_def)
  moreover have "set bs = set (free_of h k) - block k a ` {i..<i + Suc n}" unfolding img bs(3) r by blast
  ultimately show ?case using bs(2) by blast
qed

text \<open>A change that keeps the arena of a block, apart from the counter of a divided one, keeps its addresses.\<close>

lemma extent_cong:
  "ars' (pg_start b) = ars (pg_start b) \<Longrightarrow> extent_in ars' b = extent_in ars b"
  "ars a = Some ar \<Longrightarrow> a_desc ar = Some k \<Longrightarrow> extent_in (ars(a \<mapsto> ar\<lparr>a_free_cnt := n\<rparr>)) b = extent_in ars b"
  by (simp_all add: extent_in_def)

lemma live_arena: "hinv m fl ars \<Longrightarrow> b \<in> live_in fl ars \<Longrightarrow> ars (pg_start b) \<noteq> None"
  by (metis live_inE option.distinct(1))

lemma new_arena_cases:
  assumes "heap_inv h" and "k < 7"
  obtains (some) h' where "new_arena k h = Some (True, h')" "heap_inv h'" "live h' = live h" "free_of h' k \<noteq> []"
      "\<forall>b\<in>live h. extent h' b = extent h b" "kbytes (hmem h') = kbytes (hmem h)"
    | (none) "new_arena k h = Some (False, h)"
proof -
  have ds: "desc_ok (descs h)" and inv: "hinv (hmem h) (free_of h) (arenas h)" using assms(1) by (auto simp: heap_inv_def)
  have "0 AND PAL_ASSERT = 0" by simp
  from hinvD(1) [OF inv] zero_less_one this show ?thesis
  proof (cases rule: palloc_get_cases)
    case (some a m')
    define ar where "ar = \<lparr>a_desc = Some k, a_free_cnt = bpa k\<rparr>"
    define h1 where "h1 = set_arena a (Some ar) (h\<lparr>hmem := m'\<rparr>)"
    define h' where "h' = set_free k (free_of h k @ map (block k a) [0..<bpa k]) h1"
    have a: "a \<noteq> 0" using got_facts [OF some(2)] by simp
    have f: "arenas h a = None" using fresh_arena(1) [OF inv some(2)] by simp
    have ds1: "desc_ok (descs h1)" using ds by (simp add: h1_def)
    have ab: "add_blocks a k 0 (bpa k) h1 = Some h'"
      using add_blocks_eq [of h1 a ar k 0 "bpa k"] ds1 assms(2) a by (simp add: h1_def h'_def ar_def)
    have r: "new_arena k h = Some (True, h')"
      unfolding new_arena_def palloc_get_page_def some(1) bind.bind_lunit prod.case Let_def
      using a ab desc_okD [OF ds assms(2)] by (simp add: h1_def ar_def)
    have fl: "free_of h' = (free_of h)(k := free_of h k @ map (block k a) [0..<bpa k])"
      unfolding h'_def using free_of_set_free [OF ds1 assms(2)] by (simp add: h1_def)
    have ars: "arenas h' = (arenas h)(a \<mapsto> ar)" and mm: "hmem h' = m'" by (simp_all add: h'_def h1_def set_arena_def set_free_def)
    note s = add_small [OF inv some(2) assms(2), folded ar_def]
    have "heap_inv h'" using s(1) ds1 unfolding heap_inv_def fl ars mm by (simp add: h'_def)
    moreover have "live h' = live h" unfolding live_def fl ars by (rule s(2))
    moreover have "free_of h' k \<noteq> []" using bpa_pos [OF assms(2)] by (simp add: fl)
    moreover have "extent h' b = extent h b" if "b \<in> live h" for b
      unfolding extent_def ars using live_arena [OF inv, of b] that f by (intro extent_cong(1)) (auto simp: live_def)
    moreover have "kbytes (hmem h') = kbytes (hmem h)" using got_facts [OF some(2)] mm by simp
    ultimately show ?thesis using that(1) r by blast
  next
    case none
    have "h\<lparr>hmem := hmem h\<rparr> = h" by simp
    then have "new_arena k h = Some (False, h)" unfolding new_arena_def palloc_get_page_def none(1) by simp
    then show ?thesis by (rule that(2))
  qed
qed

lemma pop_block_ok:
  assumes "heap_inv h" and "k < 7" and "free_of h k \<noteq> []"
  obtains p h' where "pop_block k h = Some (p, h')" "p \<noteq> 0" "heap_inv h'" "p \<notin> live h" "live h' = insert p (live h)"
    "extent h' p = {p..<p + bsz k}" "\<forall>b. extent h' b = extent h b" "kbytes (hmem h') = kbytes (hmem h)"
proof -
  have ds: "desc_ok (descs h)" and inv: "hinv (hmem h) (free_of h) (arenas h)" using assms(1) by (auto simp: heap_inv_def)
  obtain b bs where fl: "free_of h k = b # bs" using assms(3) by (cases "free_of h k") auto
  from inv fl assms(2) show ?thesis
  proof (cases rule: take_block)
    case (1 a ar)
    let ?ar = "ar\<lparr>a_free_cnt := a_free_cnt ar - 1\<rparr>"
    define h1 where "h1 = set_free k bs h"
    define h' where "h' = set_arena a (Some ?ar) h1"
    have ds1: "desc_ok (descs h1)" using ds by (simp add: h1_def)
    have ba: "block_to_arena b h1 = Some (a, ar)" using block_arena_small [OF ds1 _ 1(2) assms(2) 1(4,5,3)] 1(1) by (simp add: h1_def)
    have "bpa k \<le> 4084" by (simp add: bpa_def)
    then have le: "a_free_cnt ar \<le> 4084" using 1(7) by simp
    have w: "wrap32 (a_free_cnt ar + 4294967295) = a_free_cnt ar - 1"
    proof -
      obtain c where c: "a_free_cnt ar = Suc c" using 1(6) not0_implies_Suc by blast
      have "Suc c + 4294967295 = c + 4294967296" by simp
      then show ?thesis using le unfolding c wrap32_def by simp
    qed
    have r: "pop_block k h = Some (b, h')"
      using fl ba w by (simp add: pop_block_def free_of_def h1_def [symmetric] h'_def)
    have fl': "free_of h' = (free_of h)(k := bs)" by (simp add: h'_def h1_def free_of_set_free [OF ds assms(2)])
    have ars: "arenas h' = (arenas h)(a \<mapsto> ?ar)" and mm: "hmem h' = hmem h" by (simp_all add: h'_def h1_def)
    have "heap_inv h'" using 1(8) ds1 unfolding heap_inv_def fl' ars mm by (simp add: h'_def)
    moreover have "live h' = insert b (live h)" unfolding live_def fl' ars by (rule 1(9))
    moreover have "b \<notin> live h" using 1(10) by (simp add: live_def)
    moreover have ext: "extent h' c = extent h c" for c
      unfolding extent_def ars by (rule extent_cong(2) [of "arenas h" a ar, OF 1(1,2)])
    moreover have "extent h' b = {b..<b + bsz k}"
      unfolding ext using 1(1,2) blocks_pg [OF 1(4,3)] by (simp add: extent_def extent_in_def)
    moreover have "b \<noteq> 0" using 1(3) by (auto simp: blocks_def block_def)
    ultimately show ?thesis using that [of b h'] r mm by simp
  qed
qed

lemma malloc_big:
  assumes "heap_inv h" and "0 < sz" and None: "find_desc sz h = None" and n_def: "n = DIV_ROUND_UP (wrap32 (sz + 12)) 4096" and n: "0 < n"
  obtains (some) p h' where "malloc sz h = Some (p, h')" "p \<noteq> 0" "heap_inv h'" "p \<notin> live h" "live h' = insert p (live h)"
      "extent h' p = {p..<p + (4096 * n - 12)}" "\<forall>b\<in>live h. extent h' b = extent h b" "kbytes (hmem h') = kbytes (hmem h)"
    | (none) "malloc sz h = Some (0, h)" "\<forall>q. {q..<q + n} \<subseteq> pool_pages (get_pool False (hmem h)) \<longrightarrow> {q..<q + n} \<inter> in_use (hmem h) \<noteq> {}"
proof -
  have ds: "desc_ok (descs h)" and inv: "hinv (hmem h) (free_of h) (arenas h)" using assms(1) by (auto simp: heap_inv_def)
  have e: "malloc sz h = do {
        (a, m) \<leftarrow> palloc_get_multiple 0 n (hmem h);
        let h = h\<lparr>hmem := m\<rparr>;
        if a = 0 then Some (0, h)
        else Some (a + 12, set_arena a (Some \<lparr>a_desc = None, a_free_cnt = n\<rparr>) h) }"
    using None assms(2) unfolding malloc_def n_def Let_def by simp
  have "0 AND PAL_ASSERT = 0" by simp
  from hinvD(1) [OF inv] n this show ?thesis
  proof (cases rule: palloc_get_cases)
    case (some a m')
    define ar where "ar = \<lparr>a_desc = None, a_free_cnt = n\<rparr>"
    define h' where "h' = set_arena a (Some ar) (h\<lparr>hmem := m'\<rparr>)"
    note s = add_big [OF inv some(2) n, folded ar_def]
    have a: "a \<noteq> 0" "a mod 4096 = 0" using got_facts [OF some(2)] by simp_all
    have fl: "free_of h' = free_of h" by (simp add: h'_def)
    have ars: "arenas h' = (arenas h)(a \<mapsto> ar)" and mm: "hmem h' = m'" by (simp_all add: h'_def set_arena_def)
    have f: "arenas h a = None" using fresh_arena(1) [OF inv some(2) n] .
    have "malloc sz h = Some (a + 12, h')" unfolding e some(1) using a by (simp add: h'_def ar_def)
    moreover have "heap_inv h'" using s(1) ds unfolding heap_inv_def fl ars mm by (simp add: h'_def)
    moreover have "live h' = insert (a + 12) (live h)" unfolding live_def fl ars by (rule s(2))
    moreover have "a + 12 \<notin> live h" using s(3) by (simp add: live_def)
    moreover have "pg_start (a + 12) = a" using mod_add_left_eq [of a 4096 12] a(2) by (simp add: pg_start_def)
    then have "extent h' (a + 12) = {a + 12..<a + 12 + (4096 * n - 12)}" by (simp add: extent_def extent_in_def ars ar_def)
    moreover have "extent h' b = extent h b" if "b \<in> live h" for b
      unfolding extent_def ars using live_arena [OF inv, of b] that f by (intro extent_cong(1)) (auto simp: live_def)
    moreover have "kbytes (hmem h') = kbytes (hmem h)" using got_facts [OF some(2)] mm by simp
    ultimately show ?thesis using that(1) [of "a + 12" h'] by simp
  next
    case none
    have "h\<lparr>hmem := hmem h\<rparr> = h" by simp
    then have "malloc sz h = Some (0, h)" unfolding e none(1) by simp
    then show ?thesis using that(2) none(2) by simp
  qed
qed

lemma malloc_cases:
  assumes "heap_inv h" and "0 < sz" and "sz + 4107 < 4294967296"
  obtains (some) p h' where "malloc sz h = Some (p, h')" "p \<noteq> 0" "heap_inv h'" "p \<notin> live h" "live h' = insert p (live h)"
      "{p..<p + sz} \<subseteq> extent h' p" "\<forall>b\<in>live h. extent h' b = extent h b" "kbytes (hmem h') = kbytes (hmem h)"
    | (none) "malloc sz h = Some (0, h)"
proof -
  have ds: "desc_ok (descs h)" and inv: "hinv (hmem h) (free_of h) (arenas h)" using assms(1) by (auto simp: heap_inv_def)
  show ?thesis
  proof (cases "find_desc sz h")
    case (Some k)
    have k: "k < 7" "sz \<le> bsz k" using find_desc_Some [OF ds Some] by auto
    have e: "malloc sz h = do {
          (ok, h) \<leftarrow> (if free_list (descs h ! k) = [] then new_arena k h else Some (True, h));
          if ok then pop_block k h else Some (0, h) }" using Some assms(2) by (simp add: malloc_def)
    have pop: thesis if h1: "heap_inv h1" "live h1 = live h" "free_of h1 k \<noteq> []" "\<forall>b\<in>live h. extent h1 b = extent h b"
      "kbytes (hmem h1) = kbytes (hmem h)" "malloc sz h = pop_block k h1" for h1
    proof (rule pop_block_ok [OF h1(1) k(1) h1(3)])
      fix p h' assume p: "pop_block k h1 = Some (p, h')" "p \<noteq> 0" "heap_inv h'" "p \<notin> live h1" "live h' = insert p (live h1)"
        "extent h' p = {p..<p + bsz k}" "\<forall>b. extent h' b = extent h1 b" "kbytes (hmem h') = kbytes (hmem h1)"
      have "{p..<p + sz} \<subseteq> extent h' p" using p(6) k(2) by auto
      then show thesis using some [of p h'] p h1 by simp
    qed
    show ?thesis
    proof (cases "free_of h k = []")
      case True
      from assms(1) k(1) show ?thesis
      proof (cases rule: new_arena_cases)
        case (some h1)
        then show ?thesis using pop [of h1] e True by (simp add: free_of_def)
      next
        case none
        then show ?thesis using that(2) e True by (simp add: free_of_def)
      qed
    next
      case False
      then show ?thesis using pop [of h] e assms(1) by (simp add: free_of_def)
    qed
  next
    case None
    define n where "n = DIV_ROUND_UP (wrap32 (sz + 12)) 4096"
    have w: "wrap32 (sz + 12) = sz + 12" using assms(3) by simp
    have n: "0 < n" "sz + 12 \<le> n * 4096"
      using DIV_ROUND_UP_ge [of 4096 "sz + 12"] assms(3) unfolding n_def w by (simp_all add: DIV_ROUND_UP_def div_greater_zero_iff)
    show ?thesis
    proof (rule malloc_big [OF assms(1,2) None n_def n(1)])
      fix p h' assume p: "malloc sz h = Some (p, h')" "p \<noteq> 0" "heap_inv h'" "p \<notin> live h" "live h' = insert p (live h)"
        "extent h' p = {p..<p + (4096 * n - 12)}" "\<forall>b\<in>live h. extent h' b = extent h b" "kbytes (hmem h') = kbytes (hmem h)"
      have "{p..<p + sz} \<subseteq> extent h' p" unfolding p(6) using n(2) by auto
      then show thesis using some p by blast
    next
      assume "malloc sz h = Some (0, h)"
      then show thesis by (rule none)
    qed
  qed
qed

lemma mem_inv_bytes [simp]: "mem_inv (m\<lparr>kbytes := b\<rparr>) = mem_inv m" "in_use (m\<lparr>kbytes := b\<rparr>) = in_use m"
  by (simp_all add: mem_inv_def in_use_def)

lemma hinv_bytes: "hinv m fl ars \<Longrightarrow> hinv (m\<lparr>kbytes := b\<rparr>) fl ars"
  unfolding hinv_def by (auto intro: arena_ok_cong simp: arena_ok_def)

lemma heap_inv_bytes: "heap_inv h \<Longrightarrow> heap_inv (set_bytes m h)" "live (set_bytes m h) = live h" "extent (set_bytes m h) b = extent h b"
  by (simp_all add: heap_inv_def hinv_bytes live_def extent_def)

lemma extent_small: "arenas h a = Some ar \<Longrightarrow> a_desc ar = Some k \<Longrightarrow> pg_start p = a \<Longrightarrow> extent h p = {p..<p + bsz k}"
  by (simp add: extent_def extent_in_def)

text \<open>Pages that are given back hold no byte of another live block.\<close>

lemma extent_off_page:
  assumes inv: "hinv m fl ars" and a: "ars a = Some ar" and b: "b \<in> live_in fl ars" "b \<notin> arena_live fl a ar" and x: "x \<in> extent_in ars b"
  shows "x div 4096 \<notin> arena_pages a ar"
proof -
  obtain a' r where r: "ars a' = Some r" "arena_ok m fl a' r" "pg_start b = a'"
    "case a_desc r of None \<Rightarrow> b = a' + 12 | Some k \<Rightarrow> b \<in> blocks k a' - set (fl k)" by (rule live_inE [OF inv b(1)])
  have w: "case a_desc r of None \<Rightarrow> b = a' + 12 | Some k \<Rightarrow> b \<in> blocks k a'" using r(4) by (auto split: option.splits)
  have "b \<in> arena_live fl a' r" using r(4) by (simp add: arena_live_def split: option.splits)
  then have "a' \<noteq> a" using b(2) a r(1) by auto
  then show ?thesis using extent_pages(1) [OF r(2), of ars b, OF r(1,3) w x] hinvD(3) [OF inv r(1) a] by blast
qed

lemma page_bytes:
  assumes "a mod 4096 = 0" and "x div 4096 \<notin> pages_of a n"
  shows "\<not> (a \<le> x \<and> x < a + 4096 * n)"
proof
  assume x: "a \<le> x \<and> x < a + 4096 * n"
  have "a div 4096 \<le> x div 4096" using x by (simp add: div_le_mono)
  moreover have "x < 4096 * (a div 4096 + n)" using x assms(1) div_mult_mod_eq [of a 4096] by (simp add: algebra_simps)
  then have "x div 4096 < a div 4096 + n" by (simp add: less_mult_imp_div_less mult.commute)
  ultimately show False using assms(2) by (simp add: pages_of_def)
qed

text \<open>Removing an arena of which no block is live or free.\<close>

lemma drop_ok:
  assumes "heap_inv h" and a: "arenas h a = Some ar" and none: "\<And>k. a_desc ar = Some k \<Longrightarrow> blocks k a \<inter> set (free_of h k) = {}"
    and n: "arena_pages a ar = pages_of a n" "0 < n"
  obtains m' where "palloc_free_multiple a n (hmem h) = Some m'" "heap_inv (set_arena a None (h\<lparr>hmem := m'\<rparr>))"
    "live (set_arena a None (h\<lparr>hmem := m'\<rparr>)) = live h - arena_live (free_of h) a ar"
    "\<forall>b\<in>live h - arena_live (free_of h) a ar. extent (set_arena a None (h\<lparr>hmem := m'\<rparr>)) b = extent h b \<and> (\<forall>x\<in>extent h b. kbytes m' x = kbytes (hmem h) x)"
proof -
  have ds: "desc_ok (descs h)" and inv: "hinv (hmem h) (free_of h) (arenas h)" using assms(1) by (auto simp: heap_inv_def)
  have ok: "a mod 4096 = 0" "arena_pages a ar \<subseteq> pool_pages (get_pool False (hmem h))" "arena_pages a ar \<subseteq> in_use (hmem h)"
    using hinvD(2) [OF inv a] by (simp_all add: arena_ok_def)
  obtain m' where m': "palloc_free_multiple a n (hmem h) = Some m'" "mem_inv m'" "in_use m' = in_use (hmem h) - pages_of a n"
    "\<forall>v. pool_pages (get_pool v m') = pool_pages (get_pool v (hmem h))"
    "\<forall>x. kbytes m' x = (if a \<le> x \<and> x < a + 4096 * n then 0xcc else kbytes (hmem h) x)"
    using palloc_free_ok [OF hinvD(1) [OF inv] ok(1) n(2), of False] ok(2,3) unfolding n(1) by blast
  let ?h = "set_arena a None (h\<lparr>hmem := m'\<rparr>)"
  have s: "free_of ?h = free_of h" "arenas ?h = (arenas h)(a := None)" "hmem ?h = m'" "descs ?h = descs h"
    by (simp_all add: set_arena_def) (simp add: free_of_def fun_eq_iff)
  note d = drop_arena [OF inv a none m'(2) _ m'(4), unfolded n(1), OF _ m'(3)]
  have "heap_inv ?h" unfolding heap_inv_def s using ds d(1) by blast
  moreover have l: "live ?h = live h - arena_live (free_of h) a ar" unfolding live_def s using d(2) by blast
  moreover have "extent ?h b = extent h b \<and> (\<forall>x\<in>extent h b. kbytes m' x = kbytes (hmem h) x)" if b: "b \<in> live h - arena_live (free_of h) a ar" for b
  proof
    have "pg_start b \<noteq> a"
    proof
      assume e: "pg_start b = a"
      obtain a' r where "arenas h a' = Some r" "b \<in> arena_live (free_of h) a' r" using b by (auto simp: live_def live_in_def)
      then show False using arena_live_pg [OF inv] e b a by auto
    qed
    then show "extent ?h b = extent h b" unfolding extent_def s by (intro extent_cong(1)) simp
    show "\<forall>x\<in>extent h b. kbytes m' x = kbytes (hmem h) x"
    proof
      fix x assume "x \<in> extent h b"
      then have "x div 4096 \<notin> pages_of a n"
        using extent_off_page [OF inv a, of b x] b n(1) by (simp add: live_def extent_def)
      then show "kbytes m' x = kbytes (hmem h) x" using page_bytes [OF ok(1)] m'(5) by auto
    qed
  qed
  ultimately show ?thesis using that m'(1) by blast
qed

text \<open>What freeing a block keeps of the others.\<close>

definition keeps :: "nat set \<Rightarrow> heap \<Rightarrow> heap \<Rightarrow> bool" where
  "keeps B h h' \<longleftrightarrow> (\<forall>b\<in>B. extent h' b = extent h b \<and> (\<forall>x\<in>extent h b. kbytes (hmem h') x = kbytes (hmem h) x))"

lemma free_big:
  assumes "heap_inv h" and a: "arenas h a = Some ar" "a_desc ar = None"
  obtains h' where "free_block (a + 12) h = Some h'" "heap_inv h'" "live h' = live h - {a + 12}" "keeps (live h - {a + 12}) h h'"
proof -
  have inv: "hinv (hmem h) (free_of h) (arenas h)" using assms(1) by (simp add: heap_inv_def)
  have ok: "a mod 4096 = 0" "a \<noteq> 0" "0 < a_free_cnt ar" using hinvD(2) [OF inv a(1)] a(2) by (simp_all add: arena_ok_def)
  have l: "arena_live (free_of h) a ar = {a + 12}" using a(2) by (simp add: arena_live_def)
  have pg: "arena_pages a ar = pages_of a (a_free_cnt ar)" using a(2) by (simp add: arena_pages_def)
  have none: "\<And>k. a_desc ar = Some k \<Longrightarrow> blocks k a \<inter> set (free_of h k) = {}" using a(2) by simp
  obtain m' where m': "palloc_free_multiple a (a_free_cnt ar) (hmem h) = Some m'" "heap_inv (set_arena a None (h\<lparr>hmem := m'\<rparr>))"
    "live (set_arena a None (h\<lparr>hmem := m'\<rparr>)) = live h - {a + 12}"
    "\<forall>b\<in>live h - {a + 12}. extent (set_arena a None (h\<lparr>hmem := m'\<rparr>)) b = extent h b \<and> (\<forall>x\<in>extent h b. kbytes m' x = kbytes (hmem h) x)"
    using drop_ok [OF assms(1) a(1) none pg ok(3)] unfolding l by blast
  have "free_block (a + 12) h = Some (set_arena a None (h\<lparr>hmem := m'\<rparr>))"
    using block_arena_big [OF a ok(1,2)] a(2) m'(1) by (simp add: free_block_def)
  then show ?thesis using that m'(2-4) by (simp add: keeps_def)
qed

lemma free_small:
  assumes "heap_inv h" and a: "arenas h a = Some ar" "a_desc ar = Some k" and p: "p \<in> blocks k a" "p \<notin> set (free_of h k)"
  obtains h' where "free_block p h = Some h'" "heap_inv h'" "live h' = live h - {p}" "keeps (live h - {p}) h h'"
proof -
  have ds: "desc_ok (descs h)" and inv: "hinv (hmem h) (free_of h) (arenas h)" using assms(1) by (auto simp: heap_inv_def)
  have ok: "a mod 4096 = 0" "a \<noteq> 0" "k < 7" using hinvD(2) [OF inv a(1)] a(2) by (simp_all add: arena_ok_def)
  have dk: "block_size (descs h ! k) = bsz k" "blocks_per_arena (descs h ! k) = bpa k" using desc_okD [OF ds ok(3)] by auto
  note put = put_block [OF inv a p]
  define ar' where "ar' = ar\<lparr>a_free_cnt := a_free_cnt ar + 1\<rparr>"
  define m where "m = fill_up (kbytes (hmem h)) p 0xcc (bsz k)"
  define h2 where "h2 = set_arena a (Some ar') (set_free k (p # free_of h k) (set_bytes m h))"
  have ds2: "desc_ok (descs h2)" using ds by (simp add: h2_def)
  have fl2: "free_of h2 = (free_of h)(k := p # free_of h k)" using free_of_set_free [of "set_bytes m h" k] ds ok(3) by (simp add: h2_def)
  have s2: "arenas h2 = (arenas h)(a \<mapsto> ar')" "hmem h2 = (hmem h)\<lparr>kbytes := m\<rparr>" by (simp_all add: h2_def)
  have inv2: "hinv (hmem h2) (free_of h2) (arenas h2)" unfolding s2 fl2 ar'_def by (rule hinv_bytes [OF put(1)])
  have l2: "live h2 = live h - {p}" unfolding live_def s2 fl2 ar'_def by (rule put(2))
  have e2: "extent h2 b = extent h b" for b
    unfolding extent_def s2 ar'_def by (rule extent_cong(2) [of "arenas h" a ar, OF a])
  have pl: "p \<in> live h"
    unfolding live_def live_in_def using a p by (intro CollectI exI [of _ a] exI [of _ ar]) (simp add: arena_live_def)
  have ep: "extent h p = {p..<p + bsz k}" using extent_small [OF a] blocks_pg [OF ok(1) p(1)] by simp
  have b2: "kbytes (hmem h2) x = kbytes (hmem h) x" if "b \<in> live h - {p}" "x \<in> extent h b" for b x
  proof -
    have "extent h b \<inter> extent h p = {}" using extents_disjoint [OF inv, of b p] that(1) pl by (simp add: live_def extent_def)
    then have "x \<notin> {p..<p + bsz k}" using that(2) ep by blast
    then show ?thesis by (auto simp: s2 m_def fill_up_apply)
  qed
  have k2: "keeps (live h - {p}) h h2" using e2 b2 by (simp add: keeps_def)
  have "bpa k \<le> 4084" by (simp add: bpa_def)
  then have w: "wrap32 (a_free_cnt ar + 1) = a_free_cnt ar + 1" using put(4) by simp
  have "p \<noteq> 0" using p(1) by (auto simp: blocks_def block_def)
  then have e: "free_block p h = (if a_free_cnt ar + 1 \<ge> bpa k
            then do {
              ASSERT (a_free_cnt ar + 1 = bpa k);
              h \<leftarrow> remove_blocks a k 0 (bpa k) h2;
              m \<leftarrow> palloc_free_page a (hmem h);
              Some (set_arena a None (h\<lparr>hmem := m\<rparr>)) }
            else Some h2)"
    using block_arena_small [OF ds a ok(3,1,2) p(1)] a(2)
    by (simp add: free_block_def dk memset_def m_def w [simplified] ar'_def free_of_def h2_def Let_def cong: if_cong)
  show ?thesis
  proof (cases "a_free_cnt ar + 1 \<ge> bpa k")
    case False
    have "heap_inv h2" using inv2 ds2 by (simp add: heap_inv_def)
    then show ?thesis using that [of h2] e False l2 k2 by simp
  next
    case True
    then have full: "a_free_cnt ar + 1 = bpa k" using put(4) by simp
    have all: "blocks k a \<subseteq> set (free_of h2 k)"
    proof -
      have "blocks k a \<inter> set (p # free_of h k) = blocks k a"
        by (rule card_subset_eq) (use put(3) full in simp_all)
      then show ?thesis unfolding fl2 by auto
    qed
    have a2: "arenas h2 a = Some ar'" "a_desc ar' = Some k" using a(2) by (simp_all add: s2 ar'_def)
    have img: "block k a ` {0..<0 + bpa k} = blocks k a" by (simp add: blocks_def atLeast0LessThan)
    obtain bs where bs: "remove_blocks a k 0 (bpa k) h2 = Some (set_free k bs h2)" "distinct bs" "set bs = set (free_of h2 k) - blocks k a"
      using remove_blocks_eq [OF ds2 a2 ok(3,2), of 0 "bpa k"] hinvD(4) [OF inv2 ok(3)] all unfolding img by auto
    define ar0 where "ar0 = ar'\<lparr>a_free_cnt := 0\<rparr>"
    define h3 where "h3 = set_arena a (Some ar0) (set_free k bs h2)"
    have ds3: "desc_ok (descs h3)" using ds2 by (simp add: h3_def)
    have fl3: "free_of h3 = (free_of h2)(k := bs)" using free_of_set_free [OF ds2 ok(3)] by (simp add: h3_def)
    have s3: "arenas h3 = (arenas h2)(a \<mapsto> ar0)" "hmem h3 = hmem h2" by (simp_all add: h3_def)
    have same: "blocks j a' \<inter> set (((free_of h2)(k := bs)) j) = blocks j a' \<inter> set (free_of h2 j)"
      if "a' mod 4096 = 0" "a' \<noteq> a \<or> j \<noteq> k" for a' j
      using blocks_disjoint [OF that(1) ok(1), of j k] that(2) bs(3) by (cases "j = k") auto
    have n0: "0 = card (blocks k a \<inter> set (((free_of h2)(k := bs)) k))"
    proof -
      have "blocks k a \<inter> set bs = {}" using bs(3) by blast
      then show ?thesis by simp
    qed
    note c = change_free [OF inv2 a2 same _ _ _ n0, folded ar0_def]
    have "hinv (hmem h2) ((free_of h2)(k := bs)) ((arenas h2)(a \<mapsto> ar0))" by (rule c(1)) (use bs(2,3) in auto)
    then have inv3: "heap_inv h3" unfolding heap_inv_def fl3 s3 using ds3 by blast
    have "arena_live (free_of h2) a ar' = {}" using all a2(2) by (simp add: arena_live_def)
    moreover have "arena_live ((free_of h2)(k := bs)) a ar' = blocks k a" using bs(3) a2(2) by (auto simp: arena_live_def)
    moreover have "live h3 = (live h2 - arena_live (free_of h2) a ar') \<union> arena_live ((free_of h2)(k := bs)) a ar'"
      unfolding live_def fl3 s3 by (rule c(2)) (use bs(2,3) in auto)
    ultimately have l3: "live h3 = live h2 \<union> blocks k a" by simp
    have off: "live h2 \<inter> blocks k a = {}"
    proof -
      have False if b: "b \<in> live h2" "b \<in> blocks k a" for b
      proof -
        obtain a' r where r: "arenas h2 a' = Some r" "b \<in> arena_live (free_of h2) a' r" using b(1) by (auto simp: live_def live_in_def)
        have "a' = a" using arena_live_pg [OF inv2 r] blocks_pg [OF ok(1) b(2)] by simp
        then show False using r a2 \<open>arena_live (free_of h2) a ar' = {}\<close> by simp
      qed
      then show ?thesis by blast
    qed
    have a3: "arenas h3 a = Some ar0" "a_desc ar0 = Some k" using a2(2) by (simp_all add: s3 ar0_def)
    have al3: "arena_live (free_of h3) a ar0 = blocks k a" using bs(3) a3(2) by (auto simp: arena_live_def fl3)
    have none: "\<And>j. a_desc ar0 = Some j \<Longrightarrow> blocks j a \<inter> set (free_of h3 j) = {}" using a3(2) bs(3) by (auto simp: fl3)
    have pg: "arena_pages a ar0 = pages_of a 1" using a3(2) by (simp add: arena_pages_def)
    obtain m' where m': "palloc_free_multiple a 1 (hmem h3) = Some m'" "heap_inv (set_arena a None (h3\<lparr>hmem := m'\<rparr>))"
      "live (set_arena a None (h3\<lparr>hmem := m'\<rparr>)) = live h3 - blocks k a"
      "\<forall>b\<in>live h3 - blocks k a. extent (set_arena a None (h3\<lparr>hmem := m'\<rparr>)) b = extent h3 b \<and> (\<forall>x\<in>extent h3 b. kbytes m' x = kbytes (hmem h3) x)"
      using drop_ok [OF inv3 a3(1) none pg zero_less_one] unfolding al3 by blast
    have e3: "extent h3 b = extent h2 b" for b
      unfolding extent_def s3 ar0_def by (rule extent_cong(2) [of "arenas h2" a ar', OF a2])
    let ?h = "set_arena a None (h3\<lparr>hmem := m'\<rparr>)"
    have "set_arena a None ((set_free k bs h2)\<lparr>hmem := m'\<rparr>) = ?h" by (simp add: h3_def set_arena_def)
    then have r: "free_block p h = Some ?h"
      unfolding e using full bs(1) m'(1) s3(2) by (simp add: palloc_free_page_def)
    have l: "live ?h = live h - {p}" unfolding m'(3) l3 l2 [symmetric] using off by blast
    have "live h - {p} = live h3 - blocks k a" using l3 l2 off by blast
    then have "keeps (live h - {p}) h ?h" using m'(4) e2 e3 b2 s3(2) by (simp add: keeps_def set_arena_def)
    then show ?thesis using that r m'(2) l by blast
  qed
qed

lemma free_ok:
  assumes "heap_inv h" and "p \<in> live h"
  obtains h' where "free_block p h = Some h'" "heap_inv h'" "live h' = live h - {p}" "keeps (live h - {p}) h h'"
proof -
  have inv: "hinv (hmem h) (free_of h) (arenas h)" using assms(1) by (simp add: heap_inv_def)
  obtain a ar where a: "arenas h a = Some ar" "p \<in> arena_live (free_of h) a ar" using assms(2) by (auto simp: live_def live_in_def)
  show ?thesis
  proof (cases "a_desc ar")
    case None
    then have p: "p = a + 12" using a(2) by (simp add: arena_live_def)
    show ?thesis using that unfolding p by (rule free_big [OF assms(1) a(1) None])
  next
    case (Some k)
    then have p: "p \<in> blocks k a" "p \<notin> set (free_of h k)" using a(2) by (simp_all add: arena_live_def)
    show ?thesis using that by (rule free_small [OF assms(1) a(1) Some p])
  qed
qed

section \<open>The contract of an allocator\<close>

text \<open>
  What the kernel relies on when it holds blocks of memory: a new block is apart from those it holds, and giving one back keeps the others.
\<close>

locale allocator =
  fixes inv :: "'s \<Rightarrow> bool"
    and held :: "'s \<Rightarrow> nat set"
    and room :: "'s \<Rightarrow> nat \<Rightarrow> nat set"
    and fits :: "nat \<Rightarrow> bool"
    and alloc :: "nat \<Rightarrow> 's \<Rightarrow> (nat \<times> 's) option"
    and release :: "nat \<Rightarrow> 's \<Rightarrow> 's option"
  assumes room_disjoint: "inv s \<Longrightarrow> p \<in> held s \<Longrightarrow> q \<in> held s \<Longrightarrow> p \<noteq> q \<Longrightarrow> room s p \<inter> room s q = {}"
    and alloc_held: "inv s \<Longrightarrow> fits n \<Longrightarrow> alloc n s = Some (p, s') \<Longrightarrow> p \<noteq> 0 \<Longrightarrow>
      inv s' \<and> p \<notin> held s \<and> held s' = insert p (held s) \<and> {p..<p + n} \<subseteq> room s' p \<and> (\<forall>q\<in>held s. room s' q = room s q)"
    and release_held: "inv s \<Longrightarrow> p \<in> held s \<Longrightarrow>
      \<exists>s'. release p s = Some s' \<and> inv s' \<and> held s' = held s - {p} \<and> (\<forall>q\<in>held s'. room s' q = room s q)"
begin

lemma alloc_apart:
  assumes "inv s" and "fits n" and "alloc n s = Some (p, s')" and "p \<noteq> 0" and "q \<in> held s"
  shows "room s' q \<inter> room s' p = {}" and "room s' q = room s q"
  using alloc_held [OF assms(1-4)] assms(5) room_disjoint [of s' q p] by auto

lemma alloc_release:
  assumes "inv s" and "fits n" and "alloc n s = Some (p, s')" and "p \<noteq> 0"
  shows "\<exists>s''. release p s' = Some s'' \<and> inv s'' \<and> held s'' = held s \<and> (\<forall>q\<in>held s. room s'' q = room s q)"
proof -
  note a = alloc_held [OF assms]
  then have "held s' - {p} = held s" by auto
  then show ?thesis using release_held [of s' p] a by (metis insertI1)
qed

end

interpretation hp: allocator heap_inv live extent "\<lambda>n. 0 < n \<and> n + 4107 < 4294967296" malloc free_block
proof
  show "extent h p \<inter> extent h q = {}" if "heap_inv h" "p \<in> live h" "q \<in> live h" "p \<noteq> q" for h p q
    using that unfolding heap_inv_def live_def extent_def using extents_disjoint by blast
  show "heap_inv h' \<and> p \<notin> live h \<and> live h' = insert p (live h) \<and> {p..<p + n} \<subseteq> extent h' p \<and> (\<forall>q\<in>live h. extent h' q = extent h q)"
    if "heap_inv h" "0 < n \<and> n + 4107 < 4294967296" "malloc n h = Some (p, h')" "p \<noteq> 0" for h n p h'
    using malloc_cases [of h n] that by (metis Pair_inject option.inject)
  show "\<exists>h'. free_block p h = Some h' \<and> heap_inv h' \<and> live h' = live h - {p} \<and> (\<forall>q\<in>live h'. extent h' q = extent h q)"
    if "heap_inv h" "p \<in> live h" for h p
    using free_ok [OF that] unfolding keeps_def by metis
qed

section \<open>Properties\<close>

text \<open>
  C5. A request for memory returns a new block: it was not in use, it has at least the requested size, it overlaps
  no block in use, and no byte of a block in use changes (headers of arenas and links of free lists lie outside these); the only other answer is a null pointer with nothing changed. Freeing the block
  afterwards makes the blocks in use the same as before, with their bytes.
\<close>

theorem malloc_free_round_trip:
  assumes "heap_inv h" and "0 < sz" and "sz + 4107 < 4294967296"
  shows "\<exists>p h'. malloc sz h = Some (p, h') \<and> heap_inv h' \<and> kbytes (hmem h') = kbytes (hmem h) \<and>
    (if p = 0 then h' = h
     else p \<notin> live h \<and> live h' = insert p (live h) \<and> {p..<p + sz} \<subseteq> extent h' p \<and>
       (\<forall>b\<in>live h. extent h' b = extent h b \<and> extent h' b \<inter> extent h' p = {}) \<and>
       (\<exists>h''. free_block p h' = Some h'' \<and> heap_inv h'' \<and> live h'' = live h \<and> keeps (live h) h h''))"
  using assms
proof (cases rule: malloc_cases)
  case (some p h')
  have pl: "p \<in> live h'" using some(5) by simp
  obtain h'' where f: "free_block p h' = Some h''" "heap_inv h''" "live h'' = live h' - {p}" "keeps (live h' - {p}) h' h''"
    by (rule free_ok [OF some(3) pl])
  have l: "live h' - {p} = live h" using some(4,5) by auto
  have "keeps (live h) h h''" using f(4) some(7,8) unfolding l keeps_def by metis
  moreover have "extent h' b \<inter> extent h' p = {}" if "b \<in> live h" for b
    using hp.alloc_apart(1) [OF assms(1) _ some(1,2) that] assms(2,3) by simp
  ultimately have q: "p \<notin> live h \<and> live h' = insert p (live h) \<and> {p..<p + sz} \<subseteq> extent h' p \<and>
       (\<forall>b\<in>live h. extent h' b = extent h b \<and> extent h' b \<inter> extent h' p = {}) \<and>
       (\<exists>h''. free_block p h' = Some h'' \<and> heap_inv h'' \<and> live h'' = live h \<and> keeps (live h) h h'')"
    using some(4-7) f l by metis
  show ?thesis
    by (rule exI [of _ p], rule exI [of _ h'], unfold if_not_P [OF some(2)]) (use q some in blast)
next
  case none
  then show ?thesis using assms(1) by simp
qed

lemma size_of_block_ok:
  assumes "heap_inv h" and "b \<in> live h"
  obtains n where "size_of_block b h = Some n" "extent h b = {b..<b + n}" "0 < n" "b \<noteq> 0"
proof -
  have ds: "desc_ok (descs h)" and inv: "hinv (hmem h) (free_of h) (arenas h)" using assms(1) by (auto simp: heap_inv_def)
  obtain a ar where a: "arenas h a = Some ar" "b \<in> arena_live (free_of h) a ar" using assms(2) by (auto simp: live_def live_in_def)
  have ok: "a mod 4096 = 0" "a \<noteq> 0" using hinvD(2) [OF inv a(1)] by (simp_all add: arena_ok_def)
  have pg: "pg_start b = a" by (rule arena_live_pg [OF inv a])
  show ?thesis
  proof (cases "a_desc ar")
    case None
    have b: "b = a + 12" using a(2) None by (simp add: arena_live_def)
    have c: "0 < a_free_cnt ar" "a + 4096 * a_free_cnt ar < 4294967296" using hinvD(2) [OF inv a(1)] None by (simp_all add: arena_ok_def)
    have "b mod 4096 = 12" using mod_add_left_eq [of a 4096 12] ok b by simp
    then have "size_of_block b h = Some (4096 * a_free_cnt ar - 12)"
      using block_arena_big [OF a(1) None ok] None c by (simp add: size_of_block_def b [symmetric])
    moreover have "extent h b = {b..<b + (4096 * a_free_cnt ar - 12)}" using a(1) None pg by (simp add: extent_def extent_in_def)
    ultimately show ?thesis using that c(1) b by simp
  next
    case (Some k)
    have k: "k < 7" using hinvD(2) [OF inv a(1)] Some by (simp add: arena_ok_def)
    have b: "b \<in> blocks k a" using a(2) Some by (simp add: arena_live_def)
    have "size_of_block b h = Some (bsz k)"
      using block_arena_small [OF ds a(1) Some k ok b] Some desc_okD [OF ds k] by (simp add: size_of_block_def)
    moreover have "b \<noteq> 0" using b by (auto simp: blocks_def block_def)
    ultimately show ?thesis using that extent_small [OF a(1) Some pg] by simp
  qed
qed

text \<open>
  C11. Resizing a block in use gives a new block with the contents of the old one, as far as both go, and frees the old one, or
  a null pointer and leaves everything as it was.
\<close>

theorem realloc_keeps_contents:
  assumes "heap_inv h" and "old \<in> live h" and "0 < sz" and "sz + 4107 < 4294967296"
  shows "\<exists>p h' n. realloc old sz h = Some (p, h') \<and> heap_inv h' \<and> extent h old = {old..<old + n} \<and>
    (if p = 0 then h' = h
     else p \<notin> live h \<and> live h' = insert p (live h - {old}) \<and> {p..<p + sz} \<subseteq> extent h' p \<and> keeps (live h - {old}) h h' \<and>
       (\<forall>i<min sz n. kbytes (hmem h') (p + i) = kbytes (hmem h) (old + i)))"
  using assms(1,3,4)
proof (cases rule: malloc_cases)
  case none
  obtain n where n: "extent h old = {old..<old + n}" by (rule size_of_block_ok [OF assms(1,2)])
  have "realloc old sz h = Some (0, h)" using none assms(3) by (simp add: realloc_def)
  then show ?thesis using assms(1) n by (intro exI [of _ 0] exI [of _ h] exI [of _ n]) simp
next
  case (some p h1)
  have ol: "old \<in> live h1" and pl: "p \<in> live h1" using some(5) assms(2) by auto
  have ne: "p \<noteq> old" using some(4) assms(2) by auto
  obtain n where n: "size_of_block old h1 = Some n" "extent h1 old = {old..<old + n}" "0 < n" "old \<noteq> 0"
    by (rule size_of_block_ok [OF some(3) ol])
  have e: "extent h1 old = extent h old" using some(7) assms(2) by blast
  define l where "l = min sz n"
  have "{p..<p + l} \<subseteq> {p..<p + sz}" by (simp add: l_def)
  then have lp: "{p..<p + l} \<subseteq> extent h1 p" using some(6) by (rule order_trans)
  have "0 < l" "{old..<old + l} \<subseteq> extent h1 old" using n assms(3) by (auto simp: l_def)
  with lp have l: "0 < l" "{p..<p + l} \<subseteq> extent h1 p" "{old..<old + l} \<subseteq> extent h1 old" by blast+
  have "extent h1 p \<inter> extent h1 old = {}" using hp.room_disjoint [OF some(3) pl ol ne] .
  then have "{p..<p + l} \<inter> {old..<old + l} = {}" using l(2,3) by blast
  then have "p \<notin> {old..<old + l}" using l(1) by auto
  then have apart: "p \<le> old \<or> old + l \<le> p" by auto
  define m where "m = copy_up (kbytes (hmem h1)) p old l"
  have mm: "m x = (if p \<le> x \<and> x < p + l then kbytes (hmem h) (old + (x - p)) else kbytes (hmem h) x)" for x
    unfolding m_def copy_up_apply [OF apart] some(8) by simp
  define h2 where "h2 = set_bytes m h1"
  have inv2: "heap_inv h2" "old \<in> live h2" "live h2 = live h1" "extent h2 b = extent h1 b" for b
    using heap_inv_bytes some(3) ol by (simp_all add: h2_def)
  obtain h' where f: "free_block old h2 = Some h'" "heap_inv h'" "live h' = live h2 - {old}" "keeps (live h2 - {old}) h2 h'"
    by (rule free_ok [OF inv2(1,2)])
  have "min sz n = l" by (simp add: l_def)
  then have r: "realloc old sz h = Some (p, h')"
    using some(1,2) n(1,4) assms(3) f(1) by (simp add: realloc_def memcpy_def m_def [symmetric] h2_def [symmetric])
  have pk: "p \<in> live h2 - {old}" using pl ne inv2(3) by simp
  have live: "live h' = insert p (live h - {old})" using f(3) inv2(3) some(5) ne by auto
  have ext: "{p..<p + sz} \<subseteq> extent h' p" using f(4) pk some(6) inv2(4) by (auto simp: keeps_def)
  have bytes: "kbytes (hmem h') (p + i) = kbytes (hmem h) (old + i)" if "i < l" for i
  proof -
    have "p + i \<in> extent h2 p" using that l(2) inv2(4) by auto
    then have "kbytes (hmem h') (p + i) = kbytes (hmem h2) (p + i)" using f(4) pk unfolding keeps_def by blast
    then show ?thesis using that by (simp add: h2_def mm)
  qed
  have keep: "keeps (live h - {old}) h h'"
    unfolding keeps_def
  proof (intro ballI conjI)
    fix b assume b: "b \<in> live h - {old}"
    then have b2: "b \<in> live h2 - {old}" and bp: "b \<in> live h1" "b \<noteq> p" using inv2(3) some(4,5) by auto
    have eb: "extent h1 b = extent h b" using some(7) b by blast
    show "extent h' b = extent h b" using f(4) b2 inv2(4) eb by (simp add: keeps_def)
    fix x assume x: "x \<in> extent h b"
    have "extent h1 b \<inter> extent h1 p = {}" using hp.room_disjoint [OF some(3) bp(1) pl bp(2)] .
    then have "x \<notin> {p..<p + l}" using x eb l(2) by blast
    moreover have "kbytes (hmem h') x = kbytes (hmem h2) x" using f(4) b2 x inv2(4) eb by (simp add: keeps_def)
    ultimately show "kbytes (hmem h') x = kbytes (hmem h) x" by (auto simp: h2_def mm)
  qed
  show ?thesis
    using r f(2) live ext keep bytes some(2,4) n(2) e unfolding l_def by (intro exI [of _ p] exI [of _ h'] exI [of _ n]) simp
qed

text \<open>
  C39. A request within twelve bytes of the end of the address space wraps around when the header is added: while the kernel pool has
  a free page, the request is granted, with a new block of 4084 bytes, although the comment on \<^verbatim>\<open>malloc\<close> promises a block of at least the
  size asked for and a null pointer otherwise.
\<close>

theorem malloc_size_wraps:
  assumes "heap_inv h" and "4294967285 \<le> sz" and "sz < 4294967296"
    and "q \<in> pool_pages (get_pool False (hmem h))" and "q \<notin> in_use (hmem h)"
  shows "\<exists>p h'. malloc sz h = Some (p, h') \<and> p \<noteq> 0 \<and> p \<notin> live h \<and> live h' = insert p (live h) \<and>
    extent h' p = {p..<p + 4084} \<and> card (extent h' p) < sz"
proof -
  have "find_desc sz h = None"
  proof (rule ccontr)
    assume "find_desc sz h \<noteq> None"
    then obtain k where k: "k < 7" "sz \<le> bsz k" using find_desc_Some assms(1) by (auto simp: heap_inv_def)
    have "(2::nat) ^ k \<le> 2 ^ 6" using k(1) by (intro power_increasing) auto
    then show False using k(2) assms(2) by (simp add: bsz_def)
  qed
  moreover have "DIV_ROUND_UP (wrap32 (sz + 12)) 4096 = 1"
  proof -
    define d where "d = sz - 4294967285"
    have d: "sz + 12 = d + 1 + 4294967296" "d < 11" using assms(2,3) by (auto simp: d_def)
    have "(d + 1 + 4294967296) mod 4294967296 = (d + 1) mod 4294967296" by (rule mod_add_self2)
    then have "(sz + 12) mod 4294967296 = d + 1" unfolding d(1) using d(2) by simp
    then have "wrap32 (sz + 12) = d + 1" by (simp add: wrap32_def)
    moreover have "(d + 4096) div 4096 = 1" using d(2) by simp
    ultimately show ?thesis by (simp add: DIV_ROUND_UP_def d(2))
  qed
  ultimately have n: "find_desc sz h = None" "1 = DIV_ROUND_UP (wrap32 (sz + 12)) 4096" by simp_all
  have "0 < sz" using assms(2) by simp
  from assms(1) this n zero_less_one show ?thesis
  proof (cases rule: malloc_big)
    case (some p h')
    then show ?thesis using assms(2) by (intro exI [of _ p] exI [of _ h']) simp
  next
    case none
    have "{q..<q + 1} = {q}" by auto
    then show ?thesis using none(2) assms(4,5) by (metis Int_insert_left_if0 Int_empty_left empty_subsetI insert_subset)
  qed
qed

section \<open>Start-up\<close>

lemma malloc_init_ok:
  assumes "mem_inv m"
  obtains h where "malloc_init m = Some h" "heap_inv h" "live h = {}" "hmem h = m"
proof -
  define ds where "ds = map (\<lambda>k. \<lparr>block_size = bsz k, blocks_per_arena = bpa k, free_list = []\<rparr>) [0..<7]"
  have "init_descs 16 [] = Some ds"
    by (simp add: init_descs.simps ds_def bsz_def bpa_def upt_rec)
  then have r: "malloc_init m = Some \<lparr>hmem = m, descs = ds, arenas = (\<lambda>_. None)\<rparr>" by (simp add: malloc_init_def)
  have "heap_inv \<lparr>hmem = m, descs = ds, arenas = (\<lambda>_. None)\<rparr>"
    using assms by (auto simp: heap_inv_def desc_ok_def hinv_def free_of_def ds_def)
  then show ?thesis using that r by (simp add: live_def live_in_def)
qed

text \<open>A heap with one page, the first of the kernel pool, as a big block.\<close>

definition small_heap :: heap where
  "small_heap = \<lparr>hmem = small_mem, descs = map (\<lambda>k. \<lparr>block_size = bsz k, blocks_per_arena = bpa k, free_list = []\<rparr>) [0..<7],
     arenas = [0xc0101000 \<mapsto> \<lparr>a_desc = None, a_free_cnt = 1\<rparr>]\<rparr>"

lemma small_heap_ok: "heap_inv small_heap" "0xc010100c \<in> live small_heap"
proof -
  have "arena_ok small_mem fl 0xc0101000 \<lparr>a_desc = None, a_free_cnt = 1\<rparr>" for fl
  proof -
    have "{0xc0101::nat..<0xc0102} = {0xc0101}" by auto
    moreover have "0 \<in> bm_used \<lparr>bit_cnt = 4, bits = [1]\<rparr>" by (simp add: bm_used_def bm_bit_def)
    ultimately show ?thesis
      by (auto simp: arena_ok_def arena_pages_def pages_of_def get_pool_def pool_pages_def in_use_def pool_used_def small_mem_def image_iff)
  qed
  then show "heap_inv small_heap"
    by (auto simp: heap_inv_def hinv_def desc_ok_def small_heap_def small_mem_ok free_of_def split: if_splits)
  show "0xc010100c \<in> live small_heap"
    by (simp add: live_def live_in_def small_heap_def arena_live_def)
qed

theorem malloc_free_round_trip_witness:
  "\<exists>p h'. malloc 100 small_heap = Some (p, h') \<and> (p \<noteq> 0 \<longrightarrow> p \<noteq> 0xc010100c \<and> {p..<p + 100} \<subseteq> extent h' p)"
  using malloc_free_round_trip [OF small_heap_ok(1), of 100] small_heap_ok(2) by (auto split: if_splits)

theorem realloc_keeps_contents_witness:
  "\<exists>p h'. realloc 0xc010100c 5000 small_heap = Some (p, h') \<and> heap_inv h'"
  using realloc_keeps_contents [OF small_heap_ok, of 5000] by auto

theorem malloc_size_wraps_witness:
  "\<exists>p h'. malloc 4294967285 small_heap = Some (p, h') \<and> p \<noteq> 0 \<and> extent h' p = {p..<p + 4084}"
proof -
  have "0xc0102 \<in> pool_pages (get_pool False (hmem small_heap))" "0xc0102 \<notin> in_use (hmem small_heap)"
    by (auto simp: small_heap_def small_mem_def get_pool_def pool_pages_def in_use_def pool_used_def bm_used_def bm_bit_def)
  from malloc_size_wraps [OF small_heap_ok(1) _ _ this, of 4294967285] show ?thesis by auto
qed

end
