(* ===== verification/Stdio.thy ===== *)
theory Stdio
  imports Kernel_Stdlib
begin

text \<open>
  Formatted output, \<^verbatim>\<open>lib/stdio.c\<close>. The \<^verbatim>\<open>output\<close> callback gets one character after the other, so that a routine that prints is the
  list of the characters it passes on. A format is the list of its characters before the terminator; the variable arguments are words, double words
  and string literals in their order, and taking one of the wrong kind, or none, is \<open>None\<close>, as are the overflows of \<^verbatim>\<open>int\<close> that C
  leaves undefined and reading past the end of the format.
\<close>

unbundle bit_operations_syntax

section \<open>Arguments and conversions\<close>

datatype va = VA32 u32 | VA64 u64 | VALIT "u8 list"

fun va_int :: "va list \<Rightarrow> (u32 \<times> va list) option" where
  "va_int (VA32 w # args) = Some (w, args)"
| "va_int _ = None"

fun va_long_long :: "va list \<Rightarrow> (u64 \<times> va list) option" where
  "va_long_long (VA64 w # args) = Some (w, args)"
| "va_long_long _ = None"

definition MINUS :: u32 where "MINUS = 1"
definition PLUS :: u32 where "PLUS = 2"
definition SPACE :: u32 where "SPACE = 4"
definition POUND :: u32 where "POUND = 8"
definition ZERO :: u32 where "ZERO = 16"
definition GROUP :: u32 where "GROUP = 32"

lemmas flag_defs = MINUS_def PLUS_def SPACE_def POUND_def ZERO_def GROUP_def

datatype conv_type = T_CHAR | T_SHORT | T_INT | T_INTMAX | T_LONG | T_LONGLONG | T_PTRDIFFT | T_SIZET

record printf_conversion =
  flags :: u32
  width :: int
  precision :: int
  ctype :: conv_type

record integer_base =
  base :: nat
  digits :: "u8 list"
  x_char :: u8
  group :: nat

definition chars :: "string \<Rightarrow> u8 list" where
  "chars s = map of_char s"

definition base_d :: integer_base where "base_d = \<lparr>base = 10, digits = chars ''0123456789'', x_char = 0, group = 3\<rparr>"
definition base_o :: integer_base where "base_o = \<lparr>base = 8, digits = chars ''01234567'', x_char = 0, group = 3\<rparr>"
definition base_x :: integer_base where "base_x = \<lparr>base = 16, digits = chars ''0123456789abcdef'', x_char = 120, group = 4\<rparr>"
definition base_X :: integer_base where "base_X = \<lparr>base = 16, digits = chars ''0123456789ABCDEF'', x_char = 88, group = 4\<rparr>"

section \<open>Parsing a conversion\<close>

text \<open>The flag characters are those of \<open>- + space # 0\<close> and the apostrophe.\<close>

fun parse_flags :: "u8 list \<Rightarrow> u32 \<Rightarrow> u32 \<times> u8 list" where
  "parse_flags [] fl = (fl, [])"
| "parse_flags (c # s) fl =
     (if c = 45 then parse_flags s (fl OR MINUS)
      else if c = 43 then parse_flags s (fl OR PLUS)
      else if c = 32 then parse_flags s (fl OR SPACE)
      else if c = 35 then parse_flags s (fl OR POUND)
      else if c = 48 then parse_flags s (fl OR ZERO)
      else if c = 39 then parse_flags s (fl OR GROUP)
      else (fl, c # s))"

fun parse_number :: "u8 list \<Rightarrow> int \<Rightarrow> (int \<times> u8 list) option" where
  "parse_number [] v = Some (v, [])"
| "parse_number (c # s) v =
     (if isdigit (sint c)
      then do { t \<leftarrow> in_int (v * 10); u \<leftarrow> in_int (t + sint c); parse_number s (u - 48) }
      else Some (v, c # s))"

definition star_or_number :: "u8 list \<Rightarrow> va list \<Rightarrow> (int \<times> u8 list \<times> va list) option" where
  "star_or_number s args =
     (case s of
        c # s' \<Rightarrow>
          if c = 42 then do { (w, args) \<leftarrow> va_int args; Some (sint w, s', args) }
          else do { (v, s) \<leftarrow> parse_number s 0; Some (v, s, args) }
      | [] \<Rightarrow> Some (0, [], args))"

definition parse_type :: "u8 list \<Rightarrow> conv_type \<times> u8 list" where
  "parse_type s =
     (case s of
        [] \<Rightarrow> (T_INT, [])
      | c # s' \<Rightarrow>
          if c = 104 then (if s' \<noteq> [] \<and> hd s' = 104 then (T_CHAR, tl s') else (T_SHORT, s'))
          else if c = 106 then (T_INTMAX, s')
          else if c = 108 then (if s' \<noteq> [] \<and> hd s' = 108 then (T_LONGLONG, tl s') else (T_LONG, s'))
          else if c = 116 then (T_PTRDIFFT, s')
          else if c = 122 then (T_SIZET, s')
          else (T_INT, s))"

text \<open>The width, with the flags: a negative one is a positive width and the flag \<open>MINUS\<close>.\<close>

definition parse_width :: "u8 list \<Rightarrow> u32 \<Rightarrow> va list \<Rightarrow> (int \<times> u32 \<times> u8 list \<times> va list) option" where
  "parse_width s fl args = do {
     (w, s, args) \<leftarrow> star_or_number s args;
     if w < 0 then do { w \<leftarrow> in_int (- w); Some (w, fl OR MINUS, s, args) } else Some (w, fl, s, args) }"

definition parse_precision :: "u8 list \<Rightarrow> va list \<Rightarrow> (int \<times> u8 list \<times> va list) option" where
  "parse_precision s args =
     (if s \<noteq> [] \<and> hd s = 46
      then do { (v, s, args) \<leftarrow> star_or_number (tl s) args; Some (if v < 0 then - 1 else v, s, args) }
      else Some (- 1, s, args))"

definition parse_conversion :: "u8 list \<Rightarrow> va list \<Rightarrow> (printf_conversion \<times> u8 list \<times> va list) option" where
  "parse_conversion s args = do {
     let (fl, s) = parse_flags s 0;
     let fl = (if fl AND MINUS \<noteq> 0 then fl AND NOT ZERO else fl);
     let fl = (if fl AND PLUS \<noteq> 0 then fl AND NOT SPACE else fl);
     (w, fl, s, args) \<leftarrow> parse_width s fl args;
     (pr, s, args) \<leftarrow> parse_precision s args;
     let fl = (if pr \<ge> 0 then fl AND NOT ZERO else fl);
     let (ty, s) = parse_type s;
     Some (\<lparr>flags = fl, width = w, precision = pr, ctype = ty\<rparr>, s, args) }"

section \<open>Integers and strings\<close>

definition output_dup :: "u8 \<Rightarrow> int \<Rightarrow> u8 list" where
  "output_dup ch cnt = replicate (nat cnt) ch"

text \<open>The digits of a value, the lowest first, in the buffer \<open>buf\<close>; \<open>digit_cnt\<close> of them are there.\<close>

partial_function (option) digit_buf :: "integer_base \<Rightarrow> bool \<Rightarrow> nat \<Rightarrow> nat \<Rightarrow> u8 list \<Rightarrow> u8 list option" where
  "digit_buf b grouped v digit_cnt buf =
     (if v > 0
      then let buf = (if grouped \<and> digit_cnt > 0 \<and> digit_cnt mod group b = 0 then buf @ [44] else buf)
           in digit_buf b grouped (v div base b) (digit_cnt + 1) (buf @ [digits b ! (v mod base b)])
      else Some buf)"

function pad_zeros :: "int \<Rightarrow> u8 list \<Rightarrow> u8 list" where
  "pad_zeros prec buf = (if int (length buf) < prec \<and> length buf < 63 then pad_zeros prec (buf @ [48]) else buf)"
  by pat_completeness auto
termination by (relation "measure (\<lambda>(prec, buf). 63 - length buf)") auto

declare pad_zeros.simps [simp del]

definition integer_buf :: "u64 \<Rightarrow> integer_base \<Rightarrow> printf_conversion \<Rightarrow> u8 list option" where
  "integer_buf v b c = do {
     buf \<leftarrow> digit_buf b (flags c AND GROUP \<noteq> 0) (unat v) 0 [];
     let buf = pad_zeros (if precision c < 0 then 1 else precision c) buf;
     Some (if flags c AND POUND \<noteq> 0 \<and> base b = 8 \<and> (buf = [] \<or> last buf \<noteq> 48) then buf @ [48] else buf) }"

definition format_integer :: "u64 \<Rightarrow> bool \<Rightarrow> bool \<Rightarrow> integer_base \<Rightarrow> printf_conversion \<Rightarrow> u8 list option" where
  "format_integer v is_signed negative b c = do {
     let sign = (if is_signed
       then (if flags c AND PLUS \<noteq> 0 then (if negative then 45 else 43)
             else if flags c AND SPACE \<noteq> 0 then (if negative then 45 else 32)
             else if negative then 45 else 0) else 0);
     let x = (if flags c AND POUND \<noteq> 0 \<and> v \<noteq> 0 then x_char b else 0);
     buf \<leftarrow> integer_buf v b c;
     let pad_cnt = max 0 (width c - int (length buf) - (if x \<noteq> 0 then 2 else 0) - (if sign \<noteq> 0 then 1 else 0));
     Some ((if flags c AND (MINUS OR ZERO) = 0 then output_dup 32 pad_cnt else []) @
       (if sign \<noteq> 0 then [sign] else []) @
       (if x \<noteq> 0 then [48, x] else []) @
       (if flags c AND ZERO \<noteq> 0 then output_dup 48 pad_cnt else []) @
       rev buf @
       (if flags c AND MINUS \<noteq> 0 then output_dup 32 pad_cnt else [])) }"

definition format_string :: "u8 list \<Rightarrow> printf_conversion \<Rightarrow> u8 list" where
  "format_string s c =
     (if width c > int (length s) \<and> flags c AND MINUS = 0 then output_dup 32 (width c - int (length s)) else []) @ s @
     (if width c > int (length s) \<and> flags c AND MINUS \<noteq> 0 then output_dup 32 (width c - int (length s)) else [])"

section \<open>Conversions\<close>

definition signed_arg :: "conv_type \<Rightarrow> va list \<Rightarrow> (u64 \<times> va list) option" where
  "signed_arg ty args =
     (case ty of
        T_CHAR \<Rightarrow> do { (w, args) \<leftarrow> va_int args; Some (scast (ucast w :: u8), args) }
      | T_SHORT \<Rightarrow> do { (w, args) \<leftarrow> va_int args; Some (scast (ucast w :: u16), args) }
      | T_INTMAX \<Rightarrow> va_long_long args
      | T_LONGLONG \<Rightarrow> va_long_long args
      | T_SIZET \<Rightarrow> do {
          (w, args) \<leftarrow> va_int args;
          let v = ucast w;
          Some (if v > 0xffffffff div 2 then v - 0xffffffff - 1 else v, args) }
      | _ \<Rightarrow> do { (w, args) \<leftarrow> va_int args; Some (scast w, args) })"

definition unsigned_arg :: "conv_type \<Rightarrow> va list \<Rightarrow> (u64 \<times> va list) option" where
  "unsigned_arg ty args =
     (case ty of
        T_CHAR \<Rightarrow> do { (w, args) \<leftarrow> va_int args; Some (ucast (ucast w :: u8), args) }
      | T_SHORT \<Rightarrow> do { (w, args) \<leftarrow> va_int args; Some (ucast (ucast w :: u16), args) }
      | T_INTMAX \<Rightarrow> va_long_long args
      | T_LONGLONG \<Rightarrow> va_long_long args
      | T_PTRDIFFT \<Rightarrow> do { (w, args) \<leftarrow> va_int args; Some (scast w AND (push_bit 1 0x7fffffff OR 1), args) }
      | _ \<Rightarrow> do { (w, args) \<leftarrow> va_int args; Some (ucast w, args) })"

definition string_arg :: "memory \<Rightarrow> int \<Rightarrow> va list \<Rightarrow> (u8 list \<times> va list) option" where
  "string_arg m prec args =
     (let maxlen = nat (prec mod 2 ^ 32)
      in case args of
           VALIT s # args \<Rightarrow> Some (take maxlen s, args)
         | VA32 p # args \<Rightarrow>
             if p = 0 then Some (take maxlen (chars ''(null)''), args)
             else do { n \<leftarrow> strnlen m (unat p) maxlen; Some (map (\<lambda>i. m (unat p + i)) [0..<n], args) }
         | _ \<Rightarrow> None)"

text \<open>
  One case of the switch on the conversion character. The messages of the last two cases are what \<^verbatim>\<open>__vprintf\<close> makes of
  the formats \<^verbatim>\<open><<no %%%c in kernel>>\<close> and \<^verbatim>\<open><<no %%%c conversion>>\<close>.
\<close>

definition convert :: "memory \<Rightarrow> u8 \<Rightarrow> printf_conversion \<Rightarrow> va list \<Rightarrow> (u8 list \<times> va list) option" where
  "convert m conv c args =
     (if conv = 100 \<or> conv = 105
      then do {
        (v, args) \<leftarrow> signed_arg (ctype c) args;
        ASSERT (v \<noteq> 0x8000000000000000);
        out \<leftarrow> format_integer (if v <s 0 then - v else v) True (v <s 0) base_d c;
        Some (out, args) }
      else if conv = 111 \<or> conv = 117 \<or> conv = 120 \<or> conv = 88
      then do {
        (v, args) \<leftarrow> unsigned_arg (ctype c) args;
        let b = (if conv = 111 then base_o else if conv = 117 then base_d else if conv = 120 then base_x else base_X);
        out \<leftarrow> format_integer v False False b c;
        Some (out, args) }
      else if conv = 99
      then do { (w, args) \<leftarrow> va_int args; Some (format_string [ucast w] c, args) }
      else if conv = 115
      then do { (s, args) \<leftarrow> string_arg m (precision c) args; Some (format_string s c, args) }
      else if conv = 112
      then do {
        (p, args) \<leftarrow> va_int args;
        out \<leftarrow> format_integer (ucast p) False False base_x (c\<lparr>flags := POUND\<rparr>);
        Some (out, args) }
      else if conv \<in> set (chars ''feEgGn'')
      then Some (chars ''<<no %'' @ [conv] @ chars '' in kernel>>'', args)
      else Some (chars ''<<no %'' @ [conv] @ chars '' conversion>>'', args))"

lemma parse_flags_length: "length (snd (parse_flags s fl)) \<le> length s"
  by (induction s fl rule: parse_flags.induct) auto

lemma parse_number_length: "parse_number s v = Some (w, s') \<Longrightarrow> length s' \<le> length s"
  by (induction s v rule: parse_number.induct) (fastforce simp: bind_Some_iff split: if_splits)+

lemma star_or_number_length: "star_or_number s args = Some (w, s', args') \<Longrightarrow> length s' \<le> length s"
  by (auto simp: star_or_number_def bind_Some_iff split: list.splits if_splits dest!: parse_number_length)

lemma parse_type_length: "length (snd (parse_type s)) \<le> length s"
  by (auto simp: parse_type_def split: list.splits if_splits)

lemma parse_width_length: "parse_width s fl args = Some (w, fl', s', args') \<Longrightarrow> length s' \<le> length s"
  by (auto simp: parse_width_def bind_Some_iff split: if_splits dest!: star_or_number_length)

lemma parse_precision_length: "parse_precision s args = Some (p, s', args') \<Longrightarrow> length s' \<le> length s"
  by (auto simp: parse_precision_def bind_Some_iff split: if_splits dest!: star_or_number_length)

lemma parse_conversion_length:
  assumes "parse_conversion s args = Some (c, s', args')"
  shows "length s' \<le> length s"
proof -
  obtain fl s1 where f: "parse_flags s 0 = (fl, s1)" by fastforce
  define fl1 where "fl1 = (let fl = (if fl AND MINUS \<noteq> 0 then fl AND NOT ZERO else fl) in if fl AND PLUS \<noteq> 0 then fl AND NOT SPACE else fl)"
  have "parse_conversion s args = do {
     (w, fl, s, args) \<leftarrow> parse_width s1 fl1 args;
     (pr, s, args) \<leftarrow> parse_precision s args;
     let fl = (if pr \<ge> 0 then fl AND NOT ZERO else fl);
     let (ty, s) = parse_type s;
     Some (\<lparr>flags = fl, width = w, precision = pr, ctype = ty\<rparr>, s, args) }"
    by (simp add: parse_conversion_def f fl1_def Let_def)
  with assms have e: "do {
     (w, fl, s, args) \<leftarrow> parse_width s1 fl1 args;
     (pr, s, args) \<leftarrow> parse_precision s args;
     let fl = (if pr \<ge> 0 then fl AND NOT ZERO else fl);
     let (ty, s) = parse_type s;
     Some (\<lparr>flags = fl, width = w, precision = pr, ctype = ty\<rparr>, s, args) } = Some (c, s', args')" by simp
  then obtain w fl2 s2 a2 where w: "parse_width s1 fl1 args = Some (w, fl2, s2, a2)"
    by (cases "parse_width s1 fl1 args") auto
  with e obtain pr s3 a3 where p: "parse_precision s2 a2 = Some (pr, s3, a3)"
    by (cases "parse_precision s2 a2") auto
  have t: "s' = snd (parse_type s3)" using e w p by (cases "parse_type s3") simp
  have "length s1 \<le> length s" using parse_flags_length [of s 0] f by simp
  moreover have "length s' \<le> length s3" unfolding t by (rule parse_type_length)
  ultimately show ?thesis using parse_width_length [OF w] parse_precision_length [OF p] by linarith
qed

text \<open>A format that ends inside a conversion makes the loop step over its terminator.\<close>

function vprintf :: "memory \<Rightarrow> u8 list \<Rightarrow> va list \<Rightarrow> u8 list option" where
  "vprintf m [] args = Some []"
| "vprintf m (ch # s) args =
     (if ch \<noteq> 37 then do { out \<leftarrow> vprintf m s args; Some (ch # out) }
      else case s of
        [] \<Rightarrow> None
      | c # s' \<Rightarrow>
          if c = 37 then do { out \<leftarrow> vprintf m s' args; Some (37 # out) }
          else case parse_conversion s args of
            None \<Rightarrow> None
          | Some (cv, s2, args2) \<Rightarrow> (case s2 of
              [] \<Rightarrow> None
            | conv # s3 \<Rightarrow> (case convert m conv cv args2 of
                None \<Rightarrow> None
              | Some (out, args3) \<Rightarrow> do { rest \<leftarrow> vprintf m s3 args3; Some (out @ rest) })))"
  by pat_completeness auto
termination
  by (relation "measure (\<lambda>(m, s, args). length s)") (auto dest!: parse_conversion_length)

section \<open>Printing into a buffer\<close>

record vsnprintf_aux =
  ap :: nat
  alen :: int
  max_length :: int
  amem :: memory

text \<open>
  The count of the characters is an \<^verbatim>\<open>int\<close>: one more than \<open>2 ^ 31 - 1\<close> of them overflow it. The arguments of \<^verbatim>\<open>%s\<close> are strings outside
  the buffer, so that the output does not depend on what has been written.
\<close>

definition vsnprintf_helper :: "u8 \<Rightarrow> vsnprintf_aux \<Rightarrow> vsnprintf_aux option" where
  "vsnprintf_helper ch a = do {
     n \<leftarrow> in_int (alen a + 1);
     Some (if alen a < max_length a then a\<lparr>alen := n, amem := (amem a)(ap a := ch), ap := ap a + 1\<rparr> else a\<lparr>alen := n\<rparr>) }"

fun output_chars :: "u8 list \<Rightarrow> vsnprintf_aux \<Rightarrow> vsnprintf_aux option" where
  "output_chars [] a = Some a"
| "output_chars (ch # out) a = do { a \<leftarrow> vsnprintf_helper ch a; output_chars out a }"

definition vsnprintf :: "memory \<Rightarrow> nat \<Rightarrow> u32 \<Rightarrow> u8 list \<Rightarrow> va list \<Rightarrow> (int \<times> memory) option" where
  "vsnprintf m buffer buf_size fmt args = do {
     out \<leftarrow> vprintf m fmt args;
     a \<leftarrow> output_chars out
       \<lparr>ap = buffer, alen = 0, max_length = (if buf_size > 0 then sint (buf_size - 1) else 0), amem = m\<rparr>;
     Some (alen a, if buf_size > 0 then (amem a)(ap a := 0) else amem a) }"

section \<open>Dumps and sizes\<close>

definition printf_all :: "(u8 list \<times> va list) list \<Rightarrow> u8 list option" where
  "printf_all fs = map_option concat (those (map (\<lambda>(fmt, args). vprintf (\<lambda>_. 0) fmt args) fs))"

definition dump_line :: "nat \<Rightarrow> u8 list \<Rightarrow> nat \<Rightarrow> nat \<Rightarrow> bool \<Rightarrow> u8 list option" where
  "dump_line ofs buf start stop ascii =
     printf_all ([(chars ''%08jx  '', [VA64 (of_nat (ROUND_DOWN ofs 16))])] @
       replicate start (chars ''   '', []) @
       map (\<lambda>i. (chars ''%02hhx%c'', [VA32 (ucast (buf ! (i - start))), VA32 (if i = 7 then 45 else 32)])) [start..<stop] @
       (if ascii
        then replicate (16 - stop) (chars ''   '', []) @ [(chars ''|'', [])] @ replicate start (chars '' '', []) @
          map (\<lambda>i. (chars ''%c'', [VA32 (if isprint (uint (buf ! (i - start))) then ucast (buf ! (i - start)) else 46)])) [start..<stop] @
          replicate (16 - stop) (chars '' '', []) @ [(chars ''|'', [])]
        else []) @
       [([10], [])])"

function hex_dump :: "nat \<Rightarrow> u8 list \<Rightarrow> bool \<Rightarrow> u8 list option" where
  "hex_dump ofs buf ascii =
     (if buf = [] then Some []
      else let start = ofs mod 16; stop = (if 16 - start > length buf then start + length buf else 16); n = stop - start
           in do {
             out \<leftarrow> dump_line ofs buf start stop ascii;
             rest \<leftarrow> hex_dump (wrap32 (ofs + n)) (drop n buf) ascii;
             Some (out @ rest) })"
  by pat_completeness auto
termination
  by (relation "measure (\<lambda>(ofs, buf, ascii). length buf)") (auto simp: Let_def)

declare hex_dump.simps [simp del]

fun size_unit :: "u64 \<Rightarrow> string list \<Rightarrow> u64 \<times> string" where
  "size_unit sz (f # g # fs) = (if sz \<ge> 1024 then size_unit (sz div 1024) (g # fs) else (sz, f))"
| "size_unit sz [f] = (sz, f)"
| "size_unit sz [] = (sz, [])"

definition print_human_readable_size :: "u64 \<Rightarrow> u8 list option" where
  "print_human_readable_size sz =
     (if sz = 1 then vprintf (\<lambda>_. 0) (chars ''1 byte'') []
      else let (n, f) = size_unit sz [''bytes'', ''kB'', ''MB'', ''GB'', ''TB'']
           in vprintf (\<lambda>_. 0) (chars ''%llu %s'') [VA64 n, VALIT (chars f)])"

end
