(* ===== verification/Stdio_Props.thy ===== *)
theory Stdio_Props
  imports Stdio
begin

text \<open>
  Formatted output: the digits of a number, the bound of the buffer for them, printing into a buffer of limited size, and
  printing a number and reading it back.
\<close>

unbundle bit_operations_syntax

section \<open>Digits\<close>

lemma dec_value_snoc: "dec_value v (ds @ [d]) = dec_value v ds * 10 + (uint d - 48)"
  by (induction ds arbitrary: v) simp_all

lemma decimal_digits: "digits base_d = map (\<lambda>k. of_nat (48 + k)) [0..<10]"
proof -
  have "digits base_d = chars ''0123456789''" unfolding base_d_def integer_base.simps ..
  also have "\<dots> = [48, 49, 50, 51, 52, 53, 54, 55, 56, 57]" unfolding chars_def by simp
  also have "\<dots> = map (\<lambda>k. of_nat (48 + k)) [0..<10]" by (simp add: upt_rec)
  finally show ?thesis .
qed

lemma decimal_digit: "k < 10 \<Longrightarrow> uint (digits base_d ! k) = 48 + int k"
proof -
  assume k: "k < 10"
  then have d: "digits base_d ! k = of_nat (48 + k)" by (simp add: decimal_digits)
  have "unat (of_nat (48 + k) :: u8) = 48 + k" unfolding unat_of_nat using k by simp
  then show ?thesis unfolding d uint_nat by simp
qed

lemma digit_buf_decimal:
  "\<exists>ds. digit_buf base_d False v n buf = Some (buf @ ds) \<and> (\<forall>d\<in>set ds. isdigit (uint d)) \<and> dec_value 0 (rev ds) = int v \<and> (ds = [] \<longleftrightarrow> v = 0)"
proof (induction v arbitrary: n buf rule: less_induct)
  case (less v)
  show ?case
  proof (cases "v = 0")
    case True
    then show ?thesis by (simp add: digit_buf.simps)
  next
    case False
    define d where "d = digits base_d ! (v mod 10)"
    have d: "uint d = 48 + int (v mod 10)" using decimal_digit [of "v mod 10"] by (simp add: d_def)
    obtain ds where ds: "digit_buf base_d False (v div 10) (n + 1) (buf @ [d]) = Some ((buf @ [d]) @ ds)"
      "\<forall>d\<in>set ds. isdigit (uint d)" "dec_value 0 (rev ds) = int (v div 10)"
      using less.IH [of "v div 10" "n + 1" "buf @ [d]"] False by auto
    have "digit_buf base_d False v n buf = digit_buf base_d False (v div 10) (n + 1) (buf @ [d])"
      using False digit_buf.simps [of base_d False v n buf] by (simp add: d_def base_d_def)
    moreover have "dec_value 0 (rev (d # ds)) = int v"
      using ds(3) d by (simp add: dec_value_snoc) presburger
    moreover have "isdigit (uint d)" unfolding d isdigit_def by simp
    ultimately show ?thesis using ds(1,2) False by (intro exI [of _ "d # ds"]) simp
  qed
qed

text \<open>A digit, and with grouping a comma, for each division by the base.\<close>

lemma digit_buf_length:
  assumes "2 \<le> base b" and "v < base b ^ n"
  shows "\<exists>buf'. digit_buf b g v k buf = Some buf' \<and> length buf' \<le> length buf + 2 * n"
  using assms(2)
proof (induction n arbitrary: v k buf)
  case 0
  then show ?case by (simp add: digit_buf.simps)
next
  case (Suc n)
  show ?case
  proof (cases "v = 0")
    case True
    then show ?thesis by (simp add: digit_buf.simps)
  next
    case False
    define buf1 where "buf1 = (if g \<and> k > 0 \<and> k mod group b = 0 then buf @ [44] else buf) @ [digits b ! (v mod base b)]"
    have "v div base b < base b ^ n" using Suc.prems assms(1) by (simp add: less_mult_imp_div_less mult.commute)
    then obtain buf' where "digit_buf b g (v div base b) (k + 1) buf1 = Some buf'" "length buf' \<le> length buf1 + 2 * n"
      using Suc.IH by blast
    moreover have "length buf1 \<le> length buf + 2" by (simp add: buf1_def)
    moreover have "digit_buf b g v k buf = digit_buf b g (v div base b) (k + 1) buf1"
      using False digit_buf.simps [of b g v k buf] by (simp add: buf1_def Let_def)
    ultimately show ?thesis by auto
  qed
qed

lemma pad_zeros_eq: "pad_zeros prec buf = buf @ replicate (nat (min prec 63) - length buf) 48"
proof (induction prec buf rule: pad_zeros.induct)
  case (1 prec buf)
  show ?case
  proof (cases "int (length buf) < prec \<and> length buf < 63")
    case True
    then have "nat (min prec 63) - length buf = Suc (nat (min prec 63) - length (buf @ [48]))" by auto
    then show ?thesis using 1 True pad_zeros.simps [of prec buf] by simp
  next
    case False
    then have "nat (min prec 63) - length buf = 0" by auto
    then show ?thesis using pad_zeros.simps [of prec buf] False by simp
  qed
qed

text \<open>
  C14. The digits of an integer conversion are found for every value, base, precision and flags, and they fit into the buffer of 64
  characters, with the commas, the zeros that the precision asks for, and the leading zero of base 8.
\<close>

theorem integer_buf_fits:
  assumes "b \<in> {base_d, base_o, base_x, base_X}"
  shows "\<exists>buf. integer_buf v b c = Some buf \<and> length buf \<le> 64"
proof -
  have b: "8 \<le> base b" using assms by (auto simp: base_d_def base_o_def base_x_def base_X_def)
  have "unat v < 2 ^ 64" using unsigned_less [of v] by simp
  also have "\<dots> \<le> 8 ^ 22" by simp
  also have "\<dots> \<le> base b ^ 22" using b by (rule power_mono) simp
  finally obtain buf where buf: "digit_buf b (flags c AND GROUP \<noteq> 0) (unat v) 0 [] = Some buf" "length buf \<le> 44"
    using digit_buf_length [of b "unat v" 22 "flags c AND GROUP \<noteq> 0" 0 "[]"] b by auto
  define p where "p = pad_zeros (if precision c < 0 then 1 else precision c) buf"
  define q where "q = (if flags c AND POUND \<noteq> 0 \<and> base b = 8 \<and> (p = [] \<or> last p \<noteq> 48) then p @ [48] else p)"
  have "length p \<le> 63" using buf(2) by (auto simp: p_def pad_zeros_eq)
  then have "length q \<le> 64" by (auto simp: q_def)
  moreover have "integer_buf v b c = Some q" using buf(1) by (simp add: integer_buf_def p_def [symmetric] q_def Let_def)
  ultimately show ?thesis by blast
qed

section \<open>Buffers\<close>

text \<open>What the helper makes of a state, for an output that does not overflow the count.\<close>

definition after_output :: "u8 list \<Rightarrow> vsnprintf_aux \<Rightarrow> vsnprintf_aux" where
  "after_output out a =
     (let k = min (length out) (nat (max_length a - alen a))
      in a\<lparr>alen := alen a + int (length out), ap := ap a + k,
           amem := (\<lambda>x. if x \<in> {ap a..<ap a + k} then out ! (x - ap a) else amem a x)\<rparr>)"

lemma after_output_Nil: "after_output [] a = a"
proof -
  have "(\<lambda>x. if ap a \<le> x \<and> x < ap a then [] ! (x - ap a) else amem a x) = amem a" by (auto simp: fun_eq_iff)
  then show ?thesis by (simp add: after_output_def)
qed

lemma after_output_Cons:
  "after_output out (if alen a < max_length a then a\<lparr>alen := alen a + 1, amem := (amem a)(ap a := ch), ap := ap a + 1\<rparr>
     else a\<lparr>alen := alen a + 1\<rparr>) = after_output (ch # out) a"
proof (cases "alen a < max_length a")
  case True
  define k where "k = min (length out) (nat (max_length a - (alen a + 1)))"
  have k: "min (length (ch # out)) (nat (max_length a - alen a)) = Suc k" using True by (auto simp: k_def)
  have m: "(\<lambda>x. if x \<in> {ap a + 1..<ap a + 1 + k} then out ! (x - (ap a + 1)) else ((amem a)(ap a := ch)) x) =
      (\<lambda>x. if x \<in> {ap a..<ap a + Suc k} then (ch # out) ! (x - ap a) else amem a x)"
    by (auto simp: fun_eq_iff nth_Cons')
  have "after_output out (a\<lparr>alen := alen a + 1, amem := (amem a)(ap a := ch), ap := ap a + 1\<rparr>) =
      a\<lparr>alen := alen a + 1 + int (length out), ap := ap a + 1 + k,
        amem := (\<lambda>x. if x \<in> {ap a + 1..<ap a + 1 + k} then out ! (x - (ap a + 1)) else ((amem a)(ap a := ch)) x)\<rparr>"
    by (simp add: after_output_def k_def [symmetric] Let_def cong: if_cong)
  then show ?thesis unfolding m after_output_def k using True by (simp add: Let_def algebra_simps)
next
  case False
  then have z: "nat (max_length a - alen a) = 0" "nat (max_length a - (alen a + 1)) = 0" by simp_all
  have m: "(\<lambda>x. if ap a \<le> x \<and> x < ap a then g x else f x) = f" for g f :: "nat \<Rightarrow> u8" by (auto simp: fun_eq_iff)
  show ?thesis using False z by (simp add: after_output_def Let_def algebra_simps m cong: if_cong)
qed

lemma output_chars_eq:
  assumes "0 \<le> alen a" and "alen a < 2147483648"
  shows "output_chars out a = (if alen a + int (length out) < 2147483648 then Some (after_output out a) else None)"
  using assms
proof (induction out arbitrary: a)
  case Nil
  then show ?case by (simp add: after_output_Nil)
next
  case (Cons ch out)
  show ?case
  proof (cases "alen a + 1 < 2147483648")
    case True
    define a' where "a' = (if alen a < max_length a then a\<lparr>alen := alen a + 1, amem := (amem a)(ap a := ch), ap := ap a + 1\<rparr>
      else a\<lparr>alen := alen a + 1\<rparr>)"
    have l: "alen a' = alen a + 1" by (simp add: a'_def)
    have "vsnprintf_helper ch a = Some a'" using True Cons.prems by (simp add: vsnprintf_helper_def in_int_def a'_def)
    then have "output_chars (ch # out) a = output_chars out a'" by simp
    also have "\<dots> = (if alen a' + int (length out) < 2147483648 then Some (after_output out a') else None)"
      using Cons.prems True l by (intro Cons.IH) simp_all
    also have "after_output out a' = after_output (ch # out) a" unfolding a'_def by (rule after_output_Cons)
    finally show ?thesis unfolding l by (simp add: algebra_simps)
  next
    case False
    then have "vsnprintf_helper ch a = None" by (simp add: vsnprintf_helper_def in_int_def)
    then show ?thesis using False by simp
  qed
qed

lemma vsnprintf_eq:
  assumes "vprintf m fmt args = Some out" and "0 < sz" and "unat sz \<le> 2147483648"
  shows "vsnprintf m buffer sz fmt args = (if length out < 2147483648 then Some (int (length out),
    (\<lambda>x. let k = min (length out) (unat sz - 1) in
       if x \<in> {buffer..<buffer + k} then out ! (x - buffer) else if x = buffer + k then 0 else m x)) else None)"
proof -
  have u: "unat (sz - 1) = unat sz - 1" using assms(2) by (simp add: unat_minus_one word_gt_0)
  then have "unat (sz - 1) < 2 ^ 31" using assms(3) by simp
  then have s: "nat (sint (sz - 1)) = unat sz - 1"
    using u by (simp add: sint_uint signed_take_bit_int_eq_self uint_nat)
  show ?thesis using assms(1,2) by (simp add: vsnprintf_def output_chars_eq after_output_def s Let_def fun_eq_iff)
qed

lemma vsnprintf_SomeD:
  assumes "vsnprintf m buffer sz fmt args = Some (n, m')" and "vprintf m fmt args = Some out"
  shows "n = int (length out)" and "length out < 2147483648"
  using assms by (auto simp: vsnprintf_def output_chars_eq after_output_def Let_def bind_Some_iff split: if_splits)

text \<open>
  C40. Printing into a buffer: the result is the length of the whole output, whether it fits or not; the buffer gets the output up to the last place but one
  and a terminator, and no other byte changes. An output of more than \<open>2 ^ 31 - 1\<close> characters has no result: it overflows the
  \<^verbatim>\<open>int\<close> that counts it.
\<close>

theorem vsnprintf_truncates:
  assumes "vprintf m fmt args = Some out" and "0 < sz" and "unat sz \<le> 2147483648"
  shows "if length out < 2147483648
    then \<exists>m'. vsnprintf m buffer sz fmt args = Some (int (length out), m') \<and>
      (let k = min (length out) (unat sz - 1) in
         (\<forall>i<k. m' (buffer + i) = out ! i) \<and> m' (buffer + k) = 0 \<and> (\<forall>a. a < buffer \<or> buffer + k < a \<longrightarrow> m' a = m a))
    else vsnprintf m buffer sz fmt args = None"
proof -
  have "0 < unat sz" using assms(2) by (simp add: word_less_nat_alt)
  then show ?thesis unfolding vsnprintf_eq [OF assms] by (auto simp: Let_def)
qed

section \<open>Printing a number and reading it back\<close>

lemma parse_d: "parse_conversion [100] args = Some (\<lparr>flags = 0, width = 0, precision = - 1, ctype = T_INT\<rparr>, [100], args)"
  by (simp add: parse_conversion_def parse_width_def star_or_number_def parse_precision_def parse_type_def isdigit_def)

lemma d_format: "chars [CHR 0x25, CHR ''d''] = [37, 100]"
  by (simp add: chars_def)

lemma abs_word:
  fixes w :: u32
  defines "v \<equiv> scast w :: u64"
  shows "v <s 0 \<longleftrightarrow> sint w < 0" and "unat (if v <s 0 then - v else v) = nat \<bar>sint w\<bar>" and "v \<noteq> 0x8000000000000000"
proof -
  have r: "- (2 ^ 31) \<le> sint w" "sint w < 2 ^ 31" using sint_ge [of w] sint_lt [of w] by simp_all
  have s: "sint v = sint w" unfolding v_def using r by (simp add: sint_up_scast is_up)
  then show n: "v <s 0 \<longleftrightarrow> sint w < 0" by (simp add: word_sless_alt)
  have u: "uint v = sint w mod 2 ^ 64" using uint_sint [of v] by (simp add: s take_bit_eq_mod)
  show "v \<noteq> 0x8000000000000000"
  proof
    assume "v = 0x8000000000000000"
    then have "uint v = 9223372036854775808" by simp
    then have "sint w mod 18446744073709551616 = 9223372036854775808" using u by simp
    moreover have "sint w mod 18446744073709551616 \<in> {sint w, sint w + 18446744073709551616}"
    proof (cases "sint w < 0")
      case True
      have "sint w mod 18446744073709551616 = (sint w + 18446744073709551616) mod 18446744073709551616" by (rule mod_add_self2 [symmetric])
      also have "\<dots> = sint w + 18446744073709551616" using True r by (intro mod_pos_pos_trivial) simp_all
      finally show ?thesis by simp
    next
      case False
      then have "sint w mod 18446744073709551616 = sint w" using r by (intro mod_pos_pos_trivial) simp_all
      then show ?thesis by simp
    qed
    ultimately show False using r by auto
  qed
  show "unat (if v <s 0 then - v else v) = nat \<bar>sint w\<bar>"
  proof (cases "sint w < 0")
    case True
    have "uint (- v) = (- sint w) mod 2 ^ 64" unfolding uint_word_ariths(4) u by (simp add: mod_minus_eq)
    then show ?thesis using True n r by (simp add: unat_eq_nat_uint)
  next
    case False
    then show ?thesis using n r u by (simp add: unat_eq_nat_uint)
  qed
qed

lemma print_decimal:
  "\<exists>ds. vprintf m (chars [CHR 0x25, CHR ''d'']) [VA32 w] = Some ((if sint w < 0 then [45] else []) @ ds) \<and>
    (\<forall>d\<in>set ds. isdigit (uint d)) \<and> dec_value 0 ds = \<bar>sint w\<bar> \<and> ds \<noteq> []"
proof -
  define v where "v = (scast w :: u64)"
  define u where "u = (if v <s 0 then - v else v)"
  have v: "v <s 0 \<longleftrightarrow> sint w < 0" "unat u = nat \<bar>sint w\<bar>" "v \<noteq> 0x8000000000000000" using abs_word [of w] unfolding v_def u_def by blast+
  obtain ds where ds: "digit_buf base_d False (unat u) 0 [] = Some ds" "\<forall>d\<in>set ds. isdigit (uint d)" "dec_value 0 (rev ds) = int (unat u)"
    "ds = [] \<longleftrightarrow> unat u = 0" using digit_buf_decimal [of "unat u" 0 "[]"] by auto
  define c where "c = \<lparr>flags = 0, width = 0, precision = - 1, ctype = T_INT\<rparr>"
  define buf where "buf = (if ds = [] then [48] else ds)"
  have "pad_zeros 1 ds = buf" by (cases ds) (simp_all add: pad_zeros_eq buf_def)
  then have b: "integer_buf u base_d c = Some buf" using ds(1) by (simp add: integer_buf_def c_def Let_def)
  have f: "format_integer u True (v <s 0) base_d c = Some ((if sint w < 0 then [45] else []) @ rev buf)"
    using b v(1) by (simp add: format_integer_def output_dup_def c_def Let_def)
  have cv: "convert m 100 c [VA32 w] = Some ((if sint w < 0 then [45] else []) @ rev buf, [])"
    using f v(3) by (simp add: convert_def signed_arg_def c_def v_def [symmetric] u_def [symmetric])
  have "vprintf m [37, 100] [VA32 w] = Some ((if sint w < 0 then [45] else []) @ rev buf)"
    by (simp add: parse_d cv [unfolded c_def])
  moreover have "\<forall>d\<in>set (rev buf). isdigit (uint d)" using ds(2) by (simp add: buf_def isdigit_def)
  moreover have "dec_value 0 (rev buf) = \<bar>sint w\<bar>" using ds(3,4) v(2) by (auto simp: buf_def)
  moreover have "rev buf \<noteq> []" by (simp add: buf_def)
  ultimately show ?thesis unfolding d_format by blast
qed

text \<open>
  C13. A number printed into a buffer that is large enough is read back by \<^verbatim>\<open>atoi\<close>: every 32-bit number, the least one too.
\<close>

theorem print_then_atoi:
  assumes "vsnprintf m buffer sz (chars [CHR 0x25, CHR ''d'']) [VA32 w] = Some (n, m')" and "buffer \<noteq> 0"
    and "n < int (unat sz)" and "unat sz \<le> 2147483648"
  shows "atoi m' buffer = Some (sint w)"
proof -
  obtain ds where p: "vprintf m (chars [CHR 0x25, CHR ''d'']) [VA32 w] = Some ((if sint w < 0 then [45] else []) @ ds)"
    and ds: "\<forall>d\<in>set ds. isdigit (uint d)" "dec_value 0 ds = \<bar>sint w\<bar>" "ds \<noteq> []" using print_decimal by blast
  define sg :: "u8 list" where "sg = (if sint w < 0 then [45] else [])"
  define out where "out = sg @ ds"
  have o: "vprintf m (chars [CHR 0x25, CHR ''d'']) [VA32 w] = Some out" using p by (simp add: out_def sg_def)
  have "out \<noteq> []" using ds(3) by (simp add: out_def)
  note sd = vsnprintf_SomeD [OF assms(1) o]
  have pos: "0 < sz" using sd(1) assms(3) by (cases "sz = 0") (auto simp: word_gt_0)
  have e: "n = int (length out)" "m' = (\<lambda>x. let k = min (length out) (unat sz - 1) in
       if x \<in> {buffer..<buffer + k} then out ! (x - buffer) else if x = buffer + k then 0 else m x)"
    using assms(1) sd(2) unfolding vsnprintf_eq [OF o pos assms(4)] by simp_all
  have "length out < unat sz" using assms(3) unfolding e(1) by (simp only: of_nat_less_iff)
  then have k: "min (length out) (unat sz - 1) = length out" by simp
  have nz: "0 \<notin> set out" using ds(1) by (auto simp: out_def sg_def isdigit_def split: if_splits)
  have c: "cstr m' buffer (sg @ ds)"
    unfolding out_def [symmetric] cstr_def e(2) k Let_def using assms(2) nz by simp
  have r: "- (2 ^ 31) \<le> sint w" "sint w < 2 ^ 31" using sint_ge [of w] sint_lt [of w] by simp_all
  have "sg \<in> {[], [43], [45]}" by (simp add: sg_def)
  from atoi_spec [of m' buffer "[]" sg ds "[]", OF _ _ this ds(3,1)] c
  have "atoi m' buffer = (let v = (if sg = [45] then - dec_value 0 ds else dec_value 0 ds) in
    if - (2 ^ 31) \<le> v \<and> v < 2 ^ 31 then Some v else None)" by simp
  then show ?thesis using r ds(2) by (simp add: sg_def Let_def split: if_splits)
qed

theorem integer_buf_fits_witness:
  "\<exists>buf. integer_buf 0xffffffffffffffff base_o \<lparr>flags = 40, width = 0, precision = 90, ctype = T_INT\<rparr> = Some buf \<and> length buf \<le> 64"
  by (rule integer_buf_fits) simp

theorem vsnprintf_truncates_witness:
  "\<exists>m'. vsnprintf (\<lambda>_. 7) 100 3 [72, 101, 121] [] = Some (3, m') \<and> m' 100 = 72 \<and> m' 101 = 101 \<and> m' 102 = 0 \<and> m' 103 = 7"
proof -
  have "vprintf (\<lambda>_. 7) [72, 101, 121] [] = Some [72, 101, 121]" by simp
  from vsnprintf_truncates [OF this, of 3 100] obtain m' where m': "vsnprintf (\<lambda>_. 7) 100 3 [72, 101, 121] [] = Some (3, m')"
    "\<forall>i<2. m' (100 + i) = [72, 101, 121] ! i" "m' 102 = 0" "\<forall>a. a < 100 \<or> 102 < a \<longrightarrow> m' a = 7" by (auto simp: Let_def)
  have "m' 100 = 72" "m' 101 = 101" using m'(2) [THEN spec, of 0] m'(2) [THEN spec, of 1] by simp_all
  then show ?thesis using m' by auto
qed

theorem print_then_atoi_witness:
  "\<exists>m'. vsnprintf (\<lambda>_. 7) 100 20 (chars [CHR 0x25, CHR ''d'']) [VA32 (- 305)] = Some (4, m') \<and> atoi m' 100 = Some (- 305)"
proof -
  have "vprintf (\<lambda>_. 7) (chars [CHR 0x25, CHR ''d'']) [VA32 (- 305)] = Some [45, 51, 48, 53]"
  proof -
    have n: "(- 305 :: u64) <s 0" by (simp add: word_sless_alt)
    have b: "base base_d = 10" unfolding base_d_def integer_base.simps ..
    have "digit_buf base_d False 305 0 [] = Some [53, 48, 51]"
      by (simp add: digit_buf.simps b decimal_digits upt_rec)
    then have "integer_buf 305 base_d \<lparr>flags = 0, width = 0, precision = - 1, ctype = T_INT\<rparr> = Some [53, 48, 51]"
      by (simp add: integer_buf_def pad_zeros_eq)
    then have "convert m 100 \<lparr>flags = 0, width = 0, precision = - 1, ctype = T_INT\<rparr> [VA32 (- 305)] = Some ([45, 51, 48, 53], [])" for m
      by (simp add: convert_def signed_arg_def n format_integer_def output_dup_def)
    then show ?thesis unfolding d_format by (simp add: parse_d)
  qed
  then have "\<exists>m'. vsnprintf (\<lambda>_. 7) 100 20 (chars [CHR 0x25, CHR ''d'']) [VA32 (- 305)] = Some (4, m')"
    by (simp add: vsnprintf_eq)
  then obtain m' where m': "vsnprintf (\<lambda>_. 7) 100 20 (chars [CHR 0x25, CHR ''d'']) [VA32 (- 305)] = Some (4, m')" by blast
  then show ?thesis using print_then_atoi [OF m'] by simp
qed

end
