(* ===== verification/Ustar.thy ===== *)
theory Ustar
  imports Stdio_Props
begin

text \<open>
  Archive headers in the ustar format, \<^verbatim>\<open>lib/ustar.c\<close>. A C string is the list of its bytes before the terminator, a header in memory
  is the list of its 512 bytes, and \<open>header_bytes\<close> and \<open>header_of\<close> are the two views of it that the cast between \<^verbatim>\<open>char *\<close> and
  \<^verbatim>\<open>struct ustar_header *\<close> gives.
\<close>

unbundle bit_operations_syntax

section \<open>Headers\<close>

datatype ustar_type = USTAR_REGULAR | USTAR_DIRECTORY | USTAR_EOF

fun ustar_type_code :: "ustar_type \<Rightarrow> u8" where
  "ustar_type_code USTAR_REGULAR = 48"
| "ustar_type_code USTAR_DIRECTORY = 53"
| "ustar_type_code USTAR_EOF = 255"

definition USTAR_HEADER_SIZE :: nat where "USTAR_HEADER_SIZE = 512"

record ustar_header =
  name :: "u8 list"
  mode :: "u8 list"
  uid :: "u8 list"
  gid :: "u8 list"
  fsize :: "u8 list"
  mtime :: "u8 list"
  chksum :: "u8 list"
  typeflag :: u8
  linkname :: "u8 list"
  magic :: "u8 list"
  version :: "u8 list"
  uname :: "u8 list"
  gname :: "u8 list"
  devmajor :: "u8 list"
  devminor :: "u8 list"
  prefix :: "u8 list"
  padding :: "u8 list"

definition header_bytes :: "ustar_header \<Rightarrow> u8 list" where
  "header_bytes h = name h @ mode h @ uid h @ gid h @ fsize h @ mtime h @ chksum h @ [typeflag h] @ linkname h @ magic h @
     version h @ uname h @ gname h @ devmajor h @ devminor h @ prefix h @ padding h"

definition field :: "u8 list \<Rightarrow> nat \<Rightarrow> nat \<Rightarrow> u8 list" where
  "field b ofs n = take n (drop ofs b)"

definition header_of :: "u8 list \<Rightarrow> ustar_header" where
  "header_of b = \<lparr>name = field b 0 100, mode = field b 100 8, uid = field b 108 8, gid = field b 116 8, fsize = field b 124 12,
     mtime = field b 136 12, chksum = field b 148 8, typeflag = b ! 156, linkname = field b 157 100, magic = field b 257 6,
     version = field b 263 2, uname = field b 265 32, gname = field b 297 32, devmajor = field b 329 8, devminor = field b 337 8,
     prefix = field b 345 155, padding = field b 500 12\<rparr>"

text \<open>The loop over the bytes, with the 8 bytes of the checksum field, from the 148th on, taken as spaces.\<close>

definition calculate_chksum :: "u8 list \<Rightarrow> u32" where
  "calculate_chksum header =
     fold (\<lambda>i chksum. chksum + (if 148 \<le> i \<and> i < 148 + 8 then 32 else ucast (header ! i))) [0..<USTAR_HEADER_SIZE] 0"

section \<open>File names\<close>

definition antisocial :: "u8 list \<Rightarrow> bool" where
  "antisocial s \<longleftrightarrow> take 1 s = chars ''/'' \<or> take 2 s = chars ''./'' \<or> take 3 s = chars ''../''"

lemma antisocial_slash: "antisocial s \<Longrightarrow> 47 \<in> set s"
  by (cases s; cases "tl s"; cases "tl (tl s)") (auto simp: antisocial_def chars_def)

function strip_loop :: "u8 list \<Rightarrow> u8 list" where
  "strip_loop s = (if antisocial s then strip_loop (tl (dropWhile (\<lambda>c. c \<noteq> 47) s)) else s)"
  by pat_completeness auto
termination
proof (relation "measure length")
  fix s :: "u8 list"
  assume "antisocial s"
  then have "dropWhile (\<lambda>c. c \<noteq> 47) s \<noteq> []" using antisocial_slash by (fastforce simp: dropWhile_eq_Nil_conv)
  then have "length (tl (dropWhile (\<lambda>c. c \<noteq> 47) s)) < length (dropWhile (\<lambda>c. c \<noteq> 47) s)" by simp
  also have "\<dots> \<le> length s" by (rule length_dropWhile_le)
  finally show "(tl (dropWhile (\<lambda>c. c \<noteq> 47) s), s) \<in> measure length" by simp
qed simp

declare strip_loop.simps [simp del]

definition strip_antisocial_prefixes :: "u8 list \<Rightarrow> u8 list" where
  "strip_antisocial_prefixes file_name =
     (let s = strip_loop file_name in if s = [] \<or> s = chars ''..'' then chars ''.'' else s)"

section \<open>Composing a header\<close>

text \<open>\<^verbatim>\<open>strlcpy\<close> and \<^verbatim>\<open>snprintf\<close> into a field: the bytes after the terminator keep their values.\<close>

definition set_field :: "u8 list \<Rightarrow> u8 list \<Rightarrow> u8 list" where
  "set_field f s = (let t = take (length f - 1) s @ [0] in t @ drop (length t) f)"

definition print_field :: "u8 list \<Rightarrow> u8 list \<Rightarrow> va list \<Rightarrow> u8 list option" where
  "print_field f fmt args = map_option (set_field f) (vprintf (\<lambda>_. 0) fmt args)"

definition fmt_07o :: "u8 list" where "fmt_07o = [37, 48, 55, 111]"
definition fmt_011o :: "u8 list" where "fmt_011o = [37, 48, 49, 49, 111]"

definition ustar_make_header :: "u8 list \<Rightarrow> ustar_type \<Rightarrow> u32 \<Rightarrow> u8 list \<Rightarrow> (bool \<times> u8 list) option" where
  "ustar_make_header file_name type fsz header = do {
     ASSERT (type = USTAR_REGULAR \<or> type = USTAR_DIRECTORY);
     let file_name = strip_antisocial_prefixes file_name;
     if length file_name > 99 then Some (False, header)
     else do {
       let h = header_of (replicate USTAR_HEADER_SIZE 0);
       let h = h\<lparr>name := set_field (name h) file_name\<rparr>;
       md \<leftarrow> print_field (mode h) fmt_07o [VA32 (if type = USTAR_REGULAR then 420 else 493)];
       let h = h\<lparr>mode := md, uid := set_field (uid h) (chars ''0000000''), gid := set_field (gid h) (chars ''0000000'')\<rparr>;
       sz \<leftarrow> print_field (fsize h) fmt_011o [VA32 fsz];
       mt \<leftarrow> print_field (mtime h) fmt_011o [VA32 1136102400];
       let h = h\<lparr>fsize := sz, mtime := mt, typeflag := ustar_type_code type, magic := set_field (magic h) (chars ''ustar''),
         version := [48, 48], gname := set_field (gname h) (chars ''root''), uname := set_field (uname h) (chars ''root'')\<rparr>;
       ck \<leftarrow> print_field (chksum h) fmt_07o [VA32 (calculate_chksum (header_bytes h))];
       Some (True, header_bytes (h\<lparr>chksum := ck\<rparr>)) } }"

section \<open>Parsing a header\<close>

text \<open>\<open>None\<close> is the result false: an overflow, a bad character, an empty field, or a field without an end.\<close>

fun parse_octal_loop :: "u8 list \<Rightarrow> nat \<Rightarrow> u32 \<Rightarrow> u32 option" where
  "parse_octal_loop [] ofs v = None"
| "parse_octal_loop (c # s) ofs v =
     (if 48 \<le> c \<and> c \<le> 55
      then if v > 0xffffffff div 8 then None else parse_octal_loop s (ofs + 1) (ucast c - 48 + v * 8)
      else if c = 32 \<or> c = 0 then (if ofs > 0 then Some v else None)
      else None)"

definition parse_octal_field :: "u8 list \<Rightarrow> u32 option" where
  "parse_octal_field s = parse_octal_loop s 0 0"

fun is_all_zeros :: "u8 list \<Rightarrow> bool" where
  "is_all_zeros [] = True"
| "is_all_zeros (b # bs) = (if b \<noteq> 0 then False else is_all_zeros bs)"

text \<open>The result is an error message, or the name (none at the end of the archive), the type and the size.\<close>

definition ustar_parse_header :: "u8 list \<Rightarrow> string + (u8 list option \<times> ustar_type \<times> u32)" where
  "ustar_parse_header header =
     (let h = header_of header
      in if is_all_zeros header then Inr (None, USTAR_EOF, 0)
      else if magic h \<noteq> chars ''ustar'' @ [0] then Inl ''not a ustar archive''
      else if version h ! 0 \<noteq> 48 \<or> version h ! 1 \<noteq> 48 then Inl ''invalid ustar version''
      else case parse_octal_field (chksum h) of
        None \<Rightarrow> Inl ''corrupt chksum field''
      | Some ck \<Rightarrow>
          if ck \<noteq> calculate_chksum header then Inl ''checksum mismatch''
          else if name h ! 99 \<noteq> 0 \<or> prefix h ! 0 \<noteq> 0 then Inl ''file name too long''
          else if typeflag h = 48
          then (case parse_octal_field (fsize h) of
                  None \<Rightarrow> Inl ''corrupt file size field''
                | Some size_ul \<Rightarrow>
                    if size_ul > 0x7fffffff then Inl ''file too large''
                    else Inr (Some (strip_antisocial_prefixes (takeWhile (\<lambda>c. c \<noteq> 0) (name h))), USTAR_REGULAR, size_ul))
          else if typeflag h = 53
          then Inr (Some (strip_antisocial_prefixes (takeWhile (\<lambda>c. c \<noteq> 0) (name h))), USTAR_DIRECTORY, 0)
          else Inl ''unimplemented file type'')"

section \<open>The safety of file names\<close>

lemma strip_loop_social: "\<not> antisocial (strip_loop s)"
  by (induction s rule: strip_loop.induct) (subst strip_loop.simps, simp)

lemma strip_loop_id: "\<not> antisocial s \<Longrightarrow> strip_loop s = s"
  by (subst strip_loop.simps) simp

lemma strip_loop_suffix: "\<exists>p. s = p @ strip_loop s"
proof (induction s rule: strip_loop.induct)
  case (1 s)
  show ?case
  proof (cases "antisocial s")
    case True
    define d where "d = dropWhile (\<lambda>c. c \<noteq> 47) s"
    obtain p where p: "tl d = p @ strip_loop (tl d)" using 1 [OF True] unfolding d_def by blast
    have "d \<noteq> []" using antisocial_slash [OF True] by (fastforce simp: d_def dropWhile_eq_Nil_conv)
    have "s = takeWhile (\<lambda>c. c \<noteq> 47) s @ d" by (simp add: d_def)
    also have "\<dots> = (takeWhile (\<lambda>c. c \<noteq> 47) s @ [hd d]) @ tl d" using \<open>d \<noteq> []\<close> by simp
    also have "\<dots> = (takeWhile (\<lambda>c. c \<noteq> 47) s @ [hd d] @ p) @ strip_loop (tl d)" using p by simp
    finally have "s = (takeWhile (\<lambda>c. c \<noteq> 47) s @ [hd d] @ p) @ strip_loop s" using True strip_loop.simps [of s] by (simp add: d_def)
    then show ?thesis by blast
  qed (simp add: strip_loop_id)
qed

lemma strip_social:
  "\<not> antisocial (strip_antisocial_prefixes s)" "strip_antisocial_prefixes s \<noteq> []" "strip_antisocial_prefixes s \<noteq> chars ''..''"
proof -
  have "\<not> antisocial (chars ''.'')" by (simp add: antisocial_def chars_def)
  then show "\<not> antisocial (strip_antisocial_prefixes s)" using strip_loop_social [of s] by (simp add: strip_antisocial_prefixes_def Let_def)
  show "strip_antisocial_prefixes s \<noteq> []" "strip_antisocial_prefixes s \<noteq> chars ''..''"
    by (simp_all add: strip_antisocial_prefixes_def Let_def chars_def)
qed

lemma strip_idem: "strip_antisocial_prefixes (strip_antisocial_prefixes s) = strip_antisocial_prefixes s"
  using strip_social [of s] by (simp add: strip_antisocial_prefixes_def strip_loop_id)

lemma strip_set: "0 \<notin> set s \<Longrightarrow> 0 \<notin> set (strip_antisocial_prefixes s)"
  using strip_loop_suffix [of s] by (auto simp: strip_antisocial_prefixes_def Let_def chars_def) (metis Un_iff set_append)

section \<open>Octal numbers\<close>

fun oct_value :: "nat \<Rightarrow> u8 list \<Rightarrow> nat" where
  "oct_value v [] = v"
| "oct_value v (d # ds) = oct_value (8 * v + (unat d - 48)) ds"

definition octal :: "u8 list \<Rightarrow> bool" where
  "octal ds \<longleftrightarrow> (\<forall>d\<in>set ds. 48 \<le> d \<and> d \<le> 55)"

lemma oct_value_append: "oct_value v (ds @ es) = oct_value (oct_value v ds) es"
  by (induction ds arbitrary: v) simp_all

lemma oct_value_zeros: "oct_value 0 (replicate n 48 @ ds) = oct_value 0 ds"
  by (induction n) simp_all

lemma octal_simps [simp]: "octal []" "octal (d # ds) \<longleftrightarrow> 48 \<le> d \<and> d \<le> 55 \<and> octal ds" "octal (ds @ es) \<longleftrightarrow> octal ds \<and> octal es"
  "octal (rev ds) \<longleftrightarrow> octal ds" "octal (replicate n 48)"
  by (auto simp: octal_def)

lemma oct_value_ge: "v \<le> oct_value v ds"
proof (induction ds arbitrary: v)
  case (Cons d ds)
  have "v \<le> 8 * v + (unat d - 48)" by simp
  also have "\<dots> \<le> oct_value (8 * v + (unat d - 48)) ds" by (rule Cons.IH)
  finally show ?case by simp
qed simp

lemma octal_digit: "k < 8 \<Longrightarrow> digits base_o ! k = of_nat (48 + k)"
proof -
  assume "k < 8"
  moreover have "digits base_o = map (\<lambda>k. of_nat (48 + k)) [0..<8]"
  proof -
    have "digits base_o = chars ''01234567''" unfolding base_o_def integer_base.simps ..
    also have "\<dots> = [48, 49, 50, 51, 52, 53, 54, 55]" unfolding chars_def by simp
    also have "\<dots> = map (\<lambda>k. of_nat (48 + k)) [0..<8]" by (simp add: upt_rec)
    finally show ?thesis .
  qed
  ultimately show ?thesis by simp
qed

lemma digit_buf_octal:
  "v < 8 ^ k \<Longrightarrow> \<exists>ds. digit_buf base_o False v n buf = Some (buf @ ds) \<and> octal ds \<and> oct_value 0 (rev ds) = v \<and> length ds \<le> k"
proof (induction k arbitrary: v n buf)
  case 0
  then show ?case by (simp add: digit_buf.simps)
next
  case (Suc k)
  show ?case
  proof (cases "v = 0")
    case True
    then show ?thesis by (simp add: digit_buf.simps)
  next
    case False
    define d where "d = digits base_o ! (v mod 8)"
    have "v mod 8 < 8" by simp
    then have "d = of_nat (48 + v mod 8)" unfolding d_def by (rule octal_digit)
    then have d: "unat d = 48 + v mod 8" by (simp only: unat_of_nat) simp
    then have o: "48 \<le> d" "d \<le> 55" by (simp_all add: word_le_nat_alt)
    have "v div 8 < 8 ^ k" using Suc.prems by (simp add: less_mult_imp_div_less)
    from Suc.IH [OF this, of "n + 1" "buf @ [d]"] obtain ds where ds: "digit_buf base_o False (v div 8) (n + 1) (buf @ [d]) = Some ((buf @ [d]) @ ds)"
      "octal ds" "oct_value 0 (rev ds) = v div 8" "length ds \<le> k" by blast
    have "digit_buf base_o False v n buf = digit_buf base_o False (v div 8) (n + 1) (buf @ [d])"
      using False digit_buf.simps [of base_o False v n buf] by (simp add: d_def base_o_def)
    moreover have "oct_value 0 (rev (d # ds)) = v" using ds(3) d by (simp add: oct_value_append)
    ultimately show ?thesis using ds o by (intro exI [of _ "d # ds"]) simp
  qed
qed

text \<open>A number printed with leading zeros in a field that has room for it, and read back.\<close>

lemma format_octal:
  assumes "unat v < 8 ^ k" and "0 < k" and "k \<le> 22"
  shows "\<exists>ds. format_integer v False False base_o \<lparr>flags = ZERO, width = int k, precision = - 1, ctype = T_INT\<rparr> = Some ds \<and>
    octal ds \<and> length ds = k \<and> oct_value 0 ds = unat v"
proof -
  let ?c = "\<lparr>flags = ZERO, width = int k, precision = - 1, ctype = T_INT\<rparr>"
  obtain ds where ds: "digit_buf base_o False (unat v) 0 [] = Some ds" "octal ds" "oct_value 0 (rev ds) = unat v" "length ds \<le> k"
    using digit_buf_octal [OF assms(1), of 0 "[]"] by auto
  define buf where "buf = pad_zeros 1 ds"
  have p: "buf = (if ds = [] then [48] else ds)" by (cases ds) (simp_all add: buf_def pad_zeros_eq)
  have fl: "ZERO AND GROUP = 0" "ZERO AND POUND = 0" "ZERO AND (MINUS OR ZERO) \<noteq> 0" "ZERO AND MINUS = 0" "ZERO \<noteq> 0"
    by (simp_all add: flag_defs)
  have "integer_buf v base_o ?c = Some buf"
    using ds(1) by (simp add: integer_buf_def fl Let_def buf_def)
  then have "format_integer v False False base_o ?c = Some (output_dup 48 (int k - int (length buf)) @ rev buf)"
    using p assms(2) ds(4) by (simp add: format_integer_def fl Let_def max_def output_dup_def)
  moreover have "length buf \<le> k" using p ds(4) assms(2) by simp
  moreover have "octal (rev buf)" "oct_value 0 (rev buf) = unat v" using ds(2,3) p by auto
  ultimately show ?thesis
    by (intro exI [of _ "output_dup 48 (int k - int (length buf)) @ rev buf"]) (simp add: output_dup_def oct_value_zeros)
qed

lemma print_octal:
  "unat v < 8 ^ 7 \<Longrightarrow> \<exists>ds. vprintf m fmt_07o [VA32 v] = Some ds \<and> octal ds \<and> length ds = 7 \<and> oct_value 0 ds = unat v"
  "\<exists>ds. vprintf m fmt_011o [VA32 v] = Some ds \<and> octal ds \<and> length ds = 11 \<and> oct_value 0 ds = unat v"
proof -
  have p7: "parse_conversion [48, 55, 111] args = Some (\<lparr>flags = ZERO, width = 7, precision = - 1, ctype = T_INT\<rparr>, [111], args)"
    and p11: "parse_conversion [48, 49, 49, 111] args = Some (\<lparr>flags = ZERO, width = 11, precision = - 1, ctype = T_INT\<rparr>, [111], args)" for args
    by (simp_all add: parse_conversion_def parse_width_def star_or_number_def parse_precision_def parse_type_def isdigit_def flag_defs in_int_def)
  have cv: "convert m 111 c [VA32 v] = map_option (\<lambda>out. (out, [])) (format_integer (ucast v) False False base_o c)" if "ctype c = T_INT" for c
    using that by (simp add: convert_def unsigned_arg_def) (cases "format_integer (ucast v) False False base_o c"; simp)
  have u: "unat (ucast v :: u64) = unat v" using unat_less_2p32 [of v] by (simp add: unsigned_ucast_eq take_bit_nat_eq_self)
  show "\<exists>ds. vprintf m fmt_07o [VA32 v] = Some ds \<and> octal ds \<and> length ds = 7 \<and> oct_value 0 ds = unat v" if "unat v < 8 ^ 7"
    using format_octal [of "ucast v" 7] that by (auto simp: fmt_07o_def p7 cv u)
  have "unat v < 8 ^ 11" using unat_less_2p32 [of v] by simp
  then show "\<exists>ds. vprintf m fmt_011o [VA32 v] = Some ds \<and> octal ds \<and> length ds = 11 \<and> oct_value 0 ds = unat v"
    using format_octal [of "ucast v" 11] by (auto simp: fmt_011o_def p11 cv u)
qed

lemma parse_octal:
  assumes "octal ds" and "0 < ofs \<or> ds \<noteq> []" and "oct_value (unat v) ds < 4294967296"
  shows "parse_octal_loop (ds @ 0 # r) ofs v = Some (of_nat (oct_value (unat v) ds))"
  using assms
proof (induction ds arbitrary: ofs v)
  case Nil
  then show ?case by simp
next
  case (Cons d ds)
  have dl: "48 \<le> unat d" "unat d \<le> 55" using Cons.prems(1) by (simp_all add: word_le_nat_alt)
  have b: "8 * unat v + (unat d - 48) < 4294967296"
    using oct_value_ge [of "8 * unat v + (unat d - 48)" ds] Cons.prems(3) by simp
  define w where "w = ucast d - 48 + v * 8"
  have w: "w = of_nat (8 * unat v + (unat d - 48))"
  proof -
    have "(ucast d :: u32) = of_nat (unat d)" by simp
    then show ?thesis using dl(1) by (simp add: w_def of_nat_diff mult.commute)
  qed
  have uw: "unat w = 8 * unat v + (unat d - 48)" unfolding w unat_of_nat using b by simp
  have "\<not> v > 0xffffffff div 8" using b by (simp add: word_less_nat_alt not_less)
  then have "parse_octal_loop ((d # ds) @ 0 # r) ofs v = parse_octal_loop (ds @ 0 # r) (ofs + 1) w"
    using Cons.prems(1) by (simp add: w_def)
  also have "\<dots> = Some (of_nat (oct_value (unat w) ds))"
    using Cons.prems uw by (intro Cons.IH) simp_all
  finally show ?case using uw by simp
qed

section \<open>The two views of a header\<close>

definition sized :: "ustar_header \<Rightarrow> bool" where
  "sized h \<longleftrightarrow> length (name h) = 100 \<and> length (mode h) = 8 \<and> length (uid h) = 8 \<and> length (gid h) = 8 \<and> length (fsize h) = 12 \<and>
     length (mtime h) = 12 \<and> length (chksum h) = 8 \<and> length (linkname h) = 100 \<and> length (magic h) = 6 \<and> length (version h) = 2 \<and>
     length (uname h) = 32 \<and> length (gname h) = 32 \<and> length (devmajor h) = 8 \<and> length (devminor h) = 8 \<and> length (prefix h) = 155 \<and>
     length (padding h) = 12"

lemma header_of_bytes: "sized h \<Longrightarrow> header_of (header_bytes h) = h"
  by (cases h) (simp add: sized_def header_of_def header_bytes_def field_def nth_append)

lemma sized_header_of: "length b = 512 \<Longrightarrow> sized (header_of b)"
  by (simp add: sized_def header_of_def field_def)

lemma set_field_length: "0 < length f \<Longrightarrow> length (set_field f s) = length f"
  by (cases f; cases "length s \<le> length f - 1") (auto simp: set_field_def Let_def)

lemma set_field_short: "length s < length f \<Longrightarrow> set_field f s = s @ 0 # drop (length s + 1) f"
  by (simp add: set_field_def Let_def)

lemma chksum_other:
  assumes "sized h" and "length c = 8"
  shows "calculate_chksum (header_bytes (h\<lparr>chksum := c\<rparr>)) = calculate_chksum (header_bytes h)"
proof -
  have "header_bytes (h\<lparr>chksum := c\<rparr>) ! i = header_bytes h ! i" if "\<not> (148 \<le> i \<and> i < 148 + 8)" for i
  proof -
    define A where "A = name h @ mode h @ uid h @ gid h @ fsize h @ mtime h"
    define B where "B = [typeflag h] @ linkname h @ magic h @ version h @ uname h @ gname h @ devmajor h @ devminor h @ prefix h @ padding h"
    have "header_bytes (h\<lparr>chksum := c\<rparr>) = A @ c @ B" "header_bytes h = A @ chksum h @ B" by (simp_all add: header_bytes_def A_def B_def)
    moreover have "length A = 148" "length (chksum h) = 8" using assms(1) by (simp_all add: sized_def A_def)
    moreover have "i < 148 \<or> 156 \<le> i" using that by linarith
    ultimately show ?thesis using assms(2) by (auto simp: nth_append)
  qed
  then show ?thesis unfolding calculate_chksum_def by (intro fold_cong) auto
qed

lemma chksum_bound: "unat (calculate_chksum b) < 8 ^ 7"
proof -
  have "unat (fold (\<lambda>i s. s + (if 148 \<le> i \<and> i < 148 + 8 then 32 else ucast (b ! i))) xs a) \<le> unat a + 255 * length xs"
    if "unat a + 255 * length xs < 4294967296" for xs and a :: u32
    using that
  proof (induction xs arbitrary: a)
    case (Cons x xs)
    define w :: u32 where "w = (if 148 \<le> x \<and> x < 148 + 8 then 32 else ucast (b ! x))"
    have "unat (ucast (b ! x) :: u32) = unat (b ! x)"
    proof -
      have "unat (b ! x) < 2 ^ 8" using unsigned_less [of "b ! x"] by simp
      then show ?thesis by (simp add: unsigned_ucast_eq take_bit_nat_eq_self)
    qed
    moreover have "unat (b ! x) < 2 ^ 8" using unsigned_less [of "b ! x"] by simp
    ultimately have w: "unat w \<le> 255" by (simp add: w_def)
    then have s: "unat (a + w) = unat a + unat w" using Cons.prems by (intro unat_add_lem [THEN iffD1]) simp
    have "unat (fold (\<lambda>i s. s + (if 148 \<le> i \<and> i < 148 + 8 then 32 else ucast (b ! i))) xs (a + w)) \<le> unat (a + w) + 255 * length xs"
      using Cons.prems s w by (intro Cons.IH) simp
    then show ?case using s w by (simp add: w_def)
  qed simp
  from this [of 0 "[0..<512]"] show ?thesis by (simp add: calculate_chksum_def USTAR_HEADER_SIZE_def)
qed

section \<open>A header that is composed and parsed\<close>

lemma print_field_octal:
  "length f = 8 \<Longrightarrow> unat v < 8 ^ 7 \<Longrightarrow> \<exists>s. print_field f fmt_07o [VA32 v] = Some s \<and> length s = 8 \<and> parse_octal_field s = Some v"
  "length f = 12 \<Longrightarrow> \<exists>s. print_field f fmt_011o [VA32 v] = Some s \<and> length s = 12 \<and> parse_octal_field s = Some v"
proof -
  have p: "parse_octal_field (ds @ 0 # r) = Some v" if "octal ds" "ds \<noteq> []" "oct_value 0 ds = unat v" for ds r
    using parse_octal [OF that(1), of 0 0 r] that unat_less_2p32 [of v] by (simp add: parse_octal_field_def)
  show "\<exists>s. print_field f fmt_07o [VA32 v] = Some s \<and> length s = 8 \<and> parse_octal_field s = Some v" if l: "length f = 8" and v: "unat v < 8 ^ 7"
  proof -
    obtain ds where ds: "vprintf (\<lambda>_. 0) fmt_07o [VA32 v] = Some ds" "octal ds" "length ds = 7" "oct_value 0 ds = unat v"
      using print_octal(1) [OF v] by blast
    moreover have "ds \<noteq> []" using ds(3) by auto
    ultimately show ?thesis using l p [of ds "drop 8 f"] set_field_length [of f ds] by (auto simp: print_field_def set_field_short)
  qed
  show "\<exists>s. print_field f fmt_011o [VA32 v] = Some s \<and> length s = 12 \<and> parse_octal_field s = Some v" if l: "length f = 12"
  proof -
    obtain ds where ds: "vprintf (\<lambda>_. 0) fmt_011o [VA32 v] = Some ds" "octal ds" "length ds = 11" "oct_value 0 ds = unat v"
      using print_octal(2) [of "\<lambda>_. 0" v] by blast
    moreover have "ds \<noteq> []" using ds(3) by auto
    ultimately show ?thesis using l p [of ds "drop 12 f"] set_field_length [of f ds] by (auto simp: print_field_def set_field_short)
  qed
qed

lemma not_all_zeros: "b ! i \<noteq> 0 \<Longrightarrow> i < length b \<Longrightarrow> \<not> is_all_zeros b"
proof (induction b arbitrary: i)
  case (Cons x b)
  then show ?case by (cases i) auto
qed simp

text \<open>A header that says what the parser wants to see.\<close>

lemma parse_wellformed:
  assumes "sized h" and "magic h = chars ''ustar'' @ [0]" and "version h = [48, 48]"
    and "parse_octal_field (chksum h) = Some (calculate_chksum (header_bytes h))" and "name h ! 99 = 0" and "prefix h ! 0 = 0"
    and "typeflag h = ustar_type_code type" and "type = USTAR_REGULAR \<or> type = USTAR_DIRECTORY"
    and "type = USTAR_REGULAR \<longrightarrow> parse_octal_field (fsize h) = Some fsz \<and> fsz \<le> 0x7fffffff"
  shows "ustar_parse_header (header_bytes h) =
    Inr (Some (strip_antisocial_prefixes (takeWhile (\<lambda>c. c \<noteq> 0) (name h))), type, if type = USTAR_REGULAR then fsz else 0)"
proof -
  have len: "length (header_bytes h) = 512" using assms(1) by (simp add: sized_def header_bytes_def)
  have "header_bytes h ! 156 = typeflag h"
    using header_of_bytes [OF assms(1)] by (metis header_of_def ustar_header.select_convs(8))
  moreover have "typeflag h \<noteq> 0" using assms(7,8) by auto
  ultimately have "\<not> is_all_zeros (header_bytes h)" using len by (intro not_all_zeros [of _ 156]) simp_all
  then show ?thesis using assms by (auto simp: ustar_parse_header_def header_of_bytes not_less)
qed

text \<open>
  A header composed for a file or directory is parsed as that: the name without the prefixes that would lead out of the directory, the type and
  the size of a regular file. Composing fails exactly for a stripped name of more than 99 bytes.
\<close>

lemma ustar_round_trip:
  assumes "0 \<notin> set file_name" and "type = USTAR_REGULAR \<or> type = USTAR_DIRECTORY" and "fsz \<le> 0x7fffffff"
  shows "\<exists>ok h. ustar_make_header file_name type fsz header = Some (ok, h) \<and> (ok \<longleftrightarrow> length (strip_antisocial_prefixes file_name) \<le> 99) \<and>
    (if ok then length h = 512 \<and> ustar_parse_header h =
       Inr (Some (strip_antisocial_prefixes file_name), type, if type = USTAR_REGULAR then fsz else 0)
     else h = header)"
proof (cases "length (strip_antisocial_prefixes file_name) \<le> 99")
  case False
  then have "ustar_make_header file_name type fsz header = Some (False, header)"
    using assms(2) by (auto simp: ustar_make_header_def Let_def)
  then show ?thesis using False by (intro exI [of _ False] exI [of _ header]) simp
next
  case True
  define s where "s = strip_antisocial_prefixes file_name"
  have s: "0 \<notin> set s" "length s \<le> 99" "strip_antisocial_prefixes s = s" using strip_set [OF assms(1)] True strip_idem by (simp_all add: s_def)
  define z where "z = header_of (replicate 512 0)"
  have z: "sized z" unfolding z_def by (rule sized_header_of) simp
  have zz: "name z = replicate 100 0" "magic z = replicate 6 0" "prefix z = replicate 155 0" by (simp_all add: z_def header_of_def field_def)
  have zl: "length (mode z) = 8" "length (fsize z) = 12" "length (mtime z) = 12" "length (chksum z) = 8" "length (uid z) = 8" "length (gid z) = 8"
    "length (gname z) = 32" "length (uname z) = 32" using z by (simp_all add: sized_def)
  have "unat (if type = USTAR_REGULAR then 420 else 493 :: u32) < 8 ^ 7" by simp
  from print_field_octal(1) [OF zl(1) this] obtain md where
    md: "print_field (mode z) fmt_07o [VA32 (if type = USTAR_REGULAR then 420 else 493)] = Some md" "length md = 8" by blast
  from print_field_octal(2) [OF zl(2), of fsz] obtain fs where
    fs: "print_field (fsize z) fmt_011o [VA32 fsz] = Some fs" "length fs = 12" "parse_octal_field fs = Some fsz" by blast
  from print_field_octal(2) [OF zl(3), of 1136102400] obtain mt where
    mt: "print_field (mtime z) fmt_011o [VA32 1136102400] = Some mt" "length mt = 12" by blast
  define h where "h = z\<lparr>name := set_field (name z) s, mode := md, uid := set_field (uid z) (chars ''0000000''), gid := set_field (gid z) (chars ''0000000''),
    fsize := fs, mtime := mt, typeflag := ustar_type_code type, magic := set_field (magic z) (chars ''ustar''),
    version := [48, 48], gname := set_field (gname z) (chars ''root''), uname := set_field (uname z) (chars ''root'')\<rparr>"
  from print_field_octal(1) [OF zl(4) chksum_bound, of "header_bytes h"] obtain ck where
    ck: "print_field (chksum z) fmt_07o [VA32 (calculate_chksum (header_bytes h))] = Some ck" "length ck = 8"
      "parse_octal_field ck = Some (calculate_chksum (header_bytes h))" by blast
  have sz: "sized h" using z md(2) fs(2) mt(2) by (simp add: h_def sized_def set_field_length)
  let ?h = "h\<lparr>chksum := ck\<rparr>"
  have szk: "sized ?h" using sz ck(2) by (simp add: sized_def)
  have run: "ustar_make_header file_name type fsz header = Some (True, header_bytes ?h)"
    using assms(2) True md(1) fs(1) mt(1) ck(1)
    by (simp add: ustar_make_header_def USTAR_HEADER_SIZE_def z_def [symmetric] s_def [symmetric] Let_def) (simp add: h_def)
  have nm: "name ?h = s @ 0 # replicate (99 - length s) 0" using s(2) by (simp add: h_def zz set_field_short)
  have "ustar_parse_header (header_bytes ?h) =
      Inr (Some (strip_antisocial_prefixes (takeWhile (\<lambda>c. c \<noteq> 0) (name ?h))), type, if type = USTAR_REGULAR then fsz else 0)"
  proof (rule parse_wellformed [OF szk])
    show "magic ?h = chars ''ustar'' @ [0]" by (simp add: h_def zz set_field_short chars_def)
    show "parse_octal_field (chksum ?h) = Some (calculate_chksum (header_bytes ?h))" using ck(3) chksum_other [OF sz ck(2)] by simp
    show "name ?h ! 99 = 0" unfolding nm using s(2) by (simp add: nth_append nth_Cons')
    show "prefix ?h ! 0 = 0" by (simp add: h_def zz)
    show "type = USTAR_REGULAR \<longrightarrow> parse_octal_field (fsize ?h) = Some fsz \<and> fsz \<le> 0x7fffffff" using fs(3) assms(3) by (simp add: h_def)
  qed (use assms(2) in \<open>simp_all add: h_def\<close>)
  moreover have "takeWhile (\<lambda>c. c \<noteq> 0) (name ?h) = s" unfolding nm using s(1) by (subst takeWhile_append2) auto
  moreover have "length (header_bytes ?h) = 512" using szk by (simp add: sized_def header_bytes_def)
  ultimately show ?thesis using run s True by (intro exI [of _ True] exI [of _ "header_bytes ?h"]) (simp add: s_def [symmetric])
qed

end
