(* ===== verification/Spec2Isabelle.thy ===== *)
theory Spec2Isabelle
  imports Bitmap Arith64 Kernel_List List_Sort Kernel_Hash Kernel_String Kernel_Stdlib Pagedir Vm Vm_Paging Vm_Props
    Inode Inode_Props Directory Directory_Props Threads Threads_Props Threads_Locks Arg_Stack Process Process_Props
    Syscall Syscall_Props Palloc Malloc Malloc_Props
    Stdio Stdio_Props
    Ustar
begin

text \<open>
  A verification library for the Pintos kernel under \<^verbatim>\<open>src/pintos-project3-vm/pintos/src\<close>: its library of
  data structures, its file system, its virtual memory, its threads, and the processes and system calls built on them.
  File names below are relative to that directory. The model is a shallow embedding: each C function is a
  HOL function of the same name on an explicit state, C integers are words of their width (\<open>u32\<close>, \<open>u8\<close>) or integers
  where the code asserts that they do not wrap, and every failed \<^verbatim>\<open>ASSERT\<close>, panic and use of a null or
  dangling pointer is \<open>None\<close>.

  \<^bold>\<open>The parts and how they interact\<close>

  System calls (\<^verbatim>\<open>userprog/syscall.c\<close>) run on the file system and the virtual memory of the calling process. The
  loader (\<^verbatim>\<open>userprog/process.c\<close>) reads an executable through the file system and makes one page object for
  each of its pages. Virtual memory keeps its page objects in a hash table, its swap slots in a bitmap, and the frames of present
  pages in page directories. The file system keeps its free sectors in a bitmap that is itself a file, and directories are files.
  Threads are scheduled through semaphores, on which locks, condition variables and the life cycle of processes rest.

  \<^bold>\<open>Theories\<close>

  \<^item> \<open>Kernel_Prelude\<close>: word types, \<^verbatim>\<open>ASSERT\<close> (\<^verbatim>\<open>lib/debug.h\<close>), rounding (\<^verbatim>\<open>lib/round.h\<close>), little-endian words,
    \<open>overlay\<close>, and the list lemmas the other theories share.
  \<^item> \<open>Bitmap\<close>: \<^verbatim>\<open>lib/kernel/bitmap.c\<close>. A bitmap is its size and its array of 32-bit elements. The locale \<open>slot_allocator\<close>
    states what its users rely on (a slot that is handed out was free, stays in use until it is released, and no other slot changes);
    \<open>bm\<close> interprets it for the scan and flip of the bitmap. Swap slots and free sectors use it.
  \<^item> \<open>Arith64\<close>: \<^verbatim>\<open>lib/arithmetic.c\<close>, 64-bit division from a 32-bit divide instruction that traps on overflow.
  \<^item> \<open>Kernel_List\<close>, \<open>List_Sort\<close>: \<^verbatim>\<open>lib/kernel/list.c\<close> on a heap of nodes with \<^verbatim>\<open>prev\<close> and \<^verbatim>\<open>next\<close>. The locales \<open>less_func\<close> and
    \<open>ptr_less\<close> are the contract of the comparison a client passes; the order of the internal list test interprets them.
  \<^item> \<open>Kernel_Hash\<close>: \<^verbatim>\<open>lib/kernel/hash.c\<close>. The locale \<open>hash_funcs\<close> extends \<open>less_func\<close> by the law that equal elements have the same hash;
    in it a table refines a finite map. \<open>Vm\<close> interprets it for the table of pages.
  \<^item> \<open>Kernel_String\<close>, \<open>Kernel_Stdlib\<close>: \<^verbatim>\<open>lib/string.c\<close> on a memory of bytes, \<^verbatim>\<open>lib/ctype.h\<close> and \<^verbatim>\<open>lib/stdlib.c\<close>; the locale
    \<open>compare_func\<close> is the contract of the comparison of \<^verbatim>\<open>qsort\<close> and \<^verbatim>\<open>bsearch\<close>.
  \<^item> \<open>Stdio\<close>, \<open>Stdio_Props\<close>: \<^verbatim>\<open>lib/stdio.c\<close>; a routine that prints is the list of characters that it passes to its callback.
  \<^item> \<open>Ustar\<close>: \<^verbatim>\<open>lib/ustar.c\<close>: archive headers as the 512 bytes of their fields; a header that is composed is parsed back.
  \<^item> \<open>Pagedir\<close>: \<^verbatim>\<open>threads/vaddr.h\<close>, \<^verbatim>\<open>threads/pte.h\<close>, \<^verbatim>\<open>userprog/pagedir.c\<close>: two-level page tables in a memory of words.
  \<^item> \<open>Vm\<close>, \<open>Vm_Paging\<close>, \<open>Vm_Props\<close>: \<^verbatim>\<open>vm/frame.c\<close>, \<^verbatim>\<open>vm/swap.c\<close>, \<^verbatim>\<open>vm/page.c\<close>. \<open>Vm_Paging\<close> has the invariant that relates frames, pages,
    swap slots and page table entries, and the abstraction to the bytes of each page.
  \<^item> \<open>Inode\<close>, \<open>Inode_Props\<close>: \<^verbatim>\<open>devices/block.c\<close>, \<^verbatim>\<open>filesys/inode.c\<close>, \<^verbatim>\<open>filesys/file.c\<close>, \<^verbatim>\<open>filesys/free-map.c\<close>.
  \<^item> \<open>Directory\<close>, \<open>Directory_Props\<close>: \<^verbatim>\<open>filesys/directory.c\<close>, \<^verbatim>\<open>filesys/filesys.c\<close>; a directory refines a map from names to sectors.
  \<^item> \<open>Threads\<close>: \<^verbatim>\<open>threads/thread.c\<close>, \<^verbatim>\<open>threads/synch.c\<close>, \<^verbatim>\<open>threads/interrupt.c\<close>, \<^verbatim>\<open>devices/timer.c\<close> and the life cycle in
    \<^verbatim>\<open>userprog/process.c\<close>. A thread has a program, a list of operations that no interrupt divides; \<open>kstep\<close> runs one operation of
    the running thread or a timer interrupt, and \<open>reachable\<close> is its closure from the state after start-up.
  \<^item> \<open>Threads_Props\<close>, \<open>Threads_Locks\<close>: invariants of \<open>reachable\<close> by rule induction: the queues of the scheduler, and the owners of locks.
  \<^item> \<open>Palloc\<close>: \<^verbatim>\<open>threads/palloc.c\<close>, the two pools of pages, each on a bitmap.
  \<^item> \<open>Malloc\<close>, \<open>Malloc_Props\<close>: \<^verbatim>\<open>threads/malloc.c\<close>, blocks of seven sizes in arenas of one page and big blocks of whole pages. The locale
    \<open>allocator\<close> is the contract of a heap (a new block overlaps none that is held); \<open>hp\<close> interprets it for \<^verbatim>\<open>malloc\<close> and \<^verbatim>\<open>free\<close>.
  \<^item> \<open>Arg_Stack\<close>: the words and strings that \<^verbatim>\<open>parse_cmdline\<close> leaves on the stack page of a new process.
  \<^item> \<open>Process\<close>, \<open>Process_Props\<close>: the ELF loader, and what memory a loaded segment has.
  \<^item> \<open>Syscall\<close>, \<open>Syscall_Props\<close>: the system call handler and the page fault handler, and the table of descriptors and mappings.

  \<^bold>\<open>What the lemmas show\<close>

  Each data structure refines a mathematical one: the hash table and the directory a map, the page directory a map from pages to frames, the
  pointer list the list of its elements, the swap area and the free map a set of slots. Reading and writing a file are slicing and overlaying its
  bytes; eviction and page-in change the bytes of no page, except that a modified shared page of a file keeps only what lies in the file
  (where no other page overlaps it, and it lies inside the file, as \<^verbatim>\<open>memory_map\<close> makes it). In every reachable state of the kernel one thread runs, the ready list is
  the set of ready threads, and a lock has one owner. Every system call keeps the table of descriptors
  well formed. Some theorems show where the code falls short: a memory leak of swap slots, a write lost by a failed eviction, a remainder cut to its
  low half, system calls that end the process whatever they are given.

  \<^bold>\<open>Bounds, loops and parameters\<close>

  Loops are structural recursion on what is left to do, or functions with a measure. A loop that may run for ever (\<^verbatim>\<open>strlen\<close> on bytes with no
  terminator, the scheduler's waits, the loops over user buffers) is a \<open>partial_function\<close> with the value \<open>None\<close>, or takes
  one step of \<open>kstep\<close> at a time. The clock of the frame table and the attempts of \<^verbatim>\<open>frame_allocate\<close> are the code's own bounds.

  What the allocators return is an argument (\<open>vm_env\<close>, \<open>load_env\<close>, \<open>sys_env\<close>, the field \<open>mem_ok\<close> of the file system), so that each failure is
  a branch. The bytes of the files that pages come from are the field \<open>vm_files\<close> of the virtual memory, by file number; theorems about both the file system and
  the virtual memory take them as given. The theorems on hash tables, lists and sorting hold for any comparison with the laws of the locale.

  \<^bold>\<open>Not modelled\<close>

  The virtual memory, the file system and the system calls run without interleaving; interleaving is the subject of \<open>Threads\<close>, whose
  threads do not touch memory or files (a new process either loads or does not). Boot code, descriptor tables, interrupt controller and device drivers
  are hardware protocols. Console output is kept only where a system call writes it. The user library, examples and tests run outside the
  kernel. The earlier copy of the kernel under \<^verbatim>\<open>src/pintos-project2-userprog\<close> shares most files with this one, and the Java programs of
  the repository are separate.
\<close>

end
